(* ===== verification/Th8_Prelude.thy ===== *)
theory Th8_Prelude
  imports Main "HOL-Library.Word" "HOL-Library.Multiset"
begin

text \<open>
  Shared vocabulary of the development: the C types the sources use (\<open>size_t\<close> words, signed
  \<open>char\<close> promotion, integer return codes), results with an error message, and the generic
  lemmas on lists and characters that the component theories rely on.

  \<^item> A C byte buffer with an explicit length (\<open>const char *z, size_t n\<close>) is a \<^typ>\<open>string\<close>; its
    length is \<open>n\<close>, so embedded NUL bytes are ordinary characters, as in the code.
  \<^item> A return code is an \<^typ>\<open>int\<close> (scripts may return any integer through \<open>return -code\<close>), with the
    names of \<open>src/src/th8.h\<close> lines 2148 to 2156.
  \<^item> A fallible operation that reports an interpreter message returns \<open>string + 'a\<close>: \<open>Inl\<close> carries
    the message prefix that the code passes to \<open>Th8_ErrorMessage\<close> or \<open>Th8_SetResult\<close>.
\<close>

unbundle bit_operations_syntax

section \<open>C vocabulary\<close>

named_theorems th8_class
  "membership characterisations of the character classes"

named_theorems th8_bound
  "length and range bounds of the scanners and codecs"

type_synonym size_t = "64 word"

type_synonym 'a res = "string + 'a"

abbreviation TH8_OK :: int where "TH8_OK \<equiv> 0"
abbreviation TH8_ERROR :: int where "TH8_ERROR \<equiv> 1"
abbreviation TH8_RETURN :: int where "TH8_RETURN \<equiv> 2"
abbreviation TH8_BREAK :: int where "TH8_BREAK \<equiv> 3"
abbreviation TH8_CONTINUE :: int where "TH8_CONTINUE \<equiv> 4"
abbreviation TH8_RETURN2 :: int where "TH8_RETURN2 \<equiv> 5"
abbreviation TH8_SUSPEND :: int where "TH8_SUSPEND \<equiv> 6"
abbreviation TH8_YIELD :: int where "TH8_YIELD \<equiv> 7"
abbreviation TH8_CLEANUP :: int where "TH8_CLEANUP \<equiv> 8"

text \<open>
  The value that a C \<open>int\<close> of 32 bits holds after an operation whose mathematical result is \<open>v\<close>. Overflow of a signed
  integer is undefined in C; this is the two's complement result that the compilers produce for the operations
  where it is used.
\<close>

definition wrap32 :: "int \<Rightarrow> int" where
  "wrap32 v = sint (word_of_int v :: 32 word)"

lemma wrap32_id [simp]: "- (2 ^ 31) \<le> v \<Longrightarrow> v < 2 ^ 31 \<Longrightarrow> wrap32 v = v"
  by (simp add: wrap32_def sint_sbintrunc' signed_take_bit_int_eq_self)

lemma wrap32_abs: "\<bar>wrap32 v\<bar> \<le> 2 ^ 31"
  using sint_range_size [of "word_of_int v :: 32 word"] by (auto simp: wrap32_def word_size abs_le_iff)

text \<open>Bytes that HOL string literals cannot spell directly.\<close>

abbreviation BSL :: char where "BSL \<equiv> CHR 0x5C"
abbreviation DQ :: char where "DQ \<equiv> CHR 0x22"
abbreviation NL :: char where "NL \<equiv> CHR 0x0A"
abbreviation TAB :: char where "TAB \<equiv> CHR 0x09"
abbreviation VT :: char where "VT \<equiv> CHR 0x0B"
abbreviation FF :: char where "FF \<equiv> CHR 0x0C"
abbreviation CR :: char where "CR \<equiv> CHR 0x0D"
abbreviation NUL :: char where "NUL \<equiv> CHR 0x00"

text \<open>
  Lengths carry two tag bits above the 28 bits that count: the value is tainted, the value is sensitive.
\<close>

abbreviation TH8_TAG_BITS :: size_t where "TH8_TAG_BITS \<equiv> 0x30000000"
abbreviation TH8_LEN_MASK :: size_t where "TH8_LEN_MASK \<equiv> 0x0FFFFFFF"

definition TH8_LEN :: "size_t \<Rightarrow> size_t" where
  "TH8_LEN n = n AND TH8_LEN_MASK"

text \<open>
  A length of \<open>TH8_NOLEN\<close> asks the callee to count the bytes before the terminator with \<open>Th8_Strlen\<close> (the
  platform's \<open>xStrlen\<close>, which is \<open>strlen\<close>, or the loop of the fallback). The test comes before the tags are read:
  all bits of \<open>TH8_NOLEN\<close> are set.
\<close>

abbreviation TH8_NOLEN :: size_t where "TH8_NOLEN \<equiv> - 1"

definition Th8_Strlen :: "string \<Rightarrow> size_t" where
  "Th8_Strlen z = of_nat (length (takeWhile (\<lambda>c. c \<noteq> NUL) z))"

definition resolve_len :: "string \<Rightarrow> size_t \<Rightarrow> size_t" where
  "resolve_len z n = (if n = TH8_NOLEN then Th8_Strlen z else n)"

text \<open>The bytes that a pointer and a tagged length denote.\<close>

definition bytes_of :: "string \<Rightarrow> size_t \<Rightarrow> string" where
  "bytes_of z n = take (unat (TH8_LEN n)) z"

text \<open>The unsigned value of a byte, and its promotion to \<open>int\<close> where \<open>char\<close> is signed.\<close>

abbreviation uchar :: "char \<Rightarrow> nat" where
  "uchar c \<equiv> of_char c"

definition c2i :: "char \<Rightarrow> int" where
  "c2i c = (if uchar c < 128 then int (uchar c) else int (uchar c) - 256)"

section \<open>Characters\<close>

text \<open>A property of every byte is checked on the 256 bytes.\<close>

lemma all_char:
  assumes "\<forall>c \<in> set (Enum.enum :: char list). P c"
  shows "P c"
  using assms by (simp add: enum_UNIV)

lemma uchar_less [simp, th8_bound]: "uchar c < 256"
  by (rule nat_of_char_less_256)

lemma uchar_not_ge [simp]: "256 \<le> (numeral w :: nat) \<Longrightarrow> \<not> numeral w \<le> uchar c"
  using uchar_less [of c] by linarith

lemma uchar_inj [simp]: "uchar c = uchar d \<longleftrightarrow> c = d"
  by (rule of_char_eq_iff)

lemma char_eq_uchar: "c = d \<longleftrightarrow> uchar c = uchar d"
  by simp

lemma c2i_inj [simp]: "c2i c = c2i d \<longleftrightarrow> c = d"
proof -
  have "c2i c = c2i d \<longleftrightarrow> uchar c = uchar d"
    using uchar_less [of c] uchar_less [of d] unfolding c2i_def by presburger
  then show ?thesis by simp
qed

lemma c2i_bounds [th8_bound]: "- 128 \<le> c2i c" "c2i c < 128"
  by (simp_all add: c2i_def) (use uchar_less [of c] in linarith)+

section \<open>Lists\<close>

text \<open>A property of every entry of a table, checked in one pass over the table.\<close>

lemma list_all_enumerate_nth:
  "list_all (\<lambda>(i, x). P i x) (enumerate 0 xs) \<Longrightarrow> n < length xs \<Longrightarrow> P n (xs ! n)"
  by (auto simp: list_all_iff in_set_enumerate_eq)

lemma take_Suc_drop_nth: "i < length xs \<Longrightarrow> xs ! i # drop (Suc i) xs = drop i xs"
  by (rule Cons_nth_drop_Suc)

lemma drop_eq_ConsD: "drop i xs = y # ys \<Longrightarrow> i < length xs \<and> xs ! i = y \<and> drop (Suc i) xs = ys"
  by (metis Cons_nth_drop_Suc drop_eq_Nil linorder_not_le list.distinct(1) list.inject)

section \<open>Bit fields\<close>

text \<open>Shifting left and filling the freed bits is multiplication and addition.\<close>

lemma push_bit_or_nat:
  assumes "b < 2 ^ n"
  shows "push_bit n a OR b = a * 2 ^ n + (b :: nat)"
proof -
  have "push_bit n a OR b = push_bit n a + b"
  proof (rule disjunctive_add [symmetric])
    fix i
    have "\<not> bit b i" if "\<not> i < n"
      using that assms by (metis bit_take_bit_iff take_bit_nat_eq_self)
    then show "\<not> bit (push_bit n a) i \<or> \<not> bit b i" by (auto simp: bit_push_bit_iff)
  qed
  then show ?thesis by (simp add: push_bit_eq_mult)
qed

lemma and_low_nat:
  "(x :: nat) AND 0x3F = x mod 64" "x AND 0xFF = x mod 256"
  using take_bit_eq_mask [of 6 x] take_bit_eq_mask [of 8 x]
  by (simp_all add: mask_eq_exp_minus_1 take_bit_eq_mod)

end
