(* ===== verification/Th8_Chars.thy ===== *)
theory Th8_Chars
  imports Th8_Prelude
begin

text \<open>
  Character classification (\<open>src/src/th8_core.c\<close>, the table \<open>th8CharProp\<close> and the helpers
  \<open>th8IsSpace\<close> to \<open>th8IsBinDig\<close>, \<open>th8HexVal\<close>).
  The helpers take an \<open>int\<close>; callers pass a \<open>char\<close>, promoted by \<^const>\<open>c2i\<close>. The lemmas in
  \<open>th8_class\<close> give each class as a set of bytes, which is what the tokenizer proofs use.
\<close>

section \<open>The property table and the classifiers\<close>

text \<open>The initialiser lists 128 entries; C zero-fills the other 128.\<close>

definition th8CharProp :: "nat list" where
  "th8CharProp =
    [0,    0,    0,    0,    0,    0,    0,    0,
     0,    1,    1,    1,    1,    1,    0,    0,
     0,    0,    0,    0,    0,    0,    0,    0,
     0,    0,    0,    0,    0,    0,    0,    0,
     1,    0,    0x10, 0,    0x10, 0,    0,    0,
     0,    0,    0,    0,    0,    0,    0,    0,
     0x22, 0x22, 0x22, 0x22, 0x22, 0x22, 0x22, 0x22,
     0x22, 0x22, 0,    0x10, 0,    0,    0,    0,
     0,    0x28, 0x28, 0x28, 0x28, 0x28, 0x28, 0x08,
     0x08, 0x08, 0x08, 0x08, 0x08, 0x08, 0x08, 0x08,
     0x08, 0x08, 0x08, 0x08, 0x08, 0x08, 0x08, 0x08,
     0x08, 0x08, 0x08, 0x10, 0x10, 0x10, 0,    0x08,
     0,    0x28, 0x28, 0x28, 0x28, 0x28, 0x28, 0x08,
     0x08, 0x08, 0x08, 0x08, 0x08, 0x08, 0x08, 0x08,
     0x08, 0x08, 0x08, 0x08, 0x08, 0x08, 0x08, 0x08,
     0x08, 0x08, 0x08, 0x10, 0,    0x10, 0,    0] @ replicate 128 0"

definition th8IsSpace :: "int \<Rightarrow> bool" where
  "th8IsSpace c \<longleftrightarrow> c \<ge> 0 \<and> c < 256 \<and> (th8CharProp ! nat c) AND 0x01 \<noteq> 0"

definition th8IsDigit :: "int \<Rightarrow> bool" where
  "th8IsDigit c \<longleftrightarrow> c \<ge> 0 \<and> c < 256 \<and> (th8CharProp ! nat c) AND 0x02 \<noteq> 0"

definition th8IsAlpha :: "int \<Rightarrow> bool" where
  "th8IsAlpha c \<longleftrightarrow> c \<ge> 0 \<and> c < 256 \<and> (th8CharProp ! nat c) AND 0x08 \<noteq> 0"

definition th8IsAlnum :: "int \<Rightarrow> bool" where
  "th8IsAlnum c \<longleftrightarrow> c \<ge> 0 \<and> c < 256 \<and> (th8CharProp ! nat c) AND 0x0A \<noteq> 0"

definition th8IsSpecial :: "int \<Rightarrow> bool" where
  "th8IsSpecial c \<longleftrightarrow> c \<ge> 0 \<and> c < 256 \<and> (th8CharProp ! nat c) AND 0x11 \<noteq> 0"

definition th8IsHexDig :: "int \<Rightarrow> bool" where
  "th8IsHexDig c \<longleftrightarrow> c \<ge> 0 \<and> c < 256 \<and> (th8CharProp ! nat c) AND 0x22 \<noteq> 0"

definition th8IsOctDig :: "int \<Rightarrow> bool" where
  "th8IsOctDig c \<longleftrightarrow> c \<ge> c2i (CHR ''0'') \<and> c \<le> c2i (CHR ''7'')"

definition th8IsBinDig :: "int \<Rightarrow> bool" where
  "th8IsBinDig c \<longleftrightarrow> c = c2i (CHR ''0'') \<or> c = c2i (CHR ''1'')"

definition th8HexVal :: "char \<Rightarrow> int" where
  "th8HexVal ch =
     (let c = c2i ch in
      if c \<ge> c2i (CHR ''0'') \<and> c \<le> c2i (CHR ''9'') then c - c2i (CHR ''0'')
      else if c \<ge> c2i (CHR ''a'') \<and> c \<le> c2i (CHR ''f'') then c - c2i (CHR ''a'') + 10
      else if c \<ge> c2i (CHR ''A'') \<and> c \<le> c2i (CHR ''F'') then c - c2i (CHR ''A'') + 10
      else - 1)"

section \<open>The classes as sets of bytes\<close>

lemma length_th8CharProp [simp]: "length th8CharProp = 256"
  by (simp add: th8CharProp_def)

lemma th8CharProp_high: "128 \<le> n \<Longrightarrow> n < 256 \<Longrightarrow> th8CharProp ! n = 0"
  by (simp add: th8CharProp_def nth_append)

text \<open>
  A class that the table gives by the bit mask \<open>m\<close>, read off the table in one pass. The second
  form shows that the class does not depend on whether \<open>char\<close> is signed.
\<close>

lemma table_class:
  assumes "list_all (\<lambda>(n, x). x AND m \<noteq> 0 \<longleftrightarrow> Q n) (enumerate 0 th8CharProp)"
  shows "(c2i c \<ge> 0 \<and> c2i c < 256 \<and> (th8CharProp ! nat (c2i c)) AND m \<noteq> 0) \<longleftrightarrow> Q (uchar c)"
    and "(th8CharProp ! uchar c) AND m \<noteq> 0 \<longleftrightarrow> Q (uchar c)"
proof -
  have Q: "(th8CharProp ! n) AND m \<noteq> 0 \<longleftrightarrow> Q n" if "n < 256" for n
    using assms that by (intro list_all_enumerate_nth [where P = "\<lambda>n x. x AND m \<noteq> 0 \<longleftrightarrow> Q n"]) simp_all
  then show "(th8CharProp ! uchar c) AND m \<noteq> 0 \<longleftrightarrow> Q (uchar c)"
    by simp
  show "(c2i c \<ge> 0 \<and> c2i c < 256 \<and> (th8CharProp ! nat (c2i c)) AND m \<noteq> 0) \<longleftrightarrow> Q (uchar c)"
  proof (cases "uchar c < 128")
    case True
    with Q [of "uchar c"] show ?thesis by (simp add: c2i_def)
  next
    case False
    then have "\<not> Q (uchar c)"
      using Q [of "uchar c"] th8CharProp_high [of "uchar c"] by simp
    with False show ?thesis by (simp add: c2i_def)
  qed
qed

lemma th8IsSpace_iff [th8_class]:
  "th8IsSpace (c2i c) \<longleftrightarrow>
     c \<in> {CHR 0x09, CHR 0x0A, CHR 0x0B, CHR 0x0C, CHR 0x0D, CHR '' ''}"
proof -
  have "list_all (\<lambda>(n, x). x AND 0x01 \<noteq> 0 \<longleftrightarrow> n = 9 \<or> n = 10 \<or> n = 11 \<or> n = 12 \<or> n = 13 \<or> n = 32)
          (enumerate 0 th8CharProp)"
    by code_simp
  from table_class(1) [OF this, of c] show ?thesis
    by (simp add: th8IsSpace_def char_eq_uchar del: uchar_inj)
qed

lemma th8IsDigit_iff [th8_class]:
  "th8IsDigit (c2i c) \<longleftrightarrow> 48 \<le> uchar c \<and> uchar c \<le> 57"
proof -
  have "list_all (\<lambda>(n, x). x AND 0x02 \<noteq> 0 \<longleftrightarrow> 48 \<le> n \<and> n \<le> 57) (enumerate 0 th8CharProp)"
    by code_simp
  from table_class(1) [OF this, of c] show ?thesis by (simp add: th8IsDigit_def)
qed

lemma th8IsAlpha_iff [th8_class]:
  "th8IsAlpha (c2i c) \<longleftrightarrow>
     65 \<le> uchar c \<and> uchar c \<le> 90 \<or> 97 \<le> uchar c \<and> uchar c \<le> 122 \<or> uchar c = 95"
proof -
  have "list_all (\<lambda>(n, x). x AND 0x08 \<noteq> 0 \<longleftrightarrow> 65 \<le> n \<and> n \<le> 90 \<or> 97 \<le> n \<and> n \<le> 122 \<or> n = 95)
          (enumerate 0 th8CharProp)"
    by code_simp
  from table_class(1) [OF this, of c] show ?thesis by (simp add: th8IsAlpha_def)
qed

lemma th8IsAlnum_iff [th8_class]:
  "th8IsAlnum (c2i c) \<longleftrightarrow> th8IsAlpha (c2i c) \<or> th8IsDigit (c2i c)"
proof -
  have "list_all (\<lambda>(n, x). x AND 0x0A \<noteq> 0 \<longleftrightarrow>
            (65 \<le> n \<and> n \<le> 90 \<or> 97 \<le> n \<and> n \<le> 122 \<or> n = 95) \<or> (48 \<le> n \<and> n \<le> 57))
          (enumerate 0 th8CharProp)"
    by code_simp
  from table_class(1) [OF this, of c] show ?thesis
    by (simp add: th8IsAlnum_def th8IsAlpha_iff th8IsDigit_iff)
qed

lemma th8IsSpecial_iff [th8_class]:
  "th8IsSpecial (c2i c) \<longleftrightarrow>
     th8IsSpace (c2i c) \<or> c \<in> {CHR 0x22, CHR ''$'', CHR '';'', CHR ''['', CHR 0x5C, CHR '']'', CHR ''{'', CHR ''}''}"
proof -
  have "list_all (\<lambda>(n, x). x AND 0x11 \<noteq> 0 \<longleftrightarrow>
            (n = 9 \<or> n = 10 \<or> n = 11 \<or> n = 12 \<or> n = 13 \<or> n = 32) \<or>
            (n = 34 \<or> n = 36 \<or> n = 59 \<or> n = 91 \<or> n = 92 \<or> n = 93 \<or> n = 123 \<or> n = 125))
          (enumerate 0 th8CharProp)"
    by code_simp
  from table_class(1) [OF this, of c] show ?thesis
    by (simp add: th8IsSpecial_def th8IsSpace_iff char_eq_uchar del: uchar_inj)
qed

lemma th8IsHexDig_iff [th8_class]:
  "th8IsHexDig (c2i c) \<longleftrightarrow>
     48 \<le> uchar c \<and> uchar c \<le> 57 \<or> 65 \<le> uchar c \<and> uchar c \<le> 70 \<or> 97 \<le> uchar c \<and> uchar c \<le> 102"
proof -
  have "list_all (\<lambda>(n, x). x AND 0x22 \<noteq> 0 \<longleftrightarrow>
            48 \<le> n \<and> n \<le> 57 \<or> 65 \<le> n \<and> n \<le> 70 \<or> 97 \<le> n \<and> n \<le> 102)
          (enumerate 0 th8CharProp)"
    by code_simp
  from table_class(1) [OF this, of c] show ?thesis by (simp add: th8IsHexDig_def)
qed

lemma th8IsOctDig_iff [th8_class]:
  "th8IsOctDig (c2i c) \<longleftrightarrow> 48 \<le> uchar c \<and> uchar c \<le> 55"
  using uchar_less [of c] by (auto simp: th8IsOctDig_def c2i_def)

lemma th8HexVal_eq:
  "th8HexVal c =
     (if 48 \<le> uchar c \<and> uchar c \<le> 57 then int (uchar c) - 48
      else if 97 \<le> uchar c \<and> uchar c \<le> 102 then int (uchar c) - 87
      else if 65 \<le> uchar c \<and> uchar c \<le> 70 then int (uchar c) - 55 else - 1)"
  by (auto simp: th8HexVal_def c2i_def Let_def)

lemma th8HexVal_range [th8_bound]: "th8HexVal c \<in> {- 1..15}"
  by (auto simp: th8HexVal_eq)

lemma th8HexVal_hex: "th8HexVal c \<noteq> - 1 \<longleftrightarrow> th8IsHexDig (c2i c)"
  by (auto simp: th8HexVal_eq th8IsHexDig_iff)

end
