(* ===== verification/Th8_Tokenizer.thy ===== *)
theory Th8_Tokenizer
  imports Th8_Chars
begin

text \<open>
  The script tokenizer of \<open>src/src/th8_core.c\<close>: \<open>th8NextSpace\<close>, \<open>th8EndOfLine\<close>,
  \<open>th8NextEscape\<close>, \<open>th8NextVarName\<close>, the nesting stack \<open>Th8ParseStack\<close>, \<open>th8NextCommand\<close>,
  \<open>th8NextWord\<close> and \<open>Th8_Complete\<close>.

  Each scanner measures how many bytes of its input belong to the next token; the loop over the
  index \<open>i\<close> is a recursion over the bytes that remain. The nesting stack keeps its entries
  innermost first together with its capacity. Growing it beyond the inline buffer can fail; the
  parameter \<open>grow\<close> says for which capacities \<open>TH8_ATTEMPT_REALLOC\<close> succeeds (each capacity is
  asked for at most once in a scan, because the capacity only doubles).

  The theorems relate the stack machines to a recursive grammar of nested scopes, written after
  the rules of the Tcl manual that the code cites.
\<close>

section \<open>White space, escapes and variable names\<close>

abbreviation blank :: "char \<Rightarrow> bool" where
  "blank c \<equiv> c = CHR '' '' \<or> c = TAB"

fun th8NextSpace :: "string \<Rightarrow> nat" where
  "th8NextSpace [] = 0"
| "th8NextSpace (c # cs) =
     (if c = BSL \<and> cs \<noteq> [] \<and> hd cs = NL then
        (let k = length (takeWhile blank (tl cs))
         in 2 + k + th8NextSpace (drop k (tl cs)))
      else if th8IsSpace (c2i c) then 1 + th8NextSpace cs
      else 0)"

definition th8EndOfLine :: "string \<Rightarrow> bool" where
  "th8EndOfLine zInput =
     (let r = dropWhile (\<lambda>c. c \<noteq> NL \<and> th8IsSpace (c2i c)) zInput
      in r = [] \<or> hd r = NL)"

definition th8NextEscape :: "string \<Rightarrow> nat option" where
  "th8NextEscape zInput =
     (if length zInput \<le> 1 then None
      else
        (let c = zInput ! 1;
             rest = drop 2 zInput;
             hex = (\<lambda>ch. th8IsHexDig (c2i ch));
             i = (if c \<in> set ''abfnrtv'' \<or> c = BSL then 2
                  else if c = CHR ''x'' then 2 + length (takeWhile hex rest)
                  else if c = CHR ''u'' then 2 + length (takeWhile hex (take 4 rest))
                  else if c = CHR ''U'' then 2 + length (takeWhile hex (take 8 rest))
                  else if c = NL then 2 + length (takeWhile blank rest)
                  else if th8IsOctDig (c2i c) then
                    2 + length (takeWhile (\<lambda>ch. th8IsOctDig (c2i ch)) (take 2 rest))
                  else 2)
         in if i > length zInput then None else Some i))"

text \<open>The two loops of \<open>th8NextVarName\<close>: name bytes with \<open>::\<close> separators, and the subscript.\<close>

fun var_name_len :: "string \<Rightarrow> nat" where
  "var_name_len [] = 0"
| "var_name_len (c # cs) =
     (if th8IsAlnum (c2i c) \<or> c = CHR ''_'' then 1 + var_name_len cs
      else if cs \<noteq> [] \<and> c = CHR '':'' \<and> hd cs = CHR '':'' then 2 + var_name_len (tl cs)
      else 0)"

fun subscript_len :: "string \<Rightarrow> nat option" where
  "subscript_len [] = None"
| "subscript_len (c # cs) =
     (if c = CHR '')'' then Some 1
      else if c = BSL \<and> cs \<noteq> [] then map_option ((+) 2) (subscript_len (tl cs))
      else map_option ((+) 1) (subscript_len cs))"

definition th8NextVarName :: "string \<Rightarrow> nat option" where
  "th8NextVarName zInput =
     (if length zInput < 2 then Some 1
      else if zInput ! 1 = CHR ''{'' then
        (let k = length (takeWhile (\<lambda>c. c \<noteq> CHR ''}'') (drop 2 zInput))
         in if 2 + k \<ge> length zInput then None else Some (2 + k + 1))
      else
        (let i0 = (if length zInput > 2 \<and> zInput ! 1 = CHR '':'' \<and> zInput ! 2 = CHR '':'' then 3 else 1);
             i = i0 + var_name_len (drop i0 zInput)
         in if i < length zInput \<and> zInput ! i = CHR ''('' then
              map_option (\<lambda>k. i + 1 + k) (subscript_len (drop (i + 1) zInput))
            else Some i))"

section \<open>The nesting stack\<close>

record parse_stack =
  ps_items :: "char list"
  ps_cap :: nat
  ps_heap :: bool

abbreviation TH8_PARSE_NEST_INLINE :: nat where "TH8_PARSE_NEST_INLINE \<equiv> 256"

definition th8ParseStackInit :: parse_stack where
  "th8ParseStackInit = \<lparr>ps_items = [], ps_cap = TH8_PARSE_NEST_INLINE, ps_heap = False\<rparr>"

definition th8ParseStackPush :: "(nat \<Rightarrow> bool) \<Rightarrow> parse_stack \<Rightarrow> char \<Rightarrow> parse_stack option" where
  "th8ParseStackPush grow s c =
     (if length (ps_items s) \<ge> ps_cap s then
        (if ps_cap s > (2 ^ 64 - 1) div 2 then None
         else if \<not> grow (ps_cap s * 2) then None
         else Some (s\<lparr>ps_items := c # ps_items s, ps_cap := ps_cap s * 2, ps_heap := True\<rparr>))
      else Some (s\<lparr>ps_items := c # ps_items s\<rparr>))"

definition ps_pop :: "parse_stack \<Rightarrow> parse_stack" where
  "ps_pop s = s\<lparr>ps_items := tl (ps_items s)\<rparr>"

definition th8ParseStackFree :: "parse_stack \<Rightarrow> parse_stack" where
  "th8ParseStackFree s =
     (if ps_heap s then s\<lparr>ps_heap := False, ps_cap := TH8_PARSE_NEST_INLINE\<rparr> else s)"

section \<open>What a byte does in the innermost scope\<close>

datatype scope_action = SkipNext | Open char | Close | Literal

definition brace_ctx :: "char \<Rightarrow> scope_action" where
  "brace_ctx c =
     (if c = BSL then SkipNext
      else if c = CHR ''{'' then Open (CHR ''{'')
      else if c = CHR ''}'' then Close
      else Literal)"

definition bracket_ctx :: "char \<Rightarrow> scope_action" where
  "bracket_ctx c =
     (if c = BSL then SkipNext
      else if c = DQ then Open DQ
      else if c = CHR ''{'' then Open (CHR ''{'')
      else if c = CHR ''['' then Open (CHR ''['')
      else if c = CHR '']'' then Close
      else Literal)"

definition quote_ctx :: "char \<Rightarrow> scope_action" where
  "quote_ctx c =
     (if c = BSL then SkipNext
      else if c = DQ then Close
      else if c = CHR ''['' then Open (CHR ''['')
      else Literal)"

definition scope_action :: "char \<Rightarrow> char \<Rightarrow> scope_action" where
  "scope_action ctx c =
     (if ctx = CHR ''{'' then brace_ctx c
      else if ctx = CHR ''['' then bracket_ctx c
      else quote_ctx c)"

definition unmatched :: "char \<Rightarrow> string" where
  "unmatched inner =
     (if inner = CHR ''{'' then ''Unmatched braces:''
      else if inner = CHR ''['' then ''Unmatched brackets:''
      else ''Unmatched quote:'')"

abbreviation too_deep :: string where "too_deep \<equiv> ''Parser nesting too deep:''"

section \<open>Bracketed and braced blocks\<close>

fun next_command_loop ::
  "(nat \<Rightarrow> bool) \<Rightarrow> string \<Rightarrow> parse_stack \<Rightarrow> nat \<Rightarrow> (nat \<times> parse_stack) res" where
  "next_command_loop grow [] st i = Inr (i, st)"
| "next_command_loop grow (c # cs) st i =
     (case ps_items st of
        [] \<Rightarrow> Inr (i, st)
      | ctx # _ \<Rightarrow>
          (case scope_action ctx c of
             SkipNext \<Rightarrow> next_command_loop grow (tl cs) st (i + 1 + length (take 1 cs))
           | Open k \<Rightarrow>
               (case th8ParseStackPush grow st k of
                  None \<Rightarrow> Inl too_deep
                | Some st' \<Rightarrow> next_command_loop grow cs st' (i + 1))
           | Close \<Rightarrow> next_command_loop grow cs (ps_pop st) (i + 1)
           | Literal \<Rightarrow> next_command_loop grow cs st (i + 1)))"

definition th8NextCommand :: "(nat \<Rightarrow> bool) \<Rightarrow> string \<Rightarrow> nat res" where
  "th8NextCommand grow zInput =
     (case zInput of
        [] \<Rightarrow> Inl ''Empty input to th8NextCommand:''
      | first # rest \<Rightarrow>
          if first \<noteq> CHR ''{'' \<and> first \<noteq> CHR ''['' then
            Inl (''Expected '' @ [CHR 0x27, CHR ''{'', CHR 0x27] @ '' or '' @
                 [CHR 0x27, CHR ''['', CHR 0x27] @ '' at start of:'')
          else
            (case th8ParseStackPush grow th8ParseStackInit first of
               None \<Rightarrow> Inl too_deep
             | Some st \<Rightarrow>
                 (case next_command_loop grow rest st 1 of
                    Inl e \<Rightarrow> Inl e
                  | Inr (i, st') \<Rightarrow>
                      (case ps_items st' of
                         [] \<Rightarrow> Inr i
                       | inner # _ \<Rightarrow> Inl (unmatched inner)))))"

section \<open>Words\<close>

text \<open>
  \<open>th8NextWord\<close> carries its own copy of the three scope tables; \<open>word_scope_eq\<close> below shows that the
  copies agree.
\<close>

definition word_scope :: "char \<Rightarrow> char \<Rightarrow> scope_action" where
  "word_scope ctx c =
     (if ctx = CHR ''{'' then
        (if c = BSL then SkipNext
         else if c = CHR ''{'' then Open (CHR ''{'')
         else if c = CHR ''}'' then Close else Literal)
      else if ctx = CHR ''['' then
        (if c = BSL then SkipNext
         else if c = DQ then Open DQ
         else if c = CHR ''{'' then Open (CHR ''{'')
         else if c = CHR ''['' then Open (CHR ''['')
         else if c = CHR '']'' then Close else Literal)
      else
        (if c = BSL then SkipNext
         else if c = DQ then Close
         else if c = CHR ''['' then Open (CHR ''['') else Literal))"

text \<open>At the top level a byte can also end the word.\<close>

datatype word_action = EndWord | Act scope_action

definition word_top :: "bool \<Rightarrow> char \<Rightarrow> string \<Rightarrow> word_action" where
  "word_top isCmd c cs =
     (if th8IsSpace (c2i c) then EndWord
      else if isCmd \<and> c = CHR '';'' then EndWord
      else if c = BSL then
        (if cs \<noteq> [] \<and> hd cs = NL then EndWord else Act SkipNext)
      else if c = CHR ''{'' then Act (Open (CHR ''{''))
      else if c = CHR ''['' then Act (Open (CHR ''[''))
      else if c = DQ then Act (Open DQ)
      else Act Literal)"

fun next_word_loop ::
  "(nat \<Rightarrow> bool) \<Rightarrow> bool \<Rightarrow> string \<Rightarrow> parse_stack \<Rightarrow> nat \<Rightarrow> (nat \<times> parse_stack) res" where
  "next_word_loop grow isCmd [] st i = Inr (i, st)"
| "next_word_loop grow isCmd (c # cs) st i =
     (case (case ps_items st of [] \<Rightarrow> word_top isCmd c cs | ctx # _ \<Rightarrow> Act (word_scope ctx c)) of
        EndWord \<Rightarrow> Inr (i, st)
      | Act SkipNext \<Rightarrow> next_word_loop grow isCmd (tl cs) st (i + 1 + length (take 1 cs))
      | Act (Open k) \<Rightarrow>
          (case th8ParseStackPush grow st k of
             None \<Rightarrow> Inl too_deep
           | Some st' \<Rightarrow> next_word_loop grow isCmd cs st' (i + 1))
      | Act Close \<Rightarrow> next_word_loop grow isCmd cs (ps_pop st) (i + 1)
      | Act Literal \<Rightarrow> next_word_loop grow isCmd cs st (i + 1))"

definition th8NextWord :: "(nat \<Rightarrow> bool) \<Rightarrow> string \<Rightarrow> bool \<Rightarrow> nat res" where
  "th8NextWord grow zInput isCmd =
     (case zInput of
        [] \<Rightarrow> Inr 0
      | first # rest \<Rightarrow>
          (case (if first = DQ \<or> first = CHR ''{'' then
                   (case th8ParseStackPush grow th8ParseStackInit first of
                      None \<Rightarrow> Inl too_deep
                    | Some st \<Rightarrow> next_word_loop grow isCmd rest st 1)
                 else next_word_loop grow isCmd zInput th8ParseStackInit 0) of
             Inl e \<Rightarrow> Inl e
           | Inr (i, st') \<Rightarrow>
               (case ps_items st' of
                  [] \<Rightarrow> Inr i
                | inner # _ \<Rightarrow> Inl (unmatched inner))))"

section \<open>Completeness check of interactive input\<close>

text \<open>
  The depth counters are C \<open>int\<close>s; they are natural numbers here, which agrees for scripts of fewer
  than \<open>2 ^ 31\<close> bytes.
\<close>

record complete_state =
  nBrace :: nat
  nBracket :: nat
  inQuote :: bool

fun complete_loop :: "string \<Rightarrow> complete_state \<Rightarrow> complete_state" where
  "complete_loop [] s = s"
| "complete_loop (c # cs) s =
     (if c = BSL \<and> cs \<noteq> [] then complete_loop (tl cs) s
      else if inQuote s then
        complete_loop cs (if c = DQ then s\<lparr>inQuote := False\<rparr> else s)
      else complete_loop cs
        (if c = CHR ''{'' then s\<lparr>nBrace := nBrace s + 1\<rparr>
         else if c = CHR ''}'' then (if nBrace s > 0 then s\<lparr>nBrace := nBrace s - 1\<rparr> else s)
         else if c = CHR ''['' then s\<lparr>nBracket := nBracket s + 1\<rparr>
         else if c = CHR '']'' then (if nBracket s > 0 then s\<lparr>nBracket := nBracket s - 1\<rparr> else s)
         else if c = DQ then s\<lparr>inQuote := True\<rparr>
         else s))"

definition Th8_Complete :: "string \<Rightarrow> bool" where
  "Th8_Complete zScript =
     (let s = complete_loop zScript \<lparr>nBrace = 0, nBracket = 0, inQuote = False\<rparr>
      in nBrace s = 0 \<and> nBracket s = 0 \<and> \<not> inQuote s)"

section \<open>Scopes as a grammar\<close>

text \<open>
  The specification, after the rules of the Tcl manual: inside braces only a backslash and braces
  matter (rule 6), inside brackets every kind of scope can open (rule 7), inside double quotes only
  a command substitution can open (rule 4); a backslash always takes the next byte with it.
\<close>

definition closer :: "char \<Rightarrow> char" where
  "closer k = (if k = CHR ''{'' then CHR ''}'' else if k = CHR ''['' then CHR '']'' else DQ)"

definition openers :: "char \<Rightarrow> char set" where
  "openers k =
     (if k = CHR ''{'' then {CHR ''{''}
      else if k = CHR ''['' then {DQ, CHR ''{'', CHR ''[''}
      else {CHR ''[''})"

inductive scope_body :: "char \<Rightarrow> string \<Rightarrow> bool" where
  close: "scope_body k [closer k]"
| escape: "scope_body k s \<Longrightarrow> scope_body k (BSL # d # s)"
| nested: "c \<in> openers k \<Longrightarrow> scope_body c s \<Longrightarrow> scope_body k t \<Longrightarrow> scope_body k (c # s @ t)"
| literal: "c \<noteq> BSL \<Longrightarrow> c \<noteq> closer k \<Longrightarrow> c \<notin> openers k \<Longrightarrow> scope_body k s \<Longrightarrow> scope_body k (c # s)"

inductive_simps scope_body_Nil [simp]: "scope_body k []"

lemma scope_action_cases:
  "scope_action k c =
     (if c = BSL then SkipNext else if c = closer k then Close
      else if c \<in> openers k then Open c else Literal)"
  by (auto simp: scope_action_def brace_ctx_def bracket_ctx_def quote_ctx_def closer_def openers_def)

lemma scope_action_steps:
  "scope_action k c = SkipNext \<Longrightarrow> c = BSL"
  "scope_action k c = Close \<Longrightarrow> c = closer k"
  "scope_action k c = Open m \<Longrightarrow> m = c \<and> c \<in> openers k"
  "scope_action k c = Literal \<Longrightarrow> c \<noteq> BSL \<and> c \<noteq> closer k \<and> c \<notin> openers k"
  by (auto simp: scope_action_cases split: if_splits)

lemma openers_neq: "c \<in> openers k \<Longrightarrow> c \<noteq> closer k \<and> c \<noteq> BSL"
  by (auto simp: openers_def closer_def split: if_splits)

lemma closer_neq [simp]: "closer k \<noteq> BSL"
  by (simp add: closer_def)

lemma word_scope_eq: "word_scope = scope_action"
  by (auto simp: fun_eq_iff word_scope_def scope_action_def brace_ctx_def bracket_ctx_def quote_ctx_def)

text \<open>Text that closes the open scopes \<open>ks\<close>, innermost first, and then satisfies \<open>P\<close>.\<close>

fun scopes_then :: "(string \<Rightarrow> bool) \<Rightarrow> char list \<Rightarrow> string \<Rightarrow> bool" where
  "scopes_then P [] s \<longleftrightarrow> P s"
| "scopes_then P (k # ks) s \<longleftrightarrow> (\<exists>a b. s = a @ b \<and> scope_body k a \<and> scopes_then P ks b)"

lemma scopes_steps:
  "scopes_then P ks s \<Longrightarrow> scopes_then P (k # ks) (closer k # s)"
  "scopes_then P (k # ks) s \<Longrightarrow> scopes_then P (k # ks) (BSL # d # s)"
  "c \<in> openers k \<Longrightarrow> scopes_then P (c # k # ks) s \<Longrightarrow> scopes_then P (k # ks) (c # s)"
  "c \<noteq> BSL \<Longrightarrow> c \<noteq> closer k \<Longrightarrow> c \<notin> openers k \<Longrightarrow> scopes_then P (k # ks) s \<Longrightarrow>
   scopes_then P (k # ks) (c # s)"
proof -
  show "scopes_then P (k # ks) (closer k # s)" if "scopes_then P ks s"
    using that scope_body.close by (metis append_Cons append_Nil scopes_then.simps(2))
  show "scopes_then P (k # ks) (BSL # d # s)" if "scopes_then P (k # ks) s"
    using that scope_body.escape by (metis append_Cons scopes_then.simps(2))
  show "scopes_then P (k # ks) (c # s)" if "c \<in> openers k" "scopes_then P (c # k # ks) s"
  proof -
    from that(2) obtain a b d where "s = a @ b @ d" "scope_body c a" "scope_body k b" "scopes_then P ks d"
      by auto
    with that(1) show ?thesis
      using scope_body.nested [of c k a b] by (metis append_Cons append_assoc scopes_then.simps(2))
  qed
  show "scopes_then P (k # ks) (c # s)"
    if "c \<noteq> BSL" "c \<noteq> closer k" "c \<notin> openers k" "scopes_then P (k # ks) s"
    using that scope_body.literal by (metis append_Cons scopes_then.simps(2))
qed

section \<open>Stack machines without their capacity\<close>

text \<open>
  Both scanners are one machine; they differ in what a byte does when no scope is open. The machine
  stops there for a command block, and reads bare text for a word.
\<close>

fun nest_run ::
  "(char \<Rightarrow> string \<Rightarrow> word_action) \<Rightarrow> string \<Rightarrow> char list \<Rightarrow> nat \<Rightarrow> nat \<times> char list" where
  "nest_run act0 [] ks i = (i, ks)"
| "nest_run act0 (c # cs) ks i =
     (case (case ks of [] \<Rightarrow> act0 c cs | k # _ \<Rightarrow> Act (scope_action k c)) of
        EndWord \<Rightarrow> (i, ks)
      | Act SkipNext \<Rightarrow> nest_run act0 (tl cs) ks (i + 1 + length (take 1 cs))
      | Act (Open m) \<Rightarrow> nest_run act0 cs (m # ks) (i + 1)
      | Act Close \<Rightarrow> nest_run act0 cs (tl ks) (i + 1)
      | Act Literal \<Rightarrow> nest_run act0 cs ks (i + 1))"

lemma nest_run_body:
  "scope_body k s \<Longrightarrow> nest_run act0 (s @ rest) (k # ks) i = nest_run act0 rest ks (i + length s)"
  by (induction arbitrary: i ks rest rule: scope_body.induct)
     (simp_all add: scope_action_cases openers_neq add.assoc)

text \<open>
  What a scanner promises about the text it accepts: \<open>accepts w rest\<close> says that \<open>w\<close> is a complete
  token when \<open>rest\<close> follows. The laws say how each top-level action extends a token.
\<close>

locale nest_scanner =
  fixes act0 :: "char \<Rightarrow> string \<Rightarrow> word_action"
    and accepts :: "string \<Rightarrow> string \<Rightarrow> bool"
  assumes accepts_end: "act0 c cs = EndWord \<Longrightarrow> accepts [] (c # cs)"
    and accepts_Nil: "accepts [] []"
    and accepts_lone: "act0 c [] = Act SkipNext \<Longrightarrow> accepts [c] []"
    and accepts_skip: "act0 c (d # ds) = Act SkipNext \<Longrightarrow> accepts w rest \<Longrightarrow> accepts (c # d # w) rest"
    and accepts_open: "act0 c cs = Act (Open m) \<Longrightarrow> scope_body m a \<Longrightarrow> accepts w rest \<Longrightarrow>
                       accepts (c # a @ w) rest"
    and accepts_literal: "act0 c cs = Act Literal \<Longrightarrow> accepts w rest \<Longrightarrow> accepts (c # w) rest"
    and top_no_close: "act0 c cs \<noteq> Act Close"
begin

definition closes :: "char list \<Rightarrow> string \<Rightarrow> string \<Rightarrow> bool" where
  "closes ks w rest \<longleftrightarrow> scopes_then (\<lambda>v. accepts v rest) ks w"

lemma closes_steps:
  "ks = k # ks' \<Longrightarrow> scope_action k c = SkipNext \<Longrightarrow> closes ks w rest \<Longrightarrow> closes ks (c # d # w) rest"
  "ks = k # ks' \<Longrightarrow> scope_action k c = Open m \<Longrightarrow> closes (m # ks) w rest \<Longrightarrow> closes ks (c # w) rest"
  "ks = k # ks' \<Longrightarrow> scope_action k c = Close \<Longrightarrow> closes ks' w rest \<Longrightarrow> closes ks (c # w) rest"
  "ks = k # ks' \<Longrightarrow> scope_action k c = Literal \<Longrightarrow> closes ks w rest \<Longrightarrow> closes ks (c # w) rest"
  "act0 c (d # ds) = Act SkipNext \<Longrightarrow> closes [] w rest \<Longrightarrow> closes [] (c # d # w) rest"
  "act0 c cs = Act (Open m) \<Longrightarrow> closes [m] w rest \<Longrightarrow> closes [] (c # w) rest"
  "act0 c cs = Act Literal \<Longrightarrow> closes [] w rest \<Longrightarrow> closes [] (c # w) rest"
  unfolding closes_def
  using scopes_steps(1) [of "\<lambda>v. accepts v rest" ks' w k]
  by (auto dest!: scope_action_steps simp del: scopes_then.simps(2)
           intro: scopes_steps(2,3,4) accepts_skip accepts_literal)
     (auto intro: accepts_open)

abbreviation reads :: "string \<Rightarrow> char list \<Rightarrow> nat \<Rightarrow> nat \<Rightarrow> bool" where
  "reads z ks i j \<equiv> \<exists>a b. z = a @ b \<and> j = i + length a \<and> closes ks a b"

lemma reads_step:
  assumes "reads cs ks' (i + 1) j" and "\<And>a b. closes ks' a b \<Longrightarrow> closes ks (c # a) b"
  shows "reads (c # cs) ks i j"
proof -
  from assms(1) obtain a b where "cs = a @ b" "j = i + 1 + length a" "closes ks' a b" by auto
  with assms(2) show ?thesis by (intro exI [of _ "c # a"] exI [of _ b]) auto
qed

lemma reads_step2:
  assumes "reads ds ks (i + 2) j" and "\<And>a b. closes ks a b \<Longrightarrow> closes ks (c # d # a) b"
  shows "reads (c # d # ds) ks i j"
proof -
  from assms(1) obtain a b where "ds = a @ b" "j = i + 2 + length a" "closes ks a b" by auto
  with assms(2) show ?thesis by (intro exI [of _ "c # d # a"] exI [of _ b]) auto
qed

lemma nest_run_reads: "nest_run act0 z ks i = (j, []) \<Longrightarrow> reads z ks i j"
proof (induction z arbitrary: ks i rule: length_induct)
  case (1 z)
  then have IH: "\<And>zs ks i. length zs < length z \<Longrightarrow> nest_run act0 zs ks i = (j, []) \<Longrightarrow> reads zs ks i j"
    by blast
  show ?case
  proof (cases z)
    case Nil
    with 1 show ?thesis by (simp add: closes_def accepts_Nil)
  next
    case z: (Cons c cs)
    let ?act = "case ks of [] \<Rightarrow> act0 c cs | k # _ \<Rightarrow> Act (scope_action k c)"
    show ?thesis
    proof (cases ?act)
      case EndWord
      with 1 z show ?thesis
        by (intro exI [of _ "[]"] exI [of _ z]) (auto simp: closes_def accepts_end split: list.splits)
    next
      case (Act act)
      show ?thesis
      proof (cases act)
        case SkipNext
        show ?thesis
        proof (cases cs)
          case Nil
          with 1 z Act SkipNext show ?thesis
            by (intro exI [of _ "[c]"] exI [of _ "[]"])
               (auto simp: closes_def accepts_lone split: list.splits)
        next
          case (Cons d ds)
          with 1 z Act SkipNext have "reads ds ks (i + 2) j" by (intro IH) auto
          then show ?thesis unfolding z Cons
            by (rule reads_step2) (use Act SkipNext Cons in \<open>auto split: list.splits intro: closes_steps\<close>)
        qed
      next
        case (Open m)
        with 1 z Act have "reads cs (m # ks) (i + 1) j" by (intro IH) auto
        then show ?thesis unfolding z
          by (rule reads_step) (use Act Open in \<open>auto split: list.splits intro: closes_steps\<close>)
      next
        case Close
        with 1 z Act have "reads cs (tl ks) (i + 1) j" by (intro IH) auto
        then show ?thesis unfolding z
          by (rule reads_step)
             (use Act Close top_no_close in \<open>auto split: list.splits intro: closes_steps\<close>)
      next
        case Literal
        with 1 z Act have "reads cs ks (i + 1) j" by (intro IH) auto
        then show ?thesis unfolding z
          by (rule reads_step) (use Act Literal in \<open>auto split: list.splits intro: closes_steps\<close>)
      qed
    qed
  qed
qed

end

section \<open>The code's machines and the abstract machine\<close>

lemma push_items: "th8ParseStackPush grow s c = Some s' \<Longrightarrow> ps_items s' = c # ps_items s"
  by (auto simp: th8ParseStackPush_def split: if_splits)

lemma pop_items [simp]: "ps_items (ps_pop s) = tl (ps_items s)"
  by (simp add: ps_pop_def)

lemma init_items [simp]: "ps_items th8ParseStackInit = []"
  by (simp add: th8ParseStackInit_def)

text \<open>With memory available, a push fails only when doubling the capacity would overflow.\<close>

abbreviation mem_ok :: "nat \<Rightarrow> bool" where
  "mem_ok \<equiv> \<lambda>_. True"

lemma push_ok:
  assumes "length (ps_items s) < 2 ^ 63"
  shows "\<exists>s'. th8ParseStackPush mem_ok s c = Some s'"
  using assms by (auto simp: th8ParseStackPush_def)

lemma command_loop_run:
  "next_command_loop grow z st i = Inr (j, st') \<Longrightarrow>
   nest_run (\<lambda>_ _. EndWord) z (ps_items st) i = (j, ps_items st')"
  by (induction grow z st i rule: next_command_loop.induct)
     (auto split: list.splits scope_action.splits option.splits simp: push_items)

lemma word_loop_run:
  "next_word_loop grow isCmd z st i = Inr (j, st') \<Longrightarrow>
   nest_run (word_top isCmd) z (ps_items st) i = (j, ps_items st')"
  by (induction grow isCmd z st i rule: next_word_loop.induct)
     (auto split: list.splits word_action.splits scope_action.splits option.splits
           simp: push_items word_scope_eq)

lemma command_loop_total:
  assumes "grow = mem_ok" and "length (ps_items st) + length z < 2 ^ 63"
  shows "\<exists>j st'. next_command_loop grow z st i = Inr (j, st')"
  using assms
proof (induction grow z st i rule: next_command_loop.induct)
  case (2 grow c cs st i)
  show ?case
  proof (cases "ps_items st")
    case (Cons ctx ks)
    show ?thesis
    proof (cases "scope_action ctx c")
      case (Open m)
      obtain st1 where st1: "th8ParseStackPush mem_ok st m = Some st1"
        using push_ok [of st m] 2 by auto
      with 2 Cons Open show ?thesis by (simp add: push_items [OF st1])
    qed (use 2 Cons in simp_all)
  qed simp
qed simp

lemma word_loop_total:
  assumes "grow = mem_ok" and "length (ps_items st) + length z < 2 ^ 63"
  shows "\<exists>j st'. next_word_loop grow isCmd z st i = Inr (j, st')"
  using assms
proof (induction grow isCmd z st i rule: next_word_loop.induct)
  case (2 grow isCmd c cs st i)
  let ?act = "case ps_items st of [] \<Rightarrow> word_top isCmd c cs | ctx # _ \<Rightarrow> Act (word_scope ctx c)"
  show ?case
  proof (cases ?act)
    case (Act a)
    show ?thesis
    proof (cases a)
      case (Open m)
      obtain st1 where st1: "th8ParseStackPush mem_ok st m = Some st1"
        using push_ok [of st m] 2 by auto
      with 2 Act Open show ?thesis by (simp add: push_items [OF st1])
    qed (use 2 Act in simp_all)
  qed simp
qed simp

section \<open>Command blocks\<close>

interpretation block: nest_scanner "\<lambda>_ _. EndWord" "\<lambda>w rest. w = []"
  by unfold_locales simp_all

definition block_text :: "string \<Rightarrow> bool" where
  "block_text b \<longleftrightarrow> (\<exists>k s. b = k # s \<and> k \<in> {CHR ''{'', CHR ''[''} \<and> scope_body k s)"

lemma th8NextCommand_sound:
  assumes "th8NextCommand grow z = Inr n"
  shows "n \<le> length z \<and> block_text (take n z)"
proof -
  from assms obtain k cs st st' where z: "z = k # cs" "k \<in> {CHR ''{'', CHR ''[''}"
    and st: "th8ParseStackPush grow th8ParseStackInit k = Some st"
    and run: "next_command_loop grow cs st 1 = Inr (n, st')" "ps_items st' = []"
    by (auto simp: th8NextCommand_def split: list.splits if_splits option.splits sum.splits)
  from command_loop_run [OF run(1)] run(2) push_items [OF st]
  have "nest_run (\<lambda>_ _. EndWord) cs [k] 1 = (n, [])" by simp
  from block.nest_run_reads [OF this] obtain a b where "cs = a @ b" "n = 1 + length a" "scope_body k a"
    by (auto simp: block.closes_def)
  with z show ?thesis by (auto simp: block_text_def)
qed

lemma th8NextCommand_complete:
  assumes len: "length z < 2 ^ 63" and z: "z = b @ rest" and b: "block_text b"
  shows "th8NextCommand mem_ok z = Inr (length b)"
proof -
  from b obtain k s where ks: "b = k # s" "k \<in> {CHR ''{'', CHR ''[''}" "scope_body k s"
    by (auto simp: block_text_def)
  obtain st where st: "th8ParseStackPush mem_ok th8ParseStackInit k = Some st"
    using push_ok [of th8ParseStackInit k] by auto
  obtain j st' where run: "next_command_loop mem_ok (s @ rest) st 1 = Inr (j, st')"
    using command_loop_total [OF refl, of st "s @ rest" 1] push_items [OF st] len z ks(1) by auto
  have "nest_run (\<lambda>_ _. EndWord) rest [] m = (m, [])" for m by (cases rest) simp_all
  with nest_run_body [OF ks(3), of _ rest "[]" 1] command_loop_run [OF run] push_items [OF st]
  have "j = length b" "ps_items st' = []" by (auto simp: ks)
  with z ks st run show ?thesis by (auto simp: th8NextCommand_def)
qed

section \<open>Words\<close>

definition ordinary :: "bool \<Rightarrow> char \<Rightarrow> bool" where
  "ordinary isCmd c \<longleftrightarrow>
     \<not> th8IsSpace (c2i c) \<and> \<not> (isCmd \<and> c = CHR '';'') \<and> c \<noteq> BSL \<and> c \<notin> {DQ, CHR ''{'', CHR ''[''}"

inductive word_text :: "bool \<Rightarrow> string \<Rightarrow> bool" for isCmd where
  empty: "word_text isCmd []"
| bare: "ordinary isCmd c \<Longrightarrow> word_text isCmd s \<Longrightarrow> word_text isCmd (c # s)"
| escape: "d \<noteq> NL \<Longrightarrow> word_text isCmd s \<Longrightarrow> word_text isCmd (BSL # d # s)"
| scope: "k \<in> {DQ, CHR ''{'', CHR ''[''} \<Longrightarrow> scope_body k a \<Longrightarrow> word_text isCmd b \<Longrightarrow>
          word_text isCmd (k # a @ b)"

definition at_word_end :: "bool \<Rightarrow> string \<Rightarrow> bool" where
  "at_word_end isCmd rest \<longleftrightarrow>
     (case rest of
        [] \<Rightarrow> True
      | c # cs \<Rightarrow> th8IsSpace (c2i c) \<or> isCmd \<and> c = CHR '';'' \<or> c = BSL \<and> cs \<noteq> [] \<and> hd cs = NL)"

text \<open>
  A word runs up to a separator, or up to the end of the input, where a lone backslash may close it.
\<close>

definition word_and_rest :: "bool \<Rightarrow> string \<Rightarrow> string \<Rightarrow> bool" where
  "word_and_rest isCmd w rest \<longleftrightarrow>
     word_text isCmd w \<and> at_word_end isCmd rest \<or>
     rest = [] \<and> (\<exists>v. w = v @ [BSL] \<and> word_text isCmd v)"

lemma word_and_rest_steps:
  "ordinary isCmd c \<Longrightarrow> word_and_rest isCmd w rest \<Longrightarrow> word_and_rest isCmd (c # w) rest"
  "d \<noteq> NL \<Longrightarrow> word_and_rest isCmd w rest \<Longrightarrow> word_and_rest isCmd (BSL # d # w) rest"
  "k \<in> {DQ, CHR ''{'', CHR ''[''} \<Longrightarrow> scope_body k a \<Longrightarrow> word_and_rest isCmd w rest \<Longrightarrow>
   word_and_rest isCmd (k # a @ w) rest"
  using word_text.bare word_text.escape word_text.scope
  by (metis append_Cons word_and_rest_def, metis append_Cons word_and_rest_def,
      metis append_Cons append_assoc word_and_rest_def)

lemma word_top_steps:
  "word_top isCmd c cs = EndWord \<Longrightarrow> at_word_end isCmd (c # cs)"
  "word_top isCmd c cs = Act SkipNext \<Longrightarrow> c = BSL \<and> (cs = [] \<or> hd cs \<noteq> NL)"
  "word_top isCmd c cs = Act (Open m) \<Longrightarrow> m = c \<and> c \<in> {DQ, CHR ''{'', CHR ''[''}"
  "word_top isCmd c cs = Act Literal \<Longrightarrow> ordinary isCmd c"
  by (auto simp: word_top_def at_word_end_def ordinary_def split: if_splits)

lemma word_and_rest_base:
  "at_word_end isCmd rest \<Longrightarrow> word_and_rest isCmd [] rest"
  "word_and_rest isCmd [BSL] []"
  by (simp_all add: word_and_rest_def word_text.empty)

interpretation word: nest_scanner "word_top isCmd" "word_and_rest isCmd" for isCmd
proof
  show "word_and_rest isCmd [] (c # cs)" if "word_top isCmd c cs = EndWord" for c cs
    using that by (intro word_and_rest_base(1) word_top_steps(1))
  show "word_and_rest isCmd [] []"
    by (intro word_and_rest_base(1)) (simp add: at_word_end_def)
  show "word_and_rest isCmd [c] []" if "word_top isCmd c [] = Act SkipNext" for c
    using word_top_steps(2) [OF that] word_and_rest_base(2) by simp
  show "word_and_rest isCmd (c # d # w) rest"
    if "word_top isCmd c (d # ds) = Act SkipNext" "word_and_rest isCmd w rest" for c d ds w rest
    using word_top_steps(2) [OF that(1)] word_and_rest_steps(2) [OF _ that(2)] by simp
  show "word_and_rest isCmd (c # a @ w) rest"
    if "word_top isCmd c cs = Act (Open m)" "scope_body m a" "word_and_rest isCmd w rest" for c cs m a w rest
    using word_top_steps(3) [OF that(1)] word_and_rest_steps(3) [OF _ that(2,3)] by simp
  show "word_and_rest isCmd (c # w) rest"
    if "word_top isCmd c cs = Act Literal" "word_and_rest isCmd w rest" for c cs w rest
    using word_top_steps(4) [OF that(1)] that(2) by (rule word_and_rest_steps(1))
  show "word_top isCmd c cs \<noteq> Act Close" for c cs
    by (simp add: word_top_def)
qed

lemma th8NextWord_loop:
  "th8NextWord grow z isCmd =
     (case next_word_loop grow isCmd z th8ParseStackInit 0 of
        Inl e \<Rightarrow> Inl e
      | Inr (i, st') \<Rightarrow> (case ps_items st' of [] \<Rightarrow> Inr i | inner # _ \<Rightarrow> Inl (unmatched inner)))"
  by (cases z) (auto simp: th8NextWord_def word_top_def th8IsSpace_iff split: option.splits)

lemma word_run_text:
  "word_text isCmd w \<Longrightarrow>
   nest_run (word_top isCmd) (w @ rest) [] i = nest_run (word_top isCmd) rest [] (i + length w)"
  by (induction arbitrary: i rule: word_text.induct)
     (auto simp: ordinary_def word_top_def th8IsSpace_iff nest_run_body add.assoc)

lemma word_run_complete:
  assumes "word_and_rest isCmd w rest"
  shows "nest_run (word_top isCmd) (w @ rest) [] i = (i + length w, [])"
proof -
  have stop: "nest_run (word_top isCmd) rest [] j = (j, [])" if "at_word_end isCmd rest" for j
    using that by (auto simp: at_word_end_def word_top_def th8IsSpace_iff split: list.splits)
  have lone: "nest_run (word_top isCmd) [BSL] [] j = (j + 1, [])" for j
    by (simp add: word_top_def th8IsSpace_iff)
  from assms consider "word_text isCmd w" "at_word_end isCmd rest"
    | v where "rest = []" "w = v @ [BSL]" "word_text isCmd v"
    by (auto simp: word_and_rest_def)
  then show ?thesis
  proof cases
    case 1
    then show ?thesis by (simp add: word_run_text stop)
  next
    case (2 v)
    then show ?thesis using word_run_text [of isCmd v "[BSL]" i] lone by simp
  qed
qed

lemma th8NextWord_sound:
  assumes "th8NextWord grow z isCmd = Inr n"
  shows "n \<le> length z \<and> word_and_rest isCmd (take n z) (drop n z)"
proof -
  from assms obtain st' where "next_word_loop grow isCmd z th8ParseStackInit 0 = Inr (n, st')"
    and "ps_items st' = []"
    by (auto simp: th8NextWord_loop split: sum.splits list.splits)
  then have "nest_run (word_top isCmd) z [] 0 = (n, [])"
    using word_loop_run by fastforce
  from word.nest_run_reads [OF this] show ?thesis by (auto simp: word.closes_def)
qed

lemma th8NextWord_complete:
  assumes "length z < 2 ^ 63" and "z = w @ rest" and "word_and_rest isCmd w rest"
  shows "th8NextWord mem_ok z isCmd = Inr (length w)"
proof -
  obtain j st' where run: "next_word_loop mem_ok isCmd z th8ParseStackInit 0 = Inr (j, st')"
    using word_loop_total [OF refl, of th8ParseStackInit z isCmd 0] assms(1) by auto
  with word_loop_run [OF run] word_run_complete [OF assms(3), of 0] assms(2)
  show ?thesis by (simp add: th8NextWord_loop)
qed


section \<open>Scanners stay inside their input\<close>

lemma length_takeWhile_drop: "length (takeWhile P (drop k z)) \<le> length z - k"
  by (metis length_drop length_takeWhile_le)

lemma length_takeWhile_take_drop: "length (takeWhile P (take m (drop k z))) \<le> length z - k"
  by (metis length_drop length_takeWhile_le length_take min.cobounded1 order_trans)

lemma th8NextSpace_le [th8_bound]: "th8NextSpace z \<le> length z"
proof (induction z rule: th8NextSpace.induct)
  case (2 c cs)
  let ?k = "length (takeWhile blank (tl cs))"
  have "?k \<le> length (tl cs)" by (rule length_takeWhile_le)
  with 2 show ?case by (cases cs) (auto simp: Let_def)
qed simp

lemma th8NextEscape_bounds [th8_bound]:
  "th8NextEscape z = Some n \<Longrightarrow> 2 \<le> n \<and> n \<le> length z"
  by (auto simp: th8NextEscape_def Let_def split: if_splits)

lemma th8NextEscape_total: "2 \<le> length z \<Longrightarrow> \<exists>n. th8NextEscape z = Some n"
  using length_takeWhile_drop [of _ 2 z] length_takeWhile_take_drop [of _ _ 2 z]
  by (auto simp: th8NextEscape_def Let_def not_less le_diff_conv2)

lemma var_name_len_le: "var_name_len z \<le> length z"
  by (induction z rule: var_name_len.induct) (auto simp: neq_Nil_conv)

lemma subscript_len_bounds: "subscript_len z = Some n \<Longrightarrow> 1 \<le> n \<and> n \<le> length z"
  by (induction z arbitrary: n rule: subscript_len.induct) (fastforce split: if_splits simp: neq_Nil_conv)+

lemma th8NextVarName_bounds [th8_bound]:
  assumes "th8NextVarName z = Some n" and "z \<noteq> []"
  shows "1 \<le> n \<and> n \<le> length z"
proof (cases "length z < 2 \<or> z ! 1 = CHR ''{''")
  case True
  with assms show ?thesis by (auto simp: th8NextVarName_def Let_def Suc_le_eq split: if_splits)
next
  case False
  define i0 :: nat where
    "i0 = (if length z > 2 \<and> z ! 1 = CHR '':'' \<and> z ! 2 = CHR '':'' then 3 else 1)"
  define i where "i = i0 + var_name_len (drop i0 z)"
  have i0: "1 \<le> i0" "i0 \<le> length z" using False by (auto simp: i0_def)
  have i: "1 \<le> i" "i \<le> length z"
    using i0 var_name_len_le [of "drop i0 z"] by (auto simp: i_def)
  have n: "(if i < length z \<and> z ! i = CHR ''('' then
      map_option (\<lambda>k. i + 1 + k) (subscript_len (drop (i + 1) z)) else Some i) = Some n"
    using assms(1) False by (auto simp: th8NextVarName_def Let_def i0_def i_def)
  show ?thesis
  proof (cases "i < length z \<and> z ! i = CHR ''(''")
    case True
    with n obtain k where "subscript_len (drop (i + 1) z) = Some k" "n = i + 1 + k" by auto
    with subscript_len_bounds [of "drop (i + 1) z" k] True show ?thesis by auto
  qed (use n i in auto)
qed

lemma th8NextCommand_bounds [th8_bound]:
  assumes "th8NextCommand grow z = Inr n"
  shows "2 \<le> n \<and> n \<le> length z"
proof -
  note s = th8NextCommand_sound [OF assms]
  then obtain k b where "take n z = k # b" "scope_body k b" by (auto simp: block_text_def)
  moreover from this have "b \<noteq> []" by auto
  ultimately have "2 \<le> length (take n z)" by (cases b) simp_all
  with s show ?thesis by simp
qed

section \<open>Properties\<close>

text \<open>
  C1: \<open>th8NextCommand\<close> recognises exactly the nested-scope grammar. With memory for the nesting stack
  it succeeds with \<open>n\<close> if and only if the first \<open>n\<close> bytes are a block that the grammar derives: the
  context stack accepts the same language as the recursive parser of the Tcl rules.
\<close>

theorem th8NextCommand_grammar:
  assumes "length z < 2 ^ 63"
  shows "th8NextCommand mem_ok z = Inr n \<longleftrightarrow> n \<le> length z \<and> block_text (take n z)"
proof
  assume "th8NextCommand mem_ok z = Inr n"
  then show "n \<le> length z \<and> block_text (take n z)" by (rule th8NextCommand_sound)
next
  assume "n \<le> length z \<and> block_text (take n z)"
  with th8NextCommand_complete [of z "take n z" "drop n z"] assms
  show "th8NextCommand mem_ok z = Inr n" by simp
qed

theorem th8NextCommand_grammar_witness:
  "th8NextCommand mem_ok ''[a {b]} c] d'' = Inr 10 \<and> block_text (take 10 ''[a {b]} c] d'')"
proof -
  have run: "th8NextCommand mem_ok ''[a {b]} c] d'' = Inr 10" by code_simp
  have "length ''[a {b]} c] d'' < 2 ^ 63" by simp
  from th8NextCommand_grammar [OF this, of 10] run show ?thesis by simp
qed

text \<open>
  C2: \<open>th8NextWord\<close> finds exactly the next word: it succeeds with \<open>n\<close> if and only if the first \<open>n\<close>
  bytes are a word of the grammar (bare bytes, escapes and complete scopes) and what follows is a word
  separator, or the input ends there.
\<close>

theorem th8NextWord_grammar:
  assumes "length z < 2 ^ 63"
  shows "th8NextWord mem_ok z isCmd = Inr n \<longleftrightarrow>
         n \<le> length z \<and> word_and_rest isCmd (take n z) (drop n z)"
proof
  assume "th8NextWord mem_ok z isCmd = Inr n"
  then show "n \<le> length z \<and> word_and_rest isCmd (take n z) (drop n z)" by (rule th8NextWord_sound)
next
  assume "n \<le> length z \<and> word_and_rest isCmd (take n z) (drop n z)"
  with th8NextWord_complete [of z "take n z" "drop n z"] assms
  show "th8NextWord mem_ok z isCmd = Inr n" by simp
qed

theorem th8NextWord_grammar_witness:
  "th8NextWord mem_ok ''a{b c}d;e'' True = Inr 7 \<and> word_and_rest True ''a{b c}d'' '';e''"
proof -
  have run: "th8NextWord mem_ok ''a{b c}d;e'' True = Inr 7" by code_simp
  have "length ''a{b c}d;e'' < 2 ^ 63" by simp
  from th8NextWord_grammar [OF this, of True 7] run show ?thesis by simp
qed

text \<open>
  No scanner reports more bytes than its input holds, whatever the memory: white space, escapes,
  variable references, command blocks and words all stay inside the buffer.
\<close>

theorem scanners_in_bounds:
  "th8NextSpace z \<le> length z \<and>
   (th8NextEscape z = Some m \<longrightarrow> 2 \<le> m \<and> m \<le> length z) \<and>
   (z \<noteq> [] \<longrightarrow> th8NextVarName z = Some v \<longrightarrow> 1 \<le> v \<and> v \<le> length z) \<and>
   (th8NextCommand grow z = Inr c \<longrightarrow> 2 \<le> c \<and> c \<le> length z) \<and>
   (th8NextWord grow z isCmd = Inr w \<longrightarrow> w \<le> length z)"
proof (intro conjI impI)
  show "th8NextSpace z \<le> length z" by (rule th8NextSpace_le)
next
  assume "th8NextWord grow z isCmd = Inr w"
  from th8NextWord_sound [OF this] show "w \<le> length z" by simp
qed (use th8NextEscape_bounds th8NextVarName_bounds th8NextCommand_bounds in auto)

theorem scanners_in_bounds_witness:
  "th8NextEscape (BSL # ''u00e9x'') = Some 6 \<and> 6 \<le> length (BSL # ''u00e9x'') \<and>
   th8NextVarName ''$a(i) b'' = Some 5 \<and> 5 \<le> length ''$a(i) b'' \<and>
   th8NextCommand mem_ok ''{a}'' = Inr 3 \<and> 3 \<le> length ''{a}'' \<and>
   th8NextWord mem_ok ''ab c'' False = Inr 2 \<and> 2 \<le> length ''ab c''"
proof -
  have e: "th8NextEscape (BSL # ''u00e9x'') = Some 6" by code_simp
  have v: "th8NextVarName ''$a(i) b'' = Some 5" by code_simp
  have c: "th8NextCommand mem_ok ''{a}'' = Inr 3" by code_simp
  have w: "th8NextWord mem_ok ''ab c'' False = Inr 2" by code_simp
  show ?thesis
    using e v c w scanners_in_bounds [of "BSL # ''u00e9x''" 6]
      scanners_in_bounds [of "''$a(i) b''" _ 5] scanners_in_bounds [of "''{a}''" _ _ mem_ok 3]
      scanners_in_bounds [of "''ab c''" _ _ mem_ok _ False 2]
    by auto
qed

text \<open>
  Newlines are white space for \<open>th8NextSpace\<close>: the byte 10 has the white-space bit in the property
  table, so the scanner consumes it.
\<close>

lemma th8NextSpace_takes_newline: "th8NextSpace (NL # z) = Suc (th8NextSpace z)"
  by (simp add: th8IsSpace_iff)

text \<open>The subscript scanner stops at the first unescaped close parenthesis: it does not nest.\<close>

lemma subscript_len_no_nesting: "subscript_len (''(x)'' @ z) = Some 3"
  by simp

end
