(* ===== verification/Th8_Utf8.thy ===== *)
theory Th8_Utf8
  imports Th8_Tokenizer
begin

text \<open>
  UTF-8 and backslash substitution of \<open>src/src/th8_core.c\<close>: \<open>Th8_Utf8Encode\<close>, \<open>Th8_Utf8Decode\<close>,
  \<open>Th8_Utf8Len\<close>, \<open>Th8_Utf8Advance\<close>, \<open>Th8_Utf8Index\<close>, \<open>Th8_Utf8Validate\<close> and \<open>th8SubstEscape\<close>.

  A C \<open>int\<close> is an \<^typ>\<open>int\<close> where the code cannot leave its range; in \<open>th8SubstEscape\<close>, where shifting
  hex digits into a 32-bit \<open>int\<close> does leave it, the accumulator is a 32-bit word read back as signed.
  A cast to \<open>char\<close> keeps the low eight bits (\<open>char_of\<close>). A pointer into the buffer is its offset. The \<open>int\<close> counters
  of \<open>Th8_Utf8Len\<close> and \<open>Th8_Utf8Advance\<close> are \<^typ>\<open>nat\<close>: they count code points, of which a buffer has at most as
  many as bytes, and the length of a value is below \<open>2^28\<close> (\<open>TH8_LEN_MASK\<close>).

  The theorems: encoding and decoding are inverse on every code point that fits four bytes, the
  scanners count and index code points, the validator accepts exactly the texts whose decoded values
  are Unicode scalars, and substitution of an escape has the value the Tcl rules give it.
\<close>

section \<open>Encoding and decoding one code point\<close>

definition Th8_Utf8Encode :: "int \<Rightarrow> string" where
  "Th8_Utf8Encode codepoint =
     (if codepoint < 0x80 then [char_of codepoint]
      else if codepoint < 0x800 then
        [char_of (0xC0 OR drop_bit 6 codepoint),
         char_of (0x80 OR (codepoint AND 0x3F))]
      else if codepoint < 0x10000 then
        [char_of (0xE0 OR drop_bit 12 codepoint),
         char_of (0x80 OR (drop_bit 6 codepoint AND 0x3F)),
         char_of (0x80 OR (codepoint AND 0x3F))]
      else
        [char_of (0xF0 OR drop_bit 18 codepoint),
         char_of (0x80 OR (drop_bit 12 codepoint AND 0x3F)),
         char_of (0x80 OR (drop_bit 6 codepoint AND 0x3F)),
         char_of (0x80 OR (codepoint AND 0x3F))])"

text \<open>
  The second argument is the old value of \<open>*pnByte\<close>, which an empty input leaves unchanged; the pair
  is the return value and the new \<open>*pnByte\<close>.
\<close>

definition Th8_Utf8Decode :: "string \<Rightarrow> nat \<Rightarrow> int \<times> nat" where
  "Th8_Utf8Decode z nByte =
     (if z = [] then (- 1, nByte)
      else
        (let c = of_char (z ! 0) :: int;
             b = (\<lambda>i. of_char (z ! i) :: int);
             n = length z
         in if c < 0x80 then (c, 1)
            else if c AND 0xE0 = 0xC0 \<and> n \<ge> 2 then
              (push_bit 6 (c AND 0x1F) OR (b 1 AND 0x3F), 2)
            else if c AND 0xF0 = 0xE0 \<and> n \<ge> 3 then
              (push_bit 12 (c AND 0x0F) OR push_bit 6 (b 1 AND 0x3F) OR (b 2 AND 0x3F), 3)
            else if c AND 0xF8 = 0xF0 \<and> n \<ge> 4 then
              (push_bit 18 (c AND 0x07) OR push_bit 12 (b 1 AND 0x3F) OR
               push_bit 6 (b 2 AND 0x3F) OR (b 3 AND 0x3F), 4)
            else (- 1, 1)))"

lemma decode_width [th8_bound]:
  "z \<noteq> [] \<Longrightarrow> 1 \<le> snd (Th8_Utf8Decode z k) \<and> snd (Th8_Utf8Decode z k) \<le> length z
     \<and> snd (Th8_Utf8Decode z k) \<le> 4"
  by (auto simp: Th8_Utf8Decode_def Let_def Suc_le_eq)

lemma decode_progress: "z \<noteq> [] \<Longrightarrow> length z - snd (Th8_Utf8Decode z k) < length z"
  using decode_width [of z k] by (cases z) auto

section \<open>Walking a buffer\<close>

function Th8_Utf8Len :: "string \<Rightarrow> nat" where
  "Th8_Utf8Len z = (if z = [] then 0 else 1 + Th8_Utf8Len (drop (snd (Th8_Utf8Decode z 0)) z))"
  by auto
termination
  by (relation "measure length") (simp_all add: decode_progress)

function utf8_advance_loop :: "string \<Rightarrow> nat \<Rightarrow> nat" where
  "utf8_advance_loop z nChar =
     (if z = [] \<or> nChar = 0 then 0
      else (let nByte = snd (Th8_Utf8Decode z 0)
            in nByte + utf8_advance_loop (drop nByte z) (nChar - 1)))"
  by auto
termination
  by (relation "measure snd") auto

definition Th8_Utf8Advance :: "string \<Rightarrow> int \<Rightarrow> nat" where
  "Th8_Utf8Advance z nChar = utf8_advance_loop z (nat nChar)"

definition Th8_Utf8Index :: "string \<Rightarrow> int \<Rightarrow> nat option" where
  "Th8_Utf8Index z iChar =
     (if iChar < 0 then None
      else (let p = Th8_Utf8Advance z iChar in if p > length z then None else Some p))"

text \<open>The result is the return code and the offset of the first bad byte, if there is one.\<close>

function utf8_validate_loop :: "string \<Rightarrow> nat \<Rightarrow> int \<times> nat option" where
  "utf8_validate_loop z i =
     (if z = [] then (TH8_OK, None)
      else (let cp = fst (Th8_Utf8Decode z 0); nByte = snd (Th8_Utf8Decode z 0)
            in if cp < 0 then (TH8_ERROR, Some i)
               else if cp \<ge> 0xD800 \<and> cp \<le> 0xDFFF then (TH8_ERROR, Some i)
               else if cp > 0x10FFFF then (TH8_ERROR, Some i)
               else utf8_validate_loop (drop nByte z) (i + nByte)))"
  by auto
termination
  by (relation "measure (length \<circ> fst)") (simp_all add: decode_progress)

definition Th8_Utf8Validate :: "string \<Rightarrow> int \<times> nat option" where
  "Th8_Utf8Validate z = utf8_validate_loop z 0"

declare Th8_Utf8Len.simps [simp del] utf8_advance_loop.simps [simp del] utf8_validate_loop.simps [simp del]

section \<open>Backslash substitution\<close>

definition hex_accum :: "string \<Rightarrow> 32 word" where
  "hex_accum ds = foldl (\<lambda>val d. push_bit 4 val OR word_of_int (th8HexVal d)) 0 ds"

definition oct_accum :: "string \<Rightarrow> 32 word" where
  "oct_accum ds = foldl (\<lambda>val d. push_bit 3 val OR word_of_int (c2i d - c2i (CHR ''0''))) 0 ds"

definition clamp_codepoint :: "int \<Rightarrow> int" where
  "clamp_codepoint val =
     (let v = (if val > 0x10FFFF then 0xFFFD else val)
      in if v \<ge> 0xD800 \<and> v \<le> 0xDFFF then 0xFFFD else v)"

definition th8SubstEscape :: "string \<Rightarrow> string" where
  "th8SubstEscape zEsc =
     (if length zEsc < 2 then [BSL]
      else
        (let e = zEsc ! 1
         in if e = CHR ''a'' then [CHR 0x07]
            else if e = CHR ''b'' then [CHR 0x08]
            else if e = CHR ''f'' then [FF]
            else if e = CHR ''n'' then [NL]
            else if e = CHR ''r'' then [CR]
            else if e = CHR ''t'' then [TAB]
            else if e = CHR ''v'' then [VT]
            else if e = BSL then [BSL]
            else if e = NL then '' ''
            else if e = CHR ''x'' then [char_of (unat (hex_accum (drop 2 zEsc) AND 0xFF))]
            else if e = CHR ''u'' \<or> e = CHR ''U'' then
              Th8_Utf8Encode (clamp_codepoint (sint (hex_accum (drop 2 zEsc))))
            else if th8IsOctDig (c2i e) then [char_of (unat (oct_accum (drop 1 zEsc) AND 0xFF))]
            else [e]))"

section \<open>Bits as arithmetic\<close>

lemma int_uchar: "(of_char c :: int) = int (uchar c)"
  by (rule of_nat_of_char [symmetric])

lemma decode_ascii: "uchar c < 128 \<Longrightarrow> Th8_Utf8Decode (c # r) k = (int (uchar c), 1)"
  by (simp add: Th8_Utf8Decode_def int_uchar)

lemma and_masks:
  "(x :: int) AND 0x3F = x mod 64" "x AND 0x1F = x mod 32" "x AND 0x0F = x mod 16" "x AND 0x07 = x mod 8"
  using take_bit_eq_mask [of 6 x] take_bit_eq_mask [of 5 x] take_bit_eq_mask [of 4 x] take_bit_eq_mask [of 3 x]
  by (simp_all add: mask_eq_exp_minus_1 take_bit_eq_mod)

lemma push_bit_or_low:
  assumes "0 \<le> b" "b < 2 ^ n"
  shows "push_bit n a OR b = a * 2 ^ n + (b :: int)"
proof -
  have "push_bit n a OR b = push_bit n a + b"
  proof (rule disjunctive_add [symmetric])
    fix i show "\<not> bit (push_bit n a) i \<or> \<not> bit b i"
    proof (cases "i < n")
      case False
      have "b = take_bit n b" using assms by (simp add: take_bit_eq_mod)
      then have "\<not> bit b i" using False by (metis bit_take_bit_iff)
      then show ?thesis by simp
    qed (simp add: bit_push_bit_iff)
  qed
  then show ?thesis by (simp add: push_bit_eq_mult)
qed

lemma lead_or:
  "0 \<le> (m :: int) \<Longrightarrow> m < 64 \<Longrightarrow> 0x80 OR m = 0x80 + m"
  "0 \<le> (m :: int) \<Longrightarrow> m < 32 \<Longrightarrow> 0xC0 OR m = 0xC0 + m"
  "0 \<le> (m :: int) \<Longrightarrow> m < 16 \<Longrightarrow> 0xE0 OR m = 0xE0 + m"
  "0 \<le> (m :: int) \<Longrightarrow> m < 8 \<Longrightarrow> 0xF0 OR m = 0xF0 + m"
  using push_bit_or_low [of m 6 2] push_bit_or_low [of m 5 6] push_bit_or_low [of m 4 14] push_bit_or_low [of m 3 30]
  by (simp_all add: push_bit_eq_mult)

lemma lead_masks:
  "int (uchar c) AND 0xE0 = 0xC0 \<longleftrightarrow> 192 \<le> int (uchar c) \<and> int (uchar c) < 224"
  "int (uchar c) AND 0xF0 = 0xE0 \<longleftrightarrow> 224 \<le> int (uchar c) \<and> int (uchar c) < 240"
  "int (uchar c) AND 0xF8 = 0xF0 \<longleftrightarrow> 240 \<le> int (uchar c) \<and> int (uchar c) < 248"
  by (rule all_char, code_simp)+

lemma push_bits_low:
  fixes x y z w :: int
  assumes "0 \<le> w" "w < 64"
  shows "push_bit 6 x OR w = x * 64 + w"
    and "0 \<le> y \<Longrightarrow> y < 64 \<Longrightarrow> push_bit 12 x OR push_bit 6 y OR w = (x * 64 + y) * 64 + w"
    and "0 \<le> y \<Longrightarrow> y < 64 \<Longrightarrow> 0 \<le> z \<Longrightarrow> z < 64 \<Longrightarrow>
      push_bit 18 x OR push_bit 12 y OR push_bit 6 z OR w = ((x * 64 + y) * 64 + z) * 64 + w"
proof -
  note low = push_bit_or_low [where n = 6, simplified]
  show "push_bit 6 x OR w = x * 64 + w" using assms by (rule low)
  show "push_bit 12 x OR push_bit 6 y OR w = (x * 64 + y) * 64 + w" if "0 \<le> y" "y < 64"
  proof -
    have "push_bit 12 x OR push_bit 6 y OR w = push_bit 6 (push_bit 6 x OR y) OR w"
      by (simp add: push_bit_or or.assoc)
    also have "\<dots> = (x * 64 + y) * 64 + w"
      by (simp only: low [OF that] low [OF assms])
    finally show ?thesis .
  qed
  show "push_bit 18 x OR push_bit 12 y OR push_bit 6 z OR w = ((x * 64 + y) * 64 + z) * 64 + w"
    if "0 \<le> y" "y < 64" "0 \<le> z" "z < 64"
  proof -
    have "push_bit 18 x OR push_bit 12 y OR push_bit 6 z OR w =
          push_bit 6 (push_bit 6 (push_bit 6 x OR y) OR z) OR w"
      by (simp add: push_bit_or or.assoc)
    also have "\<dots> = ((x * 64 + y) * 64 + z) * 64 + w"
      by (simp only: low [OF that(1,2)] low [OF that(3,4)] low [OF assms])
    finally show ?thesis .
  qed
qed

lemma decode_multi:
  "192 \<le> int (uchar a) \<Longrightarrow> int (uchar a) < 224 \<Longrightarrow>
   Th8_Utf8Decode (a # b # r) k = (int (uchar a) mod 32 * 64 + int (uchar b) mod 64, 2)"
  "224 \<le> int (uchar a) \<Longrightarrow> int (uchar a) < 240 \<Longrightarrow>
   Th8_Utf8Decode (a # b # c # r) k =
     ((int (uchar a) mod 16 * 64 + int (uchar b) mod 64) * 64 + int (uchar c) mod 64, 3)"
  "240 \<le> int (uchar a) \<Longrightarrow> int (uchar a) < 248 \<Longrightarrow>
   Th8_Utf8Decode (a # b # c # d # r) k =
     (((int (uchar a) mod 8 * 64 + int (uchar b) mod 64) * 64 + int (uchar c) mod 64) * 64
        + int (uchar d) mod 64, 4)"
  by (simp add: Th8_Utf8Decode_def Let_def int_uchar lead_masks and_masks push_bits_low(1))
    (simp add: Th8_Utf8Decode_def Let_def int_uchar lead_masks and_masks push_bits_low(2),
     simp add: Th8_Utf8Decode_def Let_def int_uchar lead_masks and_masks push_bits_low(3))

lemma encode_eq:
  assumes "0 \<le> cp" and "cp < 0x200000"
  shows "Th8_Utf8Encode cp =
     (if cp < 0x80 then [char_of cp]
      else if cp < 0x800 then [char_of (0xC0 + cp div 64), char_of (0x80 + cp mod 64)]
      else if cp < 0x10000 then
        [char_of (0xE0 + cp div 4096), char_of (0x80 + cp div 64 mod 64), char_of (0x80 + cp mod 64)]
      else
        [char_of (0xF0 + cp div 262144), char_of (0x80 + cp div 4096 mod 64),
         char_of (0x80 + cp div 64 mod 64), char_of (0x80 + cp mod 64)])"
proof -
  have "cp < 0x800 \<Longrightarrow> cp div 64 < 32" "cp < 0x10000 \<Longrightarrow> cp div 4096 < 16" "cp div 262144 < 8"
    using assms by (simp_all add: less_mult_imp_div_less)
  then show ?thesis
    using assms by (simp add: Th8_Utf8Encode_def and_masks drop_bit_eq_div lead_or)
qed


lemma base64_digits:
  fixes cp :: int
  shows "4096 * (cp div 4096) + 64 * (cp div 64 mod 64) + cp mod 64 = cp"
    and "262144 * (cp div 262144) + 4096 * (cp div 4096 mod 64) + 64 * (cp div 64 mod 64) + cp mod 64 = cp"
proof -
  have d: "cp div 4096 = cp div 64 div 64" "cp div 262144 = cp div 4096 div 64"
    by (simp_all add: div_mult2_eq [symmetric])
  have a: "64 * (cp div 64) + cp mod 64 = cp" by simp
  have b: "64 * (cp div 4096) + cp div 64 mod 64 = cp div 64" unfolding d(1) by simp
  have c: "64 * (cp div 262144) + cp div 4096 mod 64 = cp div 4096" unfolding d(2) by simp
  show "4096 * (cp div 4096) + 64 * (cp div 64 mod 64) + cp mod 64 = cp"
    using a b by linarith
  show "262144 * (cp div 262144) + 4096 * (cp div 4096 mod 64) + 64 * (cp div 64 mod 64) + cp mod 64 = cp"
    using a b c by linarith
qed

lemma uchar_char_of: "0 \<le> x \<Longrightarrow> x < 256 \<Longrightarrow> int (uchar (char_of x)) = (x :: int)"
  by (simp flip: int_uchar)

lemma decode_bytes:
  fixes a b c d :: int
  shows "0 \<le> a \<Longrightarrow> a < 32 \<Longrightarrow> 0 \<le> b \<Longrightarrow> b < 64 \<Longrightarrow>
      Th8_Utf8Decode (char_of (0xC0 + a) # char_of (0x80 + b) # r) k = (a * 64 + b, 2)"
    and "0 \<le> a \<Longrightarrow> a < 16 \<Longrightarrow> 0 \<le> b \<Longrightarrow> b < 64 \<Longrightarrow> 0 \<le> c \<Longrightarrow> c < 64 \<Longrightarrow>
      Th8_Utf8Decode (char_of (0xE0 + a) # char_of (0x80 + b) # char_of (0x80 + c) # r) k =
      ((a * 64 + b) * 64 + c, 3)"
    and "0 \<le> a \<Longrightarrow> a < 8 \<Longrightarrow> 0 \<le> b \<Longrightarrow> b < 64 \<Longrightarrow> 0 \<le> c \<Longrightarrow> c < 64 \<Longrightarrow> 0 \<le> d \<Longrightarrow> d < 64 \<Longrightarrow>
      Th8_Utf8Decode (char_of (0xF0 + a) # char_of (0x80 + b) # char_of (0x80 + c) # char_of (0x80 + d) # r) k =
      (((a * 64 + b) * 64 + c) * 64 + d, 4)"
proof -
  have lead: "(0xC0 + m) mod 32 = m mod 32" "(0xE0 + m) mod 16 = m mod 16" "(0xF0 + m) mod 8 = m mod 8"
    "(0x80 + m) mod 64 = m mod 64" for m :: int
    using mod_mult_self3 [of 6 32 m] mod_mult_self3 [of 14 16 m] mod_mult_self3 [of 30 8 m]
      mod_mult_self3 [of 2 64 m] by simp_all
  note u = uchar_char_of
  show "0 \<le> a \<Longrightarrow> a < 32 \<Longrightarrow> 0 \<le> b \<Longrightarrow> b < 64 \<Longrightarrow>
      Th8_Utf8Decode (char_of (0xC0 + a) # char_of (0x80 + b) # r) k = (a * 64 + b, 2)"
    by (subst decode_multi(1)) (simp_all add: u lead)
  show "0 \<le> a \<Longrightarrow> a < 16 \<Longrightarrow> 0 \<le> b \<Longrightarrow> b < 64 \<Longrightarrow> 0 \<le> c \<Longrightarrow> c < 64 \<Longrightarrow>
      Th8_Utf8Decode (char_of (0xE0 + a) # char_of (0x80 + b) # char_of (0x80 + c) # r) k =
      ((a * 64 + b) * 64 + c, 3)"
    by (subst decode_multi(2)) (simp_all add: u lead)
  show "0 \<le> a \<Longrightarrow> a < 8 \<Longrightarrow> 0 \<le> b \<Longrightarrow> b < 64 \<Longrightarrow> 0 \<le> c \<Longrightarrow> c < 64 \<Longrightarrow> 0 \<le> d \<Longrightarrow> d < 64 \<Longrightarrow>
      Th8_Utf8Decode (char_of (0xF0 + a) # char_of (0x80 + b) # char_of (0x80 + c) # char_of (0x80 + d) # r) k =
      (((a * 64 + b) * 64 + c) * 64 + d, 4)"
    by (subst decode_multi(3)) (simp_all add: u lead)
qed

lemma decode_encode:
  assumes "0 \<le> cp" and "cp < 0x200000"
  shows "Th8_Utf8Decode (Th8_Utf8Encode cp @ rest) k = (cp, length (Th8_Utf8Encode cp))"
proof -
  have m: "0 \<le> x mod 64" "x mod 64 < 64" for x :: int by simp_all
  consider "cp < 0x80" | "0x80 \<le> cp" "cp < 0x800" | "0x800 \<le> cp" "cp < 0x10000" | "0x10000 \<le> cp"
    by linarith
  then show ?thesis
  proof cases
    case 1
    then have "uchar (char_of cp) < 128" using uchar_char_of [of cp] assms by simp
    with 1 assms show ?thesis by (simp add: encode_eq decode_ascii uchar_char_of)
  next
    case 2
    then have "cp div 64 < 32" by (simp add: less_mult_imp_div_less)
    with 2 assms show ?thesis by (simp add: encode_eq [OF assms] decode_bytes(1))
  next
    case 3
    then have "cp div 4096 < 16" "0 \<le> cp div 4096" by (simp_all add: less_mult_imp_div_less)
    from decode_bytes(2) [OF this(2,1) m m, of "cp div 64" cp rest k] 3 base64_digits(1) [of cp]
    show ?thesis by (simp only: encode_eq [OF assms]) simp
  next
    case 4
    with assms have "cp div 262144 < 8" "0 \<le> cp div 262144" by (simp_all add: less_mult_imp_div_less)
    note dec = decode_bytes(3) [OF this(2,1) m m m, of "cp div 4096" "cp div 64" cp rest k]
    have "((a * 64 + b) * 64 + c) * 64 + d = 262144 * a + 4096 * b + 64 * c + d" for a b c d :: int
      by simp
    from this [of "cp div 262144" "cp div 4096 mod 64" "cp div 64 mod 64" "cp mod 64"] base64_digits(2) [of cp]
    have eq: "((cp div 262144 * 64 + cp div 4096 mod 64) * 64 + cp div 64 mod 64) * 64 + cp mod 64 = cp"
      by (simp only:)
    have "\<not> cp < 0x80" "\<not> cp < 0x800" "\<not> cp < 0x10000" using 4 by simp_all
    note enc = encode_eq [OF assms, unfolded if_not_P [OF this(1)] if_not_P [OF this(2)] if_not_P [OF this(3)]]
    show ?thesis by (simp only: enc append_Cons append_Nil dec eq list.size) simp
  qed
qed

section \<open>Texts of code points\<close>

definition codepoints_ok :: "int list \<Rightarrow> bool" where
  "codepoints_ok cps \<longleftrightarrow> (\<forall>cp \<in> set cps. 0 \<le> cp \<and> cp < 0x200000)"

abbreviation utf8_text :: "int list \<Rightarrow> string" where
  "utf8_text cps \<equiv> concat (map Th8_Utf8Encode cps)"

definition scalar :: "int \<Rightarrow> bool" where
  "scalar cp \<longleftrightarrow> 0 \<le> cp \<and> cp \<le> 0x10FFFF \<and> \<not> (0xD800 \<le> cp \<and> cp \<le> 0xDFFF)"

lemma encode_not_Nil [simp]: "Th8_Utf8Encode cp \<noteq> []"
  by (simp add: Th8_Utf8Encode_def)

lemma encode_length [th8_bound]: "length (Th8_Utf8Encode cp) \<in> {1..4}"
  by (simp add: Th8_Utf8Encode_def)

lemma codepoints_ok_simps [simp]:
  "codepoints_ok []"
  "codepoints_ok (cp # cps) \<longleftrightarrow> 0 \<le> cp \<and> cp < 0x200000 \<and> codepoints_ok cps"
  by (auto simp: codepoints_ok_def)

lemma utf8_len_text: "codepoints_ok cps \<Longrightarrow> Th8_Utf8Len (utf8_text cps) = length cps"
  by (induction cps) (simp_all add: Th8_Utf8Len.simps decode_encode)

lemma utf8_advance_text:
  "codepoints_ok cps \<Longrightarrow> utf8_advance_loop (utf8_text cps) k = length (utf8_text (take k cps))"
proof (induction cps arbitrary: k)
  case Nil
  then show ?case by (simp add: utf8_advance_loop.simps)
next
  case (Cons cp cps)
  then show ?case
    by (cases k) (simp_all add: utf8_advance_loop.simps [of "Th8_Utf8Encode cp @ _"] utf8_advance_loop.simps [of _ 0] decode_encode)
qed

lemma utf8_validate_text:
  "codepoints_ok cps \<Longrightarrow> utf8_validate_loop (utf8_text cps) i =
     (if \<forall>cp \<in> set cps. scalar cp then (TH8_OK, None)
      else (TH8_ERROR, Some (i + length (utf8_text (takeWhile scalar cps)))))"
proof (induction cps arbitrary: i)
  case Nil
  then show ?case by (simp add: utf8_validate_loop.simps)
next
  case (Cons cp cps)
  then show ?case
    by (subst utf8_validate_loop.simps) (auto simp: decode_encode scalar_def)
qed

lemma utf8_advance_le: "utf8_advance_loop z k \<le> length z"
proof (induction z k rule: utf8_advance_loop.induct)
  case (1 z k)
  then show ?case
    using decode_width [of z 0] by (subst utf8_advance_loop.simps) (auto simp: Let_def)
qed

section \<open>Digits of escapes\<close>

definition hex_value :: "string \<Rightarrow> int" where
  "hex_value ds = foldl (\<lambda>v d. v * 16 + th8HexVal d) 0 ds"

definition oct_value :: "string \<Rightarrow> int" where
  "oct_value ds = foldl (\<lambda>v d. v * 8 + (c2i d - c2i (CHR ''0''))) 0 ds"

abbreviation hex_digits :: "string \<Rightarrow> bool" where
  "hex_digits ds \<equiv> (\<forall>d \<in> set ds. th8IsHexDig (c2i d))"

abbreviation oct_digits :: "string \<Rightarrow> bool" where
  "oct_digits ds \<equiv> (\<forall>d \<in> set ds. th8IsOctDig (c2i d))"

lemma shift_or_word:
  fixes w :: "'a::len word"
  assumes "0 \<le> h" "h < 2 ^ n"
  shows "push_bit n w OR word_of_int h = w * 2 ^ n + word_of_int h"
proof -
  have h: "h = take_bit n h" using assms by (simp add: take_bit_eq_mod)
  have "push_bit n w OR word_of_int h = push_bit n w + word_of_int h"
  proof (rule disjunctive_add [symmetric])
    fix i
    have "\<not> bit h i" if "\<not> i < n" by (subst h) (simp add: that bit_take_bit_iff)
    then show "\<not> bit (push_bit n w) i \<or> \<not> bit (word_of_int h :: 'a word) i"
      by (auto simp: bit_push_bit_iff bit_word_of_int_iff)
  qed
  then show ?thesis by (simp add: push_bit_eq_mult)
qed

lemma hex_digit_range: "th8IsHexDig (c2i d) \<Longrightarrow> 0 \<le> th8HexVal d \<and> th8HexVal d < 16"
  using th8HexVal_hex [of d] th8HexVal_range [of d] by auto

lemma oct_digit_range: "th8IsOctDig (c2i d) \<Longrightarrow> 0 \<le> c2i d - c2i (CHR ''0'') \<and> c2i d - c2i (CHR ''0'') < 8"
  unfolding th8IsOctDig_iff by (auto simp: c2i_def)

lemma hex_accum_value: "hex_digits ds \<Longrightarrow> hex_accum ds = word_of_int (hex_value ds)"
proof (induction ds rule: rev_induct)
  case (snoc d ds)
  then show ?case using hex_digit_range [of d] shift_or_word [of "th8HexVal d" 4 "hex_accum ds"]
    by (simp add: hex_accum_def hex_value_def)
qed (simp add: hex_accum_def hex_value_def)

lemma oct_accum_value: "oct_digits ds \<Longrightarrow> oct_accum ds = word_of_int (oct_value ds)"
proof (induction ds rule: rev_induct)
  case (snoc d ds)
  then show ?case
    using oct_digit_range [of d] shift_or_word [of "c2i d - c2i (CHR ''0'')" 3 "oct_accum ds"]
    by (simp add: oct_accum_def oct_value_def)
qed (simp add: oct_accum_def oct_value_def)

lemma hex_value_range: "hex_digits ds \<Longrightarrow> 0 \<le> hex_value ds \<and> hex_value ds < 16 ^ length ds"
proof (induction ds rule: rev_induct)
  case (snoc d ds)
  then show ?case using hex_digit_range [of d] by (auto simp: hex_value_def)
qed (simp add: hex_value_def)


lemma char_of_low_byte: "char_of (unat (word_of_int v AND 0xFF :: 32 word)) = char_of v"
proof -
  have "(word_of_int v AND 0xFF :: 32 word) = take_bit 8 (word_of_int v)"
    by (simp add: take_bit_eq_mask mask_eq_exp_minus_1)
  then have "unat (word_of_int v AND 0xFF :: 32 word) = nat (take_bit 8 (take_bit 32 v))"
    by (simp add: unat_eq_nat_uint unsigned_take_bit_eq uint_word_of_int_eq)
  also have "\<dots> = nat (v mod 256)" by (simp add: take_bit_take_bit) (simp add: take_bit_eq_mod)
  finally show ?thesis
    using int_uchar [of "char_of v"] by (simp add: char_eq_uchar)
qed

lemma subst_hex_escape:
  "hex_digits ds \<Longrightarrow> th8SubstEscape (BSL # CHR ''x'' # ds) = [char_of (hex_value ds)]"
  by (simp add: th8SubstEscape_def hex_accum_value char_of_low_byte)

lemma subst_octal_escape:
  assumes "oct_digits ds" and "ds \<noteq> []"
  shows "th8SubstEscape (BSL # ds) = [char_of (oct_value ds)]"
proof -
  obtain d r where ds: "ds = d # r" using assms(2) by (cases ds) auto
  have "d \<notin> {CHR ''a'', CHR ''b'', CHR ''f'', CHR ''n'', CHR ''r'', CHR ''t'', CHR ''v'', BSL, NL,
      CHR ''x'', CHR ''u'', CHR ''U''}" "th8IsOctDig (c2i d)"
    using assms(1) by (auto simp: ds th8IsOctDig_iff)
  then have "th8SubstEscape (BSL # ds) = [char_of (unat (oct_accum ds AND 0xFF))]"
    by (simp add: ds th8SubstEscape_def)
  with assms(1) show ?thesis by (simp only: oct_accum_value char_of_low_byte)
qed

lemma subst_unicode_escape:
  assumes "e = CHR ''u'' \<or> e = CHR ''U''" and "hex_digits ds" and "length ds \<le> 8"
  shows "th8SubstEscape (BSL # e # ds) =
    (if hex_value ds < 2 ^ 31 then Th8_Utf8Encode (if scalar (hex_value ds) then hex_value ds else 0xFFFD)
     else [char_of (hex_value ds)])"
proof -
  let ?v = "hex_value ds"
  have v: "0 \<le> ?v" "?v < 2 ^ 32"
  proof -
    have "(16 :: int) ^ length ds \<le> 16 ^ 8" using assms(3) by (intro power_increasing) simp_all
    then show "0 \<le> ?v" "?v < 2 ^ 32" using hex_value_range [OF assms(2)] by simp_all
  qed
  have sub: "th8SubstEscape (BSL # e # ds) =
      Th8_Utf8Encode (clamp_codepoint (sint (word_of_int ?v :: 32 word)))"
    using assms(1,2) by (auto simp: th8SubstEscape_def hex_accum_value)
  note s = int_word_sint [where 'a = 32 and x = "?v", simplified]
  show ?thesis
  proof (cases "?v < 2 ^ 31")
    case True
    then have "sint (word_of_int ?v :: 32 word) = ?v"
      using v by (simp add: s mod_pos_pos_trivial)
    with True v show ?thesis by (auto simp: sub clamp_codepoint_def scalar_def Let_def)
  next
    case False
    have m: "(?v + 2 ^ 31) mod 2 ^ 32 = ?v - 2 ^ 31"
      using mod_add_self2 [of "?v - 2 ^ 31" "2 ^ 32"] v False by (simp add: mod_pos_pos_trivial add.commute)
    then have "sint (word_of_int ?v :: 32 word) = ?v - 2 ^ 32" by (simp add: s)
    moreover have "char_of (?v - 2 ^ 32) = (char_of ?v :: char)"
    proof -
      have "(?v - 2 ^ 32) mod 256 = ?v mod 256" using mod_mult_self1 [of ?v "- (2 ^ 24)" 256] by simp
      then show ?thesis by (metis char_of_mod_256)
    qed
    ultimately show ?thesis using v False
      by (simp add: sub clamp_codepoint_def Th8_Utf8Encode_def Let_def)
  qed
qed


section \<open>Properties\<close>

text \<open>
  C3: UTF-8 round trip. Every code point that fits four bytes decodes to itself and consumes exactly
  its own bytes, whatever follows; over a text, \<open>Th8_Utf8Len\<close> counts the code points and
  \<open>Th8_Utf8Index\<close> finds the byte offset of the \<open>k\<close>-th.
\<close>

theorem utf8_roundtrip:
  assumes "codepoints_ok cps" and "k < length cps"
  shows "Th8_Utf8Len (utf8_text cps) = length cps \<and>
    (\<exists>p. Th8_Utf8Index (utf8_text cps) (int k) = Some p \<and>
         p = length (utf8_text (take k cps)) \<and>
         fst (Th8_Utf8Decode (drop p (utf8_text cps)) 0) = cps ! k)"
proof -
  let ?p = "length (utf8_text (take k cps))"
  have split: "utf8_text cps = utf8_text (take k cps) @ Th8_Utf8Encode (cps ! k) @ utf8_text (drop (Suc k) cps)"
    by (subst id_take_nth_drop [OF assms(2)]) simp
  have "0 \<le> cps ! k" "cps ! k < 0x200000"
    using assms nth_mem [OF assms(2)] by (auto simp: codepoints_ok_def)
  then have "fst (Th8_Utf8Decode (drop ?p (utf8_text cps)) 0) = cps ! k"
    by (subst split) (simp add: decode_encode)
  moreover have "Th8_Utf8Index (utf8_text cps) (int k) = Some ?p"
    using utf8_advance_text [OF assms(1), of k] utf8_advance_le [of "utf8_text cps" k]
    by (simp add: Th8_Utf8Index_def Th8_Utf8Advance_def)
  ultimately show ?thesis using utf8_len_text [OF assms(1)] by blast
qed

theorem utf8_roundtrip_witness:
  "Th8_Utf8Len (utf8_text [0x61, 0xE9, 0x20AC, 0x1F600]) = 4 \<and>
   Th8_Utf8Index (utf8_text [0x61, 0xE9, 0x20AC, 0x1F600]) 3 = Some 6"
proof -
  have "codepoints_ok [0x61, 0xE9, 0x20AC, 0x1F600]" "3 < length [0x61 :: int, 0xE9, 0x20AC, 0x1F600]"
    by simp_all
  from utf8_roundtrip [OF this] show ?thesis by (simp add: Th8_Utf8Encode_def)
qed

text \<open>
  On encoded text \<open>Th8_Utf8Validate\<close> accepts exactly the sequences of Unicode scalar values, and
  otherwise reports the byte offset of the first code point that is a surrogate or above U+10FFFF.
\<close>

theorem utf8_validate_exact:
  assumes "codepoints_ok cps"
  shows "Th8_Utf8Validate (utf8_text cps) =
    (if \<forall>cp \<in> set cps. scalar cp then (TH8_OK, None)
     else (TH8_ERROR, Some (length (utf8_text (takeWhile scalar cps)))))"
  using utf8_validate_text [OF assms, of 0] by (simp add: Th8_Utf8Validate_def)

theorem utf8_validate_exact_witness:
  "Th8_Utf8Validate (utf8_text [0x20AC, 0xD800]) = (TH8_ERROR, Some 3)"
proof -
  have "codepoints_ok [0x20AC, 0xD800]" by simp
  from utf8_validate_exact [OF this] show ?thesis by (simp add: scalar_def Th8_Utf8Encode_def)
qed

text \<open>
  The validator checks neither that an encoding is the shortest one nor that the bytes after the
  lead byte are continuation bytes: every two-byte form with lead byte 192 or 193, whatever the second
  byte, is accepted.
\<close>

lemma utf8_overlong_accepted:
  "c \<in> {CHR 0xC0, CHR 0xC1} \<Longrightarrow> Th8_Utf8Validate [c, d] = (TH8_OK, None)"
proof -
  assume c: "c \<in> {CHR 0xC0, CHR 0xC1}"
  then have u: "192 \<le> int (uchar c)" "int (uchar c) < 224" "int (uchar c) mod 32 \<le> 1" by auto
  have "int (uchar d) mod 64 < 64" "0 \<le> int (uchar d) mod 64" by simp_all
  with u(3) have "\<not> int (uchar c) mod 32 * 64 + int (uchar d) mod 64 \<ge> 0xD800"
    "0 \<le> int (uchar c) mod 32 * 64 + int (uchar d) mod 64" by linarith+
  with u(1,2) show ?thesis
    by (simp add: Th8_Utf8Validate_def utf8_validate_loop.simps [of "[c, d]"] decode_multi(1) Let_def)
      (simp add: utf8_validate_loop.simps)
qed

lemma utf8_overlong_accepted_witness:
  "Th8_Utf8Validate [CHR 0xC0, CHR ''a''] = (TH8_OK, None)"
  by (rule utf8_overlong_accepted) simp

text \<open>
  The numeric escapes. A hexadecimal escape yields the low byte of its digits, an octal escape the
  low byte of its digits, and a Unicode escape of value below \<open>2 ^ 31\<close> the UTF-8 form of its value, with
  U+FFFD in place of surrogates and of values above U+10FFFF. From \<open>2 ^ 31\<close> on the 32-bit accumulator is
  negative, the clamp does not see it, and a single raw byte is written.
\<close>

theorem numeric_escapes:
  "(hex_digits ds \<longrightarrow> th8SubstEscape (BSL # CHR ''x'' # ds) = [char_of (hex_value ds)]) \<and>
   (oct_digits ds \<longrightarrow> ds \<noteq> [] \<longrightarrow> th8SubstEscape (BSL # ds) = [char_of (oct_value ds)]) \<and>
   (hex_digits ds \<longrightarrow> length ds \<le> 8 \<longrightarrow> hex_value ds < 2 ^ 31 \<longrightarrow>
      th8SubstEscape (BSL # CHR ''U'' # ds) =
      Th8_Utf8Encode (if scalar (hex_value ds) then hex_value ds else 0xFFFD)) \<and>
   (hex_digits ds \<longrightarrow> length ds \<le> 8 \<longrightarrow> 2 ^ 31 \<le> hex_value ds \<longrightarrow>
      th8SubstEscape (BSL # CHR ''U'' # ds) = [char_of (hex_value ds)])"
  using subst_hex_escape [of ds] subst_octal_escape [of ds] subst_unicode_escape [of "CHR ''U''" ds]
  by simp

theorem numeric_escapes_witness:
  "th8SubstEscape (BSL # CHR ''x'' # ''141'') = ''A'' \<and> th8SubstEscape (BSL # ''141'') = ''a'' \<and>
   th8SubstEscape (BSL # CHR ''U'' # ''FFFFFFFF'') = [CHR 0xFF]"
proof -
  have h: "hex_digits ''141''" "oct_digits ''141''" by code_simp+
  have f: "hex_digits ''FFFFFFFF''" by code_simp
  have v: "hex_value ''141'' = 0x141" "oct_value ''141'' = 97" "hex_value ''FFFFFFFF'' = 0xFFFFFFFF"
    by code_simp+
  from numeric_escapes [of "''141''"] numeric_escapes [of "''FFFFFFFF''"] show ?thesis
    using h f by (simp add: v char_of_def)
qed

text \<open>
  A \<open>\x\<close> escape without digits is two bytes long for the scanner and is substituted by a NUL byte.
\<close>

lemma bare_hex_escape:
  "th8NextEscape (BSL # ''xyz'') = Some 2 \<and> th8SubstEscape (take 2 (BSL # ''xyz'')) = [NUL]"
  by code_simp

end
