(* ===== verification/Th8_Hashing.thy ===== *)
theory Th8_Hashing
  imports Th8_Prelude
begin

text \<open>
  The hash tables of \<open>src/src/th8_hash.c\<close>: the SipHash-2-4 bucket function and its seeding, the chained
  table with insertion-order stamps, and unordered and ordered iteration.

  A table is its 257 bucket chains and the stamp counter. A \<open>Th8_HashEntry *\<close> is represented by the key
  of the entry, which identifies it in its table. Every allocation the code makes has an outcome
  parameter, and \<open>Th8_Ready\<close> is asked at numbered operations, so its answers are a function of that
  number. The payload of an entry is \<open>pData\<close>, \<open>None\<close> for the null pointer.

  The theorems: the bucket function is SipHash-2-4 of the key, the table refines a finite map with
  insertion order, iteration visits every entry once, and ordered iteration visits them sorted by
  insertion stamp or reports an error.
\<close>

section \<open>SipHash\<close>

type_synonym sip_state = "64 word \<times> 64 word \<times> 64 word \<times> 64 word"

definition rot64 :: "nat \<Rightarrow> 64 word \<Rightarrow> 64 word" where
  "rot64 k v = push_bit k v OR drop_bit (64 - k) v"

definition SIPROUND :: "sip_state \<Rightarrow> sip_state" where
  "SIPROUND = (\<lambda>(v0, v1, v2, v3).
     let v0 = v0 + v1; v1 = rot64 13 v1; v1 = v1 XOR v0; v0 = rot64 32 v0;
         v2 = v2 + v3; v3 = rot64 16 v3; v3 = v3 XOR v2;
         v0 = v0 + v3; v3 = rot64 21 v3; v3 = v3 XOR v0;
         v2 = v2 + v1; v1 = rot64 17 v1; v1 = v1 XOR v2; v2 = rot64 32 v2
     in (v0, v1, v2, v3))"

text \<open>Little-endian assembly of bytes into a word, byte \<open>i\<close> shifted by \<open>8 * i\<close>.\<close>

fun le_bytes :: "nat \<Rightarrow> string \<Rightarrow> 64 word" where
  "le_bytes i [] = 0"
| "le_bytes i (c # cs) = push_bit (8 * i) (of_nat (uchar c)) OR le_bytes (i + 1) cs"

definition sip_mix :: "64 word \<Rightarrow> sip_state \<Rightarrow> sip_state" where
  "sip_mix m = (\<lambda>(v0, v1, v2, v3).
     let (v0, v1, v2, v3) = SIPROUND (SIPROUND (v0, v1, v2, v3 XOR m))
     in (v0 XOR m, v1, v2, v3))"

fun sip_blocks :: "nat \<Rightarrow> string \<Rightarrow> sip_state \<Rightarrow> sip_state" where
  "sip_blocks 0 p v = v"
| "sip_blocks (Suc n) p v = sip_blocks n (drop 8 p) (sip_mix (le_bytes 0 (take 8 p)) v)"

abbreviation TH8_HASH_SIZE :: nat where "TH8_HASH_SIZE \<equiv> 257"

record hash_seed =
  th8HashSeed0 :: "64 word"
  th8HashSeed1 :: "64 word"
  th8HashSeeded :: bool

definition seed_init :: hash_seed where
  "seed_init = \<lparr>th8HashSeed0 = 0x736f6d6570736575, th8HashSeed1 = 0x646f72616e646f6d,
                th8HashSeeded = False\<rparr>"

text \<open>
  \<open>xRandomBytes\<close> of the platform is a parameter: \<open>None\<close> when there is no platform, no callback, or the
  callback fails, otherwise the sixteen bytes it delivers.
\<close>

definition th8SeedHash :: "string option \<Rightarrow> hash_seed \<Rightarrow> hash_seed" where
  "th8SeedHash random s =
     (if th8HashSeeded s then s
      else
        (let s = s\<lparr>th8HashSeeded := True\<rparr>
         in case random of
              None \<Rightarrow> s
            | Some buf \<Rightarrow> s\<lparr>th8HashSeed0 := le_bytes 0 (take 8 buf),
                            th8HashSeed1 := le_bytes 0 (take 8 (drop 8 buf))\<rparr>))"

definition sip_hash :: "hash_seed \<Rightarrow> string \<Rightarrow> 64 word" where
  "sip_hash s zKey =
     (let nKey = length zKey; nBlocks = nKey div 8;
          v = (th8HashSeed0 s XOR 0x736f6d6570736575, th8HashSeed1 s XOR 0x646f72616e646f6d,
               th8HashSeed0 s XOR 0x6c7967656e657261, th8HashSeed1 s XOR 0x7465646279746573);
          v = sip_blocks nBlocks zKey v;
          b = push_bit 56 (of_nat nKey) OR le_bytes 0 (drop (nBlocks * 8) zKey);
          (v0, v1, v2, v3) = sip_mix b v;
          (v0, v1, v2, v3) = SIPROUND (SIPROUND (SIPROUND (SIPROUND (v0, v1, v2 XOR 0xff, v3))))
      in v0 XOR v1 XOR v2 XOR v3)"

definition th8HashKey :: "hash_seed \<Rightarrow> string \<Rightarrow> nat" where
  "th8HashKey s zKey = unat (sip_hash s zKey) mod TH8_HASH_SIZE"

section \<open>The table\<close>

record 'd hash_entry =
  he_key :: string
  he_data :: "'d option"
  he_order :: int

record 'd hash_table =
  aBucket :: "'d hash_entry list list"
  nNextOrder :: int

abbreviation TH8_INT64_MAX :: int where "TH8_INT64_MAX \<equiv> 2 ^ 63 - 1"

definition hash_empty :: "'d hash_table" where
  "hash_empty = \<lparr>aBucket = replicate TH8_HASH_SIZE [], nNextOrder = 0\<rparr>"

definition Th8_HashNew :: "bool \<Rightarrow> 'd hash_table option" where
  "Th8_HashNew ok = (if ok then Some hash_empty else None)"

text \<open>\<open>Th8_HashDelete\<close> gives back, in order, the keys whose entry and key copy it frees.\<close>

definition Th8_HashDelete :: "'d hash_table option \<Rightarrow> string list" where
  "Th8_HashDelete pHash =
     (case pHash of None \<Rightarrow> [] | Some h \<Rightarrow> concat (map (map he_key) (aBucket h)))"

fun chain_remove :: "string \<Rightarrow> 'd hash_entry list \<Rightarrow> 'd hash_entry list" where
  "chain_remove k [] = []"
| "chain_remove k (p # ps) = (if he_key p = k then ps else p # chain_remove k ps)"

definition Th8_HashFind ::
  "hash_seed \<Rightarrow> bool \<times> bool \<Rightarrow> 'd hash_table \<Rightarrow> string \<Rightarrow> int \<Rightarrow> 'd hash_table \<times> string option" where
  "Th8_HashFind s allocs pHash zKey op =
     (let iBucket = th8HashKey s zKey; chain = aBucket pHash ! iBucket
      in if \<exists>p \<in> set chain. he_key p = zKey then
           (if op < 0 then
              (pHash\<lparr>aBucket := (aBucket pHash)[iBucket := chain_remove zKey chain]\<rparr>, None)
            else (pHash, Some zKey))
         else if op > 0 then
           (if \<not> fst allocs then (pHash, None)
            else if \<not> snd allocs then (pHash, None)
            else
              (let (order, next) =
                     (if nNextOrder pHash < TH8_INT64_MAX then (nNextOrder pHash, nNextOrder pHash + 1)
                      else (TH8_INT64_MAX, nNextOrder pHash));
                   p = \<lparr>he_key = zKey, he_data = None, he_order = order\<rparr>
               in (pHash\<lparr>aBucket := (aBucket pHash)[iBucket := p # chain], nNextOrder := next\<rparr>,
                   Some zKey)))
         else (pHash, None))"

definition Th8_HashRemove :: "hash_seed \<Rightarrow> 'd hash_table \<Rightarrow> string \<Rightarrow> 'd hash_table" where
  "Th8_HashRemove s pHash zKey = fst (Th8_HashFind s (True, True) pHash zKey (- 1))"

text \<open>Reading and assigning \<open>pEntry->pData\<close> through an entry pointer.\<close>

definition entry_data :: "hash_seed \<Rightarrow> 'd hash_table \<Rightarrow> string \<Rightarrow> 'd option" where
  "entry_data s h k =
     (case find (\<lambda>p. he_key p = k) (aBucket h ! th8HashKey s k) of
        None \<Rightarrow> None | Some p \<Rightarrow> he_data p)"

definition entry_set_data :: "hash_seed \<Rightarrow> 'd hash_table \<Rightarrow> string \<Rightarrow> 'd option \<Rightarrow> 'd hash_table" where
  "entry_set_data s h k d =
     (let i = th8HashKey s k
      in h\<lparr>aBucket := (aBucket h)[i :=
           map (\<lambda>p. if he_key p = k then p\<lparr>he_data := d\<rparr> else p) (aBucket h ! i)]\<rparr>)"

section \<open>Iteration\<close>

text \<open>The callback is a function on the context; its return code stops the walk.\<close>

fun iterate_chain ::
  "('d hash_entry \<Rightarrow> 'c \<Rightarrow> int \<times> 'c) \<Rightarrow> 'd hash_entry list \<Rightarrow> 'c \<Rightarrow> bool \<times> 'c" where
  "iterate_chain xCb [] pCtx = (True, pCtx)"
| "iterate_chain xCb (p # ps) pCtx =
     (let (rc, pCtx) = xCb p pCtx
      in if rc \<noteq> TH8_OK then (False, pCtx) else iterate_chain xCb ps pCtx)"

fun iterate_buckets ::
  "('d hash_entry \<Rightarrow> 'c \<Rightarrow> int \<times> 'c) \<Rightarrow> 'd hash_entry list list \<Rightarrow> 'c \<Rightarrow> 'c" where
  "iterate_buckets xCb [] pCtx = pCtx"
| "iterate_buckets xCb (b # bs) pCtx =
     (let (go, pCtx) = iterate_chain xCb b pCtx
      in if go then iterate_buckets xCb bs pCtx else pCtx)"

definition Th8_HashIterate ::
  "'d hash_table option \<Rightarrow> ('d hash_entry \<Rightarrow> 'c \<Rightarrow> int \<times> 'c) \<Rightarrow> 'c \<Rightarrow> 'c" where
  "Th8_HashIterate pHash xCb pCtx =
     (case pHash of None \<Rightarrow> pCtx | Some h \<Rightarrow> iterate_buckets xCb (aBucket h) pCtx)"

text \<open>
  Ordered iteration polls \<open>Th8_Ready\<close> when the low twelve bits of its operation counter are zero. A
  polled step yields the new counter, or nothing when the interpreter is not ready. The argument of
  \<open>ready\<close> says which phase polls, and at which count.
\<close>

definition poll :: "(nat \<Rightarrow> bool) \<Rightarrow> nat \<Rightarrow> nat option" where
  "poll ready nOp = (if nOp mod 4096 = 0 \<and> \<not> ready nOp then None else Some (nOp + 1))"

fun polls :: "(nat \<Rightarrow> bool) \<Rightarrow> nat \<Rightarrow> nat \<Rightarrow> nat option" where
  "polls ready nOp 0 = Some nOp"
| "polls ready nOp (Suc n) =
     (case poll ready nOp of None \<Rightarrow> None | Some nOp' \<Rightarrow> polls ready nOp' n)"

fun sort_merge ::
  "(nat \<Rightarrow> bool) \<Rightarrow> nat \<Rightarrow> 'd hash_entry list \<Rightarrow> 'd hash_entry list \<Rightarrow> 'd hash_entry list \<Rightarrow>
   (nat \<times> 'd hash_entry list) option" where
  "sort_merge ready nOp [] ys out =
     map_option (\<lambda>nOp'. (nOp', rev out @ ys)) (polls ready nOp (length ys))"
| "sort_merge ready nOp xs [] out =
     map_option (\<lambda>nOp'. (nOp', rev out @ xs)) (polls ready nOp (length xs))"
| "sort_merge ready nOp (x # xs) (y # ys) out =
     (case poll ready nOp of
        None \<Rightarrow> None
      | Some nOp' \<Rightarrow>
          if he_order x \<le> he_order y then sort_merge ready nOp' xs (y # ys) (x # out)
          else sort_merge ready nOp' (x # xs) ys (y # out))"

text \<open>
  One pass merges neighbouring runs of \<open>width\<close> entries into the scratch array; \<open>fuel\<close> bounds the number
  of run pairs, and the length of the array is always enough.
\<close>

fun sort_runs ::
  "(nat \<Rightarrow> bool) \<Rightarrow> nat \<Rightarrow> nat \<Rightarrow> nat \<Rightarrow> 'd hash_entry list \<Rightarrow> (nat \<times> 'd hash_entry list) option" where
  "sort_runs ready width 0 nOp ap = Some (nOp, [])"
| "sort_runs ready width (Suc fuel) nOp ap =
     (if ap = [] then Some (nOp, [])
      else
        (case sort_merge ready nOp (take width ap) (take width (drop width ap)) [] of
           None \<Rightarrow> None
         | Some (nOp', out) \<Rightarrow>
             map_option (\<lambda>(nOp'', rest). (nOp'', out @ rest))
               (sort_runs ready width fuel nOp' (drop (2 * width) ap))))"

definition sort_pass ::
  "(nat \<Rightarrow> bool) \<Rightarrow> nat \<Rightarrow> nat \<Rightarrow> 'd hash_entry list \<Rightarrow> (nat \<times> 'd hash_entry list) option" where
  "sort_pass ready width nOp ap =
     (case sort_runs ready width (length ap) nOp ap of
        None \<Rightarrow> None
      | Some (nOp', aTmp) \<Rightarrow>
          map_option (\<lambda>nOp''. (nOp'', aTmp)) (polls ready nOp' (length ap)))"

function sort_widths ::
  "(nat \<Rightarrow> bool) \<Rightarrow> nat \<Rightarrow> nat \<Rightarrow> nat \<Rightarrow> 'd hash_entry list \<Rightarrow> 'd hash_entry list option" where
  "sort_widths ready nEntry width nOp ap =
     (if width = 0 \<or> width \<ge> nEntry then Some ap
      else
        (case sort_pass ready width nOp ap of
           None \<Rightarrow> None
         | Some (nOp', ap') \<Rightarrow> sort_widths ready nEntry (width * 2) nOp' ap'))"
  by auto
termination
  by (relation "measure (\<lambda>(_, nEntry, width, _, _). nEntry - width)") auto

declare sort_widths.simps [simp del]

definition th8HashSortByOrder ::
  "(nat \<Rightarrow> bool) \<Rightarrow> 'd hash_entry list \<Rightarrow> 'd hash_entry list option" where
  "th8HashSortByOrder ready ap = sort_widths ready (length ap) 1 0 ap"

text \<open>
  The three phases of the ordered walk count separately: the bucket walks share one counter, the sort
  has its own, and the callback loop polls at its index.
\<close>

record ordered_env =
  ready_walk :: "nat \<Rightarrow> bool"
  ready_sort :: "nat \<Rightarrow> bool"
  ready_visit :: "nat \<Rightarrow> bool"
  alloc_entry :: bool
  alloc_tmp :: bool

fun visit_ordered ::
  "(nat \<Rightarrow> bool) \<Rightarrow> ('d hash_entry \<Rightarrow> 'c \<Rightarrow> int \<times> 'c) \<Rightarrow> nat \<Rightarrow> 'd hash_entry list \<Rightarrow> 'c \<Rightarrow> int \<times> 'c" where
  "visit_ordered ready xCb i [] pCtx = (TH8_OK, pCtx)"
| "visit_ordered ready xCb i (p # ps) pCtx =
     (if i mod 4096 = 0 \<and> \<not> ready i then (TH8_ERROR, pCtx)
      else
        (let (rc, pCtx) = xCb p pCtx
         in if rc \<noteq> TH8_OK then (TH8_OK, pCtx) else visit_ordered ready xCb (i + 1) ps pCtx))"

definition Th8_HashIterateOrdered ::
  "ordered_env \<Rightarrow> 'd hash_table \<Rightarrow> ('d hash_entry \<Rightarrow> 'c \<Rightarrow> int \<times> 'c) \<Rightarrow> 'c \<Rightarrow> int \<times> 'c" where
  "Th8_HashIterateOrdered env pHash xCb pCtx =
     (let live = concat (aBucket pHash)
      in case polls (ready_walk env) 0 (length live) of
           None \<Rightarrow> (TH8_ERROR, pCtx)
         | Some nOp \<Rightarrow>
             if live = [] then (TH8_OK, pCtx)
             else if \<not> alloc_entry env then (TH8_ERROR, pCtx)
             else if \<not> alloc_tmp env then (TH8_ERROR, pCtx)
             else
               (case polls (ready_walk env) nOp (length live) of
                  None \<Rightarrow> (TH8_ERROR, pCtx)
                | Some _ \<Rightarrow>
                    (case (if length live > 1 then th8HashSortByOrder (ready_sort env) live
                           else Some live) of
                       None \<Rightarrow> (TH8_ERROR, pCtx)
                     | Some apEntry \<Rightarrow> visit_ordered (ready_visit env) xCb 0 apEntry pCtx)))"

section \<open>SipHash-2-4 as published\<close>

text \<open>
  The specification follows the paper: the round with rotations and its operations in the published
  order, and the message padded with zero bytes to a multiple of eight whose last byte is the length.
\<close>

definition ref_round :: "sip_state \<Rightarrow> sip_state" where
  "ref_round = (\<lambda>(v0, v1, v2, v3).
     let v0 = v0 + v1; v2 = v2 + v3;
         v1 = word_rotl 13 v1; v3 = word_rotl 16 v3;
         v1 = v1 XOR v0; v3 = v3 XOR v2;
         v0 = word_rotl 32 v0;
         v2 = v2 + v1; v0 = v0 + v3;
         v1 = word_rotl 17 v1; v3 = word_rotl 21 v3;
         v1 = v1 XOR v2; v3 = v3 XOR v0;
         v2 = word_rotl 32 v2
     in (v0, v1, v2, v3))"

definition ref_mix :: "sip_state \<Rightarrow> 64 word \<Rightarrow> sip_state" where
  "ref_mix = (\<lambda>(v0, v1, v2, v3) m.
     let (v0, v1, v2, v3) = (ref_round ^^ 2) (v0, v1, v2, v3 XOR m) in (v0 XOR m, v1, v2, v3))"

definition sip_padded :: "string \<Rightarrow> string" where
  "sip_padded z = z @ replicate (7 - length z mod 8) NUL @ [char_of (length z)]"

fun sip_words :: "string \<Rightarrow> 64 word list" where
  "sip_words (a # b # c # d # e # f # g # h # z) =
     (\<Sum>i<8. of_nat (uchar ([a, b, c, d, e, f, g, h] ! i)) * 256 ^ i) # sip_words z"
| "sip_words _ = []"

definition siphash24 :: "64 word \<Rightarrow> 64 word \<Rightarrow> string \<Rightarrow> 64 word" where
  "siphash24 k0 k1 z =
     (let v = (k0 XOR 0x736f6d6570736575, k1 XOR 0x646f72616e646f6d,
               k0 XOR 0x6c7967656e657261, k1 XOR 0x7465646279746573);
          (v0, v1, v2, v3) = foldl ref_mix v (sip_words (sip_padded z));
          (v0, v1, v2, v3) = (ref_round ^^ 4) (v0, v1, v2 XOR 0xff, v3)
      in v0 XOR v1 XOR v2 XOR v3)"

lemma bit_word_of_nat: "bit (of_nat n :: 'a::len word) i \<longleftrightarrow> i < LENGTH('a) \<and> bit n i"
  by transfer (simp add: bit_take_bit_iff bit_of_nat_iff)

lemma rot64_rotl:
  assumes "k < 64"
  shows "rot64 k v = word_rotl k v"
proof (rule bit_word_eqI)
  fix n assume n: "n < LENGTH(64)"
  show "bit (rot64 k v) n \<longleftrightarrow> bit (word_rotl k v) n"
  proof (cases "k \<le> n")
    case True
    then have "n + (64 - k) = (n - k) + 64" using assms by simp
    then have "(n + (64 - k)) mod 64 = n - k" using n by (simp only: mod_add_self2) simp
    moreover have "\<not> bit v (64 - k + n)" using True assms bit_imp_le_length [of v] by fastforce
    ultimately show ?thesis using True n assms
      by (simp add: rot64_def bit_or_iff bit_push_bit_iff bit_drop_bit_eq bit_word_rotl_iff)
  next
    case False
    then have "(n + (64 - k)) mod 64 = 64 - k + n" using assms by simp
    then show ?thesis using False n assms
      by (simp add: rot64_def bit_or_iff bit_push_bit_iff bit_drop_bit_eq bit_word_rotl_iff)
  qed
qed

lemma SIPROUND_ref: "SIPROUND = ref_round"
  by (simp add: SIPROUND_def ref_round_def rot64_rotl fun_eq_iff Let_def)

lemma sip_mix_ref: "sip_mix m v = ref_mix v m"
  by (cases v) (simp add: sip_mix_def ref_mix_def SIPROUND_ref numeral_2_eq_2)

lemma uchar_bits: "bit (of_nat (uchar c) :: 64 word) i \<Longrightarrow> i < 8"
proof -
  have u: "uchar c < 2 ^ 8" by simp
  assume "bit (of_nat (uchar c) :: 64 word) i"
  then have "bit (uchar c) i" by (simp add: bit_word_of_nat)
  moreover have "uchar c = take_bit 8 (uchar c)" using u by (simp only: take_bit_nat_eq_self)
  ultimately show "i < 8" by (metis bit_take_bit_iff)
qed

lemma le_bytes_bits: "bit (le_bytes k cs) i \<Longrightarrow> 8 * k \<le> i"
proof (induction cs arbitrary: k)
  case (Cons c cs)
  from Cons.prems show ?case using Cons.IH [of "k + 1"] by (auto simp: bit_simps)
qed simp

lemma le_bytes_sum: "le_bytes k cs = (\<Sum>i<length cs. of_nat (uchar (cs ! i)) * 256 ^ (k + i))"
proof (induction cs arbitrary: k)
  case (Cons c cs)
  have "le_bytes k (c # cs) = push_bit (8 * k) (of_nat (uchar c)) + le_bytes (k + 1) cs"
    unfolding le_bytes.simps
  proof (rule disjunctive_add [symmetric])
    fix i
    show "\<not> bit (push_bit (8 * k) (of_nat (uchar c)) :: 64 word) i \<or> \<not> bit (le_bytes (k + 1) cs) i"
      using uchar_bits [of c "i - 8 * k"] le_bytes_bits [of "k + 1" cs i]
      by (auto simp: bit_push_bit_iff)
  qed
  also have "push_bit (8 * k) (of_nat (uchar c) :: 64 word) = of_nat (uchar c) * 256 ^ k"
    by (simp add: push_bit_eq_mult power_mult)
  finally show ?case
    using Cons.IH [of "k + 1"] by (simp add: sum.lessThan_Suc_shift del: sum.lessThan_Suc)
qed simp


lemma le_bytes_append: "le_bytes k (xs @ ys) = le_bytes k xs OR le_bytes (k + length xs) ys"
  by (induction xs arbitrary: k) (simp_all add: or.assoc)

lemma le_bytes_zeros: "le_bytes k (replicate n NUL) = 0"
  by (induction n arbitrary: k) simp_all

lemma sip_words_Cons8:
  "length b = 8 \<Longrightarrow> sip_words (b @ z) = le_bytes 0 b # sip_words z"
proof -
  assume "length b = 8"
  then have sum: "le_bytes 0 b = (\<Sum>i<8. of_nat (uchar (b ! i)) * 256 ^ i)" by (simp add: le_bytes_sum)
  from \<open>length b = 8\<close> obtain b0 b1 b2 b3 b4 b5 b6 b7 where "b = [b0, b1, b2, b3, b4, b5, b6, b7]"
    by (auto simp: length_Suc_conv eval_nat_numeral)
  then show ?thesis using sum by (simp only: append_Cons append_Nil sip_words.simps)
qed

lemma length_byte_word: "push_bit 56 (of_nat n :: 64 word) = push_bit 56 (of_nat (n mod 256))"
proof (rule bit_word_eqI)
  fix i assume "i < LENGTH(64)"
  moreover have "n mod 256 = take_bit 8 n" by (simp add: take_bit_eq_mod)
  ultimately show "bit (push_bit 56 (of_nat n :: 64 word)) i \<longleftrightarrow> bit (push_bit 56 (of_nat (n mod 256) :: 64 word)) i"
    by (auto simp: bit_push_bit_iff bit_word_of_nat bit_take_bit_iff)
qed

lemma sip_last_word:
  assumes "length t < 8" and "n mod 8 = length t"
  shows "sip_words (t @ replicate (7 - length t) NUL @ [char_of n]) =
         [push_bit 56 (of_nat n) OR le_bytes 0 t]"
proof -
  let ?b = "t @ replicate (7 - length t) NUL @ [char_of n]"
  have "length ?b = 8" using assms(1) by simp
  then have "sip_words ?b = [le_bytes 0 ?b]"
    using sip_words_Cons8 [of ?b "[]"] by simp
  also have "le_bytes 0 ?b = push_bit 56 (of_nat n) OR le_bytes 0 t"
    using assms(1) by (simp add: le_bytes_append le_bytes_zeros length_byte_word [of n] or.commute)
  finally show ?thesis .
qed

lemma sip_blocks_ref:
  "length z div 8 = n \<Longrightarrow>
   foldl ref_mix v (sip_words (z @ r)) = foldl ref_mix (sip_blocks n z v) (sip_words (drop (n * 8) z @ r))"
proof (induction n arbitrary: z v)
  case (Suc n)
  then have len: "8 \<le> length z" by (metis div_less not_less nat.distinct(1))
  then have "length (drop 8 z) div 8 = n" using Suc.prems by (simp add: le_div_geq)
  from Suc.IH [OF this] have "foldl ref_mix (sip_mix (le_bytes 0 (take 8 z)) v) (sip_words (drop 8 z @ r)) =
    foldl ref_mix (sip_blocks (Suc n) z v) (sip_words (drop (Suc n * 8) z @ r))"
    by (simp add: add.commute)
  moreover have "sip_words (z @ r) = le_bytes 0 (take 8 z) # sip_words (drop 8 z @ r)"
    using sip_words_Cons8 [of "take 8 z" "drop 8 z @ r"] len
    by (simp flip: append_assoc)
  ultimately show ?case by (simp add: sip_mix_ref)
qed simp

lemma sip_hash_ref: "sip_hash s z = siphash24 (th8HashSeed0 s) (th8HashSeed1 s) z"
proof -
  let ?n = "length z div 8" and ?t = "drop (length z div 8 * 8) z"
  have four: "(ref_round ^^ 4) v = ref_round (ref_round (ref_round (ref_round v)))" for v
    by (simp add: numeral_eq_Suc)
  have t: "length ?t = length z mod 8" by (simp add: minus_div_mult_eq_mod)
  have t8: "length ?t < 8" unfolding t by simp
  let ?pad = "replicate (7 - length ?t) NUL @ [char_of (length z)]"
  have last: "sip_words (?t @ ?pad) = [push_bit 56 (of_nat (length z)) OR le_bytes 0 ?t]"
    by (rule sip_last_word [OF t8 t [symmetric]])
  have "sip_padded z = z @ ?pad" by (simp only: sip_padded_def t)
  then have "foldl ref_mix v (sip_words (sip_padded z)) =
        sip_mix (push_bit 56 (of_nat (length z)) OR le_bytes 0 ?t) (sip_blocks ?n z v)" for v
    by (simp only: sip_blocks_ref [OF refl, of v z ?pad] last foldl_Cons foldl_Nil sip_mix_ref)
  then show ?thesis
    by (simp add: sip_hash_def siphash24_def SIPROUND_ref Let_def four split: prod.splits)
qed

section \<open>The table as a map\<close>

locale entry_table =
  fixes empty :: 't
    and inv :: "'t \<Rightarrow> bool"
    and tab :: "'t \<Rightarrow> 'k \<Rightarrow> 'd option option"
    and find_op :: "bool \<times> bool \<Rightarrow> 't \<Rightarrow> 'k \<Rightarrow> int \<Rightarrow> 't \<times> 'k option"
    and get_data :: "'t \<Rightarrow> 'k \<Rightarrow> 'd option"
    and set_data :: "'t \<Rightarrow> 'k \<Rightarrow> 'd option \<Rightarrow> 't"
  assumes inv_empty: "inv empty"
    and tab_empty: "tab empty = Map.empty"
    and find_hit: "inv t \<Longrightarrow> tab t k \<noteq> None \<Longrightarrow> 0 \<le> op \<Longrightarrow> find_op a t k op = (t, Some k)"
    and find_miss: "inv t \<Longrightarrow> tab t k = None \<Longrightarrow> op \<le> 0 \<Longrightarrow> find_op a t k op = (t, None)"
    and create_fail: "inv t \<Longrightarrow> tab t k = None \<Longrightarrow> 0 < op \<Longrightarrow> a \<noteq> (True, True) \<Longrightarrow> find_op a t k op = (t, None)"
    and create: "inv t \<Longrightarrow> tab t k = None \<Longrightarrow> 0 < op \<Longrightarrow> find_op (True, True) t k op = (t', r) \<Longrightarrow>
      r = Some k \<and> inv t' \<and> tab t' = (tab t)(k \<mapsto> None)"
    and delete: "inv t \<Longrightarrow> tab t k \<noteq> None \<Longrightarrow> op < 0 \<Longrightarrow> find_op a t k op = (t', r) \<Longrightarrow>
      r = None \<and> inv t' \<and> tab t' = (tab t)(k := None)"
    and get_data: "inv t \<Longrightarrow> get_data t k = (case tab t k of None \<Rightarrow> None | Some d \<Rightarrow> d)"
    and set_inv: "inv t \<Longrightarrow> inv (set_data t k d)"
    and set_tab: "inv t \<Longrightarrow> tab t k \<noteq> None \<Longrightarrow> tab (set_data t k d) = (tab t)(k \<mapsto> d)"
begin

lemma find_op_inv:
  assumes t: "inv t"
  shows "inv (fst (find_op a t k op))"
proof -
  obtain t' r where f: "find_op a t k op = (t', r)" by fastforce
  consider "tab t k \<noteq> None" "0 \<le> op" | "tab t k = None" "op \<le> 0"
    | "tab t k = None" "0 < op" "a \<noteq> (True, True)" | "tab t k = None" "0 < op" "a = (True, True)"
    | "tab t k \<noteq> None" "op < 0" by linarith
  then show ?thesis
  proof cases
    case 1 with find_hit [OF t] t show ?thesis by simp
  next
    case 2 with find_miss [OF t] t show ?thesis by simp
  next
    case 3 with create_fail [OF t] t show ?thesis by simp
  next
    case 4 with create [OF t 4(1,2), of t' r] f show ?thesis by simp
  next
    case 5 with delete [OF t 5 f] f show ?thesis by simp
  qed
qed

lemma delete_tab: "inv t \<Longrightarrow> tab (fst (find_op a t k (- 1))) = (tab t)(k := None)"
proof (cases "tab t k = None")
  case False
  assume "inv t"
  with delete [of t k "- 1" a] False show ?thesis by (cases "find_op a t k (- 1)") auto
next
  case True
  assume "inv t"
  with find_miss [of t k "- 1" a] True show ?thesis by (auto simp: fun_upd_idem_iff)
qed

text \<open>The client pattern: find or create an entry, then fill it in.\<close>

definition put :: "'t \<Rightarrow> 'k \<Rightarrow> 'd option \<Rightarrow> 't" where
  "put t k d = set_data (fst (find_op (True, True) t k 1)) k d"

lemma put_correct:
  assumes "inv t"
  shows "inv (put t k d) \<and> tab (put t k d) = (tab t)(k \<mapsto> d)"
proof -
  obtain t' r where f: "find_op (True, True) t k 1 = (t', r)" by fastforce
  have t': "inv t' \<and> tab t' = (if tab t k = None then (tab t)(k \<mapsto> None) else tab t)"
  proof (cases "tab t k = None")
    case True
    with create [OF assms True _ f] show ?thesis by simp
  next
    case False
    with find_hit [OF assms False, of 1 "(True, True)"] f assms show ?thesis by auto
  qed
  then have "tab t' k \<noteq> None" by auto
  with t' show ?thesis by (auto simp: put_def f set_inv set_tab)
qed

lemma get_put: "inv t \<Longrightarrow> get_data (put t k d) k' = (if k' = k then d else get_data t k')"
  using put_correct [of t k d] by (simp add: get_data)

end

definition bucket_ok :: "hash_seed \<Rightarrow> nat \<Rightarrow> 'd hash_entry list \<Rightarrow> bool" where
  "bucket_ok s i ps \<longleftrightarrow>
     (\<forall>p \<in> set ps. th8HashKey s (he_key p) = i) \<and> distinct (map he_key ps)"

definition entries :: "'d hash_table \<Rightarrow> 'd hash_entry list" where
  "entries h = concat (aBucket h)"

definition hash_inv :: "hash_seed \<Rightarrow> 'd hash_table \<Rightarrow> bool" where
  "hash_inv s h \<longleftrightarrow>
     length (aBucket h) = TH8_HASH_SIZE \<and>
     (\<forall>i < TH8_HASH_SIZE. bucket_ok s i (aBucket h ! i)) \<and>
     0 \<le> nNextOrder h \<and> nNextOrder h \<le> TH8_INT64_MAX \<and>
     (\<forall>p \<in> set (entries h). 0 \<le> he_order p \<and> he_order p \<le> nNextOrder h \<and>
        (nNextOrder h < TH8_INT64_MAX \<longrightarrow> he_order p < nNextOrder h)) \<and>
     (nNextOrder h < TH8_INT64_MAX \<longrightarrow> inj_on he_order (set (entries h)))"

definition hash_tab :: "hash_seed \<Rightarrow> 'd hash_table \<Rightarrow> string \<Rightarrow> 'd option option" where
  "hash_tab s h k = map_option he_data (find (\<lambda>p. he_key p = k) (aBucket h ! th8HashKey s k))"

lemma th8HashKey_less [simp]: "th8HashKey s k < TH8_HASH_SIZE"
  by (simp add: th8HashKey_def)

lemma find_key_None: "find (\<lambda>p. he_key p = k) ps = None \<longleftrightarrow> (\<forall>p \<in> set ps. he_key p \<noteq> k)"
  by (auto simp: find_None_iff)

lemma chain_remove_filter: "distinct (map he_key ps) \<Longrightarrow> chain_remove k ps = filter (\<lambda>p. he_key p \<noteq> k) ps"
proof (induction ps)
  case (Cons p ps)
  then have "he_key p = k \<Longrightarrow> filter (\<lambda>p. he_key p \<noteq> k) ps = ps" 
    by (simp add: filter_id_conv) (metis image_eqI)
  with Cons show ?case by auto
qed simp

lemma find_map_key:
  "(\<And>p. he_key (f p) = he_key p) \<Longrightarrow>
   find (\<lambda>p. he_key p = k) (map f ps) = map_option f (find (\<lambda>p. he_key p = k) ps)"
  by (induction ps) auto

lemma find_filter_key:
  "find (\<lambda>p. he_key p = k') (filter (\<lambda>p. he_key p \<noteq> k) ps) =
   (if k' = k then None else find (\<lambda>p. he_key p = k') ps)"
  by (induction ps) auto

lemma bucket_ok_hash: "hash_inv s h \<Longrightarrow> bucket_ok s (th8HashKey s k) (aBucket h ! th8HashKey s k)"
  by (simp add: hash_inv_def)

lemma hash_tab_upd:
  assumes "hash_inv s h"
  shows "hash_tab s (h\<lparr>aBucket := (aBucket h)[th8HashKey s k := c]\<rparr>) k' =
    (if th8HashKey s k' = th8HashKey s k then map_option he_data (find (\<lambda>p. he_key p = k') c)
     else hash_tab s h k')"
  using assms by (simp add: hash_tab_def hash_inv_def)


lemma entries_empty [simp]: "entries hash_empty = []"
  by (simp add: entries_def hash_empty_def concat_replicate_trivial)

lemma hash_inv_empty: "hash_inv s hash_empty"
  unfolding hash_inv_def entries_empty by (simp add: hash_empty_def bucket_ok_def)

lemma hash_tab_None: "hash_tab s h k = None \<longleftrightarrow> (\<forall>p \<in> set (aBucket h ! th8HashKey s k). he_key p \<noteq> k)"
  by (simp add: hash_tab_def find_key_None)

text \<open>The entries after one bucket is replaced.\<close>

lemma mset_entries_upd:
  assumes "i < length (aBucket h)"
  shows "mset (entries (h\<lparr>aBucket := (aBucket h)[i := c]\<rparr>)) + mset (aBucket h ! i) =
         mset (entries h) + mset c"
proof -
  have "mset (concat (bs[i := c])) + mset (bs ! i) = mset (concat bs) + mset c" if "i < length bs"
    for bs :: "'a hash_entry list list"
  proof -
    have "concat (bs[i := c]) = concat (take i bs) @ c @ concat (drop (Suc i) bs)"
      using that by (simp add: upd_conv_take_nth_drop)
    moreover have "concat bs = concat (take i bs) @ bs ! i @ concat (drop (Suc i) bs)"
      by (subst id_take_nth_drop [OF that]) simp
    ultimately show ?thesis by simp
  qed
  with assms show ?thesis by (simp add: entries_def)
qed

lemma set_entries_upd:
  assumes "hash_inv s h" and "bucket_ok s (th8HashKey s k) c"
  shows "set (entries (h\<lparr>aBucket := (aBucket h)[th8HashKey s k := c]\<rparr>)) =
    {p \<in> set (entries h). th8HashKey s (he_key p) \<noteq> th8HashKey s k} \<union> set c"
proof -
  let ?i = "th8HashKey s k"
  have bs: "length (aBucket h) = TH8_HASH_SIZE"
    "\<And>j p. j < TH8_HASH_SIZE \<Longrightarrow> p \<in> set (aBucket h ! j) \<Longrightarrow> th8HashKey s (he_key p) = j"
    using assms(1) by (auto simp: hash_inv_def bucket_ok_def)
  have "p \<in> set (entries (h\<lparr>aBucket := (aBucket h)[?i := c]\<rparr>)) \<longleftrightarrow>
      (\<exists>j < TH8_HASH_SIZE. p \<in> set (((aBucket h)[?i := c]) ! j))" for p
    using bs(1) by (force simp: entries_def in_set_conv_nth [of _ "_[_ := _]"])
  moreover have "p \<in> set (entries h) \<longleftrightarrow> (\<exists>j < TH8_HASH_SIZE. p \<in> set (aBucket h ! j))" for p
    using bs(1) by (force simp: entries_def in_set_conv_nth [of _ "aBucket h"])
  ultimately show ?thesis
    using bs(2) th8HashKey_less [of s k] bs(1)
    by (auto simp: nth_list_update split: if_splits) (rule exI [of _ ?i], simp)
qed


lemma hash_inv_upd:
  assumes inv: "hash_inv s h" and c: "bucket_ok s (th8HashKey s k) c"
    and next_ok: "nNextOrder h \<le> n" "n \<le> TH8_INT64_MAX"
    and ord: "\<forall>p \<in> set c. 0 \<le> he_order p \<and> he_order p \<le> n \<and> (n < TH8_INT64_MAX \<longrightarrow> he_order p < n)"
    and inj: "n < TH8_INT64_MAX \<Longrightarrow>
      inj_on he_order ({p \<in> set (entries h). th8HashKey s (he_key p) \<noteq> th8HashKey s k} \<union> set c)"
  shows "hash_inv s (h\<lparr>aBucket := (aBucket h)[th8HashKey s k := c], nNextOrder := n\<rparr>)"
proof -
  let ?h = "h\<lparr>aBucket := (aBucket h)[th8HashKey s k := c], nNextOrder := n\<rparr>"
  have e: "set (entries ?h) = {p \<in> set (entries h). th8HashKey s (he_key p) \<noteq> th8HashKey s k} \<union> set c"
    using set_entries_upd [OF inv c] by (simp add: entries_def)
  show ?thesis
    unfolding hash_inv_def
  proof (intro conjI)
    show "\<forall>i < TH8_HASH_SIZE. bucket_ok s i (aBucket ?h ! i)"
      using inv c by (auto simp: hash_inv_def nth_list_update)
    show "\<forall>p \<in> set (entries ?h). 0 \<le> he_order p \<and> he_order p \<le> nNextOrder ?h \<and>
        (nNextOrder ?h < TH8_INT64_MAX \<longrightarrow> he_order p < nNextOrder ?h)"
      using inv ord next_ok unfolding e by (fastforce simp: hash_inv_def)
    show "nNextOrder ?h < TH8_INT64_MAX \<longrightarrow> inj_on he_order (set (entries ?h))"
      using inj unfolding e by simp
  qed (use inv next_ok in \<open>auto simp: hash_inv_def\<close>)
qed


lemma create_step:
  assumes inv: "hash_inv s h" and none: "hash_tab s h k = None"
    and f: "0 < op" "Th8_HashFind s (True, True) h k op = (h', r)"
  shows "r = Some k \<and> hash_inv s h' \<and> hash_tab s h' = (hash_tab s h)(k \<mapsto> None)"
proof -
  let ?i = "th8HashKey s k" and ?max = TH8_INT64_MAX
  define n where "n = (if nNextOrder h < ?max then nNextOrder h + 1 else nNextOrder h)"
  define o' where "o' = (if nNextOrder h < ?max then nNextOrder h else ?max)"
  define p where "p = \<lparr>he_key = k, he_data = None :: 'a option, he_order = o'\<rparr>"
  let ?c = "p # aBucket h ! ?i"
  have h': "h' = h\<lparr>aBucket := (aBucket h)[?i := ?c], nNextOrder := n\<rparr>" and r: "r = Some k"
    using f none
    by (auto simp: Th8_HashFind_def Let_def hash_tab_None n_def o'_def p_def split: if_splits)
  have b: "bucket_ok s ?i (aBucket h ! ?i)" and max: "nNextOrder h \<le> ?max" "0 \<le> nNextOrder h"
    using inv by (auto simp: hash_inv_def)
  then have c: "bucket_ok s ?i ?c"
    using none by (auto simp: bucket_ok_def p_def hash_tab_None)
  have old: "0 \<le> he_order q" "he_order q \<le> nNextOrder h" "nNextOrder h < ?max \<Longrightarrow> he_order q < nNextOrder h"
    if "q \<in> set (entries h)" for q
    using inv that by (auto simp: hash_inv_def)
  have sub: "set (aBucket h ! ?i) \<subseteq> set (entries h)"
    using inv by (auto simp: entries_def hash_inv_def intro!: nth_mem bexI [of _ "aBucket h ! ?i"])
  have "hash_inv s h'"
    unfolding h'
  proof (rule hash_inv_upd [OF inv c])
    show "nNextOrder h \<le> n" "n \<le> ?max" using max by (auto simp: n_def)
    show "\<forall>q \<in> set ?c. 0 \<le> he_order q \<and> he_order q \<le> n \<and> (n < ?max \<longrightarrow> he_order q < n)"
      using sub old max by (fastforce simp: n_def o'_def p_def)
    assume lt: "n < ?max"
    have "inj_on he_order (insert p (set (entries h)))"
      using inv lt old(3) by (auto simp: n_def o'_def p_def hash_inv_def inj_on_insert split: if_splits) fastforce+
    then show "inj_on he_order ({q \<in> set (entries h). th8HashKey s (he_key q) \<noteq> ?i} \<union> set ?c)"
      using sub by (elim inj_on_subset) auto
  qed
  moreover have "hash_tab s h' k' = ((hash_tab s h)(k \<mapsto> None)) k'" for k'
    using hash_tab_upd [OF inv, of k ?c k'] none
    by (auto simp: h' hash_tab_def p_def)
  ultimately show ?thesis using r by blast
qed

lemma shrink_upd:
  assumes inv: "hash_inv s h"
    and c: "set c \<subseteq> set (aBucket h ! th8HashKey s k)" "distinct (map he_key c)"
  shows "hash_inv s (h\<lparr>aBucket := (aBucket h)[th8HashKey s k := c]\<rparr>)"
proof -
  let ?i = "th8HashKey s k"
  have "set (aBucket h ! ?i) \<subseteq> set (entries h)"
    using inv by (auto simp: entries_def hash_inv_def intro!: nth_mem bexI [of _ "aBucket h ! ?i"])
  with c have sub: "set c \<subseteq> set (entries h)" by blast
  have "bucket_ok s ?i c" using bucket_ok_hash [OF inv, of k] c by (auto simp: bucket_ok_def)
  then have "hash_inv s (h\<lparr>aBucket := (aBucket h)[?i := c], nNextOrder := nNextOrder h\<rparr>)"
  proof (rule hash_inv_upd [OF inv])
    show "\<forall>p \<in> set c. 0 \<le> he_order p \<and> he_order p \<le> nNextOrder h \<and>
        (nNextOrder h < TH8_INT64_MAX \<longrightarrow> he_order p < nNextOrder h)"
      using inv sub by (auto simp: hash_inv_def)
    assume "nNextOrder h < TH8_INT64_MAX"
    then show "inj_on he_order ({p \<in> set (entries h). th8HashKey s (he_key p) \<noteq> ?i} \<union> set c)"
      using inv sub by (auto simp: hash_inv_def elim: inj_on_subset)
  qed (use inv in \<open>auto simp: hash_inv_def\<close>)
  then show ?thesis by simp
qed

lemma delete_step:
  assumes inv: "hash_inv s h" and some: "hash_tab s h k \<noteq> None"
    and f: "op < 0" "Th8_HashFind s a h k op = (h', r)"
  shows "r = None \<and> hash_inv s h' \<and> hash_tab s h' = (hash_tab s h)(k := None)"
proof -
  let ?i = "th8HashKey s k"
  let ?c = "filter (\<lambda>p. he_key p \<noteq> k) (aBucket h ! ?i)"
  have b: "bucket_ok s ?i (aBucket h ! ?i)" using bucket_ok_hash [OF inv] .
  then have "chain_remove k (aBucket h ! ?i) = ?c" by (intro chain_remove_filter) (simp add: bucket_ok_def)
  then have h': "h' = h\<lparr>aBucket := (aBucket h)[?i := ?c]\<rparr>" and r: "r = None"
    using f some by (auto simp: Th8_HashFind_def Let_def hash_tab_None split: if_splits)
  have "hash_inv s h'"
    unfolding h' by (rule shrink_upd [OF inv]) (use b in \<open>auto simp: bucket_ok_def distinct_map_filter\<close>)
  moreover have "hash_tab s h' k' = ((hash_tab s h)(k := None)) k'" for k'
    using hash_tab_upd [OF inv, of k ?c k'] by (auto simp: h' hash_tab_def find_filter_key)
  ultimately show ?thesis using r by blast
qed

definition with_data :: "string \<Rightarrow> 'd option \<Rightarrow> 'd hash_entry \<Rightarrow> 'd hash_entry" where
  "with_data k d p = (if he_key p = k then p\<lparr>he_data := d\<rparr> else p)"

lemma with_data_sel [simp]:
  "he_key (with_data k d p) = he_key p" "he_order (with_data k d p) = he_order p"
  "he_data (with_data k d p) = (if he_key p = k then d else he_data p)"
  by (simp_all add: with_data_def)

lemma entry_set_data_map:
  assumes "hash_inv s h"
  shows "entry_set_data s h k d = h\<lparr>aBucket := map (map (with_data k d)) (aBucket h)\<rparr>"
proof -
  let ?i = "th8HashKey s k"
  have "(aBucket h)[?i := map (with_data k d) (aBucket h ! ?i)] = map (map (with_data k d)) (aBucket h)"
  proof (rule nth_equalityI)
    fix j assume "j < length ((aBucket h)[?i := map (with_data k d) (aBucket h ! ?i)])"
    then have j: "j < TH8_HASH_SIZE" "j < length (aBucket h)" using assms by (simp_all add: hash_inv_def)
    have "map (with_data k d) (aBucket h ! j) = aBucket h ! j" if "j \<noteq> ?i"
      using assms j that by (intro map_idI) (auto simp: hash_inv_def bucket_ok_def with_data_def)
    with j show "(aBucket h)[?i := map (with_data k d) (aBucket h ! ?i)] ! j = map (map (with_data k d)) (aBucket h) ! j"
      by (cases "j = ?i") simp_all
  qed simp
  moreover have "(\<lambda>p. if he_key p = k then p\<lparr>he_data := d\<rparr> else p) = with_data k d"
    by (simp add: fun_eq_iff with_data_def)
  ultimately show ?thesis by (simp add: entry_set_data_def Let_def)
qed

lemma entries_set_data: "hash_inv s h \<Longrightarrow> entries (entry_set_data s h k d) = map (with_data k d) (entries h)"
  by (simp add: entry_set_data_map entries_def map_concat)

lemma set_data_inv: "hash_inv s h \<Longrightarrow> hash_inv s (entry_set_data s h k d)"
proof -
  assume inv: "hash_inv s h"
  have "inj_on he_order (with_data k d ` set (entries h))" if "nNextOrder h < TH8_INT64_MAX"
  proof (rule inj_onI)
    fix x y assume "x \<in> with_data k d ` set (entries h)" "y \<in> with_data k d ` set (entries h)"
      and eq: "he_order x = he_order y"
    then obtain p q where "x = with_data k d p" "y = with_data k d q" "p \<in> set (entries h)" "q \<in> set (entries h)"
      by auto
    with eq inv that show "x = y" by (auto simp: hash_inv_def dest: inj_onD)
  qed
  with inv show ?thesis
    unfolding hash_inv_def entries_set_data [OF inv] by (simp add: entry_set_data_map [OF inv] bucket_ok_def comp_def)
qed

lemma set_data_tab:
  assumes "hash_inv s h" and "hash_tab s h k \<noteq> None"
  shows "hash_tab s (entry_set_data s h k d) = (hash_tab s h)(k \<mapsto> d)"
proof
  fix k'
  have "aBucket (entry_set_data s h k d) ! th8HashKey s k' = map (with_data k d) (aBucket h ! th8HashKey s k')"
    using assms(1) by (simp add: entry_set_data_map hash_inv_def)
  then show "hash_tab s (entry_set_data s h k d) k' = ((hash_tab s h)(k \<mapsto> d)) k'"
    using assms(2) by (auto simp: hash_tab_def find_map_key option.map_comp comp_def find_Some_iff
        intro!: option.map_cong)
qed

interpretation hash: entry_table
  hash_empty "hash_inv s" "hash_tab s" "Th8_HashFind s" "entry_data s" "entry_set_data s" for s
proof
  show "hash_inv s hash_empty" by (rule hash_inv_empty)
  show "hash_tab s hash_empty = Map.empty"
    by (simp add: fun_eq_iff hash_tab_def hash_empty_def)
next
  fix t :: "'a hash_table" and k a and op :: int
  assume "hash_inv s t" "hash_tab s t k \<noteq> None" "0 \<le> op"
  then show "Th8_HashFind s a t k op = (t, Some k)"
    by (auto simp: Th8_HashFind_def Let_def hash_tab_None)
next
  fix t :: "'a hash_table" and k a and op :: int
  assume "hash_inv s t" "hash_tab s t k = None" "op \<le> 0"
  then show "Th8_HashFind s a t k op = (t, None)"
    by (auto simp: Th8_HashFind_def Let_def hash_tab_None)
next
  fix t :: "'a hash_table" and k and op :: int and a :: "bool \<times> bool"
  assume "hash_inv s t" "hash_tab s t k = None" "0 < op" "a \<noteq> (True, True)"
  then show "Th8_HashFind s a t k op = (t, None)"
    by (cases a) (auto simp: Th8_HashFind_def Let_def hash_tab_None)
next
  fix t t' :: "'a hash_table" and k r and op :: int
  assume "hash_inv s t" "hash_tab s t k = None" "0 < op" "Th8_HashFind s (True, True) t k op = (t', r)"
  then show "r = Some k \<and> hash_inv s t' \<and> hash_tab s t' = (hash_tab s t)(k \<mapsto> None)"
    by (rule create_step)
next
  fix t t' :: "'a hash_table" and k a r and op :: int
  assume "hash_inv s t" "hash_tab s t k \<noteq> None" "op < 0" "Th8_HashFind s a t k op = (t', r)"
  then show "r = None \<and> hash_inv s t' \<and> hash_tab s t' = (hash_tab s t)(k := None)"
    by (rule delete_step)
next
  fix t :: "'a hash_table" and k
  show "entry_data s t k = (case hash_tab s t k of None \<Rightarrow> None | Some d \<Rightarrow> d)"
    by (simp add: entry_data_def hash_tab_def split: option.splits)
qed (auto intro: set_data_inv set_data_tab)

section \<open>Insertion order\<close>

definition dict_list :: "'d hash_table \<Rightarrow> (string \<times> 'd option) list" where
  "dict_list h = map (\<lambda>p. (he_key p, he_data p)) (sort_key he_order (entries h))"

lemma distinct_concat_nth:
  "(\<And>i. i < length xss \<Longrightarrow> distinct (xss ! i)) \<Longrightarrow>
   (\<And>i j. i < j \<Longrightarrow> j < length xss \<Longrightarrow> set (xss ! i) \<inter> set (xss ! j) = {}) \<Longrightarrow> distinct (concat xss)"
proof (induction xss)
  case (Cons xs xss)
  have "distinct xs" using Cons.prems(1) [of 0] by simp
  moreover have "distinct (concat xss)"
    using Cons.prems(1) [of "Suc _"] Cons.prems(2) [of "Suc _" "Suc _"] by (intro Cons.IH) auto
  moreover have "set xs \<inter> set ys = {}" if "ys \<in> set xss" for ys
    using that Cons.prems(2) [of 0 "Suc _"] by (auto simp: in_set_conv_nth)
  ultimately show ?case by auto
qed simp

lemma distinct_keys:
  assumes "hash_inv s h"
  shows "distinct (map he_key (entries h))"
  unfolding entries_def map_concat
proof (rule distinct_concat_nth)
  have len: "length (aBucket h) = TH8_HASH_SIZE" using assms by (simp add: hash_inv_def)
  fix i j assume ij: "i < j" "j < length (map (map he_key) (aBucket h))"
  then have "bucket_ok s i (aBucket h ! i)" "bucket_ok s j (aBucket h ! j)"
    using assms len by (auto simp: hash_inv_def)
  then show "set (map (map he_key) (aBucket h) ! i) \<inter> set (map (map he_key) (aBucket h) ! j) = {}"
    using ij by (auto simp: bucket_ok_def)
qed (use assms in \<open>auto simp: hash_inv_def bucket_ok_def\<close>)

lemma set_entries_tab: "hash_inv s h \<Longrightarrow> he_key ` set (entries h) = dom (hash_tab s h)"
proof -
  assume inv: "hash_inv s h"
  then have len: "length (aBucket h) = TH8_HASH_SIZE" by (simp add: hash_inv_def)
  have "k \<in> he_key ` set (entries h) \<longleftrightarrow> (\<exists>p \<in> set (aBucket h ! th8HashKey s k). he_key p = k)" for k
  proof
    assume "k \<in> he_key ` set (entries h)"
    then obtain p j where "p \<in> set (aBucket h ! j)" "j < TH8_HASH_SIZE" "he_key p = k"
      using len by (auto simp: entries_def in_set_conv_nth [of _ "aBucket h"])
    moreover from this inv have "j = th8HashKey s k" by (auto simp: hash_inv_def bucket_ok_def)
    ultimately show "\<exists>p \<in> set (aBucket h ! th8HashKey s k). he_key p = k" by blast
  next
    assume "\<exists>p \<in> set (aBucket h ! th8HashKey s k). he_key p = k"
    then obtain p where p: "p \<in> set (aBucket h ! th8HashKey s k)" "he_key p = k" by blast
    have "aBucket h ! th8HashKey s k \<in> set (aBucket h)" using len by (intro nth_mem) simp
    with p(1) have "p \<in> set (entries h)" by (auto simp: entries_def)
    with p(2) show "k \<in> he_key ` set (entries h)" by blast
  qed
  moreover have "k \<in> dom (hash_tab s h) \<longleftrightarrow> (\<exists>p \<in> set (aBucket h ! th8HashKey s k). he_key p = k)" for k
    using hash_tab_None [of s h k] by (auto simp: dom_def)
  ultimately show ?thesis by blast
qed

lemma sort_key_map_same: "(\<And>x. f (g x) = f x) \<Longrightarrow> sort_key f (map g xs) = map g (sort_key f xs)"
proof (induction xs)
  case (Cons x xs)
  have "insort_key f (g x) (map g ys) = map g (insort_key f x ys)" for ys
    using Cons.prems by (induction ys) auto
  with Cons show ?case by simp
qed simp

lemma sort_key_snoc:
  assumes "mset xs = add_mset p (mset ys)" and "\<forall>q \<in> set ys. f q < f p" and "inj_on f (set ys)" "distinct ys"
  shows "sort_key f xs = sort_key f ys @ [p]"
proof (rule map_sorted_distinct_set_unique)
  have set: "set xs = insert p (set ys)" using mset_eq_setD assms(1) by (metis set_mset_add_mset_insert set_mset_mset)
  then show "set (sort_key f xs) = set (sort_key f ys @ [p])" by auto
  have inj: "inj_on f (insert p (set ys))" using assms(2,3) by (auto simp: inj_on_insert dest: bspec)
  then show "inj_on f (set (sort_key f xs) \<union> set (sort_key f ys @ [p]))" using set by simp
  have "p \<notin> set ys" using assms(2) by auto
  then have "distinct xs"
    using assms(1,4) by (metis distinct.simps(2) mset.simps(2) mset_eq_imp_distinct_iff)
  then show "distinct (map f (sort_key f xs))" using inj set by (simp add: distinct_map)
  show "distinct (map f (sort_key f ys @ [p]))" using inj assms(4) \<open>p \<notin> set ys\<close>
    by (auto simp: distinct_map intro: inj_on_subset)
  show "sorted (map f (sort_key f ys @ [p]))" using assms(2) by (auto simp: sorted_append less_imp_le)
qed simp

text \<open>The table refines an association list in insertion order.\<close>

lemma dict_list_create:
  assumes inv: "hash_inv s h" and none: "hash_tab s h k = None" and room: "nNextOrder h < TH8_INT64_MAX"
    and f: "Th8_HashFind s (True, True) h k 1 = (h', r)"
  shows "dict_list h' = dict_list h @ [(k, None)]"
proof -
  let ?i = "th8HashKey s k"
  define p where "p = \<lparr>he_key = k, he_data = None :: 'a option, he_order = nNextOrder h\<rparr>"
  have h': "h' = h\<lparr>aBucket := (aBucket h)[?i := p # aBucket h ! ?i], nNextOrder := nNextOrder h + 1\<rparr>"
    using f none room by (auto simp: Th8_HashFind_def Let_def hash_tab_None p_def split: if_splits)
  have "?i < length (aBucket h)" using inv by (simp add: hash_inv_def)
  from mset_entries_upd [OF this, of "p # aBucket h ! ?i"]
  have m: "mset (entries h') = add_mset p (mset (entries h))" by (simp add: h' entries_def)
  have "\<forall>q \<in> set (entries h). he_order q < he_order p" "inj_on he_order (set (entries h))"
    using inv room by (auto simp: hash_inv_def p_def)
  moreover have "distinct (entries h)" using distinct_keys [OF inv] by (simp add: distinct_map)
  ultimately have "sort_key he_order (entries h') = sort_key he_order (entries h) @ [p]"
    by (intro sort_key_snoc [OF m])
  then show ?thesis by (simp add: dict_list_def p_def)
qed

lemma entries_delete:
  assumes inv: "hash_inv s h"
  shows "entries (Th8_HashRemove s h k) = filter (\<lambda>p. he_key p \<noteq> k) (entries h)"
proof -
  let ?i = "th8HashKey s k" and ?P = "\<lambda>p. he_key p \<noteq> k"
  have b: "bucket_ok s j (aBucket h ! j)" if "j < TH8_HASH_SIZE" for j
    using inv that by (simp add: hash_inv_def)
  have len: "length (aBucket h) = TH8_HASH_SIZE" using inv by (simp add: hash_inv_def)
  have other: "filter ?P (aBucket h ! j) = aBucket h ! j" if "j < TH8_HASH_SIZE" "j \<noteq> ?i" for j
    using b [OF that(1)] that(2) by (auto simp: filter_id_conv bucket_ok_def)
  have "chain_remove k (aBucket h ! ?i) = filter ?P (aBucket h ! ?i)"
    using b [of ?i] by (intro chain_remove_filter) (simp add: bucket_ok_def)
  moreover have "filter ?P (aBucket h ! ?i) = aBucket h ! ?i" if "\<forall>p \<in> set (aBucket h ! ?i). he_key p \<noteq> k"
    using that by (simp add: filter_id_conv)
  ultimately have "aBucket (Th8_HashRemove s h k) = (aBucket h)[?i := filter ?P (aBucket h ! ?i)]"
    by (auto simp: Th8_HashRemove_def Th8_HashFind_def Let_def)
  also have "\<dots> = map (filter ?P) (aBucket h)"
  proof (rule nth_equalityI)
    fix j assume "j < length ((aBucket h)[?i := filter ?P (aBucket h ! ?i)])"
    then have "j < TH8_HASH_SIZE" "j < length (aBucket h)" using len by simp_all
    with other [of j] show "(aBucket h)[?i := filter ?P (aBucket h ! ?i)] ! j = map (filter ?P) (aBucket h) ! j"
      by (cases "j = ?i") simp_all
  qed simp
  finally show ?thesis by (simp add: entries_def filter_concat)
qed

lemma dict_list_remove:
  "hash_inv s h \<Longrightarrow> dict_list (Th8_HashRemove s h k) = filter (\<lambda>(k', _). k' \<noteq> k) (dict_list h)"
  by (simp add: dict_list_def entries_delete filter_sort filter_map comp_def)

lemma dict_list_set_data:
  "hash_inv s h \<Longrightarrow> dict_list (entry_set_data s h k d) =
     map (\<lambda>(k', d'). (k', if k' = k then d else d')) (dict_list h)"
  by (simp add: dict_list_def entries_set_data sort_key_map_same)

section \<open>The polled merge sort\<close>

lemma polls_ready: "(\<And>n. ready n) \<Longrightarrow> \<exists>m. polls ready nOp n = Some m"
  by (induction n arbitrary: nOp) (auto simp: poll_def)

fun merge_by :: "('a \<Rightarrow> int) \<Rightarrow> 'a list \<Rightarrow> 'a list \<Rightarrow> 'a list" where
  "merge_by f [] ys = ys"
| "merge_by f xs [] = xs"
| "merge_by f (x # xs) (y # ys) =
     (if f x \<le> f y then x # merge_by f xs (y # ys) else y # merge_by f (x # xs) ys)"

lemma merge_by_Nil [simp]: "merge_by f xs [] = xs"
  by (cases xs) simp_all

lemma mset_merge_by [simp]: "mset (merge_by f xs ys) = mset xs + mset ys"
  by (induction f xs ys rule: merge_by.induct) simp_all

lemma set_merge_by [simp]: "set (merge_by f xs ys) = set xs \<union> set ys"
  by (metis mset_merge_by set_mset_mset set_mset_union)

lemma sorted_merge_by:
  "sorted (map f xs) \<Longrightarrow> sorted (map f ys) \<Longrightarrow> sorted (map f (merge_by f xs ys))"
  by (induction f xs ys rule: merge_by.induct) fastforce+

lemma filter_merge_by:
  "sorted (map f xs) \<Longrightarrow>
   filter (\<lambda>x. f x = k) (merge_by f xs ys) = filter (\<lambda>x. f x = k) xs @ filter (\<lambda>x. f x = k) ys"
proof (induction f xs ys rule: merge_by.induct)
  case (3 f x xs y ys)
  show ?case
  proof (cases "f x \<le> f y")
    case False
    then have "filter (\<lambda>z. f z = f y) (x # xs) = []" using "3.prems" by (auto simp: filter_empty_conv)
    with False 3 show ?thesis by auto
  qed (use 3 in auto)
qed simp_all

lemma merge_sort_key: "merge_by f (sort_key f xs) (sort_key f ys) = sort_key f (xs @ ys)"
proof (rule properties_for_sort_key [symmetric])
  fix k
  have c: "(\<lambda>x. f k = f x) = (\<lambda>x. f x = f k)" by auto
  show "filter (\<lambda>x. f k = f x) (merge_by f (sort_key f xs) (sort_key f ys)) = filter (\<lambda>x. f k = f x) (xs @ ys)"
    unfolding c by (simp add: filter_merge_by sort_key_stable)
qed (simp_all add: sorted_merge_by)

text \<open>A successful polled merge is the plain merge, and it can only fail at a poll.\<close>

lemma sort_merge_result:
  "sort_merge ready nOp xs ys out = Some (nOp', zs) \<Longrightarrow> zs = rev out @ merge_by he_order xs ys"
  by (induction ready nOp xs ys out rule: sort_merge.induct) (auto split: option.splits if_splits)

lemma sort_merge_ready: "(\<And>n. ready n) \<Longrightarrow> \<exists>r. sort_merge ready nOp xs ys out = Some r"
  by (induction ready nOp xs ys out rule: sort_merge.induct)
    (auto simp: poll_def polls_ready split: option.splits)


text \<open>The array after the passes up to a width: every chunk of that width is sorted.\<close>

function chunk_sort :: "('a \<Rightarrow> int) \<Rightarrow> nat \<Rightarrow> 'a list \<Rightarrow> 'a list" where
  "chunk_sort f w xs =
     (if w = 0 \<or> xs = [] then [] else sort_key f (take w xs) @ chunk_sort f w (drop w xs))"
  by auto
termination
  by (relation "measure (\<lambda>(_, _, xs). length xs)") auto

declare chunk_sort.simps [simp del]

lemma chunk_sort_short: "0 < w \<Longrightarrow> length xs \<le> w \<Longrightarrow> chunk_sort f w xs = sort_key f xs"
  by (simp add: chunk_sort.simps [of f w xs] chunk_sort.simps [of f w "[]"])

lemma chunk_sort_one: "chunk_sort f 1 xs = xs"
  by (induction xs) (simp_all add: chunk_sort.simps [of f "Suc 0"])

lemma length_chunk_sort: "0 < w \<Longrightarrow> length (chunk_sort f w xs) = length xs"
  by (induction f w xs rule: chunk_sort.induct) (subst chunk_sort.simps, auto)

lemma chunk_sort_split:
  assumes "0 < w"
  shows "take w (chunk_sort f w xs) = sort_key f (take w xs)"
    and "drop w (chunk_sort f w xs) = chunk_sort f w (drop w xs)"
proof -
  have "take w (chunk_sort f w xs) = sort_key f (take w xs) \<and> drop w (chunk_sort f w xs) = chunk_sort f w (drop w xs)"
  proof (cases "length xs \<le> w")
    case True
    then show ?thesis using assms by (simp add: chunk_sort_short)
  next
    case False
    then have "chunk_sort f w xs = sort_key f (take w xs) @ chunk_sort f w (drop w xs)"
      using assms by (subst chunk_sort.simps) auto
    then show ?thesis using False by simp
  qed
  then show "take w (chunk_sort f w xs) = sort_key f (take w xs)"
    and "drop w (chunk_sort f w xs) = chunk_sort f w (drop w xs)" by simp_all
qed

lemma chunk_sort_double:
  assumes "0 < w" and "xs \<noteq> []"
  shows "chunk_sort f (2 * w) xs =
    merge_by f (take w (chunk_sort f w xs)) (take w (drop w (chunk_sort f w xs))) @
    chunk_sort f (2 * w) (drop (2 * w) xs)"
proof -
  have "take (2 * w) xs = take w xs @ take w (drop w xs)" by (metis mult_2 take_add)
  then show ?thesis
    using assms by (subst chunk_sort.simps) (simp add: chunk_sort_split merge_sort_key)
qed

lemma sort_runs_result:
  "0 < w \<Longrightarrow> length xs \<le> fuel \<Longrightarrow> sort_runs ready w fuel nOp (chunk_sort he_order w xs) = Some (nOp', ys) \<Longrightarrow>
   ys = chunk_sort he_order (2 * w) xs"
proof (induction fuel arbitrary: xs nOp nOp' ys)
  case 0
  then show ?case by (simp add: chunk_sort.simps)
next
  case (Suc fuel)
  let ?ap = "chunk_sort he_order w xs"
  show ?case
  proof (cases "xs = []")
    case True
    with Suc.prems show ?thesis by (simp add: chunk_sort.simps)
  next
    case False
    then have "?ap \<noteq> []" using length_chunk_sort [of w he_order xs] Suc.prems(1) by force
    then obtain n1 out rest where m: "sort_merge ready nOp (take w ?ap) (take w (drop w ?ap)) [] = Some (n1, out)"
      and r: "sort_runs ready w fuel n1 (drop (2 * w) ?ap) = Some (nOp', rest)" and ys: "ys = out @ rest"
      using Suc.prems(3) by (auto split: option.splits)
    have "drop (2 * w) ?ap = chunk_sort he_order w (drop (2 * w) xs)"
      using Suc.prems(1) by (metis chunk_sort_split(2) drop_drop mult_2)
    moreover have "length (drop (2 * w) xs) \<le> fuel" using Suc.prems(1,2) False by (cases xs) auto
    ultimately have "rest = chunk_sort he_order (2 * w) (drop (2 * w) xs)"
      using Suc.IH [OF Suc.prems(1)] r by simp
    with sort_merge_result [OF m] chunk_sort_double [OF Suc.prems(1) False, of he_order] ys
    show ?thesis by simp
  qed
qed

lemma sort_widths_result:
  "0 < w \<Longrightarrow> sort_widths ready (length xs) w nOp (chunk_sort he_order w xs) = Some ys \<Longrightarrow>
   ys = sort_key he_order xs"
proof (induction "length xs - w" arbitrary: w nOp rule: less_induct)
  case less
  show ?case
  proof (cases "length xs \<le> w")
    case True
    with less.prems show ?thesis by (simp add: sort_widths.simps chunk_sort_short)
  next
    case False
    then obtain n1 ap' where p: "sort_pass ready w nOp (chunk_sort he_order w xs) = Some (n1, ap')"
      and r: "sort_widths ready (length xs) (w * 2) n1 ap' = Some ys"
      using less.prems by (subst (asm) sort_widths.simps) (auto split: option.splits)
    have "ap' = chunk_sort he_order (2 * w) xs"
      using p less.prems(1)
      by (auto simp: sort_pass_def length_chunk_sort split: option.splits dest: sort_runs_result)
    with r less.hyps [of "2 * w" n1] less.prems(1) False show ?thesis by (simp add: mult.commute)
  qed
qed

lemma sort_result: "th8HashSortByOrder ready xs = Some ys \<Longrightarrow> ys = sort_key he_order xs"
  using sort_widths_result [of 1 ready xs 0 ys] by (simp add: th8HashSortByOrder_def chunk_sort_one [unfolded One_nat_def])

lemma sort_runs_ready: "(\<And>n. ready n) \<Longrightarrow> \<exists>r. sort_runs ready w fuel nOp ap = Some r"
proof (induction fuel arbitrary: nOp ap)
  case (Suc fuel)
  then show ?case using sort_merge_ready [of ready nOp "take w ap" "take w (drop w ap)" "[]"]
    by (fastforce split: option.splits)
qed simp

lemma sort_widths_ready: "(\<And>n. ready n) \<Longrightarrow> \<exists>r. sort_widths ready n w nOp ap = Some r"
proof (induction ready n w nOp ap rule: sort_widths.induct)
  case (1 ready n w nOp ap)
  obtain m aTmp where "sort_runs ready w (length ap) nOp ap = Some (m, aTmp)"
    using sort_runs_ready [OF 1(2)] by fastforce
  moreover obtain m' where "polls ready m (length ap) = Some m'" using polls_ready [of ready] 1(2) by blast
  ultimately have p: "sort_pass ready w nOp ap = Some (m', aTmp)" by (simp add: sort_pass_def)
  show ?case
  proof (cases "w = 0 \<or> n \<le> w")
    case False
    from 1(1) [OF False p refl 1(2)] False p show ?thesis by (subst sort_widths.simps) simp
  qed (simp add: sort_widths.simps)
qed

lemma sort_ready: "(\<And>n. ready n) \<Longrightarrow> th8HashSortByOrder ready xs = Some (sort_key he_order xs)"
  using sort_widths_ready [of ready "length xs" 1 0 xs] sort_result [of ready xs]
  by (auto simp: th8HashSortByOrder_def)


section \<open>Runs of operations\<close>

datatype 'd table_op = Create string | Remove string | Assign string "'d option"

fun hash_step :: "hash_seed \<Rightarrow> 'd table_op \<Rightarrow> 'd hash_table \<Rightarrow> 'd hash_table" where
  "hash_step s (Create k) h = fst (Th8_HashFind s (True, True) h k 1)"
| "hash_step s (Remove k) h = Th8_HashRemove s h k"
| "hash_step s (Assign k d) h = entry_set_data s h k d"

text \<open>The specification: an association list in insertion order.\<close>

fun dict_step :: "'d table_op \<Rightarrow> (string \<times> 'd option) list \<Rightarrow> (string \<times> 'd option) list" where
  "dict_step (Create k) l = (if k \<in> fst ` set l then l else l @ [(k, None)])"
| "dict_step (Remove k) l = filter (\<lambda>(k', _). k' \<noteq> k) l"
| "dict_step (Assign k d) l = map (\<lambda>(k', d'). (k', if k' = k then d else d')) l"

lemma keys_dict_list: "hash_inv s h \<Longrightarrow> fst ` set (dict_list h) = dom (hash_tab s h)"
  using set_entries_tab [of s h] by (simp add: dict_list_def image_image)

lemma hash_step_inv: "hash_inv s h \<Longrightarrow> hash_inv s (hash_step s c h)"
  by (cases c) (simp_all add: Th8_HashRemove_def hash.find_op_inv set_data_inv)

lemma hash_step_next: "nNextOrder (hash_step s c h) \<le> nNextOrder h + 1"
  by (cases c) (auto simp: Th8_HashFind_def Th8_HashRemove_def entry_set_data_def Let_def)

lemma hash_step_dict:
  assumes inv: "hash_inv s h" and room: "nNextOrder h < TH8_INT64_MAX"
  shows "dict_list (hash_step s c h) = dict_step c (dict_list h)"
proof (cases c)
  case (Create k)
  show ?thesis
  proof (cases "hash_tab s h k = None")
    case True
    with Create dict_list_create [OF inv True room] keys_dict_list [OF inv]
    show ?thesis by (cases "Th8_HashFind s (True, True) h k 1") auto
  next
    case False
    with Create hash.find_hit [OF inv False, of 1] keys_dict_list [OF inv] show ?thesis by auto
  qed
qed (simp_all add: dict_list_remove [OF inv] dict_list_set_data [OF inv])

lemma hash_run:
  "int (length ops) < TH8_INT64_MAX - nNextOrder h \<Longrightarrow> hash_inv s h \<Longrightarrow>
   hash_inv s (fold (hash_step s) ops h) \<and>
   dict_list (fold (hash_step s) ops h) = fold dict_step ops (dict_list h)"
proof (induction ops arbitrary: h)
  case (Cons c ops)
  have "int (length ops) < TH8_INT64_MAX - nNextOrder (hash_step s c h)"
    using Cons.prems(1) hash_step_next [of s c h] by simp
  from Cons.IH [OF this hash_step_inv [OF Cons.prems(2)]] show ?case
    using hash_step_dict [OF Cons.prems(2), of c] Cons.prems(1) by simp
qed simp

lemma entry_data_dict: "hash_inv s h \<Longrightarrow> entry_data s h k = (case map_of (dict_list h) k of None \<Rightarrow> None | Some d \<Rightarrow> d)"
proof -
  assume inv: "hash_inv s h"
  have "map_of (dict_list h) k = hash_tab s h k"
  proof (cases "hash_tab s h k")
    case None
    then have "k \<notin> fst ` set (dict_list h)" using keys_dict_list [OF inv] by auto
    with None show ?thesis by (simp add: map_of_eq_None_iff)
  next
    case (Some d)
    then obtain p where p: "find (\<lambda>p. he_key p = k) (aBucket h ! th8HashKey s k) = Some p" "d = he_data p"
      by (auto simp: hash_tab_def)
    then have "p \<in> set (aBucket h ! th8HashKey s k)" "he_key p = k" by (auto simp: find_Some_iff)
    moreover have "aBucket h ! th8HashKey s k \<in> set (aBucket h)" using inv by (intro nth_mem) (simp add: hash_inv_def)
    ultimately have "(k, d) \<in> set (dict_list h)" using p(2) by (auto simp: dict_list_def entries_def intro!: image_eqI)
    moreover have "distinct (map fst (dict_list h))"
      using distinct_keys [OF inv] by (simp add: dict_list_def comp_def distinct_map)
    ultimately show ?thesis using Some by simp
  qed
  then show ?thesis using hash.get_data [OF inv, of k] by simp
qed

section \<open>Iteration\<close>

text \<open>The walk with a callback that records what it sees.\<close>

abbreviation record_entry :: "'d hash_entry \<Rightarrow> (string \<times> 'd option) list \<Rightarrow> int \<times> (string \<times> 'd option) list" where
  "record_entry \<equiv> \<lambda>p acc. (TH8_OK, acc @ [(he_key p, he_data p)])"

lemma iterate_chain_record:
  "iterate_chain record_entry ps acc = (True, acc @ map (\<lambda>p. (he_key p, he_data p)) ps)"
  by (induction ps arbitrary: acc) simp_all

lemma iterate_record:
  "Th8_HashIterate (Some h) record_entry acc = acc @ map (\<lambda>p. (he_key p, he_data p)) (entries h)"
proof -
  have "iterate_buckets record_entry bs acc = acc @ map (\<lambda>p. (he_key p, he_data p)) (concat bs)" for bs
    by (induction bs arbitrary: acc) (simp_all add: iterate_chain_record)
  then show ?thesis by (simp add: Th8_HashIterate_def entries_def)
qed

lemma visit_record:
  "\<exists>n \<le> length ps. visit_ordered ready record_entry i ps acc =
     (if n = length ps then TH8_OK else TH8_ERROR, acc @ map (\<lambda>p. (he_key p, he_data p)) (take n ps))"
proof (induction ps arbitrary: i acc)
  case (Cons p ps)
  show ?case
  proof (cases "i mod 4096 = 0 \<and> \<not> ready i")
    case True
    then show ?thesis by (intro exI [of _ 0]) auto
  next
    case False
    obtain n where "n \<le> length ps" "visit_ordered ready record_entry (i + 1) ps (acc @ [(he_key p, he_data p)]) =
      (if n = length ps then TH8_OK else TH8_ERROR,
       (acc @ [(he_key p, he_data p)]) @ map (\<lambda>p. (he_key p, he_data p)) (take n ps))"
      using Cons.IH by blast
    with False show ?thesis by (intro exI [of _ "Suc n"]) auto
  qed
qed simp

lemma visit_ready: "(\<And>n. ready n) \<Longrightarrow>
   visit_ordered ready record_entry i ps acc = (TH8_OK, acc @ map (\<lambda>p. (he_key p, he_data p)) ps)"
  by (induction ps arbitrary: i acc) auto


lemma ordered_walk:
  assumes run: "Th8_HashIterateOrdered env h record_entry [] = (rc, acc)"
  shows "(rc = TH8_OK \<and> acc = dict_list h) \<or>
         (rc = TH8_ERROR \<and> (\<exists>n < length (dict_list h). acc = take n (dict_list h)))"
proof (cases "entries h = []")
  case True
  with run show ?thesis
    by (simp add: Th8_HashIterateOrdered_def entries_def [symmetric] dict_list_def Let_def)
next
  case live: False
  have short: "sort_key he_order xs = xs" if "\<not> 1 < length xs" for xs :: "'a hash_entry list"
    using that by (cases xs) auto
  show ?thesis
  proof (cases "rc = TH8_ERROR \<and> acc = []")
    case True
    with live show ?thesis by (auto simp: dict_list_def)
  next
    case False
    have "visit_ordered (ready_visit env) record_entry 0 (sort_key he_order (entries h)) [] = (rc, acc)"
      using run False live short [of "entries h"]
      by (auto simp: Th8_HashIterateOrdered_def Let_def entries_def [symmetric] simp del: One_nat_def
          split: option.splits if_splits dest: sort_result)
    with visit_record [of "sort_key he_order (entries h)" "ready_visit env" 0 "[]"] show ?thesis
      by (auto simp: dict_list_def take_map le_less split: if_splits)
  qed
qed

lemma ordered_walk_ready:
  assumes "\<And>n. ready_walk env n" "\<And>n. ready_sort env n" "\<And>n. ready_visit env n"
    and "alloc_entry env" "alloc_tmp env"
  shows "Th8_HashIterateOrdered env h record_entry [] = (TH8_OK, dict_list h)"
proof -
  have short: "sort_key he_order xs = xs" if "\<not> 1 < length xs" for xs :: "'a hash_entry list"
    using that by (cases xs) auto
  obtain n where n: "polls (ready_walk env) 0 (length (entries h)) = Some n"
    using polls_ready assms(1) by blast
  obtain m where "polls (ready_walk env) n (length (entries h)) = Some m"
    using polls_ready assms(1) by blast
  with n assms short [of "entries h"] show ?thesis
    by (auto simp: Th8_HashIterateOrdered_def Let_def entries_def [symmetric] sort_ready visit_ready dict_list_def
        simp del: One_nat_def)
qed

section \<open>Properties\<close>

text \<open>
  The bucket function is SipHash-2-4. For every seed and every key the unrolled code computes the
  published function, reduced to one of the 257 buckets.
\<close>

theorem th8HashKey_siphash:
  "th8HashKey s z = unat (siphash24 (th8HashSeed0 s) (th8HashSeed1 s) z) mod 257 \<and> th8HashKey s z < 257"
  using sip_hash_ref [of s z] by (simp add: th8HashKey_def)

text \<open>
  C4: the hash table refines an association list kept in insertion order. Any run of fewer than
  \<open>2 ^ 63 - 1\<close> creations, removals and assignments, from the empty table, leaves exactly the entries that
  the same run leaves in the list, in the same order, and lookup returns what the list associates.
\<close>

theorem hash_table_refines_dict:
  assumes "int (length ops) < 2 ^ 63 - 1"
  shows "dict_list (fold (hash_step s) ops hash_empty) = fold dict_step ops [] \<and>
    entry_data s (fold (hash_step s) ops hash_empty) k =
      (case map_of (fold dict_step ops []) k of None \<Rightarrow> None | Some d \<Rightarrow> d)"
proof -
  have "hash_inv s (fold (hash_step s) ops hash_empty) \<and>
    dict_list (fold (hash_step s) ops hash_empty) = fold dict_step ops (dict_list (hash_empty :: 'a hash_table))"
    using assms by (intro hash_run) (simp_all add: hash_empty_def hash_inv_empty [unfolded hash_empty_def])
  then show ?thesis
    using entry_data_dict [of s "fold (hash_step s) ops hash_empty" k] by (simp add: dict_list_def)
qed

theorem hash_table_refines_dict_witness:
  "dict_list (fold (hash_step seed_init) [Create ''b'', Create ''a'', Assign ''b'' (Some (7 :: nat)), Remove ''a'']
     hash_empty) = [(''b'', Some 7)]"
proof -
  let ?ops = "[Create ''b'', Create ''a'', Assign ''b'' (Some (7 :: nat)), Remove ''a'']"
  have "int (length ?ops) < 2 ^ 63 - 1" by simp
  from hash_table_refines_dict [OF this, of seed_init "''b''"] show ?thesis by simp
qed

text \<open>
  An ordered walk visits entries in insertion order or reports an error. Whatever the readiness
  checks and allocations answer, the entries seen are a prefix of the insertion order, all of them when
  the walk returns \<open>TH8_OK\<close>; and when every check passes and memory is available it does.
\<close>

theorem ordered_iteration:
  "(\<forall>rc acc. Th8_HashIterateOrdered env h record_entry [] = (rc, acc) \<longrightarrow>
      rc = TH8_OK \<and> acc = dict_list h \<or>
      rc = TH8_ERROR \<and> (\<exists>n < length (dict_list h). acc = take n (dict_list h))) \<and>
   ((\<forall>n. ready_walk env n \<and> ready_sort env n \<and> ready_visit env n) \<and> alloc_entry env \<and> alloc_tmp env \<longrightarrow>
      Th8_HashIterateOrdered env h record_entry [] = (TH8_OK, dict_list h))"
  using ordered_walk [of env h] ordered_walk_ready [of env h] by blast

theorem ordered_iteration_witness:
  "Th8_HashIterateOrdered
     \<lparr>ready_walk = \<lambda>_. True, ready_sort = \<lambda>_. True, ready_visit = \<lambda>_. True, alloc_entry = True, alloc_tmp = True\<rparr>
     (hash_empty\<lparr>aBucket := [[\<lparr>he_key = ''a'', he_data = Some True, he_order = 1\<rparr>],
                              [\<lparr>he_key = ''b'', he_data = Some False, he_order = 0\<rparr>]]\<rparr>) record_entry [] =
   (TH8_OK, [(''b'', Some False), (''a'', Some True)])"
  by (subst ordered_iteration [THEN conjunct2, THEN mp]) (simp_all add: dict_list_def entries_def)

text \<open>
  An unordered walk visits every entry of the table exactly once: the keys it passes to the callback
  are distinct, and they are the keys that lookup finds.
\<close>

lemma iteration_visits_once:
  assumes "hash_inv s h" and "Th8_HashIterate (Some h) record_entry [] = seen"
  shows "distinct (map fst seen) \<and> fst ` set seen = {k. snd (Th8_HashFind s (True, True) h k 0) = Some k}"
proof -
  have seen: "seen = map (\<lambda>p. (he_key p, he_data p)) (entries h)" using assms(2) iterate_record [of h "[]"] by simp
  have "snd (Th8_HashFind s (True, True) h k 0) = Some k \<longleftrightarrow> k \<in> dom (hash_tab s h)" for k
    using hash.find_hit [OF assms(1), of k 0 "(True, True)"] hash.find_miss [OF assms(1), of k 0 "(True, True)"]
    by (cases "hash_tab s h k") (auto simp: domIff)
  with distinct_keys [OF assms(1)] set_entries_tab [OF assms(1)] show ?thesis
    by (auto simp: seen comp_def image_image)
qed

lemma iteration_visits_once_witness:
  "distinct (map fst (Th8_HashIterate (Some (hash_step seed_init (Create ''a'') (hash_empty :: nat hash_table))) record_entry []))"
proof -
  have "hash_inv seed_init (hash_step seed_init (Create ''a'') (hash_empty :: nat hash_table))"
    by (intro hash_step_inv hash_inv_empty)
  from iteration_visits_once [OF this refl] show ?thesis by blast
qed

text \<open>Seeding happens once: after the first call the seeds do not change.\<close>

lemma th8SeedHash_once: "th8SeedHash r' (th8SeedHash r s) = th8SeedHash r s"
  by (cases r) (auto simp: th8SeedHash_def Let_def)

end
