(* ===== verification/Th8_Cache.thy ===== *)
theory Th8_Cache
  imports Th8_Hashing
begin

text \<open>
  The internal-representation cache of \<open>src/src/th8_cache.c\<close>: the FNV-1a key hash, the 12-byte key, lookup
  with collision eviction, the list-keyed variant, removal, and the buffer pool built on the cache.

  The cache is a hash table of entries, \<open>None\<close> until first used. A borrowed \<open>Th8_Value *\<close> is the key of the
  entry that owns it. The union of \<open>Th8_Value\<close> is a datatype of representations, \<open>NoRep\<close> for the zeroed
  union. Each allocation has an outcome parameter. The compile-time fault-injection and benchmarking
  hooks and the mutex are left out; the operations run one at a time under that mutex.

  The theorems: the key determines the cache type and the hash, a returned value always belongs to
  exactly the requested type and string whatever collides, stored values are found again, and the buffer
  pool hands out buffers that are large enough and owned by nobody else.
\<close>

section \<open>Keys\<close>

definition th8CacheHashBytes :: "string \<Rightarrow> 64 word" where
  "th8CacheHashBytes z =
     foldl (\<lambda>h c. (h XOR of_nat (uchar c)) * 1099511628211) 14695981039346656037 z"

definition th8CacheHashList :: "string list \<Rightarrow> 64 word" where
  "th8CacheHashList azElem =
     foldl (\<lambda>h e. (push_bit 5 h OR drop_bit 59 h) XOR th8CacheHashBytes e) (of_nat (length azElem)) azElem"

definition th8CacheEncodeKey :: "int \<Rightarrow> 64 word \<Rightarrow> string" where
  "th8CacheEncodeKey cacheType hashCode =
     [char_of (cacheType AND 0xFF), char_of (drop_bit 8 cacheType AND 0xFF),
      char_of (drop_bit 16 cacheType AND 0xFF), char_of (drop_bit 24 cacheType AND 0xFF)] @
     map (\<lambda>i. char_of (unat (drop_bit (8 * i) hashCode AND 0xFF))) [0, 1, 2, 3, 4, 5, 6, 7]"

section \<open>Values and entries\<close>

record buffer =
  buf_id :: nat
  buf_cap :: nat

datatype rep =
    NoRep
  | IntRep int
  | WideRep int
  | BoolRep int
  | SplitRep "string list"
  | BufferRep "buffer option" nat nat

record cache_value =
  zData :: "string option"
  u_rep :: rep

record cache_entry =
  cacheType :: int
  zOriginal :: "string option"
  azListElem :: "string list"
  ce_value :: cache_value

abbreviation TH8_CACHE_INT :: int where "TH8_CACHE_INT \<equiv> 1"
abbreviation TH8_CACHE_WIDE :: int where "TH8_CACHE_WIDE \<equiv> 2"
abbreviation TH8_CACHE_BOOL :: int where "TH8_CACHE_BOOL \<equiv> 5"
abbreviation TH8_CACHE_STRING :: int where "TH8_CACHE_STRING \<equiv> 7"
abbreviation TH8_CACHE_LIST :: int where "TH8_CACHE_LIST \<equiv> 8"
abbreviation TH8_CACHE_BUFFER :: int where "TH8_CACHE_BUFFER \<equiv> 11"

type_synonym cache = "cache_entry hash_table option"

record cache_alloc =
  al_hash :: bool
  al_entry :: "bool \<times> bool"
  al_struct :: bool
  al_string :: bool

abbreviation al_all :: cache_alloc where
  "al_all \<equiv> \<lparr>al_hash = True, al_entry = (True, True), al_struct = True, al_string = True\<rparr>"

section \<open>Lookup\<close>

definition th8CacheGetHash :: "cache_alloc \<Rightarrow> cache \<Rightarrow> cache" where
  "th8CacheGetHash al c = (case c of None \<Rightarrow> Th8_HashNew (al_hash al) | Some h \<Rightarrow> Some h)"

text \<open>
  The hit test compares type, length and bytes. An entry without \<open>zOriginal\<close> has length zero, so it
  matches the empty string.
\<close>

definition entry_matches :: "cache_entry \<Rightarrow> int \<Rightarrow> string \<Rightarrow> bool" where
  "entry_matches e type z \<longleftrightarrow>
     cacheType e = type \<and> (case zOriginal e of None \<Rightarrow> z = [] | Some orig \<Rightarrow> orig = z)"

definition fresh_entry :: "int \<Rightarrow> string \<Rightarrow> cache_entry" where
  "fresh_entry type z =
     \<lparr>cacheType = type, zOriginal = Some z, azListElem = [],
      ce_value = \<lparr>zData = Some z, u_rep = NoRep\<rparr>\<rparr>"

definition store_new ::
  "hash_seed \<Rightarrow> cache_alloc \<Rightarrow> cache_entry \<Rightarrow> cache_entry hash_table \<Rightarrow> string \<Rightarrow> cache \<times> string option" where
  "store_new s al e h p =
     (if \<not> al_struct al then (Some h, None)
      else if \<not> al_string al then (Some h, None)
      else (Some (entry_set_data s h p (Some e)), Some p))"

definition Th8_FindInCache ::
  "hash_seed \<Rightarrow> cache_alloc \<Rightarrow> int \<Rightarrow> string \<Rightarrow> cache \<Rightarrow> cache \<times> string option" where
  "Th8_FindInCache s al type z c =
     (let zKey = th8CacheEncodeKey type (th8CacheHashBytes z)
      in case th8CacheGetHash al c of
           None \<Rightarrow> (None, None)
         | Some paCache \<Rightarrow>
             (case Th8_HashFind s (al_entry al) paCache zKey 1 of
                (h, None) \<Rightarrow> (Some h, None)
              | (h, Some p) \<Rightarrow>
                  (case entry_data s h p of
                     None \<Rightarrow> store_new s al (fresh_entry type z) h p
                   | Some e \<Rightarrow>
                       if entry_matches e type z then (Some h, Some p)
                       else store_new s al (fresh_entry type z) (entry_set_data s h p None) p)))"

text \<open>Access through a borrowed pointer: reading the value, and assigning its representation.\<close>

definition cache_at :: "hash_seed \<Rightarrow> cache \<Rightarrow> string \<Rightarrow> cache_entry option" where
  "cache_at s c p = (case c of None \<Rightarrow> None | Some h \<Rightarrow> entry_data s h p)"

definition cache_store :: "hash_seed \<Rightarrow> cache \<Rightarrow> string \<Rightarrow> rep \<Rightarrow> cache" where
  "cache_store s c p r =
     (case c of None \<Rightarrow> None
      | Some h \<Rightarrow>
          (case entry_data s h p of None \<Rightarrow> Some h
           | Some e \<Rightarrow> Some (entry_set_data s h p (Some (e\<lparr>ce_value := (ce_value e)\<lparr>u_rep := r\<rparr>\<rparr>)))))"

definition th8RemoveFromCache :: "hash_seed \<Rightarrow> int \<Rightarrow> string \<Rightarrow> cache \<Rightarrow> cache" where
  "th8RemoveFromCache s type z c =
     (let zKey = th8CacheEncodeKey type (th8CacheHashBytes z)
      in case c of
           None \<Rightarrow> None
         | Some h \<Rightarrow>
             (case Th8_HashFind s (True, True) h zKey 0 of
                (h, None) \<Rightarrow> Some h
              | (h, Some p) \<Rightarrow>
                  (case entry_data s h p of
                     None \<Rightarrow> Some h
                   | Some _ \<Rightarrow>
                       Some (fst (Th8_HashFind s (True, True) (entry_set_data s h p None) zKey (- 1))))))"

text \<open>Clearing visits every entry to free what it owns; the second component lists what was freed.\<close>

definition th8CacheFreeCallback :: "cache_entry hash_entry \<Rightarrow> cache_entry list \<Rightarrow> int \<times> cache_entry list" where
  "th8CacheFreeCallback p freed = (TH8_OK, case he_data p of None \<Rightarrow> freed | Some e \<Rightarrow> freed @ [e])"

definition th8ClearCache :: "cache \<Rightarrow> cache \<times> cache_entry list" where
  "th8ClearCache c = (None, Th8_HashIterate c th8CacheFreeCallback [])"

section \<open>List-keyed lookup\<close>

definition list_block_size :: "string list \<Rightarrow> nat option" where
  "list_block_size azElem =
     (let nElem = length azElem;
          nStrTotal = sum_list (map (\<lambda>e. length e + 1) azElem) mod 2 ^ 64
      in if nElem * 8 \<ge> 2 ^ 64 then None
         else if nElem * 8 + nElem * 8 \<ge> 2 ^ 64 then None
         else if nElem * 8 + nElem * 8 + nStrTotal \<ge> 2 ^ 64 then None
         else Some (nElem * 8 + nElem * 8 + nStrTotal))"

definition list_entry :: "int \<Rightarrow> string list \<Rightarrow> cache_entry" where
  "list_entry type azElem =
     \<lparr>cacheType = type, zOriginal = None, azListElem = azElem,
      ce_value = \<lparr>zData = None, u_rep = NoRep\<rparr>\<rparr>"

definition th8FindListInCache ::
  "hash_seed \<Rightarrow> cache_alloc \<Rightarrow> int \<Rightarrow> string list \<Rightarrow> cache \<Rightarrow> cache \<times> string option" where
  "th8FindListInCache s al type azElem c =
     (if azElem = [] then Th8_FindInCache s al type [] c
      else
        (let zKey = th8CacheEncodeKey type (th8CacheHashList azElem)
         in case th8CacheGetHash al c of
              None \<Rightarrow> (None, None)
            | Some paCache \<Rightarrow>
                (case Th8_HashFind s (al_entry al) paCache zKey 1 of
                   (h, None) \<Rightarrow> (Some h, None)
                 | (h, Some p) \<Rightarrow>
                     (let miss = (\<lambda>h. if list_block_size azElem = None then (Some h, None)
                                      else store_new s al (list_entry type azElem) h p)
                      in case entry_data s h p of
                           None \<Rightarrow> miss h
                         | Some e \<Rightarrow>
                             if cacheType e = type \<and> azListElem e = azElem then (Some h, Some p)
                             else miss (entry_set_data s h p None)))))"

definition th8SetCacheString :: "hash_seed \<Rightarrow> bool \<Rightarrow> string \<Rightarrow> string \<Rightarrow> cache \<Rightarrow> cache" where
  "th8SetCacheString s ok p z c =
     (case c of None \<Rightarrow> None
      | Some h \<Rightarrow>
          (case entry_data s h p of
             None \<Rightarrow> Some h
           | Some e \<Rightarrow>
               if zData (ce_value e) \<noteq> None then Some h
               else if \<not> ok then Some h
               else Some (entry_set_data s h p
                 (Some (e\<lparr>zOriginal := Some z, ce_value := (ce_value e)\<lparr>zData := Some z\<rparr>\<rparr>)))))"

definition th8CopyValue :: "bool \<times> bool \<Rightarrow> cache_value \<Rightarrow> cache_value option" where
  "th8CopyValue ok v =
     (if \<not> fst ok then None
      else
        (case zData v of
           Some z \<Rightarrow>
             if z \<noteq> [] then (if \<not> snd ok then None else Some \<lparr>zData = Some z, u_rep = NoRep\<rparr>)
             else Some \<lparr>zData = None, u_rep = NoRep\<rparr>
         | None \<Rightarrow> Some \<lparr>zData = None, u_rep = NoRep\<rparr>))"

section \<open>The buffer pool\<close>

abbreviation TH8_POOL_MIN_CLASS :: nat where "TH8_POOL_MIN_CLASS \<equiv> 32"
abbreviation TH8_POOL_NUM_CLASSES :: nat where "TH8_POOL_NUM_CLASSES \<equiv> 12"

function class_loop :: "nat \<Rightarrow> nat \<Rightarrow> nat \<Rightarrow> nat \<times> nat" where
  "class_loop nBytes nClass idx =
     (if nClass < nBytes \<and> idx < TH8_POOL_NUM_CLASSES - 1 then class_loop nBytes (nClass * 2) (idx + 1)
      else (nClass, idx))"
  by auto
termination
  by (relation "measure (\<lambda>(_, _, idx). TH8_POOL_NUM_CLASSES - idx)") auto

declare class_loop.simps [simp del]

text \<open>The class index and the class size, or nothing when the request is too large for the pool.\<close>

definition th8BufferClassIndex :: "nat \<Rightarrow> (nat \<times> nat) option" where
  "th8BufferClassIndex nBytes =
     (let (nClass, idx) = class_loop nBytes TH8_POOL_MIN_CLASS 0
      in if nClass < nBytes then None else Some (idx, nClass))"

definition th8BufferPoolKey :: "nat \<Rightarrow> string" where
  "th8BufferPoolKey idx =
     [NUL, CHR ''P'', char_of (uchar (CHR ''0'') + idx div 10), char_of (uchar (CHR ''0'') + idx mod 10)]"

text \<open>A direct allocation yields a buffer with a new identity, when the allocator succeeds.\<close>

definition pool_malloc :: "bool \<Rightarrow> nat \<Rightarrow> nat \<Rightarrow> buffer option" where
  "pool_malloc ok new n = (if ok then Some \<lparr>buf_id = new, buf_cap = n\<rparr> else None)"

definition pooled :: "cache_entry \<Rightarrow> (buffer \<times> nat) option" where
  "pooled e = (case u_rep (ce_value e) of BufferRep (Some b) nCapacity _ \<Rightarrow> Some (b, nCapacity) | _ \<Rightarrow> None)"

definition th8BufferAlloc ::
  "hash_seed \<Rightarrow> cache_alloc \<Rightarrow> bool \<Rightarrow> nat \<Rightarrow> nat \<Rightarrow> cache \<Rightarrow> cache \<times> buffer option" where
  "th8BufferAlloc s al ok new nBytes c =
     (let nBytes = (if nBytes = 0 then 1 else nBytes)
      in case th8BufferClassIndex nBytes of
           None \<Rightarrow> (c, pool_malloc ok new nBytes)
         | Some (idx, nClass) \<Rightarrow>
             (case Th8_FindInCache s al TH8_CACHE_BUFFER (th8BufferPoolKey idx) c of
                (c, None) \<Rightarrow> (c, pool_malloc ok new nClass)
              | (c, Some p) \<Rightarrow>
                  (case Option.bind (cache_at s c p) pooled of
                     None \<Rightarrow> (c, pool_malloc ok new nClass)
                   | Some (b, nCapacity) \<Rightarrow>
                       if nCapacity \<ge> nBytes then (cache_store s c p (BufferRep None nCapacity 0), Some b)
                       else (c, pool_malloc ok new nClass))))"

text \<open>The second component says whether the buffer was returned to the platform.\<close>

definition th8BufferFree ::
  "hash_seed \<Rightarrow> cache_alloc \<Rightarrow> buffer \<Rightarrow> nat \<Rightarrow> cache \<Rightarrow> cache \<times> bool" where
  "th8BufferFree s al b nBytes c =
     (let nBytes = (if nBytes = 0 then 1 else nBytes)
      in case th8BufferClassIndex nBytes of
           None \<Rightarrow> (c, True)
         | Some (idx, nClass) \<Rightarrow>
             (case Th8_FindInCache s al TH8_CACHE_BUFFER (th8BufferPoolKey idx) c of
                (c, None) \<Rightarrow> (c, True)
              | (c, Some p) \<Rightarrow>
                  (if Option.bind (cache_at s c p) pooled = None
                   then (cache_store s c p (BufferRep (Some b) nClass 0), False)
                   else (c, True))))"

section \<open>Lookup as a client of the entry table\<close>

context entry_table
begin

lemma find_create:
  assumes t: "inv t" and f: "find_op a t k 1 = (t', r)"
  shows "inv t' \<and> get_data t' = get_data t \<and> (r = None \<or> r = Some k \<and> tab t' k \<noteq> None)"
proof -
  consider "tab t k \<noteq> None" | "tab t k = None" "a \<noteq> (True, True)" | "tab t k = None" "a = (True, True)" by blast
  then show ?thesis
  proof cases
    case 1
    from find_hit [OF t 1, of 1 a] f t 1 show ?thesis by simp
  next
    case 2
    from create_fail [OF t 2(1) _ 2(2), of 1] f t show ?thesis by simp
  next
    case 3
    from create [OF t 3(1), of 1 t' r] f 3(2) have c: "r = Some k" "inv t'" "tab t' = (tab t)(k \<mapsto> None)" by simp_all
    then have "get_data t' k' = get_data t k'" for k' using t 3(1) by (simp add: get_data)
    with c show ?thesis by auto
  qed
qed

lemma find_create_ok:
  assumes t: "inv t"
  shows "snd (find_op (True, True) t k 1) = Some k"
proof (cases "tab t k = None")
  case True
  obtain t' r where f: "find_op (True, True) t k 1 = (t', r)" by fastforce
  from create [OF t True _ f] f show ?thesis by simp
next
  case False
  from find_hit [OF t False, of 1 "(True, True)"] show ?thesis by simp
qed

lemma get_set: "inv t \<Longrightarrow> tab t k \<noteq> None \<Longrightarrow> get_data (set_data t k d) = (get_data t)(k := d)"
  using set_inv [of t k d] set_tab [of t k d] by (auto simp: get_data fun_eq_iff)

lemma get_tab: "inv t \<Longrightarrow> get_data t k \<noteq> None \<Longrightarrow> tab t k \<noteq> None"
  by (auto simp: get_data split: option.splits)

end

definition cache_all :: "hash_seed \<Rightarrow> (cache_entry \<Rightarrow> bool) \<Rightarrow> cache \<Rightarrow> bool" where
  "cache_all s P c =
     (case c of None \<Rightarrow> True | Some h \<Rightarrow> hash_inv s h \<and> (\<forall>k e. entry_data s h k = Some e \<longrightarrow> P e))"

lemma cache_all_at: "cache_all s P c \<Longrightarrow> cache_at s c p = Some e \<Longrightarrow> P e"
  by (auto simp: cache_all_def cache_at_def split: option.splits)

lemma get_hash_all: "cache_all s P c \<Longrightarrow> th8CacheGetHash al c = Some h \<Longrightarrow>
   hash_inv s h \<and> (\<forall>k. entry_data s h k = cache_at s c k)"
  by (auto simp: cache_all_def th8CacheGetHash_def Th8_HashNew_def cache_at_def hash_inv_empty
      hash.get_data hash.tab_empty split: option.splits if_splits)

text \<open>What a lookup by key does, for any hit test and any fresh entry.\<close>

definition probe ::
  "hash_seed \<Rightarrow> cache_alloc \<Rightarrow> string \<Rightarrow> (cache_entry \<Rightarrow> bool) \<Rightarrow> (cache_entry hash_table \<Rightarrow> cache \<times> string option) \<Rightarrow>
   cache \<Rightarrow> cache \<times> string option" where
  "probe s al zKey match miss c =
     (case th8CacheGetHash al c of
        None \<Rightarrow> (None, None)
      | Some paCache \<Rightarrow>
          (case Th8_HashFind s (al_entry al) paCache zKey 1 of
             (h, None) \<Rightarrow> (Some h, None)
           | (h, Some p) \<Rightarrow>
               (case entry_data s h p of
                  None \<Rightarrow> miss h
                | Some e \<Rightarrow> if match e then (Some h, Some p) else miss (entry_set_data s h p None))))"

lemma probe_result:
  assumes all: "cache_all s P c" and f: "P fresh"
    and miss: "\<And>h. miss h = (Some h, None) \<or> miss h = (Some (entry_set_data s h zKey (Some fresh)), Some zKey)"
    and run: "probe s al zKey match miss c = (c', r)"
  shows "cache_all s P c' \<and>
    (\<forall>p. r = Some p \<longrightarrow> p = zKey \<and> (\<exists>e. cache_at s c' p = Some e \<and>
       (e = fresh \<or> match e \<and> cache_at s c p = Some e))) \<and>
    (\<forall>k. k \<noteq> zKey \<longrightarrow> cache_at s c' k = cache_at s c k) \<and>
    (\<forall>e. cache_at s c zKey = Some e \<longrightarrow> match e \<longrightarrow> r = None \<or> cache_at s c' zKey = Some e) \<and>
    cache_at s c' zKey \<in> {None, cache_at s c zKey, Some fresh}"
proof (cases "th8CacheGetHash al c")
  case None
  then have "c = None" by (auto simp: th8CacheGetHash_def split: option.splits)
  with None run show ?thesis by (auto simp: probe_def cache_all_def cache_at_def)
next
  case (Some h0)
  note h0 = get_hash_all [OF all Some]
  obtain h r0 where hf: "Th8_HashFind s (al_entry al) h0 zKey 1 = (h, r0)" by fastforce
  note fc = hash.find_create [OF conjunct1 [OF h0] hf]
  have at: "cache_at s c k = entry_data s h k" for k using h0 fc by (simp add: fun_eq_iff)
  have allh: "hash_inv s h" "\<forall>k e. entry_data s h k = Some e \<longrightarrow> P e"
    using fc all at by (auto dest: cache_all_at)
  show ?thesis
  proof (cases r0)
    case None
    with run Some hf allh at show ?thesis by (auto simp: probe_def cache_all_def cache_at_def)
  next
    case (Some p0)
    with fc have p0: "p0 = zKey" "hash_tab s h zKey \<noteq> None" by auto
    have up: "hash_inv s (entry_set_data s h zKey d)" "hash_tab s (entry_set_data s h zKey d) zKey \<noteq> None"
      "entry_data s (entry_set_data s h zKey d) = (entry_data s h)(zKey := d)" for d
      using hash.set_inv [OF allh(1)] hash.set_tab [OF allh(1) p0(2)] hash.get_set [OF allh(1) p0(2)] by auto
    note upup = hash.set_inv [OF up(1)] hash.get_set [OF up(1,2)]
    show ?thesis
    proof (cases "entry_data s h zKey")
      case None
      with run \<open>th8CacheGetHash al c = Some h0\<close> hf Some p0 have "miss h = (c', r)" by (simp add: probe_def)
      with miss [of h] show ?thesis
        using allh f up None at by (auto simp: cache_all_def cache_at_def)
    next
      case (Some e)
      show ?thesis
      proof (cases "match e")
        case True
        with run \<open>th8CacheGetHash al c = Some h0\<close> hf \<open>r0 = Some p0\<close> p0 Some
        have "c' = Some h" "r = Some zKey" by (simp_all add: probe_def)
        with True Some allh at show ?thesis by (auto simp: cache_all_def cache_at_def)
      next
        case False
        with run \<open>th8CacheGetHash al c = Some h0\<close> hf \<open>r0 = Some p0\<close> p0 Some
        have "miss (entry_set_data s h zKey None) = (c', r)" by (simp add: probe_def)
        with miss [of "entry_set_data s h zKey None"] show ?thesis
          using allh f up upup Some False at by (auto simp: cache_all_def cache_at_def)
      qed
    qed
  qed
qed


abbreviation cache_key :: "int \<Rightarrow> string \<Rightarrow> string" where
  "cache_key type z \<equiv> th8CacheEncodeKey type (th8CacheHashBytes z)"

lemma hash_find_handle: "Th8_HashFind s a h k op = (h', Some p) \<Longrightarrow> p = k"
  by (auto simp: Th8_HashFind_def Let_def split: if_splits)

lemma FindInCache_probe:
  "Th8_FindInCache s al type z =
     probe s al (cache_key type z) (\<lambda>e. entry_matches e type z)
       (\<lambda>h. store_new s al (fresh_entry type z) h (cache_key type z))"
  by (rule ext)
    (auto simp: Th8_FindInCache_def probe_def Let_def dest: hash_find_handle split: option.splits prod.splits)

lemma FindListInCache_probe:
  "azElem \<noteq> [] \<Longrightarrow> th8FindListInCache s al type azElem =
     probe s al (th8CacheEncodeKey type (th8CacheHashList azElem))
       (\<lambda>e. cacheType e = type \<and> azListElem e = azElem)
       (\<lambda>h. if list_block_size azElem = None then (Some h, None)
            else store_new s al (list_entry type azElem) h (th8CacheEncodeKey type (th8CacheHashList azElem)))"
  by (rule ext)
    (auto simp: th8FindListInCache_def probe_def Let_def dest: hash_find_handle split: option.splits prod.splits)

lemma FindInCache_result:
  assumes "cache_all s P c" "P (fresh_entry type z)" "Th8_FindInCache s al type z c = (c', r)"
  shows "cache_all s P c' \<and>
    (\<forall>p. r = Some p \<longrightarrow> p = cache_key type z \<and> (\<exists>e. cache_at s c' p = Some e \<and>
       (e = fresh_entry type z \<or> entry_matches e type z \<and> cache_at s c p = Some e))) \<and>
    (\<forall>k. k \<noteq> cache_key type z \<longrightarrow> cache_at s c' k = cache_at s c k) \<and>
    (\<forall>e. cache_at s c (cache_key type z) = Some e \<longrightarrow> entry_matches e type z \<longrightarrow>
       r = None \<or> cache_at s c' (cache_key type z) = Some e) \<and>
    cache_at s c' (cache_key type z) \<in> {None, cache_at s c (cache_key type z), Some (fresh_entry type z)}"
  using assms(3) unfolding FindInCache_probe
  by (rule probe_result [OF assms(1,2), rotated]) (auto simp: store_new_def)

lemma fresh_matches: "entry_matches (fresh_entry type z) type z"
  by (simp add: entry_matches_def fresh_entry_def)

lemma store_all:
  assumes "cache_all s P c" "\<And>e. cache_at s c p = Some e \<Longrightarrow> P (e\<lparr>ce_value := (ce_value e)\<lparr>u_rep := r\<rparr>\<rparr>)"
  shows "cache_all s P (cache_store s c p r)"
proof (cases c)
  case (Some h)
  then have h: "hash_inv s h" "\<And>k e. entry_data s h k = Some e \<Longrightarrow> P e" using assms(1) by (auto simp: cache_all_def)
  show ?thesis
  proof (cases "entry_data s h p")
    case (Some e)
    then have "hash_tab s h p \<noteq> None" using hash.get_tab [OF h(1), of p] by auto
    with h Some \<open>c = Some h\<close> assms(2) hash.get_set [OF h(1)] hash.set_inv [OF h(1)] show ?thesis
      by (auto simp: cache_all_def cache_store_def cache_at_def)
  qed (use assms(1) Some in \<open>simp add: cache_store_def\<close>)
qed (simp add: cache_store_def cache_all_def)

lemma at_store:
  assumes "cache_all s P c" "cache_at s c p = Some e"
  shows "cache_at s (cache_store s c p r) k =
    (if k = p then Some (e\<lparr>ce_value := (ce_value e)\<lparr>u_rep := r\<rparr>\<rparr>) else cache_at s c k)"
proof -
  obtain h where c: "c = Some h" using assms(2) by (cases c) (auto simp: cache_at_def)
  then have h: "hash_inv s h" "entry_data s h p = Some e"
    using assms by (auto simp: cache_all_def cache_at_def)
  then have "hash_tab s h p \<noteq> None" using hash.get_tab [OF h(1), of p] by auto
  with h c hash.get_set [OF h(1)] show ?thesis by (simp add: cache_store_def cache_at_def)
qed

lemma FindInCache_ok:
  assumes "cache_all s P c"
  shows "snd (Th8_FindInCache s al_all type z c) = Some (cache_key type z)"
proof -
  obtain h0 where h0: "th8CacheGetHash al_all c = Some h0"
    by (cases c) (auto simp: th8CacheGetHash_def Th8_HashNew_def)
  have "snd (Th8_HashFind s (True, True) h0 (cache_key type z) 1) = Some (cache_key type z)"
    using hash.find_create_ok get_hash_all [OF assms h0] by blast
  with h0 show ?thesis
    by (auto simp: FindInCache_probe probe_def store_new_def split: option.splits prod.splits)
qed

section \<open>The key\<close>

lemma byte_of_word: "uchar (char_of (unat (w AND 0xFF :: 64 word))) = unat (w AND 0xFF)"
proof -
  have "(w AND 0xFF :: 64 word) = take_bit 8 w" by (simp add: take_bit_eq_mask mask_eq_exp_minus_1)
  moreover have "unat (take_bit 8 w :: 64 word) < 2 ^ 8"
    using take_bit_int_less_exp [of 8 "uint w"] by (simp add: unat_eq_nat_uint unsigned_take_bit_eq nat_less_iff)
  ultimately show ?thesis by simp
qed

lemma hash_bytes_inj:
  assumes "map (\<lambda>i. char_of (unat (drop_bit (8 * i) v AND 0xFF)) :: char) [0, 1, 2, 3, 4, 5, 6, 7] =
           map (\<lambda>i. char_of (unat (drop_bit (8 * i) w AND 0xFF))) [0, 1, 2, 3, 4, 5, 6, 7]"
  shows "v = (w :: 64 word)"
proof (rule bit_word_eqI)
  fix n assume n: "n < LENGTH(64)"
  define i where "i = n div 8"
  have "i \<in> set [0, 1, 2, 3, 4, 5, 6, 7]" using n by (auto simp: i_def)
  then have "(char_of (unat (drop_bit (8 * i) v AND 0xFF)) :: char) = char_of (unat (drop_bit (8 * i) w AND 0xFF))"
    using assms unfolding map_eq_conv by (rule bspec [rotated])
  then have "drop_bit (8 * i) v AND 0xFF = drop_bit (8 * i) w AND 0xFF"
    using byte_of_word by (metis unsigned_word_eqI)
  then have "bit (drop_bit (8 * i) v AND 0xFF) (n mod 8) = bit (drop_bit (8 * i) w AND 0xFF) (n mod 8)" by simp
  moreover have "(0xFF :: 64 word) = mask 8" by (simp add: mask_eq_exp_minus_1)
  moreover have "8 * i + n mod 8 = n" by (simp add: i_def)
  moreover have "n mod 8 < 64" by (rule less_trans [of _ 8]) simp_all
  ultimately show "bit v n = bit w n" by (simp add: bit_and_iff bit_drop_bit_eq bit_mask_iff)
qed

lemma type_bytes_inj:
  fixes t t' :: int
  assumes "0 \<le> t" "t < 256" "0 \<le> t'" "t' < 256"
    and "(char_of (t AND 0xFF) :: char) = char_of (t' AND 0xFF)"
  shows "t = t'"
proof -
  have "x AND 0xFF = x" if "0 \<le> x" "x < 256" for x :: int
    using that take_bit_int_eq_self [of x 8] by (simp add: take_bit_eq_mask mask_eq_exp_minus_1)
  with assms have "(char_of t :: char) = char_of t'" by simp
  then have "(of_char (char_of t) :: int) = of_char (char_of t')" by simp
  with assms show ?thesis by simp
qed

lemma EncodeKey_inj:
  assumes "0 \<le> t" "t < 256" "0 \<le> t'" "t' < 256"
  shows "th8CacheEncodeKey t v = th8CacheEncodeKey t' w \<longleftrightarrow> t = t' \<and> v = w"
proof
  assume "th8CacheEncodeKey t v = th8CacheEncodeKey t' w"
  then show "t = t' \<and> v = w"
    using type_bytes_inj [OF assms] hash_bytes_inj [of v w] unfolding th8CacheEncodeKey_def by simp
qed simp

section \<open>The size classes\<close>

lemma class_loop_result:
  assumes "idx \<le> 11" "nClass = 32 * 2 ^ idx" "idx = 0 \<or> nClass div 2 < nBytes"
  shows "case class_loop nBytes nClass idx of (c, i) \<Rightarrow>
    i \<le> 11 \<and> c = 32 * 2 ^ i \<and> (i = 0 \<or> c div 2 < nBytes) \<and> (c < nBytes \<longrightarrow> i = 11)"
  using assms
proof (induction nBytes nClass idx rule: class_loop.induct)
  case (1 nBytes nClass idx)
  show ?case
  proof (cases "nClass < nBytes \<and> idx < TH8_POOL_NUM_CLASSES - 1")
    case True
    with 1 show ?thesis by (subst class_loop.simps) simp
  next
    case False
    with 1(2-) show ?thesis by (subst class_loop.simps) auto
  qed
qed

lemma class_index:
  assumes "th8BufferClassIndex n = Some (idx, cls)"
  shows "idx < 12 \<and> cls = 32 * 2 ^ idx \<and> n \<le> cls \<and> (idx = 0 \<or> cls div 2 < n)"
  using class_loop_result [of 0 32 n] assms
  by (auto simp: th8BufferClassIndex_def split: prod.splits if_splits)

lemma class_index_None: "th8BufferClassIndex n = None \<longleftrightarrow> 65536 < n"
proof -
  obtain c i where ci: "class_loop n 32 0 = (c, i)" by fastforce
  with class_loop_result [of 0 32 n] have r: "i \<le> 11" "c = 32 * 2 ^ i" "c < n \<longrightarrow> i = 11" by auto
  have "c \<le> 65536" using r(1,2) power_increasing [of i 11 "2 :: nat"] by simp
  with r have "c < n \<longleftrightarrow> 65536 < n" by auto
  with ci show ?thesis by (simp add: th8BufferClassIndex_def)
qed

lemma pool_key_inj: "i < 12 \<Longrightarrow> j < 12 \<Longrightarrow> th8BufferPoolKey i = th8BufferPoolKey j \<longleftrightarrow> i = j"
proof -
  assume "i < 12" "j < 12"
  moreover have "\<forall>i \<in> set [0..<12]. \<forall>j \<in> set [0..<12]. th8BufferPoolKey i = th8BufferPoolKey j \<longrightarrow> i = j"
    by code_simp
  ultimately show ?thesis by auto
qed


lemma pool_key_not_Nil: "th8BufferPoolKey idx \<noteq> []"
  by (simp add: th8BufferPoolKey_def)

section \<open>The pool as a state machine\<close>

definition pool_ok :: "cache_entry \<Rightarrow> bool" where
  "pool_ok e \<longleftrightarrow>
     (\<forall>b cap. pooled e = Some (b, cap) \<longrightarrow>
        (\<exists>idx < 12. zOriginal e = Some (th8BufferPoolKey idx) \<and> cap = 32 * 2 ^ idx \<and> cap \<le> buf_cap b))"

definition pool_at :: "hash_seed \<Rightarrow> cache \<Rightarrow> string \<Rightarrow> (buffer \<times> nat) option" where
  "pool_at s c k = Option.bind (cache_at s c k) pooled"

lemma pooled_fresh [simp]: "pooled (fresh_entry type z) = None"
  by (simp add: pooled_def fresh_entry_def)

lemma pool_ok_fresh [simp]: "pool_ok (fresh_entry type z)"
  by (simp add: pool_ok_def)

text \<open>A lookup never puts a buffer into the pool.\<close>

lemma find_pool_at:
  assumes "cache_all s pool_ok c" and "Th8_FindInCache s al type z c = (c', r)"
  shows "pool_at s c' k = pool_at s c k \<or> pool_at s c' k = None"
  using FindInCache_result [OF assms(1) _ assms(2)]
  by (cases "k = cache_key type z") (auto simp: pool_at_def)

record pool_state =
  ps_cache :: cache
  ps_used :: "(buffer \<times> nat) list"
  ps_next :: nat

inductive pool_step :: "hash_seed \<Rightarrow> pool_state \<Rightarrow> pool_state \<Rightarrow> bool" for s where
  alloc: "th8BufferAlloc s al ok (ps_next \<sigma>) n (ps_cache \<sigma>) = (c', Some b) \<Longrightarrow>
    pool_step s \<sigma> \<lparr>ps_cache = c', ps_used = (b, n) # ps_used \<sigma>, ps_next = ps_next \<sigma> + 1\<rparr>"
| alloc_fail: "th8BufferAlloc s al ok (ps_next \<sigma>) n (ps_cache \<sigma>) = (c', None) \<Longrightarrow>
    pool_step s \<sigma> (\<sigma>\<lparr>ps_cache := c'\<rparr>)"
| free: "(b, n) \<in> set (ps_used \<sigma>) \<Longrightarrow> th8BufferFree s al b n (ps_cache \<sigma>) = (c', freed) \<Longrightarrow>
    pool_step s \<sigma> (\<sigma>\<lparr>ps_cache := c', ps_used := remove1 (b, n) (ps_used \<sigma>)\<rparr>)"
| lookup: "Th8_FindInCache s al type z (ps_cache \<sigma>) = (c', r) \<Longrightarrow> pool_step s \<sigma> (\<sigma>\<lparr>ps_cache := c'\<rparr>)"
| clear: "th8ClearCache (ps_cache \<sigma>) = (c', freed) \<Longrightarrow> pool_step s \<sigma> (\<sigma>\<lparr>ps_cache := c'\<rparr>)"

definition enough :: "buffer \<Rightarrow> nat \<Rightarrow> bool" where
  "enough b n \<longleftrightarrow>
     (case th8BufferClassIndex (if n = 0 then 1 else n) of
        None \<Rightarrow> n \<le> buf_cap b | Some (_, cls) \<Rightarrow> cls \<le> buf_cap b)"

abbreviation used_ids :: "(buffer \<times> nat) list \<Rightarrow> nat list" where
  "used_ids us \<equiv> map (\<lambda>x. buf_id (fst x)) us"

definition owners_ok :: "(string \<Rightarrow> (buffer \<times> nat) option) \<Rightarrow> nat list \<Rightarrow> nat \<Rightarrow> bool" where
  "owners_ok pool us new \<longleftrightarrow>
     (\<forall>i \<in> set us. i < new) \<and> distinct us \<and>
     (\<forall>k x. pool k = Some x \<longrightarrow> buf_id (fst x) < new \<and> buf_id (fst x) \<notin> set us) \<and>
     (\<forall>k k' x x'. pool k = Some x \<longrightarrow> pool k' = Some x' \<longrightarrow> buf_id (fst x) = buf_id (fst x') \<longrightarrow> k = k')"

definition pool_inv :: "hash_seed \<Rightarrow> pool_state \<Rightarrow> bool" where
  "pool_inv s \<sigma> \<longleftrightarrow>
     cache_all s pool_ok (ps_cache \<sigma>) \<and>
     (\<forall>(b, n) \<in> set (ps_used \<sigma>). enough b n) \<and>
     owners_ok (pool_at s (ps_cache \<sigma>)) (used_ids (ps_used \<sigma>)) (ps_next \<sigma>)"

lemma owners_shrink:
  assumes "owners_ok pool us new" and "\<And>k. pool' k = pool k \<or> pool' k = None"
  shows "owners_ok pool' us new"
proof -
  have "pool' k = Some x \<Longrightarrow> pool k = Some x" for k x using assms(2) [of k] by auto
  with assms(1) show ?thesis unfolding owners_ok_def by blast
qed

lemma owners_new: "owners_ok pool us new \<Longrightarrow> owners_ok pool (new # us) (Suc new)"
  by (fastforce simp: owners_ok_def)

lemma owners_pop:
  assumes "owners_ok pool us new" and "pool k = Some x"
  shows "owners_ok (pool(k := None)) (buf_id (fst x) # us) (Suc new)"
proof -
  have "buf_id (fst x) < new" "buf_id (fst x) \<notin> set us"
    "\<And>k' x'. pool k' = Some x' \<Longrightarrow> buf_id (fst x) = buf_id (fst x') \<Longrightarrow> k = k'"
    using assms unfolding owners_ok_def by blast+
  with assms(1) show ?thesis unfolding owners_ok_def by (auto simp: less_Suc_eq)
qed

lemma owners_release: "owners_ok pool us new \<Longrightarrow> owners_ok pool (remove1 i us) new"
  by (auto simp: owners_ok_def)

lemma owners_push:
  assumes "owners_ok pool us new" and "buf_id (fst x) \<in> set us" and "pool k = None"
  shows "owners_ok (pool(k \<mapsto> x)) (remove1 (buf_id (fst x)) us) new"
proof -
  have "buf_id (fst x) < new" "distinct us"
    "\<And>k' x'. pool k' = Some x' \<Longrightarrow> buf_id (fst x') \<noteq> buf_id (fst x)"
    using assms unfolding owners_ok_def by (blast, blast, metis)
  with assms(1,3) show ?thesis
    unfolding owners_ok_def by (auto simp: set_remove1_eq simp del: split_paired_All split_paired_Ex) blast
qed

lemma find_pool_inv:
  assumes "pool_inv s \<sigma>" and "Th8_FindInCache s al type z (ps_cache \<sigma>) = (c', r)"
  shows "pool_inv s (\<sigma>\<lparr>ps_cache := c'\<rparr>)"
proof -
  have all: "cache_all s pool_ok (ps_cache \<sigma>)" using assms(1) by (simp add: pool_inv_def)
  from FindInCache_result [OF all _ assms(2)] have "cache_all s pool_ok c'" by simp
  moreover have "owners_ok (pool_at s (ps_cache \<sigma>)) (used_ids (ps_used \<sigma>)) (ps_next \<sigma>)"
    using assms(1) by (simp add: pool_inv_def)
  from owners_shrink [OF this find_pool_at [OF all assms(2)]]
  have "owners_ok (pool_at s c') (used_ids (ps_used \<sigma>)) (ps_next \<sigma>)" .
  ultimately show ?thesis using assms(1) by (simp add: pool_inv_def)
qed

lemma enough_malloc:
  "th8BufferClassIndex (if n = 0 then 1 else n) = None \<Longrightarrow> enough \<lparr>buf_id = i, buf_cap = if n = 0 then 1 else n\<rparr> n"
  "th8BufferClassIndex (if n = 0 then 1 else n) = Some (idx, cls) \<Longrightarrow> enough \<lparr>buf_id = i, buf_cap = cls\<rparr> n"
  by (auto simp: enough_def)

lemma pool_inv_malloc:
  assumes "pool_inv s \<sigma>" and "enough b n" "buf_id b = ps_next \<sigma>"
  shows "pool_inv s \<lparr>ps_cache = ps_cache \<sigma>, ps_used = (b, n) # ps_used \<sigma>, ps_next = ps_next \<sigma> + 1\<rparr>"
  using assms owners_new by (auto simp: pool_inv_def)

text \<open>The entry that a lookup for a bin returns is that bin.\<close>

lemma find_bin:
  assumes "pool_inv s \<sigma>" and "Th8_FindInCache s al TH8_CACHE_BUFFER (th8BufferPoolKey idx) (ps_cache \<sigma>) = (c', Some p)"
    and "pool_at s c' p = Some (b, cap)" and "idx < 12"
  shows "cap = 32 * 2 ^ idx \<and> cap \<le> buf_cap b"
proof -
  have all: "cache_all s pool_ok (ps_cache \<sigma>)" using assms(1) by (simp add: pool_inv_def)
  note r = FindInCache_result [OF all _ assms(2)]
  then obtain e where e: "cache_at s c' p = Some e" "e = fresh_entry TH8_CACHE_BUFFER (th8BufferPoolKey idx) \<or>
      entry_matches e TH8_CACHE_BUFFER (th8BufferPoolKey idx)" by auto
  with assms(3) have pe: "pooled e = Some (b, cap)" by (simp add: pool_at_def)
  then have "entry_matches e TH8_CACHE_BUFFER (th8BufferPoolKey idx)" using e(2) by auto
  moreover have "pool_ok e" using r e(1) by (auto dest: cache_all_at)
  ultimately show ?thesis
    using pe assms(4) by (auto simp: pool_ok_def entry_matches_def pool_key_inj)
qed


lemma cache_store_pool:
  assumes "cache_all s P c" "cache_at s c p = Some e"
  shows "pool_at s (cache_store s c p r) =
    (pool_at s c)(p := pooled (e\<lparr>ce_value := (ce_value e)\<lparr>u_rep := r\<rparr>\<rparr>))"
  using at_store [OF assms] by (auto simp: pool_at_def fun_eq_iff)

lemma pool_inv_with_cache:
  "pool_inv s (\<sigma>\<lparr>ps_cache := c'\<rparr>) \<Longrightarrow>
   cache_all s pool_ok c' \<and> (\<forall>(b, n) \<in> set (ps_used \<sigma>). enough b n) \<and>
   owners_ok (pool_at s c') (used_ids (ps_used \<sigma>)) (ps_next \<sigma>)"
  by (simp add: pool_inv_def)

lemma alloc_inv:
  assumes inv: "pool_inv s \<sigma>" and run: "th8BufferAlloc s al ok (ps_next \<sigma>) n (ps_cache \<sigma>) = (c', Some b)"
  shows "pool_inv s \<lparr>ps_cache = c', ps_used = (b, n) # ps_used \<sigma>, ps_next = ps_next \<sigma> + 1\<rparr>"
proof (cases "th8BufferClassIndex (if n = 0 then 1 else n)")
  case None
  with run have "c' = ps_cache \<sigma>" "b = \<lparr>buf_id = ps_next \<sigma>, buf_cap = if n = 0 then 1 else n\<rparr>"
    by (auto simp: th8BufferAlloc_def Let_def pool_malloc_def split: if_splits)
  with pool_inv_malloc [OF inv, of b n] enough_malloc(1) [OF None] show ?thesis by simp
next
  case (Some ic)
  obtain idx cls where ic: "ic = (idx, cls)" by fastforce
  note ci = class_index [OF Some [unfolded ic]]
  obtain c1 r where f: "Th8_FindInCache s al TH8_CACHE_BUFFER (th8BufferPoolKey idx) (ps_cache \<sigma>) = (c1, r)" by fastforce
  note inv1 = find_pool_inv [OF inv f]
  have malloc: ?thesis if "c' = c1" "b = \<lparr>buf_id = ps_next \<sigma>, buf_cap = cls\<rparr>"
    using pool_inv_malloc [OF inv1, of b n] enough_malloc(2) [OF Some [unfolded ic]] that by simp
  show ?thesis
  proof (cases "\<exists>p x. r = Some p \<and> pool_at s c1 p = Some x")
    case False
    then have "c' = c1" "b = \<lparr>buf_id = ps_next \<sigma>, buf_cap = cls\<rparr>"
      using run Some ic f by (auto simp: th8BufferAlloc_def Let_def pool_malloc_def pool_at_def split: option.splits if_splits)
    then show ?thesis by (rule malloc)
  next
    case True
    then obtain p b1 cap where p: "r = Some p" "pool_at s c1 p = Some (b1, cap)" by auto
    then obtain e where e: "cache_at s c1 p = Some e" "pooled e = Some (b1, cap)"
      by (auto simp: pool_at_def bind_eq_Some_conv)
    note cap = find_bin [OF inv _ p(2) conjunct1 [OF ci], of al] and all = pool_inv_with_cache [OF inv1]
    have "cls \<le> buf_cap b1" "(if n = 0 then 1 else n) \<le> cap" using cap f p(1) ci by auto
    with run Some ic f p have c': "c' = cache_store s c1 p (BufferRep None cap 0)" "b = b1"
      by (auto simp: th8BufferAlloc_def Let_def pool_at_def split: if_splits)
    let ?e = "e\<lparr>ce_value := (ce_value e)\<lparr>u_rep := BufferRep None cap 0\<rparr>\<rparr>"
    have pe: "pooled ?e = None" by (simp add: pooled_def)
    have "pool_at s c' = (pool_at s c1)(p := None)"
      using cache_store_pool [OF conjunct1 [OF all] e(1)] pe by (simp add: c')
    then have "owners_ok (pool_at s c') (used_ids ((b, n) # ps_used \<sigma>)) (Suc (ps_next \<sigma>))"
      using owners_pop [of "pool_at s c1" _ _ p "(b1, cap)"] p(2) all by (simp add: c')
    moreover have "cache_all s pool_ok c'"
      unfolding c' by (rule store_all [OF conjunct1 [OF all]]) (use e(1) pe in \<open>simp add: pool_ok_def\<close>)
    moreover have "enough b n" using \<open>cls \<le> buf_cap b1\<close> Some ic c' by (simp add: enough_def)
    ultimately show ?thesis using all by (simp add: pool_inv_def)
  qed
qed

lemma alloc_fail_inv:
  assumes inv: "pool_inv s \<sigma>" and run: "th8BufferAlloc s al ok new n (ps_cache \<sigma>) = (c', None)"
  shows "pool_inv s (\<sigma>\<lparr>ps_cache := c'\<rparr>)"
proof (cases "th8BufferClassIndex (if n = 0 then 1 else n)")
  case None
  with run inv show ?thesis by (auto simp: th8BufferAlloc_def Let_def split: if_splits)
next
  case (Some ic)
  obtain idx cls where ic: "ic = (idx, cls)" by fastforce
  obtain c1 r where f: "Th8_FindInCache s al TH8_CACHE_BUFFER (th8BufferPoolKey idx) (ps_cache \<sigma>) = (c1, r)" by fastforce
  have "c' = c1" using run Some ic f
    by (auto simp: th8BufferAlloc_def Let_def pool_malloc_def split: option.splits if_splits)
  with find_pool_inv [OF inv f] show ?thesis by simp
qed

lemma free_inv:
  assumes inv: "pool_inv s \<sigma>" and used: "(b, n) \<in> set (ps_used \<sigma>)"
    and run: "th8BufferFree s al b n (ps_cache \<sigma>) = (c', freed)"
  shows "pool_inv s (\<sigma>\<lparr>ps_cache := c', ps_used := remove1 (b, n) (ps_used \<sigma>)\<rparr>)"
proof -
  have ids: "used_ids (remove1 (b, n) us) = remove1 (buf_id b) (used_ids us)"
    if "distinct (used_ids us)" "(b, n) \<in> set us" for us
    using that by (induction us) (auto simp: rev_image_eqI)
  have d: "distinct (used_ids (ps_used \<sigma>))" and enough: "\<forall>(b, n) \<in> set (remove1 (b, n) (ps_used \<sigma>)). enough b n"
    using inv by (auto simp: pool_inv_def owners_ok_def dest: notin_set_remove1)
  have just: ?thesis if "pool_inv s (\<sigma>\<lparr>ps_cache := c'\<rparr>)"
    using that enough owners_release by (simp add: pool_inv_def ids [OF d used])
  show ?thesis
  proof (cases "th8BufferClassIndex (if n = 0 then 1 else n)")
    case None
    with run have "c' = ps_cache \<sigma>" by (auto simp: th8BufferFree_def Let_def split: if_splits)
    with just inv show ?thesis by simp
  next
    case (Some ic)
    obtain idx cls where ic: "ic = (idx, cls)" by fastforce
    note ci = class_index [OF Some [unfolded ic]]
    obtain c1 r where f: "Th8_FindInCache s al TH8_CACHE_BUFFER (th8BufferPoolKey idx) (ps_cache \<sigma>) = (c1, r)" by fastforce
    note inv1 = find_pool_inv [OF inv f] and all = pool_inv_with_cache [OF find_pool_inv [OF inv f]]
    show ?thesis
    proof (cases "\<exists>p. r = Some p \<and> pool_at s c1 p = None")
      case False
      then have "c' = c1" using run Some ic f
        by (auto simp: th8BufferFree_def Let_def pool_at_def split: option.splits if_splits)
      with just inv1 show ?thesis by simp
    next
      case True
      then obtain p where p: "r = Some p" "pool_at s c1 p = None" by auto
      with run Some ic f have c': "c' = cache_store s c1 p (BufferRep (Some b) cls 0)"
        by (auto simp: th8BufferFree_def Let_def pool_at_def split: if_splits)
      have "cache_all s pool_ok (ps_cache \<sigma>)" using inv by (simp add: pool_inv_def)
      from FindInCache_result [OF this _ f] p(1) obtain e where e0: "cache_at s c1 p = Some e"
        "e = fresh_entry TH8_CACHE_BUFFER (th8BufferPoolKey idx) \<or>
         entry_matches e TH8_CACHE_BUFFER (th8BufferPoolKey idx)" by auto
      then have e: "cache_at s c1 p = Some e" "zOriginal e = Some (th8BufferPoolKey idx)"
        by (auto simp: entry_matches_def fresh_entry_def pool_key_not_Nil split: option.splits)
      let ?e = "e\<lparr>ce_value := (ce_value e)\<lparr>u_rep := BufferRep (Some b) cls 0\<rparr>\<rparr>"
      have pe: "pooled ?e = Some (b, cls)" by (simp add: pooled_def)
      have cls: "cls \<le> buf_cap b" using inv used Some ic by (auto simp: pool_inv_def enough_def)
      have "pool_at s c' = (pool_at s c1)(p \<mapsto> (b, cls))"
        using cache_store_pool [OF conjunct1 [OF all] e(1)] pe by (simp add: c')
      then have "owners_ok (pool_at s c') (used_ids (remove1 (b, n) (ps_used \<sigma>))) (ps_next \<sigma>)"
        using owners_push [of "pool_at s c1" "used_ids (ps_used \<sigma>)" "ps_next \<sigma>" "(b, cls)" p] all p(2) used
        by (force simp: ids [OF d used])
      moreover have "cache_all s pool_ok c'"
        unfolding c' using e ci cls pe
        by (intro store_all [OF conjunct1 [OF all]]) (auto simp: pool_ok_def)
      ultimately show ?thesis using enough by (simp add: pool_inv_def)
    qed
  qed
qed


lemma pool_step_inv: "pool_step s \<sigma> \<sigma>' \<Longrightarrow> pool_inv s \<sigma> \<Longrightarrow> pool_inv s \<sigma>'"
proof (induction rule: pool_step.induct)
  case (clear \<sigma> c' freed)
  then have "c' = None" by (simp add: th8ClearCache_def)
  with clear show ?case
    using owners_shrink [of "pool_at s (ps_cache \<sigma>)" _ _ "pool_at s None"]
    by (simp add: pool_inv_def cache_all_def pool_at_def cache_at_def)
qed (simp_all add: alloc_inv [simplified] alloc_fail_inv free_inv find_pool_inv)

definition pool_init :: pool_state where
  "pool_init = \<lparr>ps_cache = None, ps_used = [], ps_next = 0\<rparr>"

lemma pool_reachable_inv: "(pool_step s)\<^sup>*\<^sup>* pool_init \<sigma> \<Longrightarrow> pool_inv s \<sigma>"
proof (induction rule: rtranclp_induct)
  case base
  show ?case by (simp add: pool_init_def pool_inv_def cache_all_def owners_ok_def pool_at_def cache_at_def)
qed (rule pool_step_inv)

lemma enough_cap: "enough b n \<Longrightarrow> n \<le> buf_cap b"
  by (auto simp: enough_def split: option.splits prod.splits if_splits dest!: class_index)

section \<open>Properties\<close>

text \<open>
  A cached value belongs to exactly the type and string it was requested for. In any cache, whatever
  collides, a lookup either reports failure or yields the entry of this type and string; a value stored
  through it is what the next successful lookup of the same type and string finds; and when memory is
  available the lookup succeeds.
\<close>

theorem cache_store_find:
  assumes "cache_all s (\<lambda>_. True) c"
    and "Th8_FindInCache s al type z c = (c1, Some p)"
    and "Th8_FindInCache s al' type z (cache_store s c1 p r) = (c2, r2)"
  shows "\<exists>e. entry_matches e type z \<and> u_rep (ce_value e) = r \<and>
    (r2 = None \<or> r2 = Some p \<and> cache_at s c2 p = Some e) \<and> (al' = al_all \<longrightarrow> r2 = Some p)"
proof -
  note r1 = FindInCache_result [OF assms(1) TrueI assms(2)]
  then obtain e where e: "cache_at s c1 p = Some e" "p = cache_key type z" "entry_matches e type z"
    using fresh_matches [of type z] by blast
  let ?e = "e\<lparr>ce_value := (ce_value e)\<lparr>u_rep := r\<rparr>\<rparr>"
  have all1: "cache_all s (\<lambda>_. True) c1" using r1 by simp
  then have all2: "cache_all s (\<lambda>_. True) (cache_store s c1 p r)" by (rule store_all) simp
  have at: "cache_at s (cache_store s c1 p r) p = Some ?e" using at_store [OF all1 e(1)] by simp
  have m: "entry_matches ?e type z" using e(3) by (simp add: entry_matches_def)
  note r2 = FindInCache_result [OF all2 TrueI assms(3)]
  have "r2 = None \<or> r2 = Some p \<and> cache_at s c2 p = Some ?e"
    using r2 at m e(2) by (cases r2) auto
  moreover have "al' = al_all \<longrightarrow> r2 = Some p"
    using FindInCache_ok [OF all2, of type z] assms(3) e(2) by auto
  ultimately show ?thesis using m by auto
qed

theorem cache_store_find_witness:
  "\<exists>c1 p c2 e. Th8_FindInCache seed_init al_all TH8_CACHE_INT ''42'' None = (c1, Some p) \<and>
     Th8_FindInCache seed_init al_all TH8_CACHE_INT ''42'' (cache_store seed_init c1 p (IntRep 42)) = (c2, Some p) \<and>
     cache_at seed_init c2 p = Some e \<and> u_rep (ce_value e) = IntRep 42"
proof -
  let ?find = "Th8_FindInCache seed_init al_all TH8_CACHE_INT ''42''"
  have n: "cache_all seed_init (\<lambda>_. True) None" by (simp add: cache_all_def)
  obtain c1 p where 1: "?find None = (c1, Some p)"
    using FindInCache_ok [OF n, of TH8_CACHE_INT "''42''"] by (metis prod.collapse)
  obtain c2 r2 where 2: "?find (cache_store seed_init c1 p (IntRep 42)) = (c2, r2)" by fastforce
  from cache_store_find [OF n 1 2] 1 2 show ?thesis by auto
qed

text \<open>
  Distinct cache types and distinct hash codes have distinct 12-byte keys.
\<close>

lemma cache_key_injective:
  assumes "t \<in> {0..255}" and "t' \<in> {0..255}"
  shows "th8CacheEncodeKey t v = th8CacheEncodeKey t' w \<longleftrightarrow> t = t' \<and> v = w"
  using assms by (intro EncodeKey_inj) simp_all

lemma cache_key_injective_witness:
  "th8CacheEncodeKey TH8_CACHE_INT 7 \<noteq> th8CacheEncodeKey TH8_CACHE_WIDE 7"
  using cache_key_injective [of TH8_CACHE_INT TH8_CACHE_WIDE 7 7] by simp

text \<open>
  C5: the buffer pool is safe. After any sequence of allocations, frees of buffers in use, other cache
  lookups and cache clears, every buffer in use is at least as large as requested, no two uses share a
  buffer, and no buffer in use is in the pool.
\<close>

theorem buffer_pool_safe:
  assumes "(pool_step s)\<^sup>*\<^sup>* pool_init \<sigma>"
  shows "(\<forall>(b, n) \<in> set (ps_used \<sigma>). n \<le> buf_cap b) \<and>
    distinct (map (\<lambda>(b, n). buf_id b) (ps_used \<sigma>)) \<and>
    (\<forall>k b cap. pool_at s (ps_cache \<sigma>) k = Some (b, cap) \<longrightarrow> (\<forall>(b', n) \<in> set (ps_used \<sigma>). buf_id b \<noteq> buf_id b'))"
proof -
  have inv: "pool_inv s \<sigma>" using pool_reachable_inv [OF assms] .
  have ids: "map (\<lambda>(b, n). buf_id b) us = used_ids us" for us :: "(buffer \<times> nat) list"
    by (simp add: case_prod_beta)
  have "buf_id b \<noteq> buf_id b'" if "pool_at s (ps_cache \<sigma>) k = Some (b, cap)" "(b', n) \<in> set (ps_used \<sigma>)" for k b cap b' n
    using inv that unfolding pool_inv_def owners_ok_def by (metis (no_types, lifting) fst_conv in_set_conv_nth length_map nth_map nth_mem)
  with inv enough_cap show ?thesis unfolding ids by (auto simp: pool_inv_def owners_ok_def)
qed

theorem buffer_pool_safe_witness:
  "\<exists>\<sigma> b. (pool_step seed_init)\<^sup>*\<^sup>* pool_init \<sigma> \<and> ps_used \<sigma> = [(b, 70000)] \<and> 70000 \<le> buf_cap b"
proof -
  define b where "b = \<lparr>buf_id = 0, buf_cap = 70000\<rparr>"
  define \<sigma> where "\<sigma> = \<lparr>ps_cache = None, ps_used = [(b, 70000)], ps_next = 1\<rparr>"
  have "th8BufferAlloc seed_init al_all True (ps_next pool_init) 70000 (ps_cache pool_init) = (None, Some b)"
    using class_index_None [of 70000] by (simp add: th8BufferAlloc_def pool_malloc_def pool_init_def b_def)
  from pool_step.alloc [OF this] have "pool_step seed_init pool_init \<sigma>"
    by (simp add: \<sigma>_def pool_init_def)
  then have "(pool_step seed_init)\<^sup>*\<^sup>* pool_init \<sigma>" by (rule r_into_rtranclp)
  with buffer_pool_safe [OF this] show ?thesis by (auto simp: \<sigma>_def)
qed

end
