(* ===== verification/Th8_Numbers.thy ===== *)
theory Th8_Numbers
  imports Th8_Chars Th8_Cache
begin

text \<open>
  String to number conversion and back (\<open>src/src/th8_core.c\<close>: \<open>Th8_ToInt\<close>, \<open>th8StrNoCaseEq\<close>,
  \<open>Th8_ToBoolean\<close>, \<open>Th8_ToWideInt\<close>, \<open>Th8_SetResultWideInt\<close>; \<open>src/src/th8_util.c\<close>: \<open>th8StrEq\<close>,
  \<open>th8ParseIndex\<close>), through the conversion cache.

  Each conversion is a parser of the string and the cache protocol around it, which the code repeats for
  every type and which is the definition \<open>cached_convert\<close> here. A parser yields the value and whether the
  code stores it in the cache. The double and bigint parsers that \<open>Th8_ToBoolean\<close> falls back to are
  parameters of its model.

  The theorems: each integer parser accepts exactly the numerals of its grammar whose value fits, printing
  and parsing 64-bit integers are inverse, and the cache never changes the result of a conversion.
\<close>

section \<open>Parsing\<close>

abbreviation expected_integer :: string where
  "expected_integer \<equiv> ''expected integer, got: '' @ [DQ]"

abbreviation int_too_large :: string where
  "int_too_large \<equiv> ''integer value too large to represent''"

definition sign_of :: "string \<Rightarrow> bool \<times> string" where
  "sign_of z =
     (if z \<noteq> [] \<and> hd z = CHR ''-'' then (True, tl z)
      else if z \<noteq> [] \<and> hd z = CHR ''+'' then (False, tl z)
      else (False, z))"

fun int_digits :: "string \<Rightarrow> int \<Rightarrow> int res" where
  "int_digits [] val = Inr val"
| "int_digits (c # cs) val =
     (if c2i c < c2i (CHR ''0'') \<or> c2i c > c2i (CHR ''9'') then Inl expected_integer
      else
        (let digit = c2i c - c2i (CHR ''0'')
         in if val > (0x7fffffff - digit) div 10 then Inl int_too_large
            else int_digits cs (val * 10 + digit)))"

definition parse_int :: "string \<Rightarrow> (int \<times> bool) res" where
  "parse_int z =
     (let (neg, ds) = sign_of z
      in if ds = [] then Inl expected_integer
         else
           (case int_digits ds 0 of
              Inl e \<Rightarrow> Inl e
            | Inr val \<Rightarrow> Inr (if neg then - val else val, True)))"

abbreviation TH8_INT64_MIN :: int where "TH8_INT64_MIN \<equiv> - (2 ^ 63)"

definition wide_digit :: "char \<Rightarrow> int option" where
  "wide_digit c =
     (if c2i c \<ge> c2i (CHR ''0'') \<and> c2i c \<le> c2i (CHR ''9'') then Some (c2i c - c2i (CHR ''0''))
      else if c2i c \<ge> c2i (CHR ''a'') \<and> c2i c \<le> c2i (CHR ''f'') then Some (c2i c - c2i (CHR ''a'') + 10)
      else if c2i c \<ge> c2i (CHR ''A'') \<and> c2i c \<le> c2i (CHR ''F'') then Some (c2i c - c2i (CHR ''A'') + 10)
      else None)"

text \<open>The early return for \<open>INT64_MIN\<close> bypasses the cache.\<close>

fun wide_digits :: "int \<Rightarrow> bool \<Rightarrow> string \<Rightarrow> int \<Rightarrow> (int \<times> bool) res" where
  "wide_digits base neg [] val = Inr (if neg then - val else val, True)"
| "wide_digits base neg (c # cs) val =
     (case wide_digit c of
        None \<Rightarrow> Inl expected_integer
      | Some digit \<Rightarrow>
          if digit \<ge> base then Inl expected_integer
          else if val > (TH8_INT64_MAX - digit) div base then
            (if neg \<and> cs = [] \<and> val = TH8_INT64_MAX div base \<and>
                digit = - (TH8_INT64_MIN + (TH8_INT64_MAX div base) * base)
             then Inr (TH8_INT64_MIN, False)
             else Inl int_too_large)
          else wide_digits base neg cs (val * base + digit))"

definition wide_base :: "string \<Rightarrow> int \<times> string" where
  "wide_base ds =
     (if ds \<noteq> [] \<and> hd ds = CHR ''0'' \<and> length ds > 1 then
        (let c2 = ds ! 1
         in if c2 = CHR ''x'' \<or> c2 = CHR ''X'' then (16, drop 2 ds)
            else if c2 = CHR ''o'' \<or> c2 = CHR ''O'' then (8, drop 2 ds)
            else if c2 = CHR ''b'' \<or> c2 = CHR ''B'' then (2, drop 2 ds)
            else if c2i c2 \<ge> c2i (CHR ''0'') \<and> c2i c2 \<le> c2i (CHR ''7'') then (8, drop 1 ds)
            else (10, ds))
      else (10, ds))"

definition parse_wide :: "string \<Rightarrow> (int \<times> bool) res" where
  "parse_wide z =
     (let (neg, ds) = sign_of z
      in if ds = [] then Inl expected_integer
         else
           (let (base, ds) = wide_base ds
            in if ds = [] then Inl expected_integer else wide_digits base neg ds 0))"

text \<open>Comparison with a lower-case literal; a literal ends at its NUL, so it holds no NUL byte.\<close>

definition fold_case :: "char \<Rightarrow> char" where
  "fold_case c =
     (if c2i c \<ge> c2i (CHR ''A'') \<and> c2i c \<le> c2i (CHR ''Z'') then char_of (uchar c + 32) else c)"

fun th8StrNoCaseEq :: "string \<Rightarrow> string \<Rightarrow> bool" where
  "th8StrNoCaseEq [] [] = True"
| "th8StrNoCaseEq (c # cs) (l # ls) = (if fold_case c \<noteq> l then False else th8StrNoCaseEq cs ls)"
| "th8StrNoCaseEq _ _ = False"

text \<open>\<open>isBig\<close> and \<open>toDouble\<close> stand for the bigint test and the double parser (is the value nonzero?).\<close>

definition parse_bool :: "(string \<Rightarrow> bool) \<Rightarrow> (string \<Rightarrow> bool option) \<Rightarrow> string \<Rightarrow> (int \<times> bool) res" where
  "parse_bool isBig toDouble z =
     (if z = ''0'' then Inr (0, True)
      else if z = ''1'' then Inr (1, True)
      else if th8StrNoCaseEq z ''true'' \<or> th8StrNoCaseEq z ''yes'' \<or> th8StrNoCaseEq z ''on'' then Inr (1, True)
      else if th8StrNoCaseEq z ''false'' \<or> th8StrNoCaseEq z ''no'' \<or> th8StrNoCaseEq z ''off'' then Inr (0, True)
      else
        (case parse_wide z of
           Inr (wVal, _) \<Rightarrow> Inr (if wVal \<noteq> 0 then 1 else 0, True)
         | Inl _ \<Rightarrow>
             if isBig z then Inr (1, True)
             else
               (case toDouble z of
                  Some nonzero \<Rightarrow> Inr (if nonzero then 1 else 0, True)
                | None \<Rightarrow> Inl (''expected boolean value but got '' @ [DQ]))))"

section \<open>The cache protocol\<close>

text \<open>
  Look the string up; a valid representation is the answer. Otherwise parse, and store the value through
  a second lookup. Either lookup can fail for lack of memory, which only skips that step.
\<close>

definition cached_convert ::
  "int \<Rightarrow> (rep \<Rightarrow> int option) \<Rightarrow> (int \<Rightarrow> rep) \<Rightarrow> (string \<Rightarrow> (int \<times> bool) res) \<Rightarrow>
   hash_seed \<Rightarrow> cache_alloc \<Rightarrow> cache_alloc \<Rightarrow> string \<Rightarrow> cache \<Rightarrow> int res \<times> cache" where
  "cached_convert type dest mk parse s al1 al2 z c =
     (let (c1, r1) = Th8_FindInCache s al1 type z c;
          hit = (case r1 of None \<Rightarrow> None
                 | Some p \<Rightarrow> Option.bind (cache_at s c1 p) (\<lambda>e. dest (u_rep (ce_value e))))
      in case hit of
           Some v \<Rightarrow> (Inr v, c1)
         | None \<Rightarrow>
             (case parse z of
                Inl e \<Rightarrow> (Inl e, c1)
              | Inr (v, store) \<Rightarrow>
                  if \<not> store then (Inr v, c1)
                  else
                    (case Th8_FindInCache s al2 type z c1 of
                       (c2, None) \<Rightarrow> (Inr v, c2)
                     | (c2, Some p) \<Rightarrow> (Inr v, cache_store s c2 p (mk v)))))"

definition dest_int :: "rep \<Rightarrow> int option" where
  "dest_int r = (case r of IntRep v \<Rightarrow> Some v | _ \<Rightarrow> None)"

definition dest_wide :: "rep \<Rightarrow> int option" where
  "dest_wide r = (case r of WideRep v \<Rightarrow> Some v | _ \<Rightarrow> None)"

definition dest_bool :: "rep \<Rightarrow> int option" where
  "dest_bool r = (case r of BoolRep v \<Rightarrow> Some v | _ \<Rightarrow> None)"

definition Th8_ToInt ::
  "hash_seed \<Rightarrow> cache_alloc \<Rightarrow> cache_alloc \<Rightarrow> string \<Rightarrow> cache \<Rightarrow> int res \<times> cache" where
  "Th8_ToInt = cached_convert TH8_CACHE_INT dest_int IntRep parse_int"

definition Th8_ToWideInt ::
  "hash_seed \<Rightarrow> cache_alloc \<Rightarrow> cache_alloc \<Rightarrow> string \<Rightarrow> cache \<Rightarrow> int res \<times> cache" where
  "Th8_ToWideInt = cached_convert TH8_CACHE_WIDE dest_wide WideRep parse_wide"

definition Th8_ToBoolean ::
  "(string \<Rightarrow> bool) \<Rightarrow> (string \<Rightarrow> bool option) \<Rightarrow>
   hash_seed \<Rightarrow> cache_alloc \<Rightarrow> cache_alloc \<Rightarrow> string \<Rightarrow> cache \<Rightarrow> int res \<times> cache" where
  "Th8_ToBoolean isBig toDouble = cached_convert TH8_CACHE_BOOL dest_bool BoolRep (parse_bool isBig toDouble)"

section \<open>Printing\<close>

function wide_print_loop :: "64 word \<Rightarrow> string \<Rightarrow> string" where
  "wide_print_loop u out =
     (let out = char_of (uchar (CHR ''0'') + unat (u mod 10)) # out; u' = u div 10
      in if u' > 0 then wide_print_loop u' out else out)"
  by auto
termination
proof (relation "measure (\<lambda>(u, _). unat u)")
  fix u x :: "64 word" and out xa :: string
  assume "x = u div 10" "0 < x"
  then have "unat u div 10 \<noteq> 0" by (auto simp: unat_div unat_eq_0 [symmetric] word_gt_0)
  then have "unat u div 10 < unat u" by (cases "unat u = 0") auto
  then show "((x, xa), u, out) \<in> measure (\<lambda>(u, _). unat u)"
    using \<open>x = u div 10\<close> by (simp add: unat_div)
qed simp

declare wide_print_loop.simps [simp del]

definition Th8_SetResultWideInt :: "64 word \<Rightarrow> string" where
  "Th8_SetResultWideInt wVal =
     (let neg = wVal <s 0;
          u = (if neg then - (wVal + 1) + 1 else wVal);
          z = wide_print_loop u []
      in if neg then CHR ''-'' # z else z)"

section \<open>List indices\<close>

definition th8StrEq :: "string \<Rightarrow> string \<Rightarrow> bool" where
  "th8StrEq z zLit \<longleftrightarrow> length z = length zLit \<and> z = zLit"

definition th8ParseIndex ::
  "hash_seed \<Rightarrow> cache_alloc \<Rightarrow> cache_alloc \<Rightarrow> string \<Rightarrow> int \<Rightarrow> cache \<Rightarrow> int res \<times> cache" where
  "th8ParseIndex s al1 al2 z nCount c =
     (if th8StrEq z ''end'' then (Inr (nCount - 1), c)
      else if length z > 4 \<and> take 4 z = ''end-'' then
        (case Th8_ToInt s al1 al2 (drop 4 z) c of
           (Inl e, c) \<Rightarrow> (Inl e, c)
         | (Inr offset, c) \<Rightarrow> (Inr (wrap32 (nCount - 1 - offset)), c))
      else Th8_ToInt s al1 al2 z c)"

section \<open>The cache does not change results\<close>

abbreviation with_rep :: "cache_entry \<Rightarrow> rep \<Rightarrow> cache_entry" where
  "with_rep e r \<equiv> e\<lparr>ce_value := (ce_value e)\<lparr>u_rep := r\<rparr>\<rparr>"

locale cached_conversion =
  fixes type :: int
    and dest :: "rep \<Rightarrow> int option"
    and mk :: "int \<Rightarrow> rep"
    and parse :: "string \<Rightarrow> (int \<times> bool) res"
    and coherent :: "cache_entry \<Rightarrow> bool"
  assumes coherent_fresh: "coherent (fresh_entry t z)"
    and coherent_dest: "coherent e \<Longrightarrow> cacheType e = type \<Longrightarrow> dest (u_rep (ce_value e)) = Some v \<Longrightarrow>
      \<exists>z st. zOriginal e = Some z \<and> parse z = Inr (v, st)"
    and coherent_store: "coherent e \<Longrightarrow> entry_matches e type z \<Longrightarrow> zOriginal e = Some z \<Longrightarrow>
      parse z = Inr (v, st) \<Longrightarrow> coherent (with_rep e (mk v))"
    and coherent_orig: "coherent e \<Longrightarrow> cacheType e = type \<Longrightarrow> zOriginal e \<noteq> None"
begin

lemma find_coherent:
  assumes "cache_all s coherent c" and "Th8_FindInCache s al type z c = (c1, r)"
  shows "cache_all s coherent c1"
    and "r = Some p \<Longrightarrow> \<exists>e. cache_at s c1 p = Some e \<and> coherent e \<and> cacheType e = type \<and> zOriginal e = Some z
      \<and> entry_matches e type z"
proof -
  note res = FindInCache_result [OF assms(1) coherent_fresh assms(2)]
  then show all: "cache_all s coherent c1" by blast
  assume "r = Some p"
  with res obtain e where e: "cache_at s c1 p = Some e" "entry_matches e type z"
    using fresh_matches by blast
  moreover have "coherent e" using cache_all_at [OF all e(1)] .
  moreover from this have "zOriginal e \<noteq> None" using coherent_orig e(2) by (simp add: entry_matches_def)
  ultimately show "\<exists>e. cache_at s c1 p = Some e \<and> coherent e \<and> cacheType e = type \<and> zOriginal e = Some z
      \<and> entry_matches e type z"
    by (auto simp: entry_matches_def)
qed

lemma convert_transparent:
  assumes "cache_all s coherent c"
  shows "fst (cached_convert type dest mk parse s al1 al2 z c) = map_sum id fst (parse z) \<and>
         cache_all s coherent (snd (cached_convert type dest mk parse s al1 al2 z c))"
proof -
  obtain c1 r1 where f1: "Th8_FindInCache s al1 type z c = (c1, r1)" by fastforce
  note all1 = find_coherent(1) [OF assms f1]
  define hit where "hit = (case r1 of None \<Rightarrow> None
    | Some p \<Rightarrow> Option.bind (cache_at s c1 p) (\<lambda>e. dest (u_rep (ce_value e))))"
  show ?thesis
  proof (cases hit)
    case (Some v)
    then obtain p e where "r1 = Some p" "cache_at s c1 p = Some e" "dest (u_rep (ce_value e)) = Some v"
      by (auto simp: hit_def bind_eq_Some_conv split: option.splits)
    with find_coherent(2) [OF assms f1, of p] have "\<exists>st. parse z = Inr (v, st)"
      using coherent_dest [of e v] by auto
    with f1 Some all1 show ?thesis by (auto simp: cached_convert_def hit_def)
  next
    case None
    note hit = None [unfolded hit_def]
    show ?thesis
    proof (cases "parse z")
      case (Inl e)
      with f1 hit all1 show ?thesis by (simp add: cached_convert_def)
    next
      case (Inr vs)
      obtain v st where vs: "vs = (v, st)" by fastforce
      obtain c2 r2 where f2: "Th8_FindInCache s al2 type z c1 = (c2, r2)" by fastforce
      note all2 = find_coherent(1) [OF all1 f2]
      have "cache_all s coherent (cache_store s c2 p (mk v))" if "r2 = Some p" for p
      proof (rule store_all [OF all2])
        fix e assume "cache_at s c2 p = Some e"
        with find_coherent(2) [OF all1 f2 that] show "coherent (with_rep e (mk v))"
          using coherent_store Inr vs by auto
      qed
      with f1 f2 hit Inr vs all1 all2 show ?thesis
        by (cases r2) (auto simp: cached_convert_def)
    qed
  qed
qed

end

definition coherent_entry :: "(string \<Rightarrow> bool) \<Rightarrow> (string \<Rightarrow> bool option) \<Rightarrow> cache_entry \<Rightarrow> bool" where
  "coherent_entry isBig toDouble e \<longleftrightarrow>
     (let ok = (\<lambda>type dest parse. cacheType e = type \<longrightarrow>
            (\<exists>z. zOriginal e = Some z \<and>
                 (\<forall>v. dest (u_rep (ce_value e)) = Some v \<longrightarrow> (\<exists>st. parse z = Inr (v :: int, st :: bool)))))
      in ok TH8_CACHE_INT dest_int parse_int \<and> ok TH8_CACHE_WIDE dest_wide parse_wide \<and>
         ok TH8_CACHE_BOOL dest_bool (parse_bool isBig toDouble :: string \<Rightarrow> (int \<times> bool) res))"

lemmas coherent_simps =
  coherent_entry_def fresh_entry_def entry_matches_def dest_int_def dest_wide_def dest_bool_def Let_def

interpretation to_int: cached_conversion TH8_CACHE_INT dest_int IntRep parse_int "coherent_entry isBig toDouble"
  for isBig toDouble
  by unfold_locales (auto simp: coherent_simps)

interpretation to_wide: cached_conversion TH8_CACHE_WIDE dest_wide WideRep parse_wide "coherent_entry isBig toDouble"
  for isBig toDouble
  by unfold_locales (auto simp: coherent_simps)

interpretation to_bool: cached_conversion TH8_CACHE_BOOL dest_bool BoolRep "parse_bool isBig toDouble"
  "coherent_entry isBig toDouble" for isBig toDouble
  by unfold_locales (auto simp: coherent_simps)

section \<open>Numerals and their values\<close>

definition digits_ok :: "int \<Rightarrow> string \<Rightarrow> bool" where
  "digits_ok base ds \<longleftrightarrow> (\<forall>c \<in> set ds. \<exists>d. wide_digit c = Some d \<and> d < base)"

fun num_from :: "int \<Rightarrow> int \<Rightarrow> string \<Rightarrow> int" where
  "num_from base val [] = val"
| "num_from base val (c # cs) = num_from base (val * base + the (wide_digit c)) cs"

lemma wide_digit_HexVal: "wide_digit c = (if th8HexVal c = - 1 then None else Some (th8HexVal c))"
  by (auto simp: wide_digit_def th8HexVal_def Let_def c2i_def)

lemma wide_digit_nonneg: "wide_digit c = Some d \<Longrightarrow> 0 \<le> d"
  using th8HexVal_range [of c] by (auto simp: wide_digit_HexVal split: if_splits)

lemma wide_digit_dec:
  "wide_digit c = Some d \<and> d < 10 \<longleftrightarrow> 48 \<le> uchar c \<and> uchar c \<le> 57 \<and> d = int (uchar c) - 48"
  by (auto simp: wide_digit_HexVal th8HexVal_eq split: if_splits)

lemma num_from_ge: "0 \<le> val \<Longrightarrow> 1 \<le> base \<Longrightarrow> digits_ok base ds \<Longrightarrow> val \<le> num_from base val ds"
proof (induction ds arbitrary: val)
  case (Cons c cs)
  then obtain d where d: "wide_digit c = Some d" "0 \<le> d" using wide_digit_nonneg by (auto simp: digits_ok_def)
  have "val \<le> val * base" using Cons.prems mult_left_mono [of 1 base val] by simp
  moreover have "val * base + d \<le> num_from base (val * base + d) cs"
    using Cons d(2) by (intro Cons.IH) (auto simp: digits_ok_def)
  ultimately show ?case using d by simp
qed simp

lemma overflow_test:
  fixes m d b v :: int
  assumes b: "0 < b"
  shows "(m - d) div b < v \<longleftrightarrow> m < v * b + d"
proof -
  define q r where "q = (m - d) div b" and "r = (m - d) mod b"
  have x: "q * b + r = m - d" "0 \<le> r" "r < b" using b by (simp_all add: q_def r_def)
  have "q < v \<Longrightarrow> q * b + b \<le> v * b" "v \<le> q \<Longrightarrow> v * b \<le> q * b"
    using b mult_right_mono [of "q + 1" v b] mult_right_mono [of v q b] by (simp_all add: distrib_right)
  then have "q < v \<longleftrightarrow> m < v * b + d" using x by linarith
  then show ?thesis by (simp add: q_def)
qed

lemma int_digits_exact:
  "0 \<le> val \<Longrightarrow> val \<le> 0x7fffffff \<Longrightarrow>
   int_digits ds val = Inr v \<longleftrightarrow> digits_ok 10 ds \<and> v = num_from 10 val ds \<and> v \<le> 0x7fffffff"
proof (induction ds arbitrary: val)
  case (Cons c cs)
  show ?case
  proof (cases "48 \<le> uchar c \<and> uchar c \<le> 57")
    case False
    then have "\<not> digits_ok 10 (c # cs)" using wide_digit_dec [of c] by (auto simp: digits_ok_def)
    moreover have "c2i c < 48 \<or> 57 < c2i c" using False uchar_less [of c] unfolding c2i_def by presburger
    ultimately show ?thesis by (simp add: c2i_def [of "CHR ''0''"] c2i_def [of "CHR ''9''"])
  next
    case True
    let ?d = "int (uchar c) - 48"
    have wd: "wide_digit c = Some ?d" "?d < 10" "0 \<le> ?d" using wide_digit_dec [of c ?d] True by auto
    have c2i: "c2i c = int (uchar c)" using True by (simp add: c2i_def)
    show ?thesis
    proof (cases "0x7fffffff < val * 10 + ?d")
      case big: True
      then have "(0x7fffffff - ?d) div 10 < val" using overflow_test [of 10 "0x7fffffff" ?d val] by simp
      moreover have "\<not> (digits_ok 10 (c # cs) \<and> num_from 10 val (c # cs) \<le> 0x7fffffff)"
        using big wd Cons.prems num_from_ge [of "val * 10 + ?d" 10 cs] by (auto simp: digits_ok_def)
      ultimately show ?thesis using True by (auto simp: c2i c2i_def [of "CHR ''0''"] c2i_def [of "CHR ''9''"] Let_def)
    next
      case False
      then have "\<not> (0x7fffffff - ?d) div 10 < val" using overflow_test [of 10 "0x7fffffff" ?d val] by simp
      with True Cons.IH [of "val * 10 + ?d"] Cons.prems False wd show ?thesis
        by (auto simp: c2i c2i_def [of "CHR ''0''"] c2i_def [of "CHR ''9''"] Let_def digits_ok_def)
    qed
  qed
qed (auto simp: digits_ok_def)

lemma wide_digits_exact:
  assumes b: "base \<in> {2, 8, 10, 16}"
  shows "0 \<le> val \<Longrightarrow> val \<le> TH8_INT64_MAX \<Longrightarrow>
   wide_digits base neg ds val = Inr (v, st) \<longleftrightarrow> digits_ok base ds \<and>
     (num_from base val ds \<le> TH8_INT64_MAX \<and> v = (if neg then - num_from base val ds else num_from base val ds) \<and> st \<or>
      neg \<and> base = 10 \<and> num_from base val ds = 2 ^ 63 \<and> v = TH8_INT64_MIN \<and> \<not> st)"
proof (induction ds arbitrary: val)
  case (Cons c cs)
  have b0: "0 < base" "1 \<le> base" using b by auto
  show ?case
  proof (cases "\<exists>d. wide_digit c = Some d \<and> d < base")
    case False
    then have "\<not> digits_ok base (c # cs)" by (simp add: digits_ok_def)
    moreover have "wide_digits base neg (c # cs) val = Inl expected_integer"
      using False by (cases "wide_digit c") simp_all
    ultimately show ?thesis by simp
  next
    case True
    then obtain d where d: "wide_digit c = Some d" "d < base" "0 \<le> d" using wide_digit_nonneg by blast
    let ?x = "val * base + d"
    have x0: "0 \<le> ?x" using Cons.prems d b0 by simp
    show ?thesis
    proof (cases "TH8_INT64_MAX < ?x")
      case False
      then have "\<not> (TH8_INT64_MAX - d) div base < val" using overflow_test [OF b0(1), of TH8_INT64_MAX d val] by simp
      with Cons.IH [OF x0] False d show ?thesis by (auto simp: digits_ok_def)
    next
      case big: True
      then have test: "(TH8_INT64_MAX - d) div base < val" using overflow_test [OF b0(1), of TH8_INT64_MAX d val] by simp
      have large: "digits_ok base cs \<Longrightarrow> ?x \<le> num_from base ?x cs" using num_from_ge [OF x0 b0(2)] .
      show ?thesis
      proof (cases cs)
        case Nil
        have "(val = TH8_INT64_MAX div base \<and> d = - (TH8_INT64_MIN + TH8_INT64_MAX div base * base)) \<longleftrightarrow>
          base = 10 \<and> ?x = 2 ^ 63"
        proof (cases "base = 10")
          case True
          have "?x div 10 = val" "?x mod 10 = d" using d True by simp_all
          then have "?x = 2 ^ 63 \<longleftrightarrow> val = 2 ^ 63 div 10 \<and> d = 2 ^ 63 mod 10"
            using True by (metis div_mult_mod_eq)
          with True show ?thesis by simp
        next
          case False
          with b d show ?thesis by auto
        qed
        with Nil test d big show ?thesis by (auto simp: digits_ok_def)
      next
        case (Cons c' cs')
        have "?x * 2 \<le> ?x * base" using x0 b by (intro mult_left_mono) auto
        then have "2 ^ 63 < num_from base ?x cs" if dc: "digits_ok base cs"
        proof -
          obtain d' where d': "wide_digit c' = Some d'" "0 \<le> d'" using dc Cons wide_digit_nonneg by (auto simp: digits_ok_def)
          have "2 ^ 63 < ?x * base + d'" using \<open>?x * 2 \<le> ?x * base\<close> big d'(2) by simp
          also have "\<dots> \<le> num_from base (?x * base + d') cs'"
            using dc Cons x0 b0 d' by (intro num_from_ge) (auto simp: digits_ok_def)
          finally show ?thesis using Cons d' by simp
        qed
        with test d Cons show ?thesis by (auto simp: digits_ok_def)
      qed
    qed
  qed
qed (auto simp: digits_ok_def)


lemma parse_int_exact:
  "parse_int z = Inr (v, st) \<longleftrightarrow>
     (\<exists>neg ds. sign_of z = (neg, ds) \<and> ds \<noteq> [] \<and> digits_ok 10 ds \<and>
        num_from 10 0 ds \<le> 2 ^ 31 - 1 \<and> v = (if neg then - num_from 10 0 ds else num_from 10 0 ds) \<and> st)"
proof -
  obtain neg ds where sd: "sign_of z = (neg, ds)" by fastforce
  note ex = int_digits_exact [of 0 ds]
  show ?thesis
  proof (cases "int_digits ds 0")
    case (Inl e)
    with ex have "\<not> (digits_ok 10 ds \<and> num_from 10 0 ds \<le> 2 ^ 31 - 1)" by auto
    with Inl sd show ?thesis by (auto simp: parse_int_def)
  next
    case (Inr w)
    with ex [of w] have "digits_ok 10 ds" "w = num_from 10 0 ds" "w \<le> 2 ^ 31 - 1" by simp_all
    with Inr sd show ?thesis by (auto simp: parse_int_def)
  qed
qed

lemma wide_base_cases: "fst (wide_base ds) \<in> {2, 8, 10, 16}"
  by (auto simp: wide_base_def Let_def)

lemma parse_wide_exact:
  "parse_wide z = Inr (v, st) \<longleftrightarrow>
     (\<exists>neg ds base ds'. sign_of z = (neg, ds) \<and> ds \<noteq> [] \<and> wide_base ds = (base, ds') \<and> ds' \<noteq> [] \<and>
        digits_ok base ds' \<and>
        (num_from base 0 ds' \<le> TH8_INT64_MAX \<and> v = (if neg then - num_from base 0 ds' else num_from base 0 ds') \<and> st \<or>
         neg \<and> base = 10 \<and> num_from base 0 ds' = 2 ^ 63 \<and> v = TH8_INT64_MIN \<and> \<not> st))"
proof -
  obtain neg ds where sd: "sign_of z = (neg, ds)" by fastforce
  obtain base ds' where bd: "wide_base ds = (base, ds')" by fastforce
  have "base \<in> {2, 8, 10, 16}" using wide_base_cases [of ds] bd by simp
  from wide_digits_exact [OF this, of 0 neg ds' v st] show ?thesis
    by (simp add: parse_wide_def sd bd)
qed

section \<open>Printing\<close>

fun dec_string :: "nat \<Rightarrow> string" where
  "dec_string n = (if n < 10 then [char_of (48 + n)] else dec_string (n div 10) @ [char_of (48 + n mod 10)])"

declare dec_string.simps [simp del]

lemma digit_char:
  assumes "n < 10"
  shows "wide_digit (char_of (48 + n)) = Some (int n)" "uchar (char_of (48 + n)) = 48 + n"
proof -
  show u: "uchar (char_of (48 + n)) = 48 + n" using assms by simp
  show "wide_digit (char_of (48 + n)) = Some (int n)"
    using wide_digit_dec [of "char_of (48 + n)" "int n"] assms unfolding u by simp
qed

lemma num_from_append: "num_from b v (xs @ ys) = num_from b (num_from b v xs) ys"
  by (induction xs arbitrary: v) simp_all

lemma dec_string_value: "num_from 10 0 (dec_string n) = int n"
proof (induction n rule: dec_string.induct)
  case (1 n)
  show ?case
  proof (cases "n < 10")
    case True
    then show ?thesis using digit_char(1) [of n] by (subst dec_string.simps) simp
  next
    case False
    then have "num_from 10 0 (dec_string n) = int (n div 10) * 10 + int (n mod 10)"
      using 1 digit_char(1) [of "n mod 10"] by (subst dec_string.simps) (simp add: num_from_append)
    also have "\<dots> = int n" by (metis div_mult_mod_eq of_nat_add of_nat_mult of_nat_numeral)
    finally show ?thesis .
  qed
qed

lemma dec_string_digits: "digits_ok 10 (dec_string n)"
proof (induction n rule: dec_string.induct)
  case (1 n)
  then show ?case using digit_char(1) [of n] digit_char(1) [of "n mod 10"]
    by (subst dec_string.simps) (auto simp: digits_ok_def)
qed

lemma dec_string_hd: "dec_string n \<noteq> [] \<and> (0 < n \<longrightarrow> hd (dec_string n) \<noteq> CHR ''0'')"
proof (induction n rule: dec_string.induct)
  case (1 n)
  show ?case
  proof (cases "n < 10")
    case True
    have "char_of (48 + n) \<noteq> CHR ''0''" if "0 < n"
      using digit_char(2) [OF True] that by (auto simp: char_eq_uchar)
    with True show ?thesis by (subst (1 2) dec_string.simps) simp
  next
    case False
    then have "0 < n div 10" by simp
    with 1 [OF False] False show ?thesis by (subst (1 2) dec_string.simps) simp
  qed
qed

lemma dec_string_length: "n < 10 ^ Suc k \<Longrightarrow> length (dec_string n) \<le> Suc k"
proof (induction k arbitrary: n)
  case 0
  then show ?case by (simp add: dec_string.simps)
next
  case (Suc k)
  have "n div 10 < 10 ^ Suc k" using Suc.prems by (simp add: div_less_iff_less_mult)
  with Suc.IH show ?case by (subst dec_string.simps) simp
qed

lemma print_loop_dec: "wide_print_loop u out = dec_string (unat u) @ out"
proof (induction u out rule: wide_print_loop.induct)
  case (1 u out)
  have m: "unat (u mod 10) = unat u mod 10" "unat (u div 10) = unat u div 10" by (simp_all add: unat_mod unat_div)
  have pos: "u div 10 > 0 \<longleftrightarrow> \<not> unat u < 10"
  proof -
    have "u div 10 > 0 \<longleftrightarrow> unat (u div 10) \<noteq> 0" by (simp add: word_gt_0 unat_eq_zero)
    then show ?thesis unfolding m(2) by (simp add: div_eq_0_iff)
  qed
  show ?case
  proof (cases "u div 10 > 0")
    case True
    with 1 [OF refl refl True] pos show ?thesis
      by (subst wide_print_loop.simps) (simp add: dec_string.simps [of "unat u"] m)
  next
    case False
    with pos show ?thesis
      by (subst wide_print_loop.simps) (simp add: dec_string.simps [of "unat u"] m)
  qed
qed


lemma printed_shape:
  "\<exists>neg. Th8_SetResultWideInt w = (if neg then [CHR ''-''] else []) @ dec_string (nat \<bar>sint w\<bar>) \<and> (neg \<longleftrightarrow> sint w < 0)"
proof (cases "sint w < 0")
  case True
  have "unat (- w) = nat (- sint w)"
  proof -
    have "- w = word_of_int (- sint w)" by simp
    then have "uint (- w) = (- sint w) mod 2 ^ 64" by (simp only: uint_word_of_int_eq take_bit_eq_mod) simp
    moreover have "- sint w \<le> 2 ^ 63" using sint_ge [of w] by simp
    ultimately show ?thesis using True by (simp add: unat_eq_nat_uint mod_pos_pos_trivial)
  qed
  with True show ?thesis
    by (intro exI [of _ True]) (simp add: Th8_SetResultWideInt_def word_sless_alt print_loop_dec Let_def)
next
  case False
  have "w = word_of_int (sint w)" by simp
  then have "uint w = sint w mod 2 ^ 64" 
    using uint_word_of_int_eq [where 'a = 64, of "sint w"] by (simp add: take_bit_eq_mod)
  then have "unat w = nat (sint w)"
    using False sint_lt [of w] by (simp add: unat_eq_nat_uint mod_pos_pos_trivial)
  with False show ?thesis
    by (intro exI [of _ False]) (simp add: Th8_SetResultWideInt_def word_sless_alt print_loop_dec Let_def)
qed

lemma parse_dec_string:
  assumes "n \<le> 2 ^ 63" and "n = 2 ^ 63 \<longrightarrow> neg"
  shows "\<exists>st. parse_wide ((if neg then [CHR ''-''] else []) @ dec_string n) =
    Inr (if neg then - int n else int n, st)"
proof -
  let ?z = "(if neg then [CHR ''-''] else []) @ dec_string n"
  have ne: "dec_string n \<noteq> []" and hd: "0 < n \<Longrightarrow> hd (dec_string n) \<noteq> CHR ''0''" using dec_string_hd [of n] by auto
  have "\<exists>d. wide_digit (hd (dec_string n)) = Some d \<and> d < 10" using dec_string_digits [of n] ne by (simp add: digits_ok_def)
  then have "48 \<le> uchar (hd (dec_string n))" using wide_digit_dec by blast
  then have "hd (dec_string n) \<noteq> CHR ''-''" "hd (dec_string n) \<noteq> CHR ''+''" by (auto simp: char_eq_uchar)
  with ne have sg: "sign_of ?z = (neg, dec_string n)" by (cases neg) (simp_all add: sign_of_def)
  have "length (dec_string n) \<le> 1" if "n = 0" using that by (simp add: dec_string.simps)
  with hd have wb: "wide_base (dec_string n) = (10, dec_string n)" by (cases "n = 0") (auto simp: wide_base_def)
  have "parse_wide ?z = Inr (if neg then - int n else int n, n \<noteq> 2 ^ 63)"
    unfolding parse_wide_exact
    by (intro exI [of _ neg] exI [of _ "dec_string n"] exI [of _ 10])
      (use sg wb ne dec_string_digits [of n] dec_string_value [of n] assms in auto)
  then show ?thesis by blast
qed


section \<open>Numerals\<close>

text \<open>
  The numerals that the wide-integer parser is to accept, stated without the functions of the parser: a sign, a
  prefix that gives the base, and digits of that base with their value by place. A zero in front of an octal
  digit is a prefix, so a decimal numeral does not begin that way.
\<close>

definition digit_value :: "char \<Rightarrow> int option" where
  "digit_value = map_of (zip ''0123456789abcdef'' [0..15] @ zip ''ABCDEF'' [10..15])"

definition place_value :: "int \<Rightarrow> int list \<Rightarrow> int" where
  "place_value base vs = (\<Sum>i < length vs. vs ! i * base ^ (length vs - Suc i))"

definition octal_digit :: "char \<Rightarrow> bool" where
  "octal_digit c \<longleftrightarrow> c \<in> set ''01234567''"

definition base_prefixes :: "(string \<times> int) set" where
  "base_prefixes = {(''0x'', 16), (''0X'', 16), (''0o'', 8), (''0O'', 8), (''0b'', 2), (''0B'', 2), (''0'', 8), ([], 10)}"

inductive wide_numeral :: "string \<Rightarrow> bool \<Rightarrow> int \<Rightarrow> int \<Rightarrow> bool" where
  "(sg, neg) \<in> {([], False), (''+'', False), (''-'', True)} \<Longrightarrow> (pre, base) \<in> base_prefixes \<Longrightarrow>
   map digit_value ds = map Some vs \<Longrightarrow> vs \<noteq> [] \<Longrightarrow> \<forall>v \<in> set vs. v < base \<Longrightarrow>
   (\<And>c cs. pre = [] \<Longrightarrow> ds = CHR ''0'' # c # cs \<Longrightarrow> \<not> octal_digit c) \<Longrightarrow>
   wide_numeral (sg @ pre @ ds) neg base (place_value base vs)"

lemma digit_value_wide: "digit_value = wide_digit"
proof -
  have "\<forall>c. digit_value c = wide_digit c" by code_simp
  then show ?thesis by (simp add: fun_eq_iff)
qed

lemma octal_digit_c2i: "octal_digit c \<longleftrightarrow> c2i c \<ge> c2i (CHR ''0'') \<and> c2i c \<le> c2i (CHR ''7'')"
proof -
  have "\<forall>c. octal_digit c \<longleftrightarrow> c2i c \<ge> c2i (CHR ''0'') \<and> c2i c \<le> c2i (CHR ''7'')" by code_simp
  then show ?thesis by blast
qed

lemma digit_kinds: "wide_digit d = Some v \<Longrightarrow> (v < 8 \<longleftrightarrow> octal_digit d) \<and> (v < 10 \<longrightarrow> d \<notin> set ''xXoObB'') \<and> d \<noteq> CHR ''-'' \<and> d \<noteq> CHR ''+''"
proof -
  have "\<forall>d. (case wide_digit d of None \<Rightarrow> True
      | Some v \<Rightarrow> (v < 8 \<longleftrightarrow> octal_digit d) \<and> (v < 10 \<longrightarrow> d \<notin> set ''xXoObB'') \<and> d \<noteq> CHR ''-'' \<and> d \<noteq> CHR ''+'')" by code_simp
  then have "case wide_digit d of None \<Rightarrow> True
      | Some v \<Rightarrow> (v < 8 \<longleftrightarrow> octal_digit d) \<and> (v < 10 \<longrightarrow> d \<notin> set ''xXoObB'') \<and> d \<noteq> CHR ''-'' \<and> d \<noteq> CHR ''+''" by blast
  then show "wide_digit d = Some v \<Longrightarrow> (v < 8 \<longleftrightarrow> octal_digit d) \<and> (v < 10 \<longrightarrow> d \<notin> set ''xXoObB'') \<and> d \<noteq> CHR ''-'' \<and> d \<noteq> CHR ''+''" by simp
qed

lemma wide_base_zero:
  "wide_base (CHR ''0'' # d # ts) =
     (if d \<in> set ''xX'' then (16, ts) else if d \<in> set ''oO'' then (8, ts) else if d \<in> set ''bB'' then (2, ts)
      else if octal_digit d then (8, d # ts) else (10, CHR ''0'' # d # ts))"
  unfolding wide_base_def octal_digit_c2i by simp

lemma wide_base_plain:
  assumes "\<nexists>d ts. w = CHR ''0'' # d # ts"
  shows "wide_base w = (10, w)"
proof -
  have "\<not> (w \<noteq> [] \<and> hd w = CHR ''0'' \<and> length w > 1)"
  proof (cases w)
    case (Cons c cs)
    with assms show ?thesis by (cases cs) auto
  qed simp
  then show ?thesis unfolding wide_base_def by (simp only: if_False)
qed

lemma place_value_Cons: "place_value b (v # vs) = v * b ^ length vs + place_value b vs"
  unfolding place_value_def by (simp add: sum.lessThan_Suc_shift del: sum.lessThan_Suc)

lemma num_from_place:
  "map wide_digit ds = map Some vs \<Longrightarrow> num_from b acc ds = acc * b ^ length vs + place_value b vs"
proof (induction ds arbitrary: acc vs)
  case (Cons c cs)
  then obtain v ws where vs: "vs = v # ws" "wide_digit c = Some v" "map wide_digit cs = map Some ws" by (cases vs) auto
  with Cons.IH [OF vs(3)] show ?case by (simp add: place_value_Cons algebra_simps)
qed (simp add: place_value_def)

lemma digits_ok_values: "digits_ok b ds \<longleftrightarrow> (\<exists>vs. map wide_digit ds = map Some vs \<and> (\<forall>v \<in> set vs. v < b))"
proof (induction ds)
  case (Cons c cs)
  show ?case
  proof
    assume "digits_ok b (c # cs)"
    then obtain v vs where "wide_digit c = Some v" "v < b" "map wide_digit cs = map Some vs" "\<forall>v \<in> set vs. v < b"
      using Cons by (auto simp: digits_ok_def)
    then show "\<exists>vs. map wide_digit (c # cs) = map Some vs \<and> (\<forall>v \<in> set vs. v < b)" by (intro exI [of _ "v # vs"]) simp
  next
    assume "\<exists>vs. map wide_digit (c # cs) = map Some vs \<and> (\<forall>v \<in> set vs. v < b)"
    then obtain v vs where "wide_digit c = Some v" "v < b" "map wide_digit cs = map Some vs" "\<forall>v \<in> set vs. v < b"
      by (auto simp: map_eq_Cons_conv)
    with Cons show "digits_ok b (c # cs)" by (auto simp: digits_ok_def)
  qed
qed (simp add: digits_ok_def)

lemma sign_of_signed:
  assumes "(sg, neg) \<in> {([], False), (''+'', False), (''-'', True)}" "ds \<noteq> []" "hd ds \<noteq> CHR ''-''" "hd ds \<noteq> CHR ''+''"
  shows "sign_of (sg @ ds) = (neg, ds)"
  using assms by (auto simp: sign_of_def)

lemma sign_of_split:
  assumes "sign_of z = (neg, ds)"
  obtains sg where "z = sg @ ds" "(sg, neg) \<in> {([], False), (''+'', False), (''-'', True)}"
proof (cases z)
  case (Cons c cs)
  consider "c = CHR ''-''" | "c = CHR ''+''" | "c \<noteq> CHR ''-''" "c \<noteq> CHR ''+''" by blast
  then show thesis
  proof cases
    case 1
    with assms Cons show thesis by (intro that [of "''-''"]) (simp_all add: sign_of_def)
  next
    case 2
    with assms Cons show thesis by (intro that [of "''+''"]) (simp_all add: sign_of_def)
  next
    case 3
    with assms Cons show thesis by (intro that [of "[]"]) (simp_all add: sign_of_def)
  qed
qed (use assms that [of "[]"] in \<open>simp add: sign_of_def\<close>)

lemma base_prefix_wide_base:
  assumes "(pre, base) \<in> base_prefixes" "ds \<noteq> []" "digits_ok base ds"
    and "\<And>c cs. pre = [] \<Longrightarrow> ds = CHR ''0'' # c # cs \<Longrightarrow> \<not> octal_digit c"
  shows "wide_base (pre @ ds) = (base, ds)"
proof -
  obtain c cs where ds: "ds = c # cs" using assms(2) by (cases ds) auto
  then obtain v where c: "wide_digit c = Some v" "v < base" using assms(3) by (auto simp: digits_ok_def)
  have k: "v < 8 \<longleftrightarrow> octal_digit c" "v < 10 \<longrightarrow> c \<notin> set ''xXoObB''" using digit_kinds [OF c(1)] by blast+
  consider (octal) "pre = ''0''" "base = 8" | (dec) "pre = []" "base = 10" | (other) d where "pre = [CHR ''0'', d]" using assms(1) by (auto simp: base_prefixes_def)
  then show ?thesis
  proof cases
    case octal
    then show ?thesis using k c(2) by (simp add: ds wide_base_zero)
  next
    case dec
    have k2: "d \<notin> set ''xXoObB''" if "cs = d # ts" for d ts
    proof -
      have "\<exists>w. wide_digit d = Some w \<and> w < 10" using that assms(3) dec ds by (auto simp: digits_ok_def)
      then show ?thesis using digit_kinds by blast
    qed
    show ?thesis
    proof (cases "\<exists>d ts. ds = CHR ''0'' # d # ts")
      case True
      then obtain d ts where d: "ds = CHR ''0'' # d # ts" by blast
      have "\<not> octal_digit d" using assms(4) [OF dec(1) d] .
      with k2 [of d ts] d ds have "wide_base (CHR ''0'' # d # ts) = (10, CHR ''0'' # d # ts)" by (simp add: wide_base_zero)
      with dec d show ?thesis by simp
    next
      case False
      with dec show ?thesis by (simp add: wide_base_plain)
    qed
  next
    case other
    with assms(1) show ?thesis by (auto simp: base_prefixes_def wide_base_zero)
  qed
qed

lemma wide_base_prefix:
  assumes "wide_base w = (base, ds)" "ds \<noteq> []"
  obtains pre where "w = pre @ ds" "(pre, base) \<in> base_prefixes" "\<And>c cs. pre = [] \<Longrightarrow> ds = CHR ''0'' # c # cs \<Longrightarrow> \<not> octal_digit c"
proof (cases "\<exists>d ts. w = CHR ''0'' # d # ts")
  case True
  then obtain d ts where w: "w = CHR ''0'' # d # ts" by blast
  note r = assms(1) [unfolded w wide_base_zero]
  consider "(base, ds) = (16, ts)" "d \<in> set ''xX''" | "(base, ds) = (8, ts)" "d \<in> set ''oO''" | "(base, ds) = (2, ts)" "d \<in> set ''bB''"
    | "(base, ds) = (8, d # ts)" | "(base, ds) = (10, w)" "\<not> octal_digit d"
    using r unfolding w by (simp split: if_splits)
  then show thesis
  proof cases
    case 4
    then show thesis using w by (intro that [of "''0''"]) (simp_all add: base_prefixes_def)
  next
    case 5
    then show thesis using w by (intro that [of "[]"]) (simp_all add: base_prefixes_def)
  qed (use w in \<open>(intro that [of "[CHR ''0'', d]"]; auto simp: base_prefixes_def)+\<close>)
next
  case False
  then have "(base, ds) = (10, w)" using assms(1) wide_base_plain [of w] by simp
  with False show thesis by (intro that [of "[]"]) (auto simp: base_prefixes_def)
qed

lemma wide_numeral_iff:
  "wide_numeral z neg base m \<longleftrightarrow> (\<exists>ds ds'. sign_of z = (neg, ds) \<and> ds \<noteq> [] \<and> wide_base ds = (base, ds') \<and> ds' \<noteq> [] \<and>
     digits_ok base ds' \<and> m = num_from base 0 ds')" (is "?L \<longleftrightarrow> ?R")
proof
  assume ?L
  then obtain sg pre ds vs where z: "z = sg @ pre @ ds" "m = place_value base vs" "(sg, neg) \<in> {([], False), (''+'', False), (''-'', True)}"
    and pre: "(pre, base) \<in> base_prefixes" and ds: "map wide_digit ds = map Some vs" "vs \<noteq> []" "\<forall>v \<in> set vs. v < base"
    and dec: "\<And>c cs. pre = [] \<Longrightarrow> ds = CHR ''0'' # c # cs \<Longrightarrow> \<not> octal_digit c"
    unfolding wide_numeral.simps digit_value_wide by metis
  have ok: "digits_ok base ds" using ds digits_ok_values by blast
  have ne: "ds \<noteq> []" using ds by auto
  have "hd (pre @ ds) \<noteq> CHR ''-'' \<and> hd (pre @ ds) \<noteq> CHR ''+''"
  proof (cases "pre = []")
    case True
    then show ?thesis using ok ne digit_kinds by (cases ds) (auto simp: digits_ok_def)
  qed (use pre in \<open>auto simp: base_prefixes_def\<close>)
  then have "sign_of z = (neg, pre @ ds)" using sign_of_signed [OF z(3), of "pre @ ds"] ne z(1) by simp
  then show ?R using base_prefix_wide_base [OF pre ne ok dec] ok ne z(2) num_from_place [OF ds(1), of base 0] by auto
next
  assume ?R
  then obtain ds ds' where s: "sign_of z = (neg, ds)" "wide_base ds = (base, ds')" "ds' \<noteq> []" "digits_ok base ds'" "m = num_from base 0 ds'" by blast
  obtain sg where sg: "z = sg @ ds" "(sg, neg) \<in> {([], False), (''+'', False), (''-'', True)}" using sign_of_split [OF s(1)] by blast
  obtain vs where vs: "map wide_digit ds' = map Some vs" "\<forall>v \<in> set vs. v < base" using s(4) digits_ok_values by blast
  obtain pre where pre: "ds = pre @ ds'" "(pre, base) \<in> base_prefixes"
      "\<And>c cs. pre = [] \<Longrightarrow> ds' = CHR ''0'' # c # cs \<Longrightarrow> \<not> octal_digit c" using wide_base_prefix [OF s(2,3)] by blast
  have "wide_numeral (sg @ pre @ ds') neg base (place_value base vs)"
    by (rule wide_numeral.intros [OF sg(2) pre(2) _ _ vs(2) pre(3)]) (use vs s(3) in \<open>auto simp: digit_value_wide\<close>)
  with sg(1) pre(1) s(5) num_from_place [OF vs(1), of base 0] show ?L by simp
qed

section \<open>Properties\<close>

text \<open>
  C6: the conversion cache is transparent. Whatever is in a coherent cache and whichever allocations fail,
  \<open>Th8_ToInt\<close>, \<open>Th8_ToWideInt\<close> and \<open>Th8_ToBoolean\<close> return what parsing the string returns, and they leave
  the cache coherent; the empty cache is coherent.
\<close>

theorem conversion_cache_transparent:
  "cache_all s (coherent_entry isBig toDouble) None \<and>
   (cache_all s (coherent_entry isBig toDouble) c \<longrightarrow>
      fst (Th8_ToInt s al1 al2 z c) = map_sum id fst (parse_int z) \<and>
      fst (Th8_ToWideInt s al1 al2 z c) = map_sum id fst (parse_wide z) \<and>
      fst (Th8_ToBoolean isBig toDouble s al1 al2 z c) = map_sum id fst (parse_bool isBig toDouble z) \<and>
      cache_all s (coherent_entry isBig toDouble) (snd (Th8_ToInt s al1 al2 z c)) \<and>
      cache_all s (coherent_entry isBig toDouble) (snd (Th8_ToWideInt s al1 al2 z c)) \<and>
      cache_all s (coherent_entry isBig toDouble) (snd (Th8_ToBoolean isBig toDouble s al1 al2 z c)))"
  using to_int.convert_transparent [of s isBig toDouble c al1 al2 z]
    to_wide.convert_transparent [of s isBig toDouble c al1 al2 z]
    to_bool.convert_transparent [of s isBig toDouble c al1 al2 z]
  by (simp add: Th8_ToInt_def Th8_ToWideInt_def Th8_ToBoolean_def cache_all_def [of _ _ None])

theorem conversion_cache_transparent_witness:
  "fst (Th8_ToInt seed_init al_all al_all ''42'' (snd (Th8_ToWideInt seed_init al_all al_all ''42'' None))) = Inr 42"
proof -
  let ?ok = "cache_all seed_init (coherent_entry (\<lambda>_. False) (\<lambda>_. None))"
  have "?ok None" using conversion_cache_transparent [of seed_init "\<lambda>_. False" "\<lambda>_. None" None al_all al_all "''42''"] by blast
  then have "?ok (snd (Th8_ToWideInt seed_init al_all al_all ''42'' None))"
    using conversion_cache_transparent [of seed_init "\<lambda>_. False" "\<lambda>_. None" None al_all al_all "''42''"] by blast
  moreover have "parse_int ''42'' = Inr (42, True)" by code_simp
  ultimately show ?thesis
    using conversion_cache_transparent [of seed_init "\<lambda>_. False" "\<lambda>_. None" _ al_all al_all "''42''"] by simp
qed

text \<open>
  \<open>Th8_SetResultWideInt\<close> and the wide-integer parser are inverse. Every 64-bit integer, the smallest one
  included, prints to at most 20 bytes, which fit the 30-byte buffer, and parses back to itself.
\<close>

theorem wide_print_parse:
  "(\<exists>st. parse_wide (Th8_SetResultWideInt w) = Inr (sint w, st)) \<and> length (Th8_SetResultWideInt w) \<le> 20"
proof -
  obtain neg where p: "Th8_SetResultWideInt w = (if neg then [CHR ''-''] else []) @ dec_string (nat \<bar>sint w\<bar>)"
    "neg \<longleftrightarrow> sint w < 0" using printed_shape by blast
  have r: "- (2 ^ 63) \<le> sint w" "sint w < 2 ^ 63" using sint_ge [of w] sint_lt [of w] by simp_all
  then have n: "nat \<bar>sint w\<bar> \<le> 2 ^ 63" "nat \<bar>sint w\<bar> = 2 ^ 63 \<longrightarrow> neg" using p(2) by auto
  have "length (dec_string (nat \<bar>sint w\<bar>)) \<le> Suc 18"
    using n(1) by (intro dec_string_length) simp
  then have "length (Th8_SetResultWideInt w) \<le> 20" using p(1) by (cases neg) simp_all
  moreover have "\<exists>st. parse_wide (Th8_SetResultWideInt w) = Inr (sint w, st)"
    using parse_dec_string [OF n] p by (cases neg) auto
  ultimately show ?thesis by blast
qed

text \<open>
  Exactly which strings \<open>Th8_ToInt\<close> accepts: an optional sign and decimal digits whose value is at most
  \<open>2 ^ 31 - 1\<close>, and the result is the signed value. No other base is accepted, nor \<open>INT_MIN\<close>.
\<close>

lemma to_int_exact:
  "parse_int z = Inr (v, st) \<longleftrightarrow>
     (\<exists>neg ds. sign_of z = (neg, ds) \<and> ds \<noteq> [] \<and> digits_ok 10 ds \<and>
        num_from 10 0 ds \<le> 2 ^ 31 - 1 \<and> v = (if neg then - num_from 10 0 ds else num_from 10 0 ds) \<and> st)"
  by (rule parse_int_exact)

text \<open>
  C7: exactly which strings \<open>Th8_ToWideInt\<close> accepts, whatever is in a coherent cache and whichever allocations fail: the
  numerals of the grammar \<open>wide_numeral\<close>, a sign, a base prefix (\<open>0x\<close>, \<open>0o\<close>, \<open>0b\<close>, or a zero in front of an octal digit)
  and digits of that base, whose value by place is at most \<open>2 ^ 63 - 1\<close>; the value \<open>- 2 ^ 63\<close> is accepted in base ten
  only. The result is the signed value. The first comment of the function denies the leading zero for octal,
  which the second one and the code have.
\<close>

theorem to_wide_exact:
  assumes "cache_all s (coherent_entry isBig toDouble) c"
  shows "fst (Th8_ToWideInt s al1 al2 z c) = Inr v \<longleftrightarrow>
    (\<exists>neg base m. wide_numeral z neg base m \<and> v = (if neg then - m else m) \<and> (m < 2 ^ 63 \<or> neg \<and> base = 10 \<and> m = 2 ^ 63))"
proof -
  have "fst (Th8_ToWideInt s al1 al2 z c) = map_sum id fst (parse_wide z)"
    using to_wide.convert_transparent [OF assms, of al1 al2 z] by (simp add: Th8_ToWideInt_def)
  then have "fst (Th8_ToWideInt s al1 al2 z c) = Inr v \<longleftrightarrow> (\<exists>st. parse_wide z = Inr (v, st))" by (cases "parse_wide z") auto
  also have "\<dots> \<longleftrightarrow> (\<exists>neg base m. wide_numeral z neg base m \<and> v = (if neg then - m else m) \<and> (m < 2 ^ 63 \<or> neg \<and> base = 10 \<and> m = 2 ^ 63))"
  proof -
    obtain neg ds base ds' where p: "sign_of z = (neg, ds)" "wide_base ds = (base, ds')" by (metis surj_pair)
    show ?thesis unfolding parse_wide_exact wide_numeral_iff p prod.inject by (auto simp: p)
  qed
  finally show ?thesis .
qed

theorem to_wide_exact_witness:
  "fst (Th8_ToWideInt seed_init al_all al_all ''-0o17'' None) = Inr (- 15) \<and> fst (Th8_ToWideInt seed_init al_all al_all ''017'' None) = Inr 15"
proof -
  have c: "cache_all seed_init (coherent_entry (\<lambda>_. False) (\<lambda>_. None)) None" by (simp add: cache_all_def)
  have v: "map digit_value ''17'' = map Some [1, 7]" "place_value 8 [1, 7] = 15" by code_simp+
  have "wide_numeral (''-'' @ ''0o'' @ ''17'') True 8 (place_value 8 [1, 7])" "wide_numeral ([] @ ''0'' @ ''17'') False 8 (place_value 8 [1, 7])"
    by (rule wide_numeral.intros [OF _ _ v(1)]; auto simp: base_prefixes_def)+
  then show ?thesis unfolding v(2) to_wide_exact [OF c] by (intro conjI exI [of _ True] exI [of _ False] exI [of _ 8] exI [of _ 15]) simp_all
qed

text \<open>
  The smallest integer written in hexadecimal is rejected although it fits.
\<close>

lemma to_wide_hex_min: "parse_wide ''-0x8000000000000000'' = Inl int_too_large"
  by code_simp

end
