(* ===== verification/Th8_Alloc.thy ===== *)
theory Th8_Alloc
  imports Th8_Prelude
begin

text \<open>
  Memory (\<open>src/src/th8_core.c\<close>, section "Platform-routed memory", and the second-chance allocator of
  \<open>src/src/th8_mem.c\<close>): size arithmetic with overflow detection, the accounted allocator with its
  per-interpreter limit, and the checked allocation entry points.

  \<open>mem\<close> is the part of \<open>Th8_Interp\<close> that the allocator reads and writes, together with the platform heap:
  \<open>blocks\<close> maps each live block to the usable size that the platform reports for it. What the platform
  allocator answers is an argument of each operation: nothing, or a block and its usable size. Which of the
  optional platform callbacks are installed is part of the state; a call of \<open>xPanic\<close> is recorded in
  \<open>panics\<close>. Sizes are 64-bit words, so every wrap-around of the C code is one here.

  The theorems: a size computed by the overflow-checked entry points is the exact mathematical size or the
  call is refused; on every run the allocation counter equals the usable bytes of the live blocks and stays
  within the limit plus the rounding of one block.
\<close>

section \<open>Size arithmetic\<close>

definition SAFE_MUL_SIZE :: "size_t \<Rightarrow> size_t \<Rightarrow> size_t option" where
  "SAFE_MUL_SIZE a b = (if b \<noteq> 0 \<and> a > (- 1) div b then None else Some (a * b))"

definition SAFE_ADD_SIZE :: "size_t \<Rightarrow> size_t \<Rightarrow> size_t option" where
  "SAFE_ADD_SIZE a b = (if a > - 1 - b then None else Some (a + b))"

text \<open>The public wrappers; the second component is what \<open>*pOut\<close> holds afterwards, when \<open>pOut\<close> is given.\<close>

definition Th8_SafeMul :: "size_t \<Rightarrow> size_t \<Rightarrow> size_t option \<Rightarrow> int \<times> size_t option" where
  "Th8_SafeMul a b pOut =
     (if pOut = None then (TH8_ERROR, None)
      else case SAFE_MUL_SIZE a b of None \<Rightarrow> (TH8_ERROR, Some 0) | Some n \<Rightarrow> (TH8_OK, Some n))"

definition Th8_SafeAdd :: "size_t \<Rightarrow> size_t \<Rightarrow> size_t option \<Rightarrow> int \<times> size_t option" where
  "Th8_SafeAdd a b pOut =
     (if pOut = None then (TH8_ERROR, None)
      else case SAFE_ADD_SIZE a b of None \<Rightarrow> (TH8_ERROR, Some 0) | Some n \<Rightarrow> (TH8_OK, Some n))"

section \<open>State\<close>

type_synonym addr = nat

datatype ptr = Block addr | Null_Ptr | Fault

record platform =
  xFree :: bool
  xMemorySize :: bool
  xNeedMemory :: bool
  xPanic :: bool

record mem =
  pPlatform :: "platform option"
  nAllocBytes :: size_t
  nAllocLimit :: size_t
  nAllocPeak :: size_t
  blocks :: "addr \<rightharpoonup> size_t"
  panics :: "string list"

type_synonym answer = "(addr \<times> size_t) option"

abbreviation TH8_MX_ALLOC :: size_t where
  "TH8_MX_ALLOC \<equiv> 268435456"

definition block_size :: "mem \<Rightarrow> addr \<Rightarrow> size_t" where
  "block_size m a = (case blocks m a of None \<Rightarrow> 0 | Some n \<Rightarrow> n)"

definition panic_if :: "bool \<Rightarrow> platform \<Rightarrow> string \<Rightarrow> mem \<Rightarrow> mem" where
  "panic_if bPanic p msg m = (if bPanic \<and> xPanic p then m\<lparr>panics := msg # panics m\<rparr> else m)"

section \<open>Allocation\<close>

definition th8AccountAlloc :: "size_t \<Rightarrow> mem \<Rightarrow> mem" where
  "th8AccountAlloc nAccounted m =
     (let m = m\<lparr>nAllocBytes := (case SAFE_ADD_SIZE (nAllocBytes m) nAccounted of None \<Rightarrow> - 1 | Some n \<Rightarrow> n)\<rparr>
      in if nAllocBytes m > nAllocPeak m then m\<lparr>nAllocPeak := nAllocBytes m\<rparr> else m)"

definition over_limit :: "size_t \<Rightarrow> mem \<Rightarrow> bool" where
  "over_limit nByte m \<longleftrightarrow>
     nAllocBytes m > nAllocLimit m \<or> nByte > nAllocLimit m - nAllocBytes m"

definition th8MallocCommon :: "answer \<Rightarrow> size_t \<Rightarrow> bool \<Rightarrow> mem \<Rightarrow> ptr \<times> mem" where
  "th8MallocCommon xMalloc nByte bPanic m =
     (case pPlatform m of
        None \<Rightarrow> (Null_Ptr, m)
      | Some p \<Rightarrow>
          if nAllocLimit m > 0 \<and> over_limit nByte m
          then (Null_Ptr, panic_if bPanic p ''memory limit exceeded'' m)
          else
            (case xMalloc of
               None \<Rightarrow> (Null_Ptr, panic_if bPanic p ''out of memory'' m)
             | Some (a, nUsable) \<Rightarrow>
                 (Block a, th8AccountAlloc (if xMemorySize p then nUsable else nByte)
                             (m\<lparr>blocks := (blocks m)(a \<mapsto> nUsable)\<rparr>))))"

definition Th8_Malloc :: "answer \<Rightarrow> size_t \<Rightarrow> mem \<Rightarrow> ptr \<times> mem" where
  "Th8_Malloc xMalloc nByte m = th8MallocCommon xMalloc nByte True m"

definition Th8_AttemptMalloc :: "answer \<Rightarrow> size_t \<Rightarrow> mem \<Rightarrow> ptr \<times> mem" where
  "Th8_AttemptMalloc xMalloc nByte m = th8MallocCommon xMalloc nByte False m"

definition Th8_Free :: "addr option \<Rightarrow> mem \<Rightarrow> mem" where
  "Th8_Free p m =
     (case (p, pPlatform m) of
        (Some a, Some pl) \<Rightarrow>
          if \<not> xFree pl then m
          else
            (let nBlock = block_size m a;
                 m = (if xMemorySize pl
                      then m\<lparr>nAllocBytes := (if nBlock \<le> nAllocBytes m then nAllocBytes m - nBlock else 0)\<rparr>
                      else m)
             in m\<lparr>blocks := (blocks m)(a := None)\<rparr>)
      | _ \<Rightarrow> m)"

text \<open>
  The second-chance allocator: \<open>th8ClearCache\<close> frees the blocks the cache owns (the argument
  \<open>cached\<close>), then the allocation is tried once more.
\<close>

definition th8MemNeedMemory :: "addr list \<Rightarrow> answer \<Rightarrow> size_t \<Rightarrow> bool \<Rightarrow> mem \<Rightarrow> ptr \<times> mem" where
  "th8MemNeedMemory cached xMalloc nByte bPanic m =
     th8MallocCommon xMalloc nByte bPanic (fold (\<lambda>a. Th8_Free (Some a)) cached m)"

text \<open>
  The environment of one checked allocation: what the platform answers first, what the cache then frees,
  and what the platform answers at the second chance. With no platform at all the test for the second
  chance reads through a null pointer.
\<close>

record alloc_env =
  first :: answer
  cached :: "addr list"
  second :: answer

definition Th8_SafeAlloc :: "alloc_env \<Rightarrow> size_t \<Rightarrow> mem \<Rightarrow> ptr \<times> mem" where
  "Th8_SafeAlloc env nByte m =
     (if nByte = 0 \<or> nByte > TH8_MX_ALLOC then (Null_Ptr, m)
      else
        (case th8MallocCommon (first env) nByte False m of
           (Null_Ptr, m) \<Rightarrow>
             (case pPlatform m of
                None \<Rightarrow> (Fault, m)
              | Some p \<Rightarrow>
                  if xNeedMemory p then th8MemNeedMemory (cached env) (second env) nByte False m
                  else (Null_Ptr, m))
         | r \<Rightarrow> r))"

definition checked_alloc :: "alloc_env \<Rightarrow> size_t option \<Rightarrow> mem \<Rightarrow> ptr \<times> mem" where
  "checked_alloc env nByte m = (case nByte of None \<Rightarrow> (Null_Ptr, m) | Some n \<Rightarrow> Th8_SafeAlloc env n m)"

definition Th8_SafeAllocStr :: "alloc_env \<Rightarrow> size_t \<Rightarrow> mem \<Rightarrow> ptr \<times> mem" where
  "Th8_SafeAllocStr env nLen m = checked_alloc env (SAFE_ADD_SIZE nLen 1) m"

definition Th8_SafeAllocMul :: "alloc_env \<Rightarrow> size_t \<Rightarrow> size_t \<Rightarrow> mem \<Rightarrow> ptr \<times> mem" where
  "Th8_SafeAllocMul env a b m = checked_alloc env (SAFE_MUL_SIZE a b) m"

definition Th8_SafeAllocAdd :: "alloc_env \<Rightarrow> size_t \<Rightarrow> size_t \<Rightarrow> mem \<Rightarrow> ptr \<times> mem" where
  "Th8_SafeAllocAdd env a b m = checked_alloc env (SAFE_ADD_SIZE a b) m"

definition Th8_SafeAllocMulAdd :: "alloc_env \<Rightarrow> size_t \<Rightarrow> size_t \<Rightarrow> size_t \<Rightarrow> mem \<Rightarrow> ptr \<times> mem" where
  "Th8_SafeAllocMulAdd env a b c m =
     checked_alloc env (Option.bind (SAFE_MUL_SIZE a b) (\<lambda>nProduct. SAFE_ADD_SIZE nProduct c)) m"

definition Th8_SafeAllocStrAdd :: "alloc_env \<Rightarrow> size_t \<Rightarrow> size_t \<Rightarrow> mem \<Rightarrow> ptr \<times> mem" where
  "Th8_SafeAllocStrAdd env k n m =
     checked_alloc env (Option.bind (SAFE_ADD_SIZE k n) (\<lambda>nSum. SAFE_ADD_SIZE nSum 1)) m"

definition Th8_SafeAllocStrMul :: "alloc_env \<Rightarrow> size_t \<Rightarrow> size_t \<Rightarrow> mem \<Rightarrow> ptr \<times> mem" where
  "Th8_SafeAllocStrMul env n sz m =
     checked_alloc env (Option.bind (SAFE_MUL_SIZE n sz) (\<lambda>nProduct. SAFE_ADD_SIZE nProduct sz)) m"

definition Th8_SafeAllocMulAdd2 ::
    "alloc_env \<Rightarrow> size_t \<Rightarrow> size_t \<Rightarrow> size_t \<Rightarrow> size_t \<Rightarrow> size_t \<Rightarrow> mem \<Rightarrow> ptr \<times> mem" where
  "Th8_SafeAllocMulAdd2 env a b c d e m =
     checked_alloc env
       (Option.bind (SAFE_MUL_SIZE a b) (\<lambda>t1.
        Option.bind (SAFE_MUL_SIZE c d) (\<lambda>t2.
        Option.bind (SAFE_ADD_SIZE t1 t2) (\<lambda>t3. SAFE_ADD_SIZE t3 e)))) m"

section \<open>Reallocation\<close>

definition th8ReallocCommon :: "answer \<Rightarrow> addr option \<Rightarrow> size_t \<Rightarrow> bool \<Rightarrow> mem \<Rightarrow> ptr \<times> mem" where
  "th8ReallocCommon xRealloc p nByte bPanic m =
     (case pPlatform m of
        None \<Rightarrow> (Null_Ptr, m)
      | Some pl \<Rightarrow>
          (let nOldSize = (case p of None \<Rightarrow> 0 | Some a \<Rightarrow> if xMemorySize pl then block_size m a else 0)
           in if nAllocLimit m > 0 \<and> nByte > nOldSize \<and> over_limit (nByte - nOldSize) m
              then (Null_Ptr, panic_if bPanic pl ''memory limit exceeded'' m)
              else
                (case xRealloc of
                   None \<Rightarrow> (Null_Ptr, panic_if bPanic pl ''out of memory'' m)
                 | Some (a, nUsable) \<Rightarrow>
                     (let bs = (case p of None \<Rightarrow> blocks m | Some old \<Rightarrow> (blocks m)(old := None));
                          m = m\<lparr>blocks := bs(a \<mapsto> nUsable),
                                nAllocBytes := (if nOldSize \<le> nAllocBytes m then nAllocBytes m - nOldSize else 0)\<rparr>
                      in (Block a, th8AccountAlloc (if xMemorySize pl then nUsable else nByte) m)))))"

definition Th8_Realloc :: "answer \<Rightarrow> addr option \<Rightarrow> size_t \<Rightarrow> mem \<Rightarrow> ptr \<times> mem" where
  "Th8_Realloc xRealloc p nByte m = th8ReallocCommon xRealloc p nByte True m"

definition Th8_AttemptRealloc :: "answer \<Rightarrow> addr option \<Rightarrow> size_t \<Rightarrow> mem \<Rightarrow> ptr \<times> mem" where
  "Th8_AttemptRealloc xRealloc p nByte m = th8ReallocCommon xRealloc p nByte False m"

definition Th8_SafeRealloc :: "answer \<Rightarrow> addr option \<Rightarrow> size_t \<Rightarrow> mem \<Rightarrow> ptr \<times> mem" where
  "Th8_SafeRealloc xRealloc p nByte m =
     (if nByte = 0 \<or> nByte > TH8_MX_ALLOC then (Null_Ptr, m) else th8ReallocCommon xRealloc p nByte True m)"

definition Th8_SafeAttemptRealloc :: "answer \<Rightarrow> addr option \<Rightarrow> size_t \<Rightarrow> mem \<Rightarrow> ptr \<times> mem" where
  "Th8_SafeAttemptRealloc xRealloc p nByte m =
     (if nByte = 0 \<or> nByte > TH8_MX_ALLOC then (Null_Ptr, m) else th8ReallocCommon xRealloc p nByte False m)"

section \<open>Administration\<close>

definition Th8_SetAllocLimit :: "size_t \<Rightarrow> mem \<Rightarrow> mem" where
  "Th8_SetAllocLimit nLimit m = m\<lparr>nAllocLimit := nLimit\<rparr>"

definition th8SetAllocBytes :: "size_t \<Rightarrow> mem \<Rightarrow> mem" where
  "th8SetAllocBytes n m =
     (let m = m\<lparr>nAllocBytes := n\<rparr> in if n > nAllocPeak m then m\<lparr>nAllocPeak := n\<rparr> else m)"

section \<open>Checked sizes are exact\<close>

lemma unat64_less [th8_bound]: "unat (n :: size_t) < 2 ^ 64"
  using unsigned_less [of n] by simp

lemma unat_max: "unat (- 1 :: size_t) = 2 ^ 64 - 1"
  by (simp add: unsigned_minus_1_eq_mask mask_eq_exp_minus_1)

lemma SAFE_ADD_iff: "SAFE_ADD_SIZE a b = Some n \<longleftrightarrow> unat n = unat a + unat b"
proof -
  have m: "unat (- 1 - b) = 2 ^ 64 - 1 - unat b"
    by (subst unat_sub) (simp_all add: unat_max)
  have b: "unat b < 2 ^ 64" "unat a < 2 ^ 64" using unat64_less [of b] unat64_less [of a] by simp_all
  show ?thesis
  proof (cases "a > - 1 - b")
    case True
    then have "unat a + unat b \<ge> 2 ^ 64" using m b by (simp add: word_less_nat_alt)
    moreover have "unat n < 2 ^ 64" using unat64_less [of n] by simp
    ultimately show ?thesis using True unfolding SAFE_ADD_SIZE_def by auto
  next
    case False
    then have s: "unat a + unat b < 2 ^ 64" using m b by (simp add: word_less_nat_alt)
    then have "unat (a + b) = unat a + unat b" using unat_add_lem [of a b] by simp
    with False show ?thesis unfolding SAFE_ADD_SIZE_def by (auto simp: word_unat_eq_iff)
  qed
qed

lemma SAFE_MUL_iff: "SAFE_MUL_SIZE a b = Some n \<longleftrightarrow> unat n = unat a * unat b"
proof -
  have q: "unat ((- 1 :: size_t) div b) = (2 ^ 64 - 1) div unat b"
    by (simp add: unat_div unat_max)
  have fits: "b \<noteq> 0 \<Longrightarrow> (a > (- 1) div b \<longleftrightarrow> 2 ^ 64 \<le> unat a * unat b)"
  proof -
    assume "b \<noteq> 0"
    then have "0 < unat b" by (simp add: unat_gt_0)
    have "a > (- 1) div b \<longleftrightarrow> (2 ^ 64 - 1) div unat b < unat a" unfolding word_less_nat_alt q ..
    also have "\<dots> \<longleftrightarrow> 2 ^ 64 - 1 < unat a * unat b" using \<open>0 < unat b\<close> by (rule div_less_iff_less_mult)
    finally show "a > (- 1) div b \<longleftrightarrow> 2 ^ 64 \<le> unat a * unat b" by auto
  qed
  have n: "unat n < 2 ^ 64" using unat64_less [of n] by simp
  show ?thesis
  proof (cases "b \<noteq> 0 \<and> a > (- 1) div b")
    case True
    with fits n show ?thesis unfolding SAFE_MUL_SIZE_def by auto
  next
    case False
    then have "unat a * unat b < 2 ^ 64" using fits by (cases "b = 0") auto
    then have "unat (a * b) = unat a * unat b" using unat_mult_lem [of a b] by simp
    with False show ?thesis unfolding SAFE_MUL_SIZE_def by (auto simp: word_unat_eq_iff)
  qed
qed

lemma SAFE_ADD_None: "SAFE_ADD_SIZE a b = None \<longleftrightarrow> 2 ^ 64 \<le> unat a + unat b"
proof (cases "unat a + unat b < 2 ^ 64")
  case True
  then have "SAFE_ADD_SIZE a b = Some (a + b)" using unat_add_lem [of a b] by (simp add: SAFE_ADD_iff)
  with True show ?thesis by simp
next
  case False
  have "SAFE_ADD_SIZE a b \<noteq> Some n" for n using False unat64_less [of n] by (simp add: SAFE_ADD_iff)
  with False show ?thesis by (meson not_le option.exhaust)
qed

section \<open>Accounting is exact and bounded\<close>

definition live_bytes :: "mem \<Rightarrow> nat" where
  "live_bytes m = (\<Sum>a\<in>dom (blocks m). unat (block_size m a))"

text \<open>
  The invariant of the allocator under a limit: the platform is complete, the counter is the usable size of
  the live blocks, the peak is at least the counter and at most the limit plus the rounding of one block.
\<close>

definition mem_inv :: "nat \<Rightarrow> mem \<Rightarrow> bool" where
  "mem_inv slack m \<longleftrightarrow>
     (\<exists>p. pPlatform m = Some p \<and> xFree p \<and> xMemorySize p) \<and> finite (dom (blocks m)) \<and>
     0 < unat (nAllocLimit m) \<and> unat (nAllocLimit m) + slack < 2 ^ 64 \<and>
     unat (nAllocBytes m) = live_bytes m \<and> nAllocBytes m \<le> nAllocPeak m \<and>
     unat (nAllocPeak m) \<le> unat (nAllocLimit m) + slack"

lemma block_size_upd [simp]:
  "block_size (m\<lparr>blocks := (blocks m)(a := v)\<rparr>) b = (if b = a then (case v of None \<Rightarrow> 0 | Some n \<Rightarrow> n) else block_size m b)"
  by (simp add: block_size_def)

lemma live_bytes_insert:
  assumes "finite (dom (blocks m))" "a \<notin> dom (blocks m)"
  shows "live_bytes (m\<lparr>blocks := (blocks m)(a \<mapsto> n)\<rparr>) = live_bytes m + unat n"
proof -
  have "(\<Sum>b\<in>dom (blocks m). unat (block_size (m\<lparr>blocks := (blocks m)(a \<mapsto> n)\<rparr>) b)) = live_bytes m"
    unfolding live_bytes_def using assms(2) by (intro sum.cong) auto
  with assms show ?thesis unfolding live_bytes_def by simp
qed

lemma live_bytes_remove:
  assumes "finite (dom (blocks m))" "a \<in> dom (blocks m)"
  shows "live_bytes m = live_bytes (m\<lparr>blocks := (blocks m)(a := None)\<rparr>) + unat (block_size m a)"
proof -
  have "(\<Sum>b\<in>dom (blocks m) - {a}. unat (if b = a then 0 else block_size m b)) =
    (\<Sum>b\<in>dom (blocks m) - {a}. unat (block_size m b))" by (intro sum.cong) auto
  with sum.remove [OF assms, of "\<lambda>b. unat (block_size m b)"] show ?thesis
    by (simp add: live_bytes_def)
qed

lemma live_bytes_cong [simp]:
  "live_bytes (m\<lparr>nAllocBytes := n\<rparr>) = live_bytes m" "live_bytes (m\<lparr>nAllocPeak := n\<rparr>) = live_bytes m"
  "live_bytes (m\<lparr>panics := ps\<rparr>) = live_bytes m"
  by (simp_all add: live_bytes_def block_size_def)

lemma account_fields [simp]:
  "pPlatform (th8AccountAlloc n m) = pPlatform m" "blocks (th8AccountAlloc n m) = blocks m"
  "nAllocLimit (th8AccountAlloc n m) = nAllocLimit m" "live_bytes (th8AccountAlloc n m) = live_bytes m"
  by (simp_all add: th8AccountAlloc_def Let_def live_bytes_def block_size_def)

lemma account_exact:
  assumes "unat (nAllocBytes m) + unat n < 2 ^ 64"
  shows "unat (nAllocBytes (th8AccountAlloc n m)) = unat (nAllocBytes m) + unat n"
    and "nAllocPeak (th8AccountAlloc n m) = max (nAllocPeak m) (nAllocBytes (th8AccountAlloc n m))"
proof -
  obtain s where s: "SAFE_ADD_SIZE (nAllocBytes m) n = Some s" and u: "unat s = unat (nAllocBytes m) + unat n"
    using assms SAFE_ADD_iff SAFE_ADD_None by (metis not_le option.exhaust)
  show "unat (nAllocBytes (th8AccountAlloc n m)) = unat (nAllocBytes m) + unat n"
    and "nAllocPeak (th8AccountAlloc n m) = max (nAllocPeak m) (nAllocBytes (th8AccountAlloc n m))"
    using s u by (auto simp: th8AccountAlloc_def Let_def max_def)
qed

lemma panic_inv [simp]: "mem_inv slack (panic_if b p msg m) = mem_inv slack m"
  by (simp add: panic_if_def mem_inv_def)

text \<open>Accounting for a block of \<open>n\<close> usable bytes keeps the invariant when it fits.\<close>

lemma account_inv:
  assumes "\<exists>p. pPlatform m = Some p \<and> xFree p \<and> xMemorySize p" "finite (dom (blocks m))"
    and "0 < unat (nAllocLimit m)" "unat (nAllocLimit m) + slack < 2 ^ 64"
    and live: "live_bytes m = unat (nAllocBytes m) + unat n"
    and fits: "unat (nAllocBytes m) + unat n \<le> unat (nAllocLimit m) + slack"
    and peak: "unat (nAllocPeak m) \<le> unat (nAllocLimit m) + slack"
  shows "mem_inv slack (th8AccountAlloc n m)"
proof -
  have lt: "unat (nAllocBytes m) + unat n < 2 ^ 64" using assms(4) fits by linarith
  note e = account_exact [OF lt]
  have "unat (nAllocPeak (th8AccountAlloc n m)) \<le> unat (nAllocLimit m) + slack"
    using e fits peak by (simp add: max_def)
  with assms e show ?thesis by (simp add: mem_inv_def)
qed

definition answers :: "nat \<Rightarrow> size_t \<Rightarrow> mem \<Rightarrow> answer \<Rightarrow> bool" where
  "answers slack nByte m ans \<longleftrightarrow>
     (case ans of None \<Rightarrow> True
      | Some (a, u) \<Rightarrow> a \<notin> dom (blocks m) \<and> unat nByte \<le> unat u \<and> unat u \<le> unat nByte + slack)"

lemma within_limit:
  assumes "\<not> over_limit nByte m"
  shows "unat (nAllocBytes m) + unat nByte \<le> unat (nAllocLimit m)"
proof -
  have le: "nAllocBytes m \<le> nAllocLimit m" and n: "nByte \<le> nAllocLimit m - nAllocBytes m"
    using assms by (auto simp: over_limit_def)
  have "unat nByte \<le> unat (nAllocLimit m) - unat (nAllocBytes m)"
    using n unat_sub [OF le] by (simp add: word_le_nat_alt)
  with le show ?thesis by (simp add: word_le_nat_alt)
qed

lemma malloc_inv:
  assumes inv: "mem_inv slack m" and ans: "answers slack nByte m ans"
  shows "mem_inv slack (snd (th8MallocCommon ans nByte bPanic m))"
proof -
  obtain p where p: "pPlatform m = Some p" "xFree p" "xMemorySize p" using inv by (auto simp: mem_inv_def)
  have lim: "nAllocLimit m > 0" using inv by (simp add: mem_inv_def unat_gt_0 word_gt_0)
  show ?thesis
  proof (cases "over_limit nByte m \<or> ans = None")
    case True
    with inv p lim show ?thesis by (auto simp: th8MallocCommon_def)
  next
    case False
    then obtain a u where a: "ans = Some (a, u)" by auto
    have "mem_inv slack (th8AccountAlloc u (m\<lparr>blocks := (blocks m)(a \<mapsto> u)\<rparr>))"
      using inv ans a p within_limit [of nByte m] False
      by (intro account_inv) (auto simp: mem_inv_def answers_def live_bytes_insert)
    then show ?thesis using False a p by (simp add: th8MallocCommon_def)
  qed
qed

lemma block_free_inv:
  assumes inv: "mem_inv slack m" and "p = None \<or> the p \<in> dom (blocks m)"
  shows "mem_inv slack (Th8_Free p m)"
proof (cases p)
  case (Some a)
  obtain pl where pl: "pPlatform m = Some pl" "xFree pl" "xMemorySize pl" using inv by (auto simp: mem_inv_def)
  have "a \<in> dom (blocks m)" using assms Some by simp
  then have live: "live_bytes m = live_bytes (m\<lparr>blocks := (blocks m)(a := None)\<rparr>) + unat (block_size m a)"
    using inv by (intro live_bytes_remove) (simp_all add: mem_inv_def)
  then have le: "block_size m a \<le> nAllocBytes m" using inv by (simp add: mem_inv_def word_le_nat_alt)
  have live': "live_bytes (m\<lparr>nAllocBytes := n, blocks := bs\<rparr>) = live_bytes (m\<lparr>blocks := bs\<rparr>)" for n bs
    by (simp add: live_bytes_def block_size_def)
  from live le inv have "unat (nAllocBytes m - block_size m a) = live_bytes (m\<lparr>blocks := (blocks m)(a := None)\<rparr>)"
    by (simp add: unat_sub mem_inv_def)
  moreover have "nAllocBytes m - block_size m a \<le> nAllocPeak m"
    using inv le by (metis (no_types, lifting) mem_inv_def word_sub_le order.trans)
  ultimately show ?thesis using inv le pl Some by (simp add: Th8_Free_def mem_inv_def Let_def live')
qed (use inv in \<open>simp add: Th8_Free_def\<close>)


definition old_size :: "addr option \<Rightarrow> mem \<Rightarrow> size_t" where
  "old_size p m = (case p of None \<Rightarrow> 0 | Some a \<Rightarrow> block_size m a)"

definition realloc_answers :: "nat \<Rightarrow> addr option \<Rightarrow> size_t \<Rightarrow> mem \<Rightarrow> answer \<Rightarrow> bool" where
  "realloc_answers slack p nByte m ans \<longleftrightarrow>
     (case ans of None \<Rightarrow> True
      | Some (a, u) \<Rightarrow>
          (a \<notin> dom (blocks m) \<or> p = Some a) \<and> unat nByte \<le> unat u \<and> unat u \<le> unat nByte + slack \<and>
          (nByte \<le> old_size p m \<longrightarrow> u \<le> old_size p m))"

lemma realloc_inv:
  assumes inv: "mem_inv slack m" and p: "p = None \<or> the p \<in> dom (blocks m)"
    and ans: "realloc_answers slack p nByte m ans"
  shows "mem_inv slack (snd (th8ReallocCommon ans p nByte bPanic m))"
proof -
  obtain pl where pl: "pPlatform m = Some pl" "xFree pl" "xMemorySize pl" using inv by (auto simp: mem_inv_def)
  have lim: "nAllocLimit m > 0" using inv by (simp add: mem_inv_def unat_gt_0 word_gt_0)
  have old: "(case p of None \<Rightarrow> 0 | Some a \<Rightarrow> if xMemorySize pl then block_size m a else 0) = old_size p m"
    using pl by (simp add: old_size_def split: option.splits)
  define m1 where "m1 = (case p of None \<Rightarrow> m | Some a \<Rightarrow> m\<lparr>blocks := (blocks m)(a := None)\<rparr>)"
  have bs: "(case p of None \<Rightarrow> blocks m | Some a \<Rightarrow> (blocks m)(a := None)) = blocks m1"
    by (simp add: m1_def split: option.splits)
  have fin: "finite (dom (blocks m))" using inv by (simp add: mem_inv_def)
  have live: "live_bytes m = live_bytes m1 + unat (old_size p m)"
    using p fin live_bytes_remove by (cases p) (simp_all add: m1_def old_size_def)
  then have le: "old_size p m \<le> nAllocBytes m" using inv by (simp add: mem_inv_def word_le_nat_alt)
  show ?thesis
  proof (cases "(nByte > old_size p m \<and> over_limit (nByte - old_size p m) m) \<or> ans = None")
    case True
    with inv pl lim old show ?thesis by (auto simp: th8ReallocCommon_def Let_def)
  next
    case False
    then obtain a u where a: "ans = Some (a, u)" by auto
    define m2 where "m2 = m\<lparr>blocks := (blocks m1)(a \<mapsto> u), nAllocBytes := nAllocBytes m - old_size p m\<rparr>"
    have bytes: "unat (nAllocBytes m2) = live_bytes m1" using inv live le by (simp add: m2_def unat_sub mem_inv_def)
    have fresh: "a \<notin> dom (blocks m1)" and fin1: "finite (dom (blocks m1))"
      using ans a fin by (auto simp: realloc_answers_def m1_def split: option.splits)
    have "live_bytes m2 = live_bytes (m1\<lparr>blocks := (blocks m1)(a \<mapsto> u)\<rparr>)"
      by (simp add: m2_def live_bytes_def block_size_def)
    with live_bytes_insert [OF fin1 fresh] bytes have live2: "live_bytes m2 = unat (nAllocBytes m2) + unat u" by simp
    have fits: "unat (nAllocBytes m2) + unat u \<le> unat (nAllocLimit m) + slack"
    proof (cases "nByte > old_size p m")
      case True
      with False within_limit have "unat (nAllocBytes m) + unat (nByte - old_size p m) \<le> unat (nAllocLimit m)" by blast
      moreover have "unat (nByte - old_size p m) = unat nByte - unat (old_size p m)" using True by (simp add: unat_sub)
      moreover have "unat u \<le> unat nByte + slack" using ans a by (simp add: realloc_answers_def)
      moreover have "unat (old_size p m) < unat nByte" using True by (simp add: word_less_nat_alt)
      ultimately show ?thesis using bytes live inv by (simp add: mem_inv_def)
    next
      case small: False
      then have "unat u \<le> unat (old_size p m)" using ans a by (simp add: realloc_answers_def word_le_nat_alt not_less)
      moreover have "live_bytes m \<le> unat (nAllocLimit m) + slack" using inv by (auto simp: mem_inv_def word_le_nat_alt)
      ultimately show ?thesis using bytes live by simp
    qed
    have "mem_inv slack (th8AccountAlloc u m2)"
      using inv fits live2 fin1 pl by (intro account_inv) (auto simp: mem_inv_def m2_def)
    then show ?thesis using inv False a pl le old bs by (simp add: th8ReallocCommon_def Let_def m2_def)
  qed
qed

section \<open>Runs\<close>

text \<open>
  A run performs allocations, reallocations and frees in any order. The platform keeps its contract: a new
  block is fresh, holds at least the bytes asked for and at most \<open>slack\<close> more, and shrinking a block does not
  enlarge it; the program frees and reallocates only live blocks, and the cache frees distinct live blocks.
\<close>

datatype mem_op =
    Malloc answer size_t bool
  | Safe_Alloc alloc_env size_t
  | Release "addr option"
  | Resize answer "addr option" size_t bool

fun mem_exec :: "mem_op \<Rightarrow> mem \<Rightarrow> mem" where
  "mem_exec (Malloc ans n bPanic) m = snd (th8MallocCommon ans n bPanic m)"
| "mem_exec (Safe_Alloc env n) m = snd (Th8_SafeAlloc env n m)"
| "mem_exec (Release p) m = Th8_Free p m"
| "mem_exec (Resize ans p n bPanic) m = snd (th8ReallocCommon ans p n bPanic m)"

fun mem_allowed :: "nat \<Rightarrow> mem_op \<Rightarrow> mem \<Rightarrow> bool" where
  "mem_allowed slack (Malloc ans n bPanic) m = answers slack n m ans"
| "mem_allowed slack (Safe_Alloc env n) m =
     (answers slack n m (first env) \<and> distinct (cached env) \<and> set (cached env) \<subseteq> dom (blocks m) \<and>
      answers slack n (fold (\<lambda>a. Th8_Free (Some a)) (cached env) m) (second env))"
| "mem_allowed slack (Release p) m = (p = None \<or> the p \<in> dom (blocks m))"
| "mem_allowed slack (Resize ans p n bPanic) m =
     ((p = None \<or> the p \<in> dom (blocks m)) \<and> realloc_answers slack p n m ans)"

inductive mem_run :: "nat \<Rightarrow> mem \<Rightarrow> mem \<Rightarrow> bool" for slack m where
  start: "mem_run slack m m"
| next_op: "mem_run slack m m' \<Longrightarrow> mem_allowed slack opn m' \<Longrightarrow> mem_run slack m (mem_exec opn m')"

lemma free_dom: "mem_inv slack m \<Longrightarrow> dom (blocks (Th8_Free (Some a) m)) = dom (blocks m) - {a}"
  by (auto simp: mem_inv_def Th8_Free_def Let_def split: if_splits)

lemma free_all_inv:
  "mem_inv slack m \<Longrightarrow> distinct as \<Longrightarrow> set as \<subseteq> dom (blocks m) \<Longrightarrow>
   mem_inv slack (fold (\<lambda>a. Th8_Free (Some a)) as m)"
proof (induction as arbitrary: m)
  case (Cons a as)
  have "mem_inv slack (Th8_Free (Some a) m)" using Cons.prems by (intro block_free_inv) auto
  moreover have "set as \<subseteq> dom (blocks (Th8_Free (Some a) m))"
    using free_dom [OF Cons.prems(1)] Cons.prems by auto
  ultimately show ?case using Cons by simp
qed simp

lemma null_malloc_keeps:
  "fst (th8MallocCommon ans n False m) = Null_Ptr \<Longrightarrow> snd (th8MallocCommon ans n False m) = m"
  by (auto simp: th8MallocCommon_def panic_if_def split: option.splits if_splits)

lemma safe_alloc_inv:
  assumes "mem_inv slack m" "mem_allowed slack (Safe_Alloc env n) m"
  shows "mem_inv slack (snd (Th8_SafeAlloc env n m))"
proof (cases "fst (th8MallocCommon (first env) n False m) = Null_Ptr")
  case True
  with null_malloc_keeps have "th8MallocCommon (first env) n False m = (Null_Ptr, m)" by (metis prod.collapse)
  moreover have "mem_inv slack (snd (th8MemNeedMemory (cached env) (second env) n False m))"
    unfolding th8MemNeedMemory_def using assms by (intro malloc_inv free_all_inv) auto
  ultimately show ?thesis using assms by (auto simp: Th8_SafeAlloc_def split: option.splits)
next
  case False
  moreover have "mem_inv slack (snd (th8MallocCommon (first env) n False m))" using assms by (intro malloc_inv) auto
  ultimately show ?thesis using assms(1)
    by (cases "th8MallocCommon (first env) n False m") (auto simp: Th8_SafeAlloc_def split: ptr.splits)
qed

lemma mem_exec_inv: "mem_inv slack m \<Longrightarrow> mem_allowed slack opn m \<Longrightarrow> mem_inv slack (mem_exec opn m)"
  by (cases opn) (simp_all add: malloc_inv safe_alloc_inv block_free_inv realloc_inv del: mem_allowed.simps(2))

lemma mem_run_inv: "mem_run slack m m' \<Longrightarrow> mem_inv slack m \<Longrightarrow> mem_inv slack m'"
  by (induction rule: mem_run.induct) (simp_all add: mem_exec_inv)

lemma exec_limit [simp]:
  "nAllocLimit (snd (th8MallocCommon ans n b m)) = nAllocLimit m" "nAllocLimit (Th8_Free q m) = nAllocLimit m"
  "nAllocLimit (snd (th8ReallocCommon ans q n b m)) = nAllocLimit m"
  by (auto simp: th8MallocCommon_def Th8_Free_def th8ReallocCommon_def panic_if_def Let_def split: option.splits)

lemma free_all_limit [simp]: "nAllocLimit (fold (\<lambda>a. Th8_Free (Some a)) as m) = nAllocLimit m"
  by (induction as arbitrary: m) simp_all

lemma safe_alloc_limit [simp]: "nAllocLimit (snd (Th8_SafeAlloc env n m)) = nAllocLimit m"
  using exec_limit(1) [of "first env" n False m]
  by (cases "th8MallocCommon (first env) n False m")
    (auto simp: Th8_SafeAlloc_def th8MemNeedMemory_def split: ptr.splits option.splits)

lemma mem_exec_limit: "nAllocLimit (mem_exec opn m) = nAllocLimit m"
  by (cases opn) simp_all

text \<open>Chains of checked operations compute over the natural numbers.\<close>

lemma bind_exact:
  assumes "\<And>t :: size_t. x = Some t \<longleftrightarrow> unat t = k" "\<And>t. f t = Some n \<longleftrightarrow> unat (n :: size_t) = g (unat t)" "k \<le> g k"
  shows "Option.bind x f = Some n \<longleftrightarrow> unat n = g k"
proof -
  have "\<exists>t :: size_t. unat t = k" if "unat n = g k"
  proof -
    have "k < 2 ^ 64" using that assms(3) unat64_less [of n] by linarith
    then show ?thesis by (intro exI [of _ "of_nat k"]) (simp add: unat_of_nat take_bit_nat_eq_self)
  qed
  then show ?thesis using assms(1,2) by (auto simp: bind_eq_Some_conv)
qed

lemma SAFE_chain:
  "Option.bind (SAFE_MUL_SIZE a b) (\<lambda>t. SAFE_ADD_SIZE t c) = Some n \<longleftrightarrow> unat n = unat a * unat b + unat c"
  "Option.bind (SAFE_ADD_SIZE a b) (\<lambda>t. SAFE_ADD_SIZE t c) = Some n \<longleftrightarrow> unat n = unat a + unat b + unat c"
  "Option.bind (SAFE_MUL_SIZE a b) (\<lambda>t1. Option.bind (SAFE_MUL_SIZE c d) (\<lambda>t2.
     Option.bind (SAFE_ADD_SIZE t1 t2) (\<lambda>t3. SAFE_ADD_SIZE t3 e))) = Some n \<longleftrightarrow>
   unat n = unat a * unat b + unat c * unat d + unat e"
proof -
  show "Option.bind (SAFE_MUL_SIZE a b) (\<lambda>t. SAFE_ADD_SIZE t c) = Some n \<longleftrightarrow> unat n = unat a * unat b + unat c"
    by (rule bind_exact [where g = "\<lambda>k. k + unat c"]) (simp_all add: SAFE_MUL_iff SAFE_ADD_iff)
  have add: "Option.bind (SAFE_ADD_SIZE a b) (\<lambda>t. SAFE_ADD_SIZE t c) = Some n \<longleftrightarrow> unat n = unat a + unat b + unat c" for a b c
    by (rule bind_exact [where g = "\<lambda>k. k + unat c"]) (simp_all add: SAFE_ADD_iff)
  show "Option.bind (SAFE_ADD_SIZE a b) (\<lambda>t. SAFE_ADD_SIZE t c) = Some n \<longleftrightarrow> unat n = unat a + unat b + unat c"
    by (rule add)
  have inner: "Option.bind (SAFE_MUL_SIZE c d) (\<lambda>t2. Option.bind (SAFE_ADD_SIZE t1 t2) (\<lambda>t3. SAFE_ADD_SIZE t3 e)) = Some n
    \<longleftrightarrow> unat n = unat t1 + unat c * unat d + unat e" for t1
    by (rule bind_exact [where g = "\<lambda>k. unat t1 + k + unat e"]) (simp_all add: SAFE_MUL_iff add)
  show "Option.bind (SAFE_MUL_SIZE a b) (\<lambda>t1. Option.bind (SAFE_MUL_SIZE c d) (\<lambda>t2.
     Option.bind (SAFE_ADD_SIZE t1 t2) (\<lambda>t3. SAFE_ADD_SIZE t3 e))) = Some n \<longleftrightarrow>
   unat n = unat a * unat b + unat c * unat d + unat e"
    by (rule bind_exact [where g = "\<lambda>k. k + unat c * unat d + unat e"]) (simp_all add: SAFE_MUL_iff inner)
qed

section \<open>Properties\<close>

definition fresh_mem :: "platform \<Rightarrow> size_t \<Rightarrow> mem" where
  "fresh_mem p nLimit =
     \<lparr>pPlatform = Some p, nAllocBytes = 0, nAllocLimit = nLimit, nAllocPeak = 0, blocks = Map.empty, panics = []\<rparr>"

text \<open>C10: The memory cap holds. Under a nonzero limit, after any sequence of allocations, second-chance allocations,
  reallocations and frees, the counter \<open>nAllocBytes\<close> equals the usable bytes of the live blocks (it never
  drifts and never wraps), it is at most the limit plus the platform's rounding of one block, and the peak
  \<open>nAllocPeak\<close> bounds it and obeys the same cap.\<close>

theorem memory_cap:
  assumes "xFree p" "xMemorySize p" "0 < unat nLimit" "unat nLimit + slack < 2 ^ 64"
    and "mem_run slack (fresh_mem p nLimit) m"
  shows "unat (nAllocBytes m) = live_bytes m \<and> live_bytes m \<le> unat nLimit + slack \<and>
    nAllocBytes m \<le> nAllocPeak m \<and> unat (nAllocPeak m) \<le> unat nLimit + slack"
proof -
  have "mem_inv slack (fresh_mem p nLimit)"
    using assms(1-4) by (simp add: mem_inv_def fresh_mem_def live_bytes_def)
  with assms(5) have "mem_inv slack m" by (rule mem_run_inv)
  moreover have "nAllocLimit m = nLimit"
    using assms(5) by (induction rule: mem_run.induct) (simp_all add: mem_exec_limit, simp add: fresh_mem_def)
  ultimately show ?thesis by (auto simp: mem_inv_def word_le_nat_alt)
qed

theorem memory_cap_witness:
  "let p = \<lparr>xFree = True, xMemorySize = True, xNeedMemory = True, xPanic = False\<rparr>;
       m = mem_exec (Malloc (Some (1, 48)) 40 False) (fresh_mem p 100)
   in unat (nAllocBytes m) = live_bytes m \<and> live_bytes m \<le> 116 \<and> nAllocBytes m \<le> nAllocPeak m \<and>
      unat (nAllocPeak m) \<le> 116 \<and> blocks m 1 = Some 48"
proof -
  let ?p = "\<lparr>xFree = True, xMemorySize = True, xNeedMemory = True, xPanic = False\<rparr>"
  let ?m = "mem_exec (Malloc (Some (1, 48)) 40 False) (fresh_mem ?p 100)"
  have "mem_run 16 (fresh_mem ?p 100) ?m"
    by (rule mem_run.next_op [OF mem_run.start]) (simp add: answers_def fresh_mem_def)
  from memory_cap [OF _ _ _ _ this] have "unat (nAllocBytes ?m) = live_bytes ?m \<and> live_bytes ?m \<le> 116 \<and>
    nAllocBytes ?m \<le> nAllocPeak ?m \<and> unat (nAllocPeak ?m) \<le> 116" by simp
  moreover have "blocks ?m 1 = Some 48"
    by (simp add: th8MallocCommon_def fresh_mem_def over_limit_def)
  ultimately show ?thesis by (simp add: Let_def)
qed

text \<open>The outcome of the allocator core. \<open>th8MallocCommon\<close> returns a block exactly when there is a platform, the
  request fits under the limit (the sum of counter and request, taken over the natural numbers, is at most a
  nonzero limit), and the platform answers; otherwise the counter, the peak and the live blocks are unchanged.\<close>

lemma malloc_outcome:
  "(fst (th8MallocCommon ans nByte bPanic m) = Block a \<longleftrightarrow>
     pPlatform m \<noteq> None \<and> (nAllocLimit m = 0 \<or> unat (nAllocBytes m) + unat nByte \<le> unat (nAllocLimit m)) \<and>
     (\<exists>u. ans = Some (a, u))) \<and>
   (fst (th8MallocCommon ans nByte bPanic m) \<in> {Null_Ptr, Fault} \<longrightarrow>
     fst (th8MallocCommon ans nByte bPanic m) = Null_Ptr \<and>
     nAllocBytes (snd (th8MallocCommon ans nByte bPanic m)) = nAllocBytes m \<and>
     nAllocPeak (snd (th8MallocCommon ans nByte bPanic m)) = nAllocPeak m \<and>
     blocks (snd (th8MallocCommon ans nByte bPanic m)) = blocks m)"
proof -
  have "over_limit nByte m \<longleftrightarrow> \<not> unat (nAllocBytes m) + unat nByte \<le> unat (nAllocLimit m)"
    using within_limit [of nByte m] by (auto simp: over_limit_def word_less_nat_alt unat_sub word_le_nat_alt)
  then show ?thesis
    by (auto simp: th8MallocCommon_def panic_if_def word_gt_0 split: option.splits)
qed

lemma malloc_outcome_witness:
  "fst (th8MallocCommon (Some (7, 16)) 10 False
     \<lparr>pPlatform = Some \<lparr>xFree = True, xMemorySize = True, xNeedMemory = False, xPanic = False\<rparr>, nAllocBytes = 95,
      nAllocLimit = 100, nAllocPeak = 95, blocks = [1 \<mapsto> 95], panics = []\<rparr>) = Null_Ptr"
  (is "fst (th8MallocCommon _ _ _ ?m) = _")
proof -
  have "fst (th8MallocCommon (Some (7, 16)) 10 False ?m) \<noteq> Block a" for a
    using malloc_outcome [of "Some (7, 16)" 10 False ?m a] by simp
  then have "fst (th8MallocCommon (Some (7, 16)) 10 False ?m) \<in> {Null_Ptr, Fault}"
    by (metis insertCI ptr.exhaust)
  then show ?thesis using malloc_outcome [of "Some (7, 16)" 10 False ?m] by blast
qed

text \<open>Missing platform. With no platform installed, the allocator core refuses (as its guard says), but the checked
  entry point \<open>Th8_SafeAlloc\<close> then reads \<open>xNeedMemory\<close> through the missing platform for every request it
  accepts; with a platform it never faults.\<close>

lemma safe_alloc_fault:
  "fst (Th8_SafeAlloc env nByte m) = Fault \<longleftrightarrow>
     pPlatform m = None \<and> nByte \<noteq> 0 \<and> nByte \<le> TH8_MX_ALLOC"
proof -
  have nf: "fst (th8MallocCommon ans n b m') \<noteq> Fault" for ans n b m'
    by (auto simp: th8MallocCommon_def split: option.splits)
  show ?thesis
  proof (cases "fst (th8MallocCommon (first env) nByte False m) = Null_Ptr")
    case True
    with null_malloc_keeps have "th8MallocCommon (first env) nByte False m = (Null_Ptr, m)" by (metis prod.collapse)
    with nf show ?thesis by (auto simp: Th8_SafeAlloc_def th8MemNeedMemory_def split: option.splits)
  next
    case False
    then have "pPlatform m \<noteq> None" by (auto simp: th8MallocCommon_def split: option.splits)
    with False nf [of "first env" nByte False m] show ?thesis
      by (cases "th8MallocCommon (first env) nByte False m") (auto simp: Th8_SafeAlloc_def split: ptr.splits)
  qed
qed

text \<open>Allocation sizes are exact. Each overflow-checked entry point allocates the mathematical size of its
  formula (string length plus one, products and sums over the natural numbers) when that is between one byte
  and \<open>TH8_MX_ALLOC\<close>, and otherwise refuses without touching the allocator: no product or sum wraps.\<close>

theorem checked_sizes_exact:
  fixes env m
  defines "alloc \<equiv> \<lambda>S. if 0 < S \<and> S \<le> 268435456 then Th8_SafeAlloc env (of_nat S) m else (Null_Ptr, m)"
  shows "Th8_SafeAllocStr env a m = alloc (unat a + 1) \<and>
    Th8_SafeAllocMul env a b m = alloc (unat a * unat b) \<and>
    Th8_SafeAllocAdd env a b m = alloc (unat a + unat b) \<and>
    Th8_SafeAllocMulAdd env a b c m = alloc (unat a * unat b + unat c) \<and>
    Th8_SafeAllocStrAdd env a b m = alloc (unat a + unat b + 1) \<and>
    Th8_SafeAllocStrMul env a b m = alloc (unat a * unat b + unat b) \<and>
    Th8_SafeAllocMulAdd2 env a b c d e m = alloc (unat a * unat b + unat c * unat d + unat e)"
proof -
  have sized: "checked_alloc env x m = alloc S" if x: "\<And>n. x = Some n \<longleftrightarrow> unat n = S" for x S
  proof (cases x)
    case None
    have "268435456 < S"
    proof (rule ccontr)
      assume "\<not> 268435456 < S"
      then have "unat (of_nat S :: size_t) = S" by (simp add: unat_of_nat take_bit_nat_eq_self)
      with x [of "of_nat S"] None show False by simp
    qed
    with None show ?thesis by (simp add: checked_alloc_def alloc_def)
  next
    case (Some n)
    with x have n: "unat n = S" by blast
    then have "n = 0 \<longleftrightarrow> S = 0" "TH8_MX_ALLOC < n \<longleftrightarrow> 268435456 < S"
      by (auto simp: word_less_nat_alt unat_eq_zero)
    moreover have "of_nat S = n" using n by auto
    ultimately show ?thesis
      using Some by (auto simp: checked_alloc_def alloc_def Th8_SafeAlloc_def)
  qed
  show ?thesis
    unfolding Th8_SafeAllocStr_def Th8_SafeAllocMul_def Th8_SafeAllocAdd_def Th8_SafeAllocMulAdd_def
      Th8_SafeAllocStrAdd_def Th8_SafeAllocStrMul_def Th8_SafeAllocMulAdd2_def
    by (intro conjI sized) (simp_all add: SAFE_chain SAFE_ADD_iff SAFE_MUL_iff)
qed

end
