(* ===== verification/Th8_Base64.thy ===== *)
theory Th8_Base64
  imports Th8_Alloc
begin

text \<open>
  Base64 (\<open>src/src/th8_base64.c\<close>): \<open>th8Base64Encode\<close> with its exact buffer size and the MIME line breaks, and
  \<open>th8Base64Decode\<close> with its bounded output buffer.

  The encoder's loop takes the input three bytes at a time; the decoder's loop carries the partial group
  \<open>buf\<close> and the padding count. Buffers come from the checked allocator of \<open>Th8_Alloc\<close>, with its size
  arithmetic on 64-bit words.

  The theorems: decoding an encoded byte string gives it back, the encoder writes exactly the number of
  bytes it allocates, and the decoder never writes past the end of its buffer on any input.
\<close>

section \<open>Tables\<close>

definition th8B64Enc :: string where
  "th8B64Enc = ''ABCDEFGHIJKLMNOPQRSTUVWXYZabcdefghijklmnopqrstuvwxyz0123456789+/''"

definition th8B64Dec :: "nat list" where
  "th8B64Dec =
    [255, 255, 255, 255, 255, 255, 255, 255, 255, 65, 65, 65, 65, 65, 255, 255,
     255, 255, 255, 255, 255, 255, 255, 255, 255, 255, 255, 255, 255, 255, 255, 255,
     65, 255, 255, 255, 255, 255, 255, 255, 255, 255, 255, 62, 255, 255, 255, 63,
     52, 53, 54, 55, 56, 57, 58, 59, 60, 61, 255, 255, 255, 64, 255, 255,
     255, 0, 1, 2, 3, 4, 5, 6, 7, 8, 9, 10, 11, 12, 13, 14,
     15, 16, 17, 18, 19, 20, 21, 22, 23, 24, 25, 255, 255, 255, 255, 255,
     255, 26, 27, 28, 29, 30, 31, 32, 33, 34, 35, 36, 37, 38, 39, 40,
     41, 42, 43, 44, 45, 46, 47, 48, 49, 50, 51, 255, 255, 255, 255, 255,
     255, 255, 255, 255, 255, 255, 255, 255, 255, 255, 255, 255, 255, 255, 255, 255,
     255, 255, 255, 255, 255, 255, 255, 255, 255, 255, 255, 255, 255, 255, 255, 255,
     255, 255, 255, 255, 255, 255, 255, 255, 255, 255, 255, 255, 255, 255, 255, 255,
     255, 255, 255, 255, 255, 255, 255, 255, 255, 255, 255, 255, 255, 255, 255, 255,
     255, 255, 255, 255, 255, 255, 255, 255, 255, 255, 255, 255, 255, 255, 255, 255,
     255, 255, 255, 255, 255, 255, 255, 255, 255, 255, 255, 255, 255, 255, 255, 255,
     255, 255, 255, 255, 255, 255, 255, 255, 255, 255, 255, 255, 255, 255, 255, 255,
     255, 255, 255, 255, 255, 255, 255, 255, 255, 255, 255, 255, 255, 255, 255, 255]"

section \<open>Encoding\<close>

definition b64_out_size :: "size_t \<Rightarrow> size_t option" where
  "b64_out_size nIn =
     (case SAFE_ADD_SIZE nIn 2 of None \<Rightarrow> None
      | Some nTmp \<Rightarrow>
          (case SAFE_MUL_SIZE (nTmp div 3) 4 of None \<Rightarrow> None
           | Some nRaw \<Rightarrow>
               (let nLines = (if nRaw > 0 then (nRaw - 1) div 76 else 0)
                in case SAFE_MUL_SIZE nLines 2 of None \<Rightarrow> None
                   | Some nTmp \<Rightarrow> SAFE_ADD_SIZE nRaw nTmp)))"

definition b64_group :: "nat \<Rightarrow> nat \<Rightarrow> nat \<Rightarrow> nat \<Rightarrow> string" where
  "b64_group nChunk a b c =
     (let triple = push_bit 16 a OR push_bit 8 b OR c
      in [th8B64Enc ! (drop_bit 18 triple AND 0x3F),
          th8B64Enc ! (drop_bit 12 triple AND 0x3F),
          (if nChunk \<ge> 2 then th8B64Enc ! (drop_bit 6 triple AND 0x3F) else CHR ''=''),
          (if nChunk \<ge> 3 then th8B64Enc ! (triple AND 0x3F) else CHR ''='')])"

fun b64_encode_loop :: "string \<Rightarrow> nat \<Rightarrow> string" where
  "b64_encode_loop [] linePos = []"
| "b64_encode_loop [a] linePos = b64_group 1 (uchar a) 0 0"
| "b64_encode_loop [a, b] linePos = b64_group 2 (uchar a) (uchar b) 0"
| "b64_encode_loop (a # b # c # rest) linePos =
     b64_group 3 (uchar a) (uchar b) (uchar c) @
     (if linePos + 4 \<ge> 76 \<and> rest \<noteq> [] then [CR, NL] @ b64_encode_loop rest 0
      else b64_encode_loop rest (linePos + 4))"

definition th8Base64Encode :: "alloc_env \<Rightarrow> string \<Rightarrow> mem \<Rightarrow> string option \<times> mem" where
  "th8Base64Encode env zIn m =
     (case b64_out_size (of_nat (length zIn)) of
        None \<Rightarrow> (None, m)
      | Some nOut \<Rightarrow>
          (case Th8_SafeAllocStr env nOut m of
             (Block zOut, m) \<Rightarrow> (Some (b64_encode_loop zIn 0), Th8_Free (Some zOut) m)
           | (_, m) \<Rightarrow> (None, m)))"

section \<open>Decoding\<close>

definition b64_flush :: "nat list \<Rightarrow> nat \<Rightarrow> string" where
  "b64_flush buf padCount =
     (let triple = push_bit 18 (buf ! 0) OR push_bit 12 (buf ! 1) OR push_bit 6 (buf ! 2) OR buf ! 3
      in [char_of (drop_bit 16 triple AND 0xFF)] @
         (if padCount < 2 then [char_of (drop_bit 8 triple AND 0xFF)] else []) @
         (if padCount < 1 then [char_of (triple AND 0xFF)] else []))"

fun b64_decode_loop :: "string \<Rightarrow> nat list \<Rightarrow> nat \<Rightarrow> string res" where
  "b64_decode_loop [] buf padCount = Inr []"
| "b64_decode_loop (c # cs) buf padCount =
     (let v = th8B64Dec ! uchar c
      in if v = 65 then b64_decode_loop cs buf padCount
         else if v = 0xFF then Inl ''invalid base64 character''
         else
           (let padCount = (if v = 64 then padCount + 1 else padCount);
                v = (if v = 64 then 0 else v);
                buf = buf @ [v]
            in if length buf = 4 then
                 (case b64_decode_loop cs [] 0 of
                    Inl e \<Rightarrow> Inl e
                  | Inr out \<Rightarrow> Inr (b64_flush buf padCount @ out))
               else b64_decode_loop cs buf padCount))"

definition b64_out_max :: "size_t \<Rightarrow> size_t" where
  "b64_out_max nIn = nIn div 4 * 3 + 3"

text \<open>On success the buffer stays with the caller when it asks for it (\<open>ppOut\<close>), and is freed otherwise.\<close>

definition th8Base64Decode :: "alloc_env \<Rightarrow> string \<Rightarrow> bool \<Rightarrow> mem \<Rightarrow> string res \<times> mem" where
  "th8Base64Decode env zIn ppOut m =
     (if of_nat (length zIn) > (- 1 - 3) div 3 * (4 :: size_t) then (Inl [], m)
      else
        (case Th8_SafeAllocStr env (b64_out_max (of_nat (length zIn))) m of
           (Block zOut, m) \<Rightarrow>
             (case b64_decode_loop zIn [] 0 of
                Inl e \<Rightarrow> (Inl e, Th8_Free (Some zOut) m)
              | Inr out \<Rightarrow> (Inr out, if ppOut then m else Th8_Free (Some zOut) m))
         | (_, m) \<Rightarrow> (Inl [], m)))"

section \<open>One group\<close>

lemma dec_enc: "i < 64 \<Longrightarrow> th8B64Dec ! uchar (th8B64Enc ! i) = i"
proof -
  assume i: "i < 64"
  have "map (\<lambda>c. th8B64Dec ! uchar c) th8B64Enc = [0..<64]"
    by (simp add: th8B64Enc_def th8B64Dec_def upt_rec)
  moreover have "length th8B64Enc = 64" by (simp add: th8B64Enc_def)
  ultimately show "th8B64Dec ! uchar (th8B64Enc ! i) = i" using i by (metis add_0 nth_map nth_upt)
qed

lemma dec_special: "th8B64Dec ! 61 = 64" "th8B64Dec ! 13 = 65" "th8B64Dec ! 10 = 65"
  by (simp_all add: th8B64Dec_def)

lemma triple_eq:
  "b < 256 \<Longrightarrow> c < 256 \<Longrightarrow> push_bit 16 a OR push_bit 8 b OR c = a * 65536 + b * 256 + (c :: nat)"
proof -
  assume "b < 256" "c < 256"
  then have "push_bit 16 a OR push_bit 8 b OR c = push_bit 16 a OR (b * 256 + c)"
    using push_bit_or_nat [of c 8 b] by simp
  also have "\<dots> = a * 65536 + (b * 256 + c)"
    using push_bit_or_nat [of "b * 256 + c" 16 a] \<open>b < 256\<close> \<open>c < 256\<close> by simp
  finally show ?thesis by simp
qed

lemma quad_eq:
  assumes "b < 64" "c < 64" "d < 64"
  shows "push_bit 18 a OR push_bit 12 b OR push_bit 6 c OR d = a * 262144 + b * 4096 + c * 64 + (d :: nat)"
proof -
  have 1: "push_bit 6 c OR d = c * 64 + d" using push_bit_or_nat [of d 6 c] assms by simp
  have 2: "push_bit 12 b OR (c * 64 + d) = b * 4096 + (c * 64 + d)"
    using push_bit_or_nat [of "c * 64 + d" 12 b] assms by simp
  have 3: "push_bit 18 a OR (b * 4096 + (c * 64 + d)) = a * 262144 + (b * 4096 + (c * 64 + d))"
    using push_bit_or_nat [of "b * 4096 + (c * 64 + d)" 18 a] assms by simp
  show ?thesis by (simp only: 1 2 3 add.assoc)
qed

lemma sextets:
  fixes t :: nat
  assumes "t < 16777216"
  shows "t div 262144 < 64" "t div 262144 * 262144 + t div 4096 mod 64 * 4096 + t div 64 mod 64 * 64 + t mod 64 = t"
proof -
  show "t div 262144 < 64" using assms by (simp add: less_mult_imp_div_less)
  have d: "t div 4096 = t div 64 div 64" "t div 262144 = t div 4096 div 64" by (simp_all add: div_mult2_eq [symmetric])
  have 1: "t div 64 * 64 + t mod 64 = t" by simp
  have 2: "t div 4096 * 64 + t div 64 mod 64 = t div 64" unfolding d(1) by simp
  have 3: "t div 262144 * 64 + t div 4096 mod 64 = t div 4096" unfolding d(2) by simp
  have g: "x * 262144 + y * 4096 + z * 64 + w = ((x * 64 + y) * 64 + z) * 64 + w" for x y z w :: nat by simp
  show "t div 262144 * 262144 + t div 4096 mod 64 * 4096 + t div 64 mod 64 * 64 + t mod 64 = t"
    by (simp only: g 3 2 1)
qed

lemma group_decodes:
  assumes "a < 256" "b < 256" "c < 256"
    and "n = 1 \<Longrightarrow> b = 0 \<and> c = 0" "n = 2 \<Longrightarrow> c = 0" "n \<in> {1, 2, 3}"
  shows "b64_decode_loop (b64_group n a b c @ rest) [] 0 =
    (case b64_decode_loop rest [] 0 of Inl e \<Rightarrow> Inl e | Inr out \<Rightarrow> Inr (take n [char_of a, char_of b, char_of c] @ out))"
proof -
  define t where "t = a * 65536 + b * 256 + c"
  have t: "t < 16777216" using assms(1-3) by (simp add: t_def)
  have byte: "t div 65536 = a" "t div 256 mod 256 = b" "t mod 256 = c"
  proof -
    show "t div 65536 = a" using assms(2,3) by (simp add: t_def div_mult_self3)
    have "t div 256 = a * 256 + b" using assms(3) by (simp add: t_def)
    then show "t div 256 mod 256 = b" using assms(2) by simp
    show "t mod 256 = c" using assms(3) by (simp add: t_def mod_add_left_eq [symmetric])
  qed
  have t18: "t div 262144 mod 64 = t div 262144" using sextets(1) [OF t] by simp
  define q0 q1 q2 q3 where "q0 = t div 262144" and "q1 = t div 4096 mod 64" and "q2 = t div 64 mod 64" and "q3 = t mod 64"
  have q: "q0 < 64" "q1 < 64" "q2 < 64" "q3 < 64" "q0 * 262144 + q1 * 4096 + q2 * 64 + q3 = t"
    using sextets [OF t] by (simp_all add: q0_def q1_def q2_def q3_def)
  have grp: "b64_group n a b c = [th8B64Enc ! q0, th8B64Enc ! q1, if n \<ge> 2 then th8B64Enc ! q2 else CHR ''='',
      if n \<ge> 3 then th8B64Enc ! q3 else CHR ''='']"
    using triple_eq [OF assms(2,3), of a] t18
    by (simp add: b64_group_def and_low_nat drop_bit_eq_div q0_def q1_def q2_def q3_def t_def Let_def)
  have flush: "b64_flush [q0, q1, q2, q3] 0 = [char_of a, char_of b, char_of c]"
    "b64_flush [q0, q1, q2, q3] 1 = [char_of a, char_of b]" "b64_flush [q0, q1, q2, q3] 2 = [char_of a]"
    using quad_eq [OF q(2-4), of q0] q(5) byte assms(1)
    by (simp_all add: b64_flush_def and_low_nat drop_bit_eq_div)
  have dq: "th8B64Dec ! uchar (th8B64Enc ! q) = q" "q \<noteq> 64" "q \<noteq> 65" "q \<noteq> 255" if "q < 64" for q
    using dec_enc [OF that] that by auto
  note step = dq [OF q(1)] dq [OF q(2)] dq [OF q(3)] dq [OF q(4)]
  consider "n = 1" | "n = 2" | "n = 3" using assms(6) by blast
  then show ?thesis
  proof cases
    case 1
    then have "q2 = 0" "q3 = 0" using assms(4) by (simp_all add: q2_def q3_def t_def)
    with flush(3) have "b64_flush [q0, q1, 0, 0] (Suc (Suc 0)) = [char_of a]" by (simp add: numeral_2_eq_2)
    then show ?thesis unfolding 1 grp [unfolded 1] by (simp add: step dec_special split: sum.split)
  next
    case 2
    then have "q3 = 0" using assms(5) by (simp add: q3_def t_def)
    with flush(2) show ?thesis unfolding 2 grp [unfolded 2] by (simp add: step dec_special split: sum.split)
  next
    case 3
    with flush(1) show ?thesis unfolding 3 grp [unfolded 3] by (simp add: step split: sum.split)
  qed
qed


lemma decode_encode_loop: "b64_decode_loop (b64_encode_loop z lp) [] 0 = Inr z"
proof (induction z lp rule: b64_encode_loop.induct)
  case (2 a lp)
  show ?case using group_decodes [of "uchar a" 0 0 1 "[]"] by simp
next
  case (3 a b lp)
  show ?case using group_decodes [of "uchar a" "uchar b" 0 2 "[]"] by simp
next
  case (4 a b c rest lp)
  have crlf: "b64_decode_loop (CR # NL # w) [] 0 = b64_decode_loop w [] 0" for w
    by (simp add: dec_special)
  show ?case
    using 4 group_decodes [of "uchar a" "uchar b" "uchar c" 3] by (auto simp: crlf simp del: b64_decode_loop.simps)
qed simp

section \<open>Sizes\<close>

lemma group_length [simp]: "length (b64_group n a b c) = 4"
  by (simp add: b64_group_def Let_def)

text \<open>The bytes written: four for every three input bytes, and two for each line break.\<close>

lemma encode_length_at:
  "lp \<le> 72 \<Longrightarrow> 4 dvd lp \<Longrightarrow> z \<noteq> [] \<Longrightarrow>
   length (b64_encode_loop z lp) =
     (length z + 2) div 3 * 4 + (lp + (length z + 2) div 3 * 4 - 1) div 76 * 2"
proof (induction z lp rule: b64_encode_loop.induct)
  case (4 a b c rest lp)
  define g where "g = (length rest + 2) div 3 * 4"
  have len: "(length (a # b # c # rest) + 2) div 3 * 4 = 4 + g"
    using div_add_self1 [of 3 "length rest + 2"] by (simp add: g_def)
  show ?case
  proof (cases "rest = []")
    case True
    with 4(3,4) show ?thesis by simp
  next
    case False
    then have g: "4 \<le> g" by (cases rest) (simp_all add: g_def)
    show ?thesis
    proof (cases "lp + 4 \<ge> 76")
      case True
      with 4(3) have lp: "lp = 72" by simp
      from 4(1) True False have "length (b64_encode_loop rest 0) = g + (g - 1) div 76 * 2" by (simp add: g_def)
      moreover have "(72 + (4 + g) - 1) div 76 = (g - 1) div 76 + 1"
        using g by (simp add: div_add_self1 [symmetric])
      ultimately show ?thesis using False lp unfolding len by simp
    next
      case lt: False
      then have "lp + 4 \<le> 72" using 4(4) by (auto simp: dvd_def)
      moreover have "4 dvd lp + 4" using 4(4) by simp
      ultimately have "length (b64_encode_loop rest (lp + 4)) = g + (lp + 4 + g - 1) div 76 * 2"
        using 4(2) lt False by (simp add: g_def)
      with lt show ?thesis unfolding len by (simp add: add.assoc)
    qed
  qed
qed simp_all

lemma out_size_exact:
  assumes "b64_out_size nIn = Some n"
  shows "unat n = (unat nIn + 2) div 3 * 4 + ((unat nIn + 2) div 3 * 4 - 1) div 76 * 2"
proof -
  obtain t where t: "SAFE_ADD_SIZE nIn 2 = Some t" using assms by (auto simp: b64_out_size_def split: option.splits)
  obtain raw where raw: "SAFE_MUL_SIZE (t div 3) 4 = Some raw"
    using assms t by (auto simp: b64_out_size_def split: option.splits)
  define lines where "lines = (if raw > 0 then (raw - 1) div 76 else 0)"
  obtain two where two: "SAFE_MUL_SIZE lines 2 = Some two" "SAFE_ADD_SIZE raw two = Some n"
    using assms t raw by (auto simp: b64_out_size_def lines_def Let_def split: option.splits)
  have r: "unat raw = (unat nIn + 2) div 3 * 4"
    using t raw by (simp add: SAFE_ADD_iff SAFE_MUL_iff unat_div)
  have "unat lines = (unat raw - 1) div 76"
  proof (cases "raw > 0")
    case True
    then have "unat (raw - 1) = unat raw - 1"
      by (metis linorder_not_less unat_minus_one word_le_0_iff)
    with True show ?thesis by (simp add: lines_def unat_div)
  next
    case False
    then have "raw = 0" by (simp add: word_gt_0)
    then show ?thesis by (simp add: lines_def)
  qed
  with two r show ?thesis by (simp add: SAFE_ADD_iff SAFE_MUL_iff)
qed

lemma encode_size:
  assumes "b64_out_size (of_nat (length z)) = Some n" "length z < 2 ^ 64"
  shows "length (b64_encode_loop z 0) = unat n"
  using out_size_exact [OF assms(1)] assms(2) encode_length_at [of 0 z]
  by (cases "z = []") (simp_all add: unat_of_nat take_bit_nat_eq_self)

lemma flush_length: "length (b64_flush buf p) \<le> 3"
  by (simp add: b64_flush_def Let_def)

lemma decode_length:
  "length buf < 4 \<Longrightarrow> b64_decode_loop z buf p = Inr out \<Longrightarrow> length out \<le> (length buf + length z) div 4 * 3"
proof (induction z buf p arbitrary: out rule: b64_decode_loop.induct)
  case (2 c cs buf p)
  let ?v = "th8B64Dec ! uchar c"
  consider "?v = 65" | "?v = 255" | "?v \<noteq> 65" "?v \<noteq> 255" "length buf = 3" | "?v \<noteq> 65" "?v \<noteq> 255" "length buf < 3"
    using 2(4) by linarith
  then show ?case
  proof cases
    case 1
    with 2 have "length out \<le> (length buf + length cs) div 4 * 3" by simp
    also have "\<dots> \<le> (length buf + length (c # cs)) div 4 * 3" by (intro mult_le_mono1 div_le_mono) simp
    finally show ?thesis .
  next
    case 2
    with \<open>b64_decode_loop (c # cs) buf p = Inr out\<close> show ?thesis by simp
  next
    case 3
    then obtain out' where o: "b64_decode_loop cs [] 0 = Inr out'"
      "out = b64_flush (buf @ [if ?v = 64 then 0 else ?v]) (if ?v = 64 then p + 1 else p) @ out'"
      using 2(5) by (auto simp: Let_def split: sum.splits)
    have "length out' \<le> length cs div 4 * 3" using 2(2) [OF refl 3(1,2)] 3(3) o(1) by simp
    with o(2) flush_length have "length out \<le> 3 + length cs div 4 * 3"
      by (metis add_mono_thms_linordered_semiring(1) length_append)
    with 3(3) show ?thesis using div_add_self1 [of 4 "length cs"] by simp
  next
    case 4
    with 2(3) [OF refl 4(1,2)] 2(5) show ?thesis by (auto simp: Let_def split: if_splits)
  qed
qed simp

lemma out_max_exact:
  assumes "length z < 2 ^ 63"
  shows "unat (b64_out_max (of_nat (length z))) = length z div 4 * 3 + 3"
proof -
  have "unat ((of_nat (length z) :: size_t) div 4) = length z div 4"
    using assms by (simp add: unat_div unat_of_nat take_bit_nat_eq_self)
  moreover have "length z div 4 * 3 + 3 < 2 ^ 64" using assms by simp
  ultimately show ?thesis
    unfolding b64_out_max_def by (simp add: unat_word_ariths)
qed

text \<open>A string buffer that is granted is at most \<open>TH8_MX_ALLOC\<close> long.\<close>

lemma alloc_str_small:
  assumes "Th8_SafeAllocStr env n m = (Block a, m')"
  shows "unat n < 2 ^ 28"
proof -
  have "unat s \<le> 2 ^ 28 \<Longrightarrow> SAFE_ADD_SIZE n 1 = Some s \<Longrightarrow> unat n < 2 ^ 28" for s by (simp add: SAFE_ADD_iff)
  with assms show ?thesis
    by (auto simp: Th8_SafeAllocStr_def checked_alloc_def Th8_SafeAlloc_def word_le_nat_alt not_less
        split: option.splits if_splits)
qed

section \<open>Properties\<close>

text \<open>C8: Base64 round trip. Whenever the encoder returns (the size computation does not overflow and its buffer is
  granted) and the decoder is granted its buffer, decoding the encoder's output, line breaks and padding
  included, gives back the input bytes, for every byte string.\<close>

theorem base64_roundtrip:
  assumes "fst (th8Base64Encode env z m) = Some e" "length z < 2 ^ 64"
    and "Th8_SafeAllocStr env' (b64_out_max (of_nat (length e))) m' = (Block a, m'')"
  shows "fst (th8Base64Decode env' e ppOut m') = Inr z"
proof -
  obtain n b m1 where n: "b64_out_size (of_nat (length z)) = Some n" "Th8_SafeAllocStr env n m = (Block b, m1)"
    and e: "e = b64_encode_loop z 0"
    using assms(1) by (auto simp: th8Base64Encode_def split: option.splits prod.splits ptr.splits)
  have "length e < 2 ^ 28" using encode_size [OF n(1) assms(2)] alloc_str_small [OF n(2)] e by simp
  then have "\<not> of_nat (length e) > (- 1 - 3) div 3 * (4 :: size_t)"
    by (simp add: word_less_nat_alt unat_of_nat take_bit_nat_eq_self)
  with assms(3) e show ?thesis by (simp add: th8Base64Decode_def decode_encode_loop)
qed

text \<open>Base64 buffers are never overrun. The encoder writes exactly the \<open>nOut\<close> bytes for which it asked a buffer of
  \<open>nOut + 1\<close>, and the decoder, on any input whatever, valid or not, writes at most the \<open>nOutMax\<close> bytes for
  which it asked.\<close>

theorem base64_bounds:
  assumes "length z < 2 ^ 63"
  shows "(\<forall>n. b64_out_size (of_nat (length z)) = Some n \<longrightarrow> length (b64_encode_loop z 0) = unat n) \<and>
   (\<forall>out. b64_decode_loop z [] 0 = Inr out \<longrightarrow> length out \<le> unat (b64_out_max (of_nat (length z))))"
proof (intro conjI allI impI)
  show "length (b64_encode_loop z 0) = unat n" if "b64_out_size (of_nat (length z)) = Some n" for n
    using encode_size [OF that] assms by simp
  show "length out \<le> unat (b64_out_max (of_nat (length z)))" if "b64_decode_loop z [] 0 = Inr out" for out
    using decode_length [OF _ that] out_max_exact [OF assms] by simp
qed

lemmas encode_eval = th8Base64Encode_def b64_out_size_def SAFE_ADD_SIZE_def SAFE_MUL_SIZE_def b64_group_def
  th8B64Enc_def triple_eq and_low_nat drop_bit_eq_div Th8_SafeAllocStr_def checked_alloc_def Th8_SafeAlloc_def
  th8MallocCommon_def over_limit_def fresh_mem_def Let_def b64_out_max_def

theorem base64_roundtrip_witness:
  "let m = fresh_mem \<lparr>xFree = True, xMemorySize = True, xNeedMemory = False, xPanic = False\<rparr> 0;
       env = \<lparr>first = Some (1, 16), cached = [], second = None\<rparr>
   in fst (th8Base64Encode env ''Th8!'' m) = Some ''VGg4IQ=='' \<and>
      fst (th8Base64Decode env ''VGg4IQ=='' False m) = Inr ''Th8!''"
proof -
  let ?m = "fresh_mem \<lparr>xFree = True, xMemorySize = True, xNeedMemory = False, xPanic = False\<rparr> 0"
  let ?env = "\<lparr>first = Some (1, 16), cached = [], second = None\<rparr>"
  have e: "fst (th8Base64Encode ?env ''Th8!'' ?m) = Some ''VGg4IQ==''" by (simp add: encode_eval)
  have "\<exists>m'. Th8_SafeAllocStr ?env (b64_out_max (of_nat (length ''VGg4IQ==''))) ?m = (Block 1, m')"
    by (simp add: encode_eval)
  with base64_roundtrip [OF e] have "fst (th8Base64Decode ?env ''VGg4IQ=='' False ?m) = Inr ''Th8!''" by auto
  with e show ?thesis by (simp add: Let_def)
qed

theorem base64_bounds_witness:
  "b64_out_size 4 = Some 8 \<and> length (b64_encode_loop ''Th8!'' 0) = 8 \<and>
   b64_decode_loop ''QUJD'' [] 0 = Inr ''ABC'' \<and> length ''ABC'' \<le> unat (b64_out_max 4)"
proof -
  have "b64_out_size 4 = Some 8" by (simp add: encode_eval)
  moreover have "b64_encode_loop ''ABC'' 0 = ''QUJD''" by (simp add: encode_eval)
  with decode_encode_loop [of "''ABC''" 0] have "b64_decode_loop ''QUJD'' [] 0 = Inr ''ABC''" by simp
  ultimately show ?thesis
    using base64_bounds [of "''Th8!''", THEN conjunct1] base64_bounds [of "''QUJD''", THEN conjunct2]
    by (simp del: b64_encode_loop.simps b64_decode_loop.simps)
qed

end
