(* ===== verification/Th8_Cancel.thy ===== *)
theory Th8_Cancel
  imports Th8_Alloc
begin

text \<open>
  Cancellation, suspension and exit requests (\<open>src/src/th8_core.c\<close>): the atomic request word and the
  cross-thread message slot, publishing, adopting and clearing a request, saving it around a \<open>finally\<close>
  block, and the sticky suspend and exit flags.

  \<open>cancel\<close> holds the fields of \<open>Th8_Interp\<close> involved. \<open>nCancelReq\<close>, \<open>nCancelReqMsg\<close>, \<open>bSuspended\<close> and
  \<open>bExit\<close> are shared between threads; \<open>cancelFlags\<close>, the message and the result belong to the owning
  thread. \<open>xbufs\<close> holds the message buffers that publishers obtained from the raw platform allocator and
  nobody has freed. A message pointer with its length is a string option.

  Two views are given. The functions with the names of the source are the effect of a call that no other
  thread interrupts: their compare-and-exchange loops then succeed at the first try. The machine \<open>cstep\<close>
  splits the same calls at every atomic operation and interleaves any number of threads; there a
  compare-and-exchange fails when the word has changed since it was read, and the loop goes round.

  The theorems: in every interleaving each message buffer has exactly one owner, so it is freed once, never
  used afterwards and never leaked; a published request stays set until it is cleared; and the message and
  flags that a \<open>finally\<close> block sets aside come back unless a new request arrived meanwhile.
\<close>

section \<open>State\<close>

abbreviation TH8_CANCEL_UNWIND :: "32 word" where "TH8_CANCEL_UNWIND \<equiv> 1"
abbreviation TH8_CANCEL_SIGNAL :: "32 word" where "TH8_CANCEL_SIGNAL \<equiv> 2"
abbreviation TH8_CANCEL_FLAG_MASK :: "32 word" where "TH8_CANCEL_FLAG_MASK \<equiv> 3"
abbreviation TH8_CR_CANCELED :: "32 word" where "TH8_CR_CANCELED \<equiv> 0x100"

record cancel =
  nCancelReq :: "32 word"
  nCancelReqMsg :: "addr option"
  xbufs :: "addr \<rightharpoonup> string"
  cancelFlags :: "32 word"
  zCancelMsg :: "string option"
  bCancelMsgOwned :: bool
  bSuspended :: "32 word"
  bExit :: "32 word"
  zResult :: string

section \<open>The request word and the message slot\<close>

definition th8CheckCancel :: "'a cancel_scheme \<Rightarrow> bool" where
  "th8CheckCancel s \<longleftrightarrow> nCancelReq s AND TH8_CR_CANCELED \<noteq> 0"

definition th8CancelReqOr :: "32 word \<Rightarrow> 'a cancel_scheme \<Rightarrow> 'a cancel_scheme" where
  "th8CancelReqOr bits s = s\<lparr>nCancelReq := nCancelReq s OR bits\<rparr>"

definition th8CancelMsgXchg :: "addr option \<Rightarrow> 'a cancel_scheme \<Rightarrow> addr option \<times> 'a cancel_scheme" where
  "th8CancelMsgXchg newVal s = (nCancelReqMsg s, s\<lparr>nCancelReqMsg := newVal\<rparr>)"

text \<open>The platform's answer is the address of the new buffer, or nothing.\<close>

definition th8CancelMsgBuild :: "addr option \<Rightarrow> string \<Rightarrow> 'a cancel_scheme \<Rightarrow> addr option \<times> 'a cancel_scheme" where
  "th8CancelMsgBuild ans zMsg s =
     (if length zMsg + 9 \<ge> 2 ^ 64 then (None, s)
      else case ans of None \<Rightarrow> (None, s) | Some a \<Rightarrow> (Some a, s\<lparr>xbufs := (xbufs s)(a \<mapsto> zMsg)\<rparr>))"

definition th8CancelMsgFree :: "addr option \<Rightarrow> 'a cancel_scheme \<Rightarrow> 'a cancel_scheme" where
  "th8CancelMsgFree p s = (case p of None \<Rightarrow> s | Some a \<Rightarrow> s\<lparr>xbufs := (xbufs s)(a := None)\<rparr>)"

definition th8CancelReqPublish ::
    "addr option \<Rightarrow> string option \<Rightarrow> 32 word \<Rightarrow> 'a cancel_scheme \<Rightarrow> 'a cancel_scheme" where
  "th8CancelReqPublish ans zMsg flags s =
     (let s = (case zMsg of
                 None \<Rightarrow> s
               | Some msg \<Rightarrow>
                   if msg = [] then s
                   else (case th8CancelMsgBuild ans msg s of
                           (None, s) \<Rightarrow> s
                         | (Some a, s) \<Rightarrow>
                             (case th8CancelMsgXchg (Some a) s of (pOld, s) \<Rightarrow> th8CancelMsgFree pOld s)))
      in th8CancelReqOr (TH8_CR_CANCELED OR (flags AND TH8_CANCEL_FLAG_MASK)) s)"

text \<open>\<open>ok\<close> says whether the owner's copy of the message can be allocated.\<close>

definition adopt_message :: "bool \<Rightarrow> addr option \<Rightarrow> 'a cancel_scheme \<Rightarrow> 'a cancel_scheme" where
  "adopt_message ok pBuf s =
     (case pBuf of
        None \<Rightarrow> s
      | Some a \<Rightarrow>
          (if zCancelMsg s = None \<and> ok then s\<lparr>zCancelMsg := xbufs s a, bCancelMsgOwned := True\<rparr> else s))"

definition th8CancelReqAdopt :: "bool \<Rightarrow> 'a cancel_scheme \<Rightarrow> 'a cancel_scheme" where
  "th8CancelReqAdopt ok s =
     (if \<not> th8CheckCancel s then s
      else
        (let s = s\<lparr>cancelFlags := cancelFlags s OR (nCancelReq s AND TH8_CANCEL_FLAG_MASK)\<rparr>
         in case th8CancelMsgXchg None s of
              (pBuf, s) \<Rightarrow> th8CancelMsgFree pBuf (adopt_message ok pBuf s)))"

definition th8CancelReqClear :: "'a cancel_scheme \<Rightarrow> 'a cancel_scheme" where
  "th8CancelReqClear s =
     (case th8CancelMsgXchg None (s\<lparr>nCancelReq := 0\<rparr>) of (pBuf, s) \<Rightarrow> th8CancelMsgFree pBuf s)"

section \<open>The interface of the evaluator\<close>

definition Th8_CancelEval ::
    "addr option \<Rightarrow> bool \<Rightarrow> bool \<Rightarrow> string option \<Rightarrow> 32 word \<Rightarrow> 'a cancel_scheme \<Rightarrow> int \<times> 'a cancel_scheme" where
  "Th8_CancelEval ans ok bOwner zMsg flags s =
     (if flags AND TH8_CANCEL_SIGNAL \<noteq> 0 then (TH8_OK, th8CancelReqPublish ans None flags s)
      else if \<not> bOwner then (TH8_OK, th8CancelReqPublish ans zMsg flags s)
      else
        (let s = s\<lparr>cancelFlags := cancelFlags s OR (flags AND TH8_CANCEL_FLAG_MASK)\<rparr>;
             s = (case zMsg of
                    None \<Rightarrow> s
                  | Some msg \<Rightarrow>
                      (let s = (if bCancelMsgOwned s then s\<lparr>zCancelMsg := None, bCancelMsgOwned := False\<rparr> else s)
                       in if ok then s\<lparr>zCancelMsg := Some msg, bCancelMsgOwned := True\<rparr>
                          else s\<lparr>zCancelMsg := None\<rparr>))
         in (TH8_OK, th8CancelReqOr (TH8_CR_CANCELED OR (flags AND TH8_CANCEL_FLAG_MASK)) s)))"

definition th8ClearCancel :: "'a cancel_scheme \<Rightarrow> 'a cancel_scheme" where
  "th8ClearCancel s =
     (if th8CheckCancel s
      then th8CancelReqClear (s\<lparr>cancelFlags := 0, zCancelMsg := None, bCancelMsgOwned := False\<rparr>)
      else s)"

definition Th8_ResetCancel :: "'a cancel_scheme \<Rightarrow> 'a cancel_scheme" where
  "Th8_ResetCancel s = th8ClearCancel s"

definition th8AdoptCancelRequest :: "bool \<Rightarrow> 'a cancel_scheme \<Rightarrow> 'a cancel_scheme" where
  "th8AdoptCancelRequest ok s = th8CancelReqAdopt ok s"

definition Th8_IsCanceled :: "bool \<Rightarrow> 'a cancel_scheme \<Rightarrow> int \<times> 'a cancel_scheme" where
  "Th8_IsCanceled ok s =
     (if th8CheckCancel s then
        (let s = th8AdoptCancelRequest ok s
         in (TH8_ERROR,
             s\<lparr>zResult := (case zCancelMsg s of
                             Some msg \<Rightarrow> msg
                           | None \<Rightarrow>
                               if cancelFlags s AND TH8_CANCEL_SIGNAL \<noteq> 0 then ''eval canceled via signal''
                               else ''eval canceled'')\<rparr>))
      else (TH8_OK, s))"

definition Th8_IsBeingUnwound :: "bool \<Rightarrow> 'a cancel_scheme \<Rightarrow> bool \<times> 'a cancel_scheme" where
  "Th8_IsBeingUnwound ok s =
     (let s = (if th8CheckCancel s then th8AdoptCancelRequest ok s else s)
      in (th8CheckCancel s \<and> cancelFlags s AND TH8_CANCEL_UNWIND \<noteq> 0, s))"

section \<open>Around a finally block\<close>

record cancel_save =
  sv_bCanceled :: "32 word"
  sv_cancelFlags :: "32 word"
  sv_bCancelMsgOwned :: bool
  sv_zCancelMsg :: "string option"

definition th8SaveCancel :: "bool \<Rightarrow> 'a cancel_scheme \<Rightarrow> cancel_save \<times> 'a cancel_scheme" where
  "th8SaveCancel ok s =
     (let s = th8CancelReqAdopt ok s
      in (\<lparr>sv_bCanceled = nCancelReq s, sv_cancelFlags = cancelFlags s,
           sv_bCancelMsgOwned = bCancelMsgOwned s, sv_zCancelMsg = zCancelMsg s\<rparr>,
          s\<lparr>nCancelReq := 0, cancelFlags := 0, bCancelMsgOwned := False, zCancelMsg := None\<rparr>))"

definition th8RestoreCancel :: "cancel_save \<Rightarrow> 'a cancel_scheme \<Rightarrow> 'a cancel_scheme" where
  "th8RestoreCancel sv s =
     (if th8CheckCancel s then s
      else
        (let s = th8CancelReqOr (sv_bCanceled sv) s
         in s\<lparr>cancelFlags := sv_cancelFlags sv, bCancelMsgOwned := sv_bCancelMsgOwned sv,
              zCancelMsg := sv_zCancelMsg sv\<rparr>))"

section \<open>Suspension and exit\<close>

definition int_cmp_xchg :: "32 word \<Rightarrow> 32 word \<Rightarrow> 32 word \<Rightarrow> 32 word" where
  "int_cmp_xchg cur newVal old = (if cur = old then newVal else cur)"

definition Th8_Freeze :: "'a cancel_scheme \<Rightarrow> int \<times> 'a cancel_scheme" where
  "Th8_Freeze s = (TH8_OK, s\<lparr>bSuspended := int_cmp_xchg (bSuspended s) 1 0\<rparr>)"

definition Th8_IsSuspended :: "'a cancel_scheme \<Rightarrow> bool" where
  "Th8_IsSuspended s \<longleftrightarrow> bSuspended s \<noteq> 0"

definition Th8_Exit :: "'a cancel_scheme \<Rightarrow> 'a cancel_scheme" where
  "Th8_Exit s = s\<lparr>bExit := int_cmp_xchg (bExit s) 1 0\<rparr>"

definition Th8_IsExited :: "'a cancel_scheme \<Rightarrow> bool" where
  "Th8_IsExited s \<longleftrightarrow> bExit s \<noteq> 0"

definition Th8_ResetExit :: "'a cancel_scheme \<Rightarrow> 'a cancel_scheme" where
  "Th8_ResetExit s = s\<lparr>bExit := int_cmp_xchg (bExit s) 0 1\<rparr>"

section \<open>The calls, one atomic operation at a time\<close>

text \<open>
  The program counter of a thread inside one of the calls. \<open>X_Read\<close> and \<open>X_Cas\<close> are the loop of
  \<open>th8CancelMsgXchg\<close>, \<open>Or_Read\<close> and \<open>Or_Cas\<close> that of \<open>th8CancelReqOr\<close>, \<open>Cl_Read\<close> and \<open>Cl_Cas\<close> that of
  \<open>th8CancelReqClear\<close>. \<open>Took\<close> has exchanged a pointer out and still has to dispose of it; the continuation
  says in which call.
\<close>

datatype cont = Then_Or "32 word" | Then_Adopt | Then_Drop

datatype pc =
    Idle
  | Build "32 word" string
  | X_Read "addr option" cont
  | X_Cas "addr option" "addr option" cont
  | Took "addr option" cont
  | Or_Read "32 word"
  | Or_Cas "32 word" "32 word"
  | Ad_Read
  | Cl_Read
  | Cl_Cas "32 word"

definition request_bits :: "32 word \<Rightarrow> 32 word" where
  "request_bits flags = TH8_CR_CANCELED OR (flags AND TH8_CANCEL_FLAG_MASK)"

text \<open>
  One atomic step of one thread. The argument \<open>ans\<close> is the platform's answer to an allocation (used by
  \<open>Build\<close>), \<open>ok\<close> whether the owner's copy can be allocated.
\<close>

fun thread_step :: "addr option \<Rightarrow> bool \<Rightarrow> pc \<Rightarrow> cancel \<Rightarrow> pc \<times> cancel" where
  "thread_step ans ok Idle s = (Idle, s)"
| "thread_step ans ok (Build flags msg) s =
     (case th8CancelMsgBuild ans msg s of
        (None, s) \<Rightarrow> (Or_Read (request_bits flags), s)
      | (Some a, s) \<Rightarrow> (X_Read (Some a) (Then_Or (request_bits flags)), s))"
| "thread_step ans ok (X_Read newVal k) s = (X_Cas newVal (nCancelReqMsg s) k, s)"
| "thread_step ans ok (X_Cas newVal old k) s =
     (if nCancelReqMsg s = old then (Took old k, s\<lparr>nCancelReqMsg := newVal\<rparr>) else (X_Read newVal k, s))"
| "thread_step ans ok (Took old k) s =
     (case k of
        Then_Or bits \<Rightarrow> (Or_Read bits, th8CancelMsgFree old s)
      | Then_Adopt \<Rightarrow> (Idle, th8CancelMsgFree old (adopt_message ok old s))
      | Then_Drop \<Rightarrow> (Idle, th8CancelMsgFree old s))"
| "thread_step ans ok (Or_Read bits) s = (Or_Cas bits (nCancelReq s), s)"
| "thread_step ans ok (Or_Cas bits old) s =
     (if nCancelReq s = old then (Idle, s\<lparr>nCancelReq := old OR bits\<rparr>) else (Or_Read bits, s))"
| "thread_step ans ok Ad_Read s =
     (if th8CheckCancel s
      then (X_Read None Then_Adopt, s\<lparr>cancelFlags := cancelFlags s OR (nCancelReq s AND TH8_CANCEL_FLAG_MASK)\<rparr>)
      else (Idle, s))"
| "thread_step ans ok Cl_Read s = (Cl_Cas (nCancelReq s), s)"
| "thread_step ans ok (Cl_Cas old) s =
     (if nCancelReq s = old then (X_Read None Then_Drop, s\<lparr>nCancelReq := 0\<rparr>) else (Cl_Read, s))"

text \<open>
  Any thread may publish; only the owner (thread 0) adopts and clears. A new buffer is fresh.
\<close>

inductive cstep :: "(nat \<Rightarrow> pc) \<times> cancel \<Rightarrow> (nat \<Rightarrow> pc) \<times> cancel \<Rightarrow> bool" where
  publish: "pcs t = Idle \<Longrightarrow> msg \<noteq> [] \<Longrightarrow> cstep (pcs, s) (pcs(t := Build flags msg), s)"
| publish_bare: "pcs t = Idle \<Longrightarrow> cstep (pcs, s) (pcs(t := Or_Read (request_bits flags)), s)"
| adopt: "pcs 0 = Idle \<Longrightarrow> cstep (pcs, s) (pcs(0 := Ad_Read), s)"
| clear: "pcs 0 = Idle \<Longrightarrow>
    cstep (pcs, s) (pcs(0 := Cl_Read), s\<lparr>cancelFlags := 0, zCancelMsg := None, bCancelMsgOwned := False\<rparr>)"
| move: "(\<And>a. ans = Some a \<Longrightarrow> a \<notin> dom (xbufs s)) \<Longrightarrow> thread_step ans ok (pcs t) s = (p, s') \<Longrightarrow>
    cstep (pcs, s) (pcs(t := p), s')"

inductive_cases cstep_elim: "cstep (pcs, s) (pcs', s')"

section \<open>Every buffer has one owner\<close>

fun held :: "pc \<Rightarrow> addr option" where
  "held (X_Read newVal k) = newVal"
| "held (X_Cas newVal old k) = newVal"
| "held (Took old k) = old"
| "held _ = None"

definition owned_once :: "(nat \<Rightarrow> pc) \<times> cancel \<Rightarrow> bool" where
  "owned_once c \<longleftrightarrow>
     (\<forall>a. a \<in> dom (xbufs (snd c)) \<longleftrightarrow> nCancelReqMsg (snd c) = Some a \<or> (\<exists>t. held (fst c t) = Some a)) \<and>
     (\<forall>t u a. held (fst c t) = Some a \<longrightarrow> held (fst c u) = Some a \<longrightarrow> t = u) \<and>
     (\<forall>t a. held (fst c t) = Some a \<longrightarrow> nCancelReqMsg (snd c) \<noteq> Some a)"

text \<open>Moving one thread: what it holds, what the slot holds and which buffers exist change together.\<close>

lemma owned_onceI:
  assumes inv: "owned_once (pcs, s)"
    and "nCancelReqMsg s' = nCancelReqMsg s" "dom (xbufs s') = dom (xbufs s)" "held p = held (pcs t)"
  shows "owned_once (pcs(t := p), s')"
  using assms unfolding owned_once_def by (auto split: if_splits)

lemma owned_once_build:
  assumes "owned_once (pcs, s)" "held (pcs t) = None" "a \<notin> dom (xbufs s)"
    and "nCancelReqMsg s' = nCancelReqMsg s" "dom (xbufs s') = insert a (dom (xbufs s))" "held p = Some a"
  shows "owned_once (pcs(t := p), s')"
proof -
  have h: "(\<exists>u. held ((pcs(t := p)) u) = Some b) \<longleftrightarrow> b = a \<or> (\<exists>u. held (pcs u) = Some b)" for b
    using assms(2,6) by (metis fun_upd_apply option.distinct(1) option.inject)
  have "\<And>u. held (pcs u) \<noteq> Some a" "nCancelReqMsg s \<noteq> Some a"
    using assms(1,3) unfolding owned_once_def by auto
  with assms show ?thesis unfolding owned_once_def fst_conv snd_conv h by (auto split: if_splits)
qed

lemma owned_once_swap:
  assumes "owned_once (pcs, s)" "nCancelReqMsg s' = held (pcs t)" "xbufs s' = xbufs s" "held p = nCancelReqMsg s"
  shows "owned_once (pcs(t := p), s')"
  using assms unfolding owned_once_def by (auto split: if_splits)

lemma owned_once_free:
  assumes "owned_once (pcs, s)" "held p = None"
    and "nCancelReqMsg s' = nCancelReqMsg s" "dom (xbufs s') = dom (xbufs s) - set_option (held (pcs t))"
  shows "owned_once (pcs(t := p), s')"
  using assms unfolding owned_once_def by (auto split: if_splits)

lemma msg_free_fields [simp]:
  "nCancelReqMsg (th8CancelMsgFree q s) = nCancelReqMsg s" "nCancelReq (th8CancelMsgFree q s) = nCancelReq s"
  "dom (xbufs (th8CancelMsgFree q s)) = dom (xbufs s) - set_option q"
  by (auto simp: th8CancelMsgFree_def split: option.splits if_splits)

lemma adopt_message_fields [simp]:
  "nCancelReqMsg (adopt_message ok q s) = nCancelReqMsg s" "nCancelReq (adopt_message ok q s) = nCancelReq s"
  "xbufs (adopt_message ok q s) = xbufs s"
  by (auto simp: adopt_message_def split: option.splits)

lemma thread_step_owned:
  assumes inv: "owned_once (pcs, s)" and fresh: "\<And>a. ans = Some a \<Longrightarrow> a \<notin> dom (xbufs s)"
    and step: "thread_step ans ok (pcs t) s = (p, s')"
  shows "owned_once (pcs(t := p), s')"
proof (cases "pcs t")
  case (Build flags msg)
  show ?thesis
  proof (cases "th8CancelMsgBuild ans msg s")
    case (Pair q s1)
    show ?thesis
    proof (cases q)
      case None
      with Pair have "s1 = s" by (auto simp: th8CancelMsgBuild_def split: option.splits if_splits)
      with step Build Pair None show ?thesis by (intro owned_onceI [OF inv]) auto
    next
      case (Some a)
      with Pair have "ans = Some a" "s1 = s\<lparr>xbufs := (xbufs s)(a \<mapsto> msg)\<rparr>"
        by (auto simp: th8CancelMsgBuild_def split: option.splits if_splits)
      with step Build Pair Some fresh show ?thesis by (intro owned_once_build [OF inv]) auto
    qed
  qed
next
  case (X_Cas newVal old k)
  show ?thesis
  proof (cases "nCancelReqMsg s = old")
    case True
    with X_Cas step show ?thesis by (intro owned_once_swap [OF inv]) auto
  next
    case False
    with X_Cas step show ?thesis by (intro owned_onceI [OF inv]) auto
  qed
next
  case (Took old k)
  with step have "held p = None \<and> nCancelReqMsg s' = nCancelReqMsg s \<and>
      dom (xbufs s') = dom (xbufs s) - set_option (held (pcs t))"
    by (cases k) clarsimp+
  then show ?thesis by (intro owned_once_free [OF inv]) simp_all
qed (use step in \<open>auto intro!: owned_onceI [OF inv] split: if_splits\<close>)

lemma cstep_owned:
  assumes "cstep c c'" "owned_once c"
  shows "owned_once c'"
  using assms
proof (induction rule: cstep.induct)
  case (move ans s ok pcs t p s')
  then show ?case using thread_step_owned by blast
qed (auto intro!: owned_onceI)

lemma cstep_reach_owned: "cstep\<^sup>*\<^sup>* c c' \<Longrightarrow> owned_once c \<Longrightarrow> owned_once c'"
  by (induction rule: rtranclp_induct) (auto intro: cstep_owned)

section \<open>Requests are not lost\<close>

definition no_clear :: "(nat \<Rightarrow> pc) \<times> cancel \<Rightarrow> (nat \<Rightarrow> pc) \<times> cancel \<Rightarrow> bool" where
  "no_clear c c' \<longleftrightarrow> cstep c c' \<and> (\<forall>t old. fst c t \<noteq> Cl_Cas old)"

lemma msg_build_req [simp]: "nCancelReq (snd (th8CancelMsgBuild ans msg s)) = nCancelReq s"
  by (simp add: th8CancelMsgBuild_def split: option.split)

lemma thread_step_bits:
  assumes "thread_step ans ok pc s = (p, s')" "\<forall>old. pc \<noteq> Cl_Cas old"
  shows "bits AND nCancelReq s = bits \<Longrightarrow> bits AND nCancelReq s' = bits"
  using assms
proof (induction ans ok pc s rule: thread_step.induct)
  case (2 ans ok flags msg s)
  then show ?case using msg_build_req [of ans msg s]
    by (cases "th8CancelMsgBuild ans msg s") (auto split: option.splits)
next
  case (7 ans ok b old s)
  have "bits AND (w OR b) = bits" if "bits AND w = bits" for w
    using that by (simp add: word_ao_dist2 word_ao_absorbs)
  with 7 show ?case by (auto split: if_splits)
qed (auto split: if_splits cont.splits)

lemma cstep_bits:
  assumes "cstep c c'" "\<forall>t old. fst c t \<noteq> Cl_Cas old" "bits AND nCancelReq (snd c) = bits"
  shows "bits AND nCancelReq (snd c') = bits"
  using assms by (induction rule: cstep.induct) (auto dest: thread_step_bits)

lemma no_clear_bits:
  "no_clear\<^sup>*\<^sup>* c c' \<Longrightarrow> bits AND nCancelReq (snd c) = bits \<Longrightarrow> bits AND nCancelReq (snd c') = bits"
  by (induction rule: rtranclp_induct) (auto simp: no_clear_def dest: cstep_bits)

text \<open>A publisher returns only through a successful exchange of the request word.\<close>

lemma publisher_done:
  assumes "cstep c c'" "fst c t = Or_Cas bits old" "fst c' t = Idle"
  shows "nCancelReq (snd c') = nCancelReq (snd c) OR bits"
  using assms
proof (induction rule: cstep.induct)
  case (move ans s ok pcs u p s')
  then show ?case by (cases "u = t") (auto split: if_splits)
qed (auto split: if_splits)

section \<open>Calls that run alone\<close>

definition solo :: "addr option \<Rightarrow> bool \<Rightarrow> pc \<times> cancel \<Rightarrow> pc \<times> cancel" where
  "solo ans ok c = thread_step ans ok (fst c) (snd c)"

lemma solo_Idle [simp]: "(solo ans ok ^^ n) (Idle, s) = (Idle, s)"
  by (induction n) (simp_all add: solo_def)

lemmas solo_simps = numeral_eq_Suc solo_def split_def

section \<open>Properties\<close>

definition cancel_init :: cancel where
  "cancel_init = \<lparr>nCancelReq = 0, nCancelReqMsg = None, xbufs = Map.empty, cancelFlags = 0, zCancelMsg = None,
     bCancelMsgOwned = False, bSuspended = 0, bExit = 0, zResult = []\<rparr>"

text \<open>C11: Cross-thread cancel messages are memory safe. In every interleaving of any number of publishing threads with
  the owner's adopting and clearing calls, a thread that is about to read or free a message buffer is its only
  owner and the buffer is still allocated (no double free, no use after free); and when no call is in
  progress the only allocated buffer is the one in the slot (no leak).\<close>

theorem cancel_buffers_safe:
  assumes "cstep\<^sup>*\<^sup>* (\<lambda>_. Idle, cancel_init) (pcs, s)"
  shows "(\<forall>t a k. pcs t = Took (Some a) k \<longrightarrow>
      a \<in> dom (xbufs s) \<and> nCancelReqMsg s \<noteq> Some a \<and> (\<forall>u. u \<noteq> t \<longrightarrow> held (pcs u) \<noteq> Some a)) \<and>
    ((\<forall>t. pcs t = Idle) \<longrightarrow> dom (xbufs s) = set_option (nCancelReqMsg s))"
proof -
  have "owned_once (\<lambda>_. Idle, cancel_init)" by (simp add: owned_once_def cancel_init_def)
  with assms have inv: "owned_once (pcs, s)" by (rule cstep_reach_owned)
  have "a \<in> dom (xbufs s) \<and> nCancelReqMsg s \<noteq> Some a \<and> (\<forall>u. u \<noteq> t \<longrightarrow> held (pcs u) \<noteq> Some a)"
    if "pcs t = Took (Some a) k" for t a k
    using inv that unfolding owned_once_def by (metis fst_conv snd_conv held.simps(3))
  moreover have "dom (xbufs s) = set_option (nCancelReqMsg s)" if "\<forall>t. pcs t = Idle"
    using inv that unfolding owned_once_def by (auto simp: set_eq_iff)
  ultimately show ?thesis by blast
qed

text \<open>C12: A published cancellation is not lost. Once a publisher's call returns, the canceled bit and its flag bits are
  in the request word, and they stay there through every interleaving until the owner clears the word.\<close>

theorem cancel_not_lost:
  assumes "cstep c c'" "fst c t = Or_Cas (request_bits flags) old" "fst c' t = Idle" "no_clear\<^sup>*\<^sup>* c' c''"
  shows "request_bits flags AND nCancelReq (snd c'') = request_bits flags \<and> th8CheckCancel (snd c'')"
proof -
  have "request_bits flags AND nCancelReq (snd c') = request_bits flags"
    using publisher_done [OF assms(1-3)] by (simp add: word_ao_absorbs)
  with assms(4) have w: "request_bits flags AND nCancelReq (snd c'') = request_bits flags" by (rule no_clear_bits)
  have "bit (request_bits flags) 8" by (simp add: request_bits_def bit_simps)
  then have "bit (nCancelReq (snd c'')) 8" using w by (metis bit_and_iff)
  then have "bit (nCancelReq (snd c'') AND TH8_CR_CANCELED) 8" by (simp add: bit_simps)
  then have "th8CheckCancel (snd c'')" unfolding th8CheckCancel_def by (metis bit_0_eq bot_apply bot_bool_def)
  with w show ?thesis by blast
qed

text \<open>C13: No call blocks. From any point of any of the calls, whatever the other threads did before, a thread that is
  then left alone returns within seven atomic steps: the retry loops hold no lock.\<close>

theorem cancel_calls_return: "fst ((solo ans ok ^^ 7) (p, s)) = Idle"
proof (cases p)
  case (Build flags msg)
  then show ?thesis by (cases "th8CancelMsgBuild ans msg s") (auto simp: solo_simps split: option.split)
next
  case (X_Cas newVal old k)
  then show ?thesis by (cases k) (auto simp: solo_simps)
next
  case (X_Read newVal k)
  then show ?thesis by (cases k) (auto simp: solo_simps)
next
  case (Took old k)
  then show ?thesis by (cases k) (auto simp: solo_simps)
qed (auto simp: solo_simps)

theorem cancel_buffers_safe_witness:
  "let pcs = (\<lambda>_. Idle)(1 := Or_Read (request_bits 1));
       s = cancel_init
   in cstep\<^sup>*\<^sup>* (\<lambda>_. Idle, cancel_init) (pcs, s) \<and>
      (\<forall>t a k. pcs t = Took (Some a) k \<longrightarrow>
        a \<in> dom (xbufs s) \<and> nCancelReqMsg s \<noteq> Some a \<and> (\<forall>u. u \<noteq> t \<longrightarrow> held (pcs u) \<noteq> Some a))"
proof -
  have "cstep (\<lambda>_. Idle, cancel_init) ((\<lambda>_. Idle)(1 := Or_Read (request_bits 1)), cancel_init)"
    by (rule cstep.publish_bare) simp
  then have "cstep\<^sup>*\<^sup>* (\<lambda>_. Idle, cancel_init) ((\<lambda>_. Idle)(1 := Or_Read (request_bits 1)), cancel_init)" by blast
  with cancel_buffers_safe [OF this] show ?thesis by (simp add: Let_def)
qed

theorem cancel_not_lost_witness:
  "let c' = ((\<lambda>_. Idle) :: nat \<Rightarrow> pc, cancel_init\<lparr>nCancelReq := request_bits 1\<rparr>)
   in request_bits 1 AND nCancelReq (snd c') = request_bits 1 \<and> th8CheckCancel (snd c')"
proof -
  let ?c = "((\<lambda>_. Idle)(1 := Or_Cas (request_bits 1) 0), cancel_init)"
  let ?c' = "(((\<lambda>_. Idle)(1 := Or_Cas (request_bits 1) 0))(1 := Idle), cancel_init\<lparr>nCancelReq := request_bits 1\<rparr>)"
  have "cstep ?c ?c'"
    by (rule cstep.move [of None _ True]) (simp_all add: cancel_init_def)
  from cancel_not_lost [OF this, of 1 1 0, OF _ _ rtranclp.rtrancl_refl] show ?thesis by (simp add: Let_def)
qed

text \<open>C14: The calls are atomic when nothing interferes. Run to completion without interruption, the step-by-step
  programs of publishing (with and without a message), adopting and clearing have exactly the effect of
  \<open>th8CancelReqPublish\<close>, \<open>th8CancelReqAdopt\<close> and \<open>th8CancelReqClear\<close>.\<close>

theorem cancel_calls_refine:
  "(msg \<noteq> [] \<longrightarrow> (solo ans ok ^^ 7) (Build flags msg, s) = (Idle, th8CancelReqPublish ans (Some msg) flags s)) \<and>
   (solo ans ok ^^ 7) (Or_Read (request_bits flags), s) = (Idle, th8CancelReqPublish ans None flags s) \<and>
   (solo ans ok ^^ 7) (Ad_Read, s) = (Idle, th8CancelReqAdopt ok s) \<and>
   (solo ans ok ^^ 7) (Cl_Read, s) = (Idle, th8CancelReqClear s)"
proof (intro conjI impI)
  show "(solo ans ok ^^ 7) (Build flags msg, s) = (Idle, th8CancelReqPublish ans (Some msg) flags s)" if "msg \<noteq> []"
    using that by (cases "th8CancelMsgBuild ans msg s")
      (auto simp: solo_simps th8CancelReqPublish_def th8CancelReqOr_def th8CancelMsgXchg_def request_bits_def
        Let_def split: option.split)
  show "(solo ans ok ^^ 7) (Or_Read (request_bits flags), s) = (Idle, th8CancelReqPublish ans None flags s)"
    by (simp add: solo_simps th8CancelReqPublish_def th8CancelReqOr_def request_bits_def)
  show "(solo ans ok ^^ 7) (Ad_Read, s) = (Idle, th8CancelReqAdopt ok s)"
    by (simp add: solo_simps th8CancelReqAdopt_def th8CancelMsgXchg_def Let_def)
  show "(solo ans ok ^^ 7) (Cl_Read, s) = (Idle, th8CancelReqClear s)"
    by (simp add: solo_simps th8CancelReqClear_def th8CancelMsgXchg_def)
qed

theorem cancel_calls_refine_witness:
  "(solo (Some 5) True ^^ 7) (Build 1 ''stop'', cancel_init) =
     (Idle, th8CancelReqPublish (Some 5) (Some ''stop'') 1 cancel_init)"
  using cancel_calls_refine [of "''stop''" "Some 5" True 1 cancel_init] by blast

text \<open>A finally block sees no cancellation, and gives it back. Saving leaves the interpreter not canceled; restoring
  right away gives exactly the state in which the pending request was adopted; restoring after a new request
  arrived keeps that request and its state unchanged.\<close>

theorem finally_cancel_roundtrip:
  fixes ok :: bool and s :: "'a cancel_scheme"
  defines "r \<equiv> th8SaveCancel ok s"
  shows "\<not> th8CheckCancel (snd r) \<and> th8RestoreCancel (fst r) (snd r) = th8CancelReqAdopt ok s \<and>
    (th8CheckCancel (s' :: 'a cancel_scheme) \<longrightarrow> th8RestoreCancel (fst r) s' = s')"
  by (simp add: r_def th8SaveCancel_def th8RestoreCancel_def th8CheckCancel_def th8CancelReqOr_def Let_def)

theorem finally_cancel_roundtrip_witness:
  "let s' = snd (Th8_CancelEval None True True (Some ''again'') 1 cancel_init);
       s = snd (Th8_CancelEval (Some 3) True False (Some ''stop'') 0 cancel_init)
   in th8CheckCancel s' \<and> th8RestoreCancel (fst (th8SaveCancel True s)) s' = s'"
proof -
  let ?s' = "snd (Th8_CancelEval None True True (Some ''again'') 1 cancel_init)"
  have "th8CheckCancel ?s'"
    by (simp add: Th8_CancelEval_def th8CheckCancel_def th8CancelReqOr_def cancel_init_def Let_def)
  with finally_cancel_roundtrip [of True "snd (Th8_CancelEval (Some 3) True False (Some ''stop'') 0 cancel_init)" ?s']
  show ?thesis by (simp add: Let_def)
qed

text \<open>What the owner reports. After a request published by another thread on an idle interpreter, the next poll fails
  with the caller's message (when a foreign, non-signal caller gave a nonempty one and both copies could be
  allocated), with the fixed text for a signal, and with the default text otherwise; and unwinding is requested
  exactly when the caller asked for it.\<close>

lemma cancel_delivery:
  assumes "nCancelReq s = 0" "nCancelReqMsg s = None" "cancelFlags s = 0" "zCancelMsg s = None"
    and "length (the zMsg) + 9 < 2 ^ 64"
    and s1: "s1 = snd (Th8_CancelEval (Some a) True False zMsg flags s)"
  shows "fst (Th8_IsCanceled True s1) = TH8_ERROR \<and>
    zResult (snd (Th8_IsCanceled True s1)) =
      (if flags AND TH8_CANCEL_SIGNAL \<noteq> 0 then ''eval canceled via signal''
       else case zMsg of Some (c # cs) \<Rightarrow> c # cs | _ \<Rightarrow> ''eval canceled'') \<and>
    fst (Th8_IsBeingUnwound True s1) = (flags AND TH8_CANCEL_UNWIND \<noteq> 0)"
proof -
  have m: "(0x100 OR flags AND 3) AND 3 = flags AND 3" "(0x100 OR flags AND 3) AND 0x100 = 0x100"
    "(flags AND 3) AND 2 = flags AND 2" "(flags AND 3) AND 1 = flags AND 1"
    by (simp_all add: word_ao_dist word_bw_assocs)
  note defs = s1 Th8_CancelEval_def th8CancelReqPublish_def th8CancelMsgBuild_def th8CancelMsgXchg_def
    th8CancelMsgFree_def th8CancelReqOr_def Th8_IsCanceled_def Th8_IsBeingUnwound_def th8CheckCancel_def
    th8AdoptCancelRequest_def th8CancelReqAdopt_def adopt_message_def Let_def
  show ?thesis
  proof (cases "flags AND TH8_CANCEL_SIGNAL \<noteq> 0")
    case True
    with assms(1-4) show ?thesis by (simp add: defs m)
  next
    case False
    with assms(1-5) show ?thesis by (auto simp: defs m split: option.split list.split)
  qed
qed

lemma cancel_delivery_witness:
  "let s1 = snd (Th8_CancelEval (Some 4) True False (Some ''stop'') 1 cancel_init)
   in fst (Th8_IsCanceled True s1) = TH8_ERROR \<and> zResult (snd (Th8_IsCanceled True s1)) = ''stop'' \<and>
      fst (Th8_IsBeingUnwound True s1)"
  using cancel_delivery [of cancel_init "Some ''stop''" "snd (Th8_CancelEval (Some 4) True False (Some ''stop'') 1 cancel_init)" 4 1]
  by (simp add: cancel_init_def Let_def)

end
