(* ===== verification/Th8_Globbing.thy ===== *)
theory Th8_Globbing
  imports Th8_Prelude
begin

text \<open>
  Glob matching (\<open>src/src/th8_glob.c\<close>): \<open>th8GlobMatch2\<close> and its entry point \<open>Th8_GlobMatch\<close>, which
  \<open>string match\<close>, \<open>lsearch\<close>, \<open>switch -glob\<close> and the \<open>info\<close> commands call.

  The interpreter is passed through: \<open>Some ready\<close> is an interpreter whose \<open>Th8_Ready\<close> is the state
  transformer \<open>ready\<close>, \<open>None\<close> is the NULL interpreter, for which the code does not poll. A pattern is what
  is left of it, so the index pairs of the code are the two remaining strings.

  The specification reads a pattern as a list of items, and says which strings an item list matches. The
  matcher is exactly that specification for patterns with at most fifty stars (trailing ones excepted);
  with an interpreter that stops being ready it can only lose matches, never invent them.
\<close>

section \<open>The matcher\<close>

fun class_scan :: "string \<Rightarrow> char \<Rightarrow> bool \<Rightarrow> bool \<times> string" where
  "class_scan [] c matched = (matched, [])"
| "class_scan [p] c matched =
     (if p = CHR '']'' then (matched, [p]) else (matched \<or> p = c, []))"
| "class_scan [p, q] c matched =
     (if p = CHR '']'' then (matched, [p, q]) else class_scan [q] c (matched \<or> p = c))"
| "class_scan (p # q # r # ps) c matched =
     (if p = CHR '']'' then (matched, p # q # r # ps)
      else if q = CHR ''-'' \<and> r \<noteq> CHR '']''
      then class_scan ps c (matched \<or> (uchar p \<le> uchar c \<and> uchar c \<le> uchar r))
      else class_scan (q # r # ps) c (matched \<or> p = c))"

definition poll_ready :: "('s \<Rightarrow> int \<times> 's) option \<Rightarrow> 's \<Rightarrow> bool \<times> 's" where
  "poll_ready interp s =
     (case interp of None \<Rightarrow> (True, s) | Some Ready \<Rightarrow> (case Ready s of (rc, s') \<Rightarrow> (rc = TH8_OK, s')))"

lemma class_scan_length [th8_bound]: "length (snd (class_scan p c m)) \<le> length p"
  by (induction p c m rule: class_scan.induct) auto

lemma class_rest_shorter:
  "length (snd (class_scan (if b then tl zPat else zPat) ch m)) - Suc 0 < Suc (length zPat)"
  using class_scan_length [of "if b then tl zPat else zPat" ch m] by (auto split: if_splits)

lemma dropWhile_shorter: "length (dropWhile P xs) < Suc (length xs)"
  by (simp add: length_dropWhile_le less_Suc_eq_le)

function (sequential) th8GlobMatch2 ::
    "('s \<Rightarrow> int \<times> 's) option \<Rightarrow> string \<Rightarrow> string \<Rightarrow> nat \<Rightarrow> 's \<Rightarrow> bool \<times> 's"
  and glob_star :: "('s \<Rightarrow> int \<times> 's) option \<Rightarrow> string \<Rightarrow> string \<Rightarrow> nat \<Rightarrow> 's \<Rightarrow> bool \<times> 's"
  and glob_loop :: "('s \<Rightarrow> int \<times> 's) option \<Rightarrow> string \<Rightarrow> string \<Rightarrow> nat \<Rightarrow> 's \<Rightarrow> bool \<times> 's" where
  "th8GlobMatch2 interp zPat zStr depth s =
     (if depth > 50 then (False, s)
      else case poll_ready interp s of
        (False, s) \<Rightarrow> (False, s)
      | (True, s) \<Rightarrow> glob_loop interp zPat zStr depth s)"
| "glob_star interp zPat zStr depth s =
     (case th8GlobMatch2 interp zPat zStr (depth + 1) s of
        (True, s) \<Rightarrow> (True, s)
      | (False, s) \<Rightarrow>
          (case zStr of [] \<Rightarrow> (False, s) | _ # zStr' \<Rightarrow> glob_star interp zPat zStr' depth s))"
| "glob_loop interp [] zStr depth s = (zStr = [], s)"
| "glob_loop interp (c # zPat) zStr depth s =
     (case poll_ready interp s of
        (False, s) \<Rightarrow> (False, s)
      | (True, s) \<Rightarrow>
          if c = CHR ''*'' then
            (let zPat = dropWhile (\<lambda>p. p = CHR ''*'') zPat
             in if zPat = [] then (True, s) else glob_star interp zPat zStr depth s)
          else if c = CHR ''?'' then
            (case zStr of [] \<Rightarrow> (False, s) | _ # zStr \<Rightarrow> glob_loop interp zPat zStr depth s)
          else if c = CHR ''['' then
            (case zStr of
               [] \<Rightarrow> (False, s)
             | ch # zStr \<Rightarrow>
                 (let invert = (zPat \<noteq> [] \<and> hd zPat = CHR ''!'');
                      scan = class_scan (if invert then tl zPat else zPat) ch False
                  in if invert = fst scan then (False, s)
                     else glob_loop interp (drop 1 (snd scan)) zStr depth s))
          else if c = BSL then
            (case zPat of
               [] \<Rightarrow> (False, s)
             | e # zPat \<Rightarrow>
                 (case zStr of
                    [] \<Rightarrow> (False, s)
                  | ch # zStr \<Rightarrow> if e \<noteq> ch then (False, s) else glob_loop interp zPat zStr depth s))
          else
            (case zStr of
               [] \<Rightarrow> (False, s)
             | ch # zStr \<Rightarrow> if c \<noteq> ch then (False, s) else glob_loop interp zPat zStr depth s))"
  by pat_completeness auto

text \<open>
  Matching ends for every pattern and string: each recursion shortens the pattern, or keeps it and shortens
  the string.
\<close>

termination th8GlobMatch2
  by (relation "measures
       [\<lambda>x. case x of Inl (_, p, t, _, _) \<Rightarrow> length p | Inr (Inl (_, p, t, _, _)) \<Rightarrow> length p
          | Inr (Inr (_, p, t, _, _)) \<Rightarrow> length p,
        \<lambda>x. case x of Inl (_, p, t, _, _) \<Rightarrow> length t | Inr (Inl (_, p, t, _, _)) \<Rightarrow> length t
          | Inr (Inr (_, p, t, _, _)) \<Rightarrow> length t,
        \<lambda>x. case x of Inl _ \<Rightarrow> 1 | Inr (Inl _) \<Rightarrow> 2 | Inr (Inr _) \<Rightarrow> 0]")
    (simp_all add: class_rest_shorter dropWhile_shorter)

definition Th8_GlobMatch ::
    "('s \<Rightarrow> int \<times> 's) option \<Rightarrow> string \<Rightarrow> string \<Rightarrow> 's \<Rightarrow> bool \<times> 's" where
  "Th8_GlobMatch interp zPat zStr s = th8GlobMatch2 interp zPat zStr 0 s"

section \<open>Specification\<close>

text \<open>
  A pattern as a list of items. A class is a list of ranges, a single character being a range of one; a
  class that is never closed extends to the end of the pattern; a trailing backslash matches nothing.
\<close>

datatype glob_item = Seq | Any_Char | Class bool "(char \<times> char) list" | Literal char | Stuck

fun class_items :: "string \<Rightarrow> (char \<times> char) list \<times> string" where
  "class_items [] = ([], [])"
| "class_items [p] = (if p = CHR '']'' then ([], [p]) else ([(p, p)], []))"
| "class_items [p, q] =
     (if p = CHR '']'' then ([], [p, q]) else let r = class_items [q] in ((p, p) # fst r, snd r))"
| "class_items (p # q # r # ps) =
     (if p = CHR '']'' then ([], p # q # r # ps)
      else if q = CHR ''-'' \<and> r \<noteq> CHR '']'' then let t = class_items ps in ((p, r) # fst t, snd t)
      else let t = class_items (q # r # ps) in ((p, p) # fst t, snd t))"

definition in_class :: "(char \<times> char) list \<Rightarrow> char \<Rightarrow> bool" where
  "in_class rs c \<longleftrightarrow> (\<exists>(lo, hi) \<in> set rs. uchar lo \<le> uchar c \<and> uchar c \<le> uchar hi)"

lemma class_items_length [th8_bound]: "length (snd (class_items p)) \<le> length p"
  by (induction p rule: class_items.induct) (auto simp: Let_def)

lemma class_items_shorter:
  "length (snd (class_items (if b then tl ps else ps))) - Suc 0 < Suc (length ps)"
  using class_items_length [of "if b then tl ps else ps"] by (auto split: if_splits)

function (sequential) glob_items :: "string \<Rightarrow> glob_item list" where
  "glob_items [] = []"
| "glob_items (c # ps) =
     (if c = CHR ''*'' then Seq # glob_items ps
      else if c = CHR ''?'' then Any_Char # glob_items ps
      else if c = CHR ''['' then
        (let invert = (ps \<noteq> [] \<and> hd ps = CHR ''!'');
             r = class_items (if invert then tl ps else ps)
         in Class invert (fst r) # glob_items (drop 1 (snd r)))
      else if c = BSL then (case ps of [] \<Rightarrow> [Stuck] | e # ps \<Rightarrow> Literal e # glob_items ps)
      else Literal c # glob_items ps)"
  by pat_completeness auto

termination glob_items
  by (relation "measure length") (simp_all add: class_items_shorter)

fun item_ok :: "glob_item \<Rightarrow> char \<Rightarrow> bool" where
  "item_ok Any_Char c = True"
| "item_ok (Class invert rs) c = (in_class rs c \<noteq> invert)"
| "item_ok (Literal l) c = (l = c)"
| "item_ok _ c = False"

text \<open>The strings that a list of items matches.\<close>

fun glob_matches :: "glob_item list \<Rightarrow> string \<Rightarrow> bool" where
  "glob_matches [] t = (t = [])"
| "glob_matches (Seq # is) t = (\<exists>k \<le> length t. glob_matches is (drop k t))"
| "glob_matches (i # is) t = (case t of [] \<Rightarrow> False | c # t' \<Rightarrow> item_ok i c \<and> glob_matches is t')"

text \<open>The runs of stars that something follows.\<close>

fun seq_runs :: "glob_item list \<Rightarrow> nat" where
  "seq_runs [] = 0"
| "seq_runs [i] = 0"
| "seq_runs (i # j # is) = (if i = Seq \<and> j \<noteq> Seq then 1 else 0) + seq_runs (j # is)"

section \<open>The matcher meets its specification\<close>

declare th8GlobMatch2.simps [simp del] glob_star.simps [simp del]

lemma class_scan_items:
  "class_scan p c m = (m \<or> in_class (fst (class_items p)) c, snd (class_items p))"
  by (induction p c m rule: class_scan.induct) (auto simp: in_class_def Let_def)

lemma glob_matches_Seq_Seq: "glob_matches (Seq # Seq # is) t = glob_matches (Seq # is) t"
proof -
  have "(\<exists>k\<le>length t. \<exists>j\<le>length t - k. glob_matches is (drop (j + k) t)) \<longleftrightarrow>
    (\<exists>k\<le>length t. glob_matches is (drop k t))"
    by (metis add.right_neutral add_0 le_add_diff_inverse2 le0 add_le_mono1)
  then show ?thesis by simp
qed

lemma glob_matches_cons:
  "i \<noteq> Seq \<Longrightarrow> glob_matches (i # is) t = (case t of [] \<Rightarrow> False | c # t' \<Rightarrow> item_ok i c \<and> glob_matches is t')"
  by (cases i) auto

text \<open>A run of stars matches as one star, and as anything when nothing follows it.\<close>

lemma star_run:
  fixes ps
  defines "ps' \<equiv> dropWhile (\<lambda>p. p = CHR ''*'') ps"
  shows "glob_matches (Seq # glob_items ps) t = glob_matches (Seq # glob_items ps') t \<and>
    seq_runs (Seq # glob_items ps) = (if ps' = [] then 0 else 1 + seq_runs (glob_items ps'))"
  unfolding ps'_def
proof (induction ps)
  case (Cons p ps)
  show ?case
  proof (cases "p = CHR ''*''")
    case True
    with Cons show ?thesis by (simp add: glob_matches_Seq_Seq del: glob_matches.simps)
  next
    case False
    then show ?thesis by (cases "glob_items (p # ps)") (auto simp: Let_def split: list.splits if_splits)
  qed
qed simp

lemma glob_matches_Seq_nil [simp]: "glob_matches [Seq] t"
  by auto

lemma glob_matches_Seq_step:
  "glob_matches (Seq # is) t \<longleftrightarrow>
     glob_matches is t \<or> (case t of [] \<Rightarrow> False | _ # t' \<Rightarrow> glob_matches (Seq # is) t')"
  (is "?l \<longleftrightarrow> ?r")
proof (cases t)
  case (Cons c t')
  have "(\<exists>k\<le>Suc n. P k) \<longleftrightarrow> P 0 \<or> (\<exists>k\<le>n. P (Suc k))" for P and n :: nat
    by (metis Suc_le_mono le0 not0_implies_Suc)
  with Cons show ?thesis by simp
qed simp

text \<open>
  One induction over the three mutually recursive parts: what a run accepts is a match within the depth
  limit, and all of those are accepted when the interpreter stays ready.
\<close>

definition glob_spec :: "string \<Rightarrow> string \<Rightarrow> nat \<Rightarrow> bool" where
  "glob_spec zPat zStr depth \<longleftrightarrow>
     glob_matches (glob_items zPat) zStr \<and> depth + seq_runs (glob_items zPat) \<le> 50"

definition star_spec :: "string \<Rightarrow> string \<Rightarrow> nat \<Rightarrow> bool" where
  "star_spec zPat zStr depth \<longleftrightarrow>
     glob_matches (Seq # glob_items zPat) zStr \<and> depth + 1 + seq_runs (glob_items zPat) \<le> 50"

lemma star_spec_step:
  "star_spec zPat zStr depth \<longleftrightarrow>
     glob_spec zPat zStr (depth + 1) \<or> (case zStr of [] \<Rightarrow> False | _ # t \<Rightarrow> star_spec zPat t depth)"
  unfolding star_spec_def glob_spec_def
  by (subst glob_matches_Seq_step) (auto split: list.splits)

lemma glob_spec_deep: "depth > 50 \<Longrightarrow> \<not> glob_spec zPat zStr depth"
  by (simp add: glob_spec_def)

lemma glob_items_not_Seq: "c \<noteq> CHR ''*'' \<Longrightarrow> glob_items (c # ps) \<noteq> Seq # is"
  by (simp add: Let_def split: list.split)

lemma seq_runs_cons: "i \<noteq> Seq \<Longrightarrow> seq_runs (i # is) = seq_runs is"
  by (cases "is") auto

lemma glob_spec_cons:
  "glob_spec [] zStr depth \<longleftrightarrow> zStr = [] \<and> depth \<le> 50"
  "glob_spec (CHR ''*'' # zPat) zStr depth \<longleftrightarrow>
     (let zPat' = dropWhile (\<lambda>p. p = CHR ''*'') zPat
      in if zPat' = [] then depth \<le> 50 else star_spec zPat' zStr depth)"
  "c \<noteq> CHR ''*'' \<Longrightarrow> glob_items (c # zPat) = i # glob_items zPat' \<Longrightarrow>
     glob_spec (c # zPat) zStr depth \<longleftrightarrow>
       (case zStr of [] \<Rightarrow> False | ch # t \<Rightarrow> item_ok i ch \<and> glob_spec zPat' t depth)"
proof -
  show "glob_spec [] zStr depth \<longleftrightarrow> zStr = [] \<and> depth \<le> 50" by (simp add: glob_spec_def)
  show "glob_spec (CHR ''*'' # zPat) zStr depth \<longleftrightarrow>
     (let zPat' = dropWhile (\<lambda>p. p = CHR ''*'') zPat
      in if zPat' = [] then depth \<le> 50 else star_spec zPat' zStr depth)"
    using star_run [of zPat zStr]
    by (simp add: glob_spec_def star_spec_def Let_def del: glob_matches.simps dropWhile_eq_Nil_conv)
next
  assume c: "c \<noteq> CHR ''*''" and i: "glob_items (c # zPat) = i # glob_items zPat'"
  then have "i \<noteq> Seq" using glob_items_not_Seq by metis
  then show "glob_spec (c # zPat) zStr depth \<longleftrightarrow>
       (case zStr of [] \<Rightarrow> False | ch # t \<Rightarrow> item_ok i ch \<and> glob_spec zPat' t depth)"
    unfolding glob_spec_def i by (auto simp: glob_matches_cons seq_runs_cons split: list.splits)
qed

definition agrees :: "('s \<Rightarrow> int \<times> 's) option \<Rightarrow> bool \<times> 's \<Rightarrow> bool \<Rightarrow> bool" where
  "agrees interp r b \<longleftrightarrow> (fst r \<longrightarrow> b) \<and> ((\<forall>s. fst (poll_ready interp s)) \<longrightarrow> b \<longrightarrow> fst r)"

lemma agrees_poll:
  assumes "\<And>s'. poll_ready interp s = (True, s') \<Longrightarrow> agrees interp (f s') b"
  shows "agrees interp (case poll_ready interp s of (True, s') \<Rightarrow> f s' | (False, s') \<Rightarrow> (False, s')) b"
proof (cases "poll_ready interp s")
  case (Pair r s')
  show ?thesis
  proof (cases r)
    case True
    with Pair assms show ?thesis by simp
  next
    case False
    with Pair have "\<not> (\<forall>s. fst (poll_ready interp s))" by (metis fst_conv)
    with Pair False show ?thesis unfolding agrees_def by auto
  qed
qed

lemma agrees_const [simp]: "agrees interp (b, s) b"
  by (simp add: agrees_def)

lemma agrees_False [simp]: "\<not> b \<Longrightarrow> agrees interp (False, s) b"
  by (simp add: agrees_def)

lemma agrees_orelse:
  assumes "agrees interp r b" and "\<And>s'. r = (False, s') \<Longrightarrow> agrees interp (f s') b'"
  shows "agrees interp (case r of (True, s') \<Rightarrow> (True, s') | (False, s') \<Rightarrow> f s') (b \<or> b')"
  using assms by (cases r) (auto simp: agrees_def split: bool.splits)

lemma glob_agrees:
  "agrees interp (th8GlobMatch2 interp zPat zStr depth s) (glob_spec zPat zStr depth)"
  "agrees interp (glob_star interp zPat zStr depth s) (star_spec zPat zStr depth)"
  "depth \<le> 50 \<Longrightarrow> agrees interp (glob_loop interp zPat zStr depth s) (glob_spec zPat zStr depth)"
proof (induction interp zPat zStr depth s and interp zPat zStr depth s and interp zPat zStr depth s
    rule: th8GlobMatch2_glob_star_glob_loop.induct)
  case (1 interp zPat zStr depth s)
  show ?case
  proof (cases "depth > 50")
    case True
    then show ?thesis by (simp add: th8GlobMatch2.simps agrees_def glob_spec_deep)
  next
    case False
    with 1 show ?thesis unfolding th8GlobMatch2.simps [of interp]
      by (simp only: if_False) (intro agrees_poll, simp)
  qed
next
  case (2 interp zPat zStr depth s)
  show ?case
    by (subst glob_star.simps, subst star_spec_step, rule agrees_orelse, rule 2(1))
      (use 2(2) [of False, OF sym] in \<open>auto split: list.split\<close>)
next
  case (3 interp zStr depth s)
  then show ?case by (simp add: glob_spec_cons(1))
next
  case (4 interp c zPat zStr depth s)
  show ?case
    unfolding glob_loop.simps(2)
  proof (rule agrees_poll, goal_cases)
    case (1 s')
    note IH = 4(1-5) [OF 1 [symmetric] refl]
    consider "c = CHR ''*''" | "c = CHR ''?''" | "c = CHR ''[''" | "c = BSL"
      | "c \<noteq> CHR ''*''" "c \<noteq> CHR ''?''" "c \<noteq> CHR ''[''" "c \<noteq> BSL" by blast
    then show ?case
    proof cases
      case 1
      with 4(6) IH(1) show ?thesis by (simp add: glob_spec_cons(2) Let_def)
    next
      case 2
      with glob_spec_cons(3) [of c zPat Any_Char zPat zStr depth] 4(6) IH(2) show ?thesis by (auto split: list.splits)
    next
      case 3
      define invert where "invert = (zPat \<noteq> [] \<and> hd zPat = CHR ''!'')"
      define r where "r = class_items (if invert then tl zPat else zPat)"
      have "glob_items (c # zPat) = Class invert (fst r) # glob_items (drop 1 (snd r))"
        using 3 by (simp add: invert_def r_def Let_def)
      with glob_spec_cons(3) [of c zPat "Class invert (fst r)" "drop 1 (snd r)" zStr depth] 3
      have "glob_spec (c # zPat) zStr depth \<longleftrightarrow>
        (case zStr of [] \<Rightarrow> False | ch # t \<Rightarrow> in_class (fst r) ch \<noteq> invert \<and> glob_spec (drop 1 (snd r)) t depth)"
        by (simp split: list.splits)
      then show ?thesis
        using 3 4(6) IH(3) [OF _ _ _ _ invert_def refl]
        by (cases zStr) (auto simp: class_scan_items invert_def [symmetric] r_def Let_def)
    next
      case bsl: 4
      then show ?thesis
        using 4(6) IH(4) glob_spec_cons(3) [of c zPat "Literal (hd zPat)" "tl zPat" zStr depth]
        by (cases zPat; cases zStr) (auto simp: glob_spec_def)
    next
      case 5
      with glob_spec_cons(3) [of c zPat "Literal c" zPat zStr depth] 4(6) IH(5) show ?thesis
        by (auto split: list.splits)
    qed
  qed
qed

section \<open>Properties\<close>

text \<open>C9: The glob matcher computes exactly the pattern language. For every pattern and string, \<open>Th8_GlobMatch\<close>
  (polling nothing, or an interpreter that is ready at every poll) answers that the string matches the pattern
  read as a list of items (literals, any character, any sequence, classes with ranges and negation), as long as
  at most fifty runs of stars precede the end of the pattern; beyond that depth limit it answers no.\<close>

theorem glob_match_exact:
  assumes "\<forall>s. fst (poll_ready interp s)"
  shows "fst (Th8_GlobMatch interp zPat zStr s) \<longleftrightarrow>
    glob_matches (glob_items zPat) zStr \<and> seq_runs (glob_items zPat) \<le> 50"
  using assms glob_agrees(1) [of interp zPat zStr 0 s]
  unfolding Th8_GlobMatch_def agrees_def glob_spec_def add_0 by blast

theorem glob_match_exact_witness:
  "fst (Th8_GlobMatch (None :: (nat \<Rightarrow> int \<times> nat) option) ''a*[!0-9]?'' ''abc12x3'' 0) \<and>
   glob_matches (glob_items ''a*[!0-9]?'') ''abc12x3'' \<and> seq_runs (glob_items ''a*[!0-9]?'') \<le> 50"
proof -
  have "\<forall>s. fst (poll_ready (None :: (nat \<Rightarrow> int \<times> nat) option) s)" by (simp add: poll_ready_def)
  moreover have "fst (Th8_GlobMatch (None :: (nat \<Rightarrow> int \<times> nat) option) ''a*[!0-9]?'' ''abc12x3'' 0)" by code_simp
  ultimately show ?thesis
    using glob_match_exact [of "None :: (nat \<Rightarrow> int \<times> nat) option" "''a*[!0-9]?''" "''abc12x3''" 0] by simp
qed

text \<open>Cancellation never invents a match. Whatever the interpreter answers at the polls, and however its state
  changes there (step budget, cancellation, suspension), a string that \<open>Th8_GlobMatch\<close> accepts matches the
  pattern.\<close>

theorem glob_match_sound:
  "fst (Th8_GlobMatch interp zPat zStr s) \<longrightarrow> glob_matches (glob_items zPat) zStr"
  using glob_agrees(1) [of interp zPat zStr 0 s] by (simp add: Th8_GlobMatch_def agrees_def glob_spec_def)

theorem glob_match_sound_witness:
  "fst (Th8_GlobMatch (Some (\<lambda>n. (if n > 9 then TH8_ERROR else TH8_OK, n + 1))) ''a*b'' ''acb'' (0 :: nat)) \<and>
   glob_matches (glob_items ''a*b'') ''acb''"
proof -
  have "fst (Th8_GlobMatch (Some (\<lambda>n. (if n > 9 then TH8_ERROR else TH8_OK, n + 1))) ''a*b'' ''acb'' (0 :: nat))"
    by code_simp
  then show ?thesis using glob_match_sound by (intro conjI) (assumption, rule mp)
qed

end
