(* ===== verification/Th8_Limits.thy ===== *)
theory Th8_Limits
  imports Th8_Cancel Th8_Hashing Th8_Globbing
begin

text \<open>
  Readiness and limits (\<open>src/src/th8_core.c\<close>): the unified check \<open>Th8_Ready\<close> that every work unit polls,
  with its parts (C stack probe, exit, cancellation, suspension, debugger, step budget and deadline), the
  debugger's breakpoint table, and the limit setters.

  \<open>interp\<close> extends the cancellation state with the counters, limits, stack bounds and debugger fields of
  \<open>Th8_Interp\<close>. What a poll reads from outside is \<open>poll_env\<close>: the address of the stack probe, the clock
  (zero when the platform has none, nothing when it reports an error), whether a foreign cancel message can be copied,
  the position of the evaluator, and the host's debug callback, which may change the interpreter. The
  breakpoint table is a hash table of \<open>Th8_Hashing\<close>. Breakpoint identifiers are drawn from a counter of 32 bits. Step
  counts, 64 bits wide in the code, are integers.

  The theorems: a positive step limit bounds the number of successful polls, so a loop that polls ends; an
  exited interpreter is never ready until it is reset; and the breakpoint event fires at exactly the lines where
  a breakpoint is set.
\<close>

section \<open>State\<close>

abbreviation TH8_STEP_INTO :: int where "TH8_STEP_INTO \<equiv> 1"
abbreviation TH8_STEP_OVER :: int where "TH8_STEP_OVER \<equiv> 2"
abbreviation TH8_STEP_OUT :: int where "TH8_STEP_OUT \<equiv> 3"
abbreviation TH8_DEBUG_STEP :: int where "TH8_DEBUG_STEP \<equiv> 1"
abbreviation TH8_DEBUG_BREAKPOINT :: int where "TH8_DEBUG_BREAKPOINT \<equiv> 2"
abbreviation TH8_MX_STRLEN :: size_t where "TH8_MX_STRLEN \<equiv> 104857600"

record interp = cancel +
  nStepCount :: int
  nStepLimit :: int
  nDeadlineUs :: int
  nResultLimit :: size_t
  bStackCheckEnabled :: bool
  bStackGrowsDown :: bool
  pStackBase :: size_t
  nStackGuard :: size_t
  nStackSize :: size_t
  xDebug :: bool
  nStepMode :: int
  nStepDepth :: int
  paBreakpoints :: "int hash_table option"
  nNextBreakpointId :: int

record poll_env =
  marker :: size_t
  clock :: "int option"
  msg_ok :: bool
  env_line :: int
  env_depth :: int
  env_script :: string
  debug_cb :: "int \<Rightarrow> interp \<Rightarrow> int \<times> interp"

section \<open>Parts of the check\<close>

definition th8CheckStack :: "poll_env \<Rightarrow> interp \<Rightarrow> int \<times> interp" where
  "th8CheckStack env s =
     (if \<not> bStackCheckEnabled s then (TH8_OK, s)
      else
        (let nUsed =
               (if bStackGrowsDown s
                then (if pStackBase s > marker env then pStackBase s - marker env else 0)
                else (if marker env > pStackBase s then marker env - pStackBase s else 0))
         in if nUsed + nStackGuard s > nStackSize s
            then (TH8_ERROR, s\<lparr>zResult := ''C stack overflow (TH8 stack limit reached)''\<rparr>)
            else (TH8_OK, s)))"

definition th8Step :: "int option \<Rightarrow> interp \<Rightarrow> int \<times> interp" where
  "th8Step now s =
     (let s = s\<lparr>nStepCount := nStepCount s + 1\<rparr>
      in if nStepLimit s > 0 \<and> nStepCount s > nStepLimit s
         then (TH8_ERROR, s\<lparr>zResult := ''step limit exceeded''\<rparr>)
         else if nDeadlineUs s > 0 \<and> nStepCount s AND 0xFFF = 0
         then (case now of
                 None \<Rightarrow> (TH8_OK, s)
               | Some nowUs \<Rightarrow>
                   if nowUs \<ge> nDeadlineUs s then (TH8_ERROR, s\<lparr>zResult := ''time limit exceeded''\<rparr>)
                   else (TH8_OK, s))
         else (TH8_OK, s))"

definition th8CheckResultSize :: "size_t \<Rightarrow> interp \<Rightarrow> int \<times> interp" where
  "th8CheckResultSize n s =
     (let nLimit = (if nResultLimit s = 0 then TH8_MX_STRLEN else nResultLimit s)
      in if n > nLimit then (TH8_ERROR, s\<lparr>zResult := ''result size limit exceeded''\<rparr>) else (TH8_OK, s))"

section \<open>The debugger\<close>

definition line_bytes :: "int \<Rightarrow> string" where
  "line_bytes nLine = map (\<lambda>k. char_of (nat (drop_bit k nLine AND 0xff))) [0, 8, 16, 24]"

definition breakpoint_key :: "string \<Rightarrow> int \<Rightarrow> string" where
  "breakpoint_key zScript nLine = zScript @ [NUL] @ line_bytes nLine"

definition Th8_SetStepMode :: "int \<Rightarrow> int \<Rightarrow> interp \<Rightarrow> int \<times> interp" where
  "Th8_SetStepMode frameLevel mode s = (TH8_OK, s\<lparr>nStepMode := mode, nStepDepth := frameLevel\<rparr>)"

text \<open>
  The allocation outcomes are those of \<open>Th8_HashNew\<close> and of the entry and key of \<open>Th8_HashFind\<close>; the result
  carries the identifier that is stored through \<open>pBreakpointId\<close>.
\<close>

definition Th8_SetBreakpoint ::
    "hash_seed \<Rightarrow> bool \<Rightarrow> bool \<times> bool \<Rightarrow> string \<Rightarrow> int \<Rightarrow> interp \<Rightarrow> int option \<times> interp" where
  "Th8_SetBreakpoint sd newOk allocs zScript nLine s =
     (if nLine < 1 then (None, s)
      else if length zScript \<ge> 512 - 5 then (None, s)
      else
        (case (case paBreakpoints s of None \<Rightarrow> Th8_HashNew newOk | Some h \<Rightarrow> Some h) of
           None \<Rightarrow> (None, s)
         | Some h \<Rightarrow>
             (case Th8_HashFind sd allocs h (breakpoint_key zScript nLine) 1 of
                (h, None) \<Rightarrow> (None, s\<lparr>paBreakpoints := Some h\<rparr>)
              | (h, Some k) \<Rightarrow>
                  (let bpId = wrap32 (nNextBreakpointId s + 1)
                   in (Some bpId, s\<lparr>nNextBreakpointId := bpId, paBreakpoints := Some (entry_set_data sd h k (Some bpId))\<rparr>)))))"

definition find_breakpoint :: "int \<Rightarrow> int hash_table \<Rightarrow> int hash_entry option" where
  "find_breakpoint bpId h = find (\<lambda>p. (case he_data p of None \<Rightarrow> 0 | Some i \<Rightarrow> i) = bpId) (concat (aBucket h))"

definition Th8_ClearBreakpoint :: "hash_seed \<Rightarrow> int \<Rightarrow> interp \<Rightarrow> int \<times> interp" where
  "Th8_ClearBreakpoint sd bpId s =
     (case paBreakpoints s of
        None \<Rightarrow> (TH8_ERROR, s)
      | Some h \<Rightarrow>
          (case find_breakpoint bpId h of
             None \<Rightarrow> (TH8_ERROR, s)
           | Some p \<Rightarrow> (TH8_OK, s\<lparr>paBreakpoints := Some (Th8_HashRemove sd h (he_key p))\<rparr>)))"

definition Th8_ClearAllBreakpoints :: "interp \<Rightarrow> int \<times> interp" where
  "Th8_ClearAllBreakpoints s = (TH8_OK, s\<lparr>paBreakpoints := None\<rparr>)"

definition debug_event :: "hash_seed \<Rightarrow> poll_env \<Rightarrow> interp \<Rightarrow> int" where
  "debug_event sd env s =
     (let event =
            (if nStepMode s = TH8_STEP_INTO then TH8_DEBUG_STEP
             else if nStepMode s = TH8_STEP_OVER then (if env_depth env \<le> nStepDepth s then TH8_DEBUG_STEP else 0)
             else if nStepMode s = TH8_STEP_OUT then (if env_depth env < nStepDepth s then TH8_DEBUG_STEP else 0)
             else 0)
      in if event \<noteq> 0 then event
         else case paBreakpoints s of
           None \<Rightarrow> 0
         | Some h \<Rightarrow>
             if env_line env > 0 \<and> length (env_script env) < 512 - 5 \<and>
                snd (Th8_HashFind sd (True, True) h (breakpoint_key (env_script env) (env_line env)) 0) \<noteq> None
             then TH8_DEBUG_BREAKPOINT
             else 0)"

definition th8DebugCheck :: "hash_seed \<Rightarrow> poll_env \<Rightarrow> interp \<Rightarrow> int \<times> interp" where
  "th8DebugCheck sd env s =
     (let event = debug_event sd env s
      in if event = 0 then (TH8_OK, s)
         else
           (case debug_cb env event s of
              (dbgRc, s) \<Rightarrow>
                if dbgRc = TH8_BREAK then (TH8_SUSPEND, snd (Th8_Freeze s)) else (dbgRc, s)))"

section \<open>The unified check\<close>

definition Th8_Ready :: "hash_seed \<Rightarrow> poll_env \<Rightarrow> interp \<Rightarrow> int \<times> interp" where
  "Th8_Ready sd env s =
     (case th8CheckStack env s of
        (rc, s) \<Rightarrow>
          if rc \<noteq> TH8_OK then (TH8_ERROR, s)
          else if Th8_IsExited s then (TH8_ERROR, s\<lparr>zResult := ''exit''\<rparr>)
          else
            (case Th8_IsCanceled (msg_ok env) s of
               (rc, s) \<Rightarrow>
                 if rc \<noteq> TH8_OK then (TH8_ERROR, s)
                 else if Th8_IsSuspended s then (TH8_SUSPEND, s)
                 else
                   (case (if xDebug s then th8DebugCheck sd env s else (TH8_OK, s)) of
                      (dbgRc, s) \<Rightarrow>
                        if dbgRc \<noteq> TH8_OK then (dbgRc, s)
                        else
                          (case th8Step (clock env) s of
                             (rc, s) \<Rightarrow> if rc \<noteq> TH8_OK then (TH8_ERROR, s) else (TH8_OK, s)))))"

section \<open>Limits\<close>

definition Th8_SetStepLimit :: "int \<Rightarrow> interp \<Rightarrow> interp" where
  "Th8_SetStepLimit nLimit s = s\<lparr>nStepLimit := nLimit\<rparr>"

definition Th8_ResetStepCount :: "interp \<Rightarrow> interp" where
  "Th8_ResetStepCount s = s\<lparr>nStepCount := 0\<rparr>"

definition Th8_SetStepCount :: "int \<Rightarrow> interp \<Rightarrow> interp" where
  "Th8_SetStepCount nCount s = s\<lparr>nStepCount := (if nCount < 0 then 0 else nCount)\<rparr>"

definition Th8_SetDeadline :: "int \<Rightarrow> interp \<Rightarrow> interp" where
  "Th8_SetDeadline nDeadline s = s\<lparr>nDeadlineUs := nDeadline\<rparr>"

definition Th8_SetTimeLimitMs :: "int option \<Rightarrow> int \<Rightarrow> interp \<Rightarrow> int \<times> interp" where
  "Th8_SetTimeLimitMs now nMs s =
     (if nMs \<le> 0 then (TH8_OK, s\<lparr>nDeadlineUs := 0\<rparr>)
      else if nMs > 1000000000000000 then (TH8_OK, s\<lparr>nDeadlineUs := 0\<rparr>)
      else case now of
        None \<Rightarrow> (TH8_ERROR, s)
      | Some nowUs \<Rightarrow> (TH8_OK, s\<lparr>nDeadlineUs := nowUs + nMs * 1000\<rparr>))"

section \<open>What the parts change\<close>

lemma adopt_interp [simp]:
  fixes s :: interp
  shows "nStepCount (th8CancelReqAdopt ok s) = nStepCount s" "nStepLimit (th8CancelReqAdopt ok s) = nStepLimit s"
    "bExit (th8CancelReqAdopt ok s) = bExit s" "bSuspended (th8CancelReqAdopt ok s) = bSuspended s"
  by (simp_all add: th8CancelReqAdopt_def th8CancelMsgXchg_def th8CancelMsgFree_def adopt_message_def Let_def
      split: option.split)

text \<open>A poll that succeeds has counted one step, and found the budget not exceeded.\<close>

definition debug_counts :: "poll_env \<Rightarrow> bool" where
  "debug_counts env \<longleftrightarrow>
     (\<forall>event s. nStepCount s \<le> nStepCount (snd (debug_cb env event s)) \<and>
        nStepLimit (snd (debug_cb env event s)) = nStepLimit s)"

lemma check_stack_ok: "th8CheckStack env s = (TH8_OK, s') \<Longrightarrow> s' = s"
  by (auto simp: th8CheckStack_def Let_def split: if_splits)

lemma debug_check_ok:
  "th8DebugCheck sd env s = (TH8_OK, s') \<Longrightarrow> debug_counts env \<Longrightarrow>
   nStepCount s \<le> nStepCount s' \<and> nStepLimit s' = nStepLimit s"
  by (auto simp: th8DebugCheck_def Let_def debug_counts_def split: if_splits prod.splits) (metis snd_conv)+

lemma ready_ok:
  assumes "Th8_Ready sd env s = (TH8_OK, s')" "debug_counts env"
  shows "nStepCount s < nStepCount s' \<and> nStepLimit s' = nStepLimit s \<and>
    (0 < nStepLimit s \<longrightarrow> nStepCount s' \<le> nStepLimit s)"
proof -
  have c: "fst (th8CheckStack env s) = TH8_OK" using assms(1) by (auto simp: Th8_Ready_def split: prod.splits if_splits)
  then have cs: "th8CheckStack env s = (TH8_OK, s)" using check_stack_ok by (metis prod.collapse)
  obtain d where d: "(if xDebug s then th8DebugCheck sd env s else (TH8_OK, s)) = (TH8_OK, d)"
    and st: "th8Step (clock env) d = (TH8_OK, s')"
    using assms(1) cs by (auto simp: Th8_Ready_def Th8_IsCanceled_def Let_def split: prod.splits if_splits)
  have "nStepCount s \<le> nStepCount d \<and> nStepLimit d = nStepLimit s"
    using d debug_check_ok assms(2) by (auto split: if_splits)
  moreover have "nStepCount s' = nStepCount d + 1 \<and> nStepLimit s' = nStepLimit d \<and>
      (0 < nStepLimit d \<longrightarrow> nStepCount s' \<le> nStepLimit d)"
    using st by (auto simp: th8Step_def Let_def split: if_splits option.splits)
  ultimately show ?thesis by auto
qed

text \<open>
  A loop that polls before each iteration. \<open>None\<close> means that it is still running after the given number of
  iterations.
\<close>

fun poll_loop ::
    "hash_seed \<Rightarrow> (nat \<Rightarrow> poll_env) \<Rightarrow> (interp \<Rightarrow> interp) \<Rightarrow> nat \<Rightarrow> interp \<Rightarrow> (int \<times> interp) option" where
  "poll_loop sd envs body 0 s = None"
| "poll_loop sd envs body (Suc n) s =
     (case Th8_Ready sd (envs n) s of
        (rc, s) \<Rightarrow> if rc = TH8_OK then poll_loop sd envs body n (body s) else Some (rc, s))"

lemma poll_loop_ends:
  assumes envs: "\<And>n. debug_counts (envs n)"
    and body: "\<And>s. nStepCount s \<le> nStepCount (body s) \<and> nStepLimit (body s) = nStepLimit s"
  shows "0 < nStepLimit s \<Longrightarrow> nStepLimit s \<le> nStepCount s + int n \<Longrightarrow>
    \<exists>rc s'. poll_loop sd envs body (Suc n) s = Some (rc, s') \<and> rc \<noteq> TH8_OK"
proof (induction n arbitrary: s)
  case 0
  have "fst (Th8_Ready sd (envs 0) s) \<noteq> TH8_OK"
    using ready_ok [OF _ envs, of sd 0 s] 0 by (cases "Th8_Ready sd (envs 0) s") auto
  then show ?case by (cases "Th8_Ready sd (envs 0) s") auto
next
  case (Suc n)
  show ?case
  proof (cases "Th8_Ready sd (envs (Suc n)) s")
    case (Pair rc s1)
    show ?thesis
    proof (cases "rc = TH8_OK")
      case True
      with Pair have r: "nStepCount s < nStepCount s1 \<and> nStepLimit s1 = nStepLimit s"
        using ready_ok [OF _ envs] by blast
      have b: "nStepCount s1 \<le> nStepCount (body s1) \<and> nStepLimit (body s1) = nStepLimit s1" by (rule body)
      have "\<exists>rc s'. poll_loop sd envs body (Suc n) (body s1) = Some (rc, s') \<and> rc \<noteq> TH8_OK"
        using r b Suc.prems by (intro Suc.IH) simp_all
      with Pair True show ?thesis by simp
    next
      case False
      with Pair show ?thesis by simp
    qed
  qed
qed

section \<open>Exit is sticky\<close>

text \<open>What a host or another thread may do to the interpreter, other than resetting the exit flag.\<close>

datatype host_op =
    Poll poll_env
  | Cancel_Op "addr option" bool bool "string option" "32 word"
  | Reset_Cancel_Op
  | Freeze_Op
  | Exit_Op
  | Step_Limit_Op int
  | Reset_Steps_Op
  | Time_Limit_Op "int option" int
  | Step_Mode_Op int int

fun host_exec :: "hash_seed \<Rightarrow> host_op \<Rightarrow> interp \<Rightarrow> interp" where
  "host_exec sd (Poll env) s = snd (Th8_Ready sd env s)"
| "host_exec sd (Cancel_Op ans ok own msg flags) s = snd (Th8_CancelEval ans ok own msg flags s)"
| "host_exec sd Reset_Cancel_Op s = Th8_ResetCancel s"
| "host_exec sd Freeze_Op s = snd (Th8_Freeze s)"
| "host_exec sd Exit_Op s = Th8_Exit s"
| "host_exec sd (Step_Limit_Op n) s = Th8_SetStepLimit n s"
| "host_exec sd Reset_Steps_Op s = Th8_ResetStepCount s"
| "host_exec sd (Time_Limit_Op now ms) s = snd (Th8_SetTimeLimitMs now ms s)"
| "host_exec sd (Step_Mode_Op lvl mode) s = snd (Th8_SetStepMode lvl mode s)"

lemma stack_exit [simp]: "bExit (snd (th8CheckStack env s)) = bExit s"
  by (simp add: th8CheckStack_def Let_def)

lemma exited_not_ready:
  assumes "Th8_IsExited s"
  shows "fst (Th8_Ready sd env s) = TH8_ERROR \<and> Th8_IsExited (snd (Th8_Ready sd env s))"
  using assms stack_exit [of env s]
  by (cases "th8CheckStack env s") (auto simp: Th8_Ready_def Th8_IsExited_def)

lemma cancel_eval_exit [simp]: "bExit (snd (Th8_CancelEval ans ok own msg flags s)) = bExit s"
  by (simp add: Th8_CancelEval_def th8CancelReqPublish_def th8CancelMsgBuild_def th8CancelMsgXchg_def
      th8CancelMsgFree_def th8CancelReqOr_def Let_def split: option.split)

lemma clear_cancel_exit [simp]: "bExit (th8ClearCancel s) = bExit s"
  by (simp add: th8ClearCancel_def th8CancelReqClear_def th8CancelMsgXchg_def th8CancelMsgFree_def split: option.split)

lemma host_exec_exited: "Th8_IsExited s \<Longrightarrow> Th8_IsExited (host_exec sd opn s)"
  using exited_not_ready
  by (cases opn) (auto simp: Th8_IsExited_def Th8_ResetCancel_def Th8_Freeze_def Th8_Exit_def int_cmp_xchg_def
      Th8_SetStepLimit_def Th8_ResetStepCount_def Th8_SetTimeLimitMs_def Th8_SetStepMode_def split: option.split)

section \<open>Properties\<close>

definition interp_init :: interp where
  "interp_init = \<lparr>nCancelReq = 0, nCancelReqMsg = None, xbufs = Map.empty, cancelFlags = 0, zCancelMsg = None,
     bCancelMsgOwned = False, bSuspended = 0, bExit = 0, zResult = [], nStepCount = 0, nStepLimit = 0,
     nDeadlineUs = 0, nResultLimit = 0, bStackCheckEnabled = False, bStackGrowsDown = True, pStackBase = 0,
     nStackGuard = 0, nStackSize = 0, xDebug = False, nStepMode = 0, nStepDepth = 0, paBreakpoints = None,
     nNextBreakpointId = 0\<rparr>"

text \<open>C15: The step budget stops every polling loop. Under a positive step limit, a loop that polls \<open>Th8_Ready\<close> before
  each iteration ends, with a code other than \<open>TH8_OK\<close>, after at most as many iterations as steps are left,
  whatever the platform answers, as long as the loop body and the host's debug callback neither lower the step
  counter nor change the limit.\<close>

theorem step_budget_stops_loops:
  assumes "\<And>n. debug_counts (envs n)"
    and "\<And>s. nStepCount s \<le> nStepCount (body s) \<and> nStepLimit (body s) = nStepLimit s"
    and "0 < nStepLimit s"
  shows "\<exists>rc s'. poll_loop sd envs body (Suc (nat (nStepLimit s - nStepCount s))) s = Some (rc, s') \<and> rc \<noteq> TH8_OK"
  using assms by (intro poll_loop_ends) simp_all

theorem step_budget_stops_loops_witness:
  "\<exists>rc s'. poll_loop seed_init
      (\<lambda>_. \<lparr>marker = 0, clock = None, msg_ok = True, env_line = 1, env_depth = 0, env_script = [],
            debug_cb = \<lambda>event s. (TH8_OK, s)\<rparr>)
      (\<lambda>s. s) 101 (Th8_SetStepLimit 100 interp_init) = Some (rc, s') \<and> rc \<noteq> TH8_OK"
  using step_budget_stops_loops [of
      "\<lambda>_. \<lparr>marker = 0, clock = None, msg_ok = True, env_line = 1, env_depth = 0, env_script = [],
            debug_cb = \<lambda>event s. (TH8_OK, s)\<rparr>" "\<lambda>s. s" "Th8_SetStepLimit 100 interp_init" seed_init]
  by (simp add: debug_counts_def Th8_SetStepLimit_def interp_init_def del: poll_loop.simps)

text \<open>Exit is sticky. After \<open>Th8_Exit\<close>, whatever polls, cancellations, resets of a cancellation, freezes and
  limit changes follow, in any order and from any thread, every poll fails with \<open>TH8_ERROR\<close> until the host
  resets the flag.\<close>

lemma exit_is_sticky:
  "fst (Th8_Ready sd env (fold (host_exec sd) ops (Th8_Exit s))) = TH8_ERROR"
proof -
  have "Th8_IsExited (Th8_Exit s)" by (simp add: Th8_IsExited_def Th8_Exit_def int_cmp_xchg_def)
  then have "Th8_IsExited (fold (host_exec sd) ops (Th8_Exit s))"
    by (induction ops arbitrary: s rule: rev_induct) (simp_all add: host_exec_exited)
  then show ?thesis using exited_not_ready by blast
qed

section \<open>Breakpoints\<close>

text \<open>The four bytes of a line number determine it.\<close>

lemma line_byte: "uchar (char_of (nat (drop_bit k n AND 0xff)) :: char) = nat (take_bit 8 (drop_bit k n))"
proof -
  have "drop_bit k n AND 255 = take_bit 8 (drop_bit k n)"
    using take_bit_eq_mask [of 8 "drop_bit k n"] by (simp add: mask_eq_exp_minus_1)
  moreover have "take_bit 8 (drop_bit k n) < 256" using take_bit_int_less_exp [of 8 "drop_bit k n"] by simp
  ultimately show ?thesis by (simp add: of_char_of nat_less_iff)
qed

lemma line_bytes_inj:
  assumes eq: "line_bytes m = line_bytes n" and r: "0 \<le> m" "m < 2 ^ 32" "0 \<le> n" "n < 2 ^ 32"
  shows "m = n"
proof -
  have byte: "take_bit 8 (drop_bit k m) = take_bit 8 (drop_bit k n)" if "k \<in> {0, 8, 16, 24}" for k
  proof -
    have "char_of (nat (drop_bit k m AND 0xff)) = (char_of (nat (drop_bit k n AND 0xff)) :: char)"
      using eq that by (auto simp: line_bytes_def)
    then have "nat (take_bit 8 (drop_bit k m)) = nat (take_bit 8 (drop_bit k n))" by (metis line_byte)
    then show ?thesis by (simp add: eq_nat_nat_iff)
  qed
  have "take_bit 32 m = take_bit 32 n"
  proof (rule bit_eqI)
    fix i
    show "bit (take_bit 32 m) i \<longleftrightarrow> bit (take_bit 32 n) i"
    proof (cases "i < 32")
      case True
      define k where "k = 8 * (i div 8)"
      have k: "k \<in> {0, 8, 16, 24}" "i = k + i mod 8" "i mod 8 < 8"
        using True by (auto simp: k_def)
      have "bit x i \<longleftrightarrow> bit (take_bit 8 (drop_bit k x)) (i mod 8)" for x :: int
        using k by (simp add: bit_take_bit_iff bit_drop_bit_eq)
      then have "bit m i \<longleftrightarrow> bit n i" using byte [OF k(1)] by metis
      then show ?thesis by (simp add: bit_take_bit_iff)
    qed (simp add: bit_take_bit_iff)
  qed
  then show ?thesis using r by (simp add: take_bit_int_eq_self)
qed

lemma breakpoint_key_inj:
  assumes "breakpoint_key z m = breakpoint_key w n" "0 \<le> m" "m < 2 ^ 32" "0 \<le> n" "n < 2 ^ 32"
  shows "z = w \<and> m = n"
proof -
  have "length (line_bytes k) = 4" for k by (simp add: line_bytes_def)
  then have "z = w \<and> line_bytes m = line_bytes n"
    using assms(1) by (simp add: breakpoint_key_def append_eq_append_conv)
  with assms(2-) show ?thesis using line_bytes_inj by blast
qed

text \<open>
  The abstract debugger: a partial map from positions to breakpoint identifiers and the lastId identifier
  given out.
\<close>

datatype bp_op = Set_Bp bool "bool \<times> bool" string int | Clear_Bp int | Clear_All_Bps

fun bp_exec :: "hash_seed \<Rightarrow> bp_op \<Rightarrow> interp \<Rightarrow> interp" where
  "bp_exec sd (Set_Bp newOk allocs z n) s = snd (Th8_SetBreakpoint sd newOk allocs z n s)"
| "bp_exec sd (Clear_Bp i) s = snd (Th8_ClearBreakpoint sd i s)"
| "bp_exec sd Clear_All_Bps s = snd (Th8_ClearAllBreakpoints s)"

definition position_ok :: "string \<Rightarrow> int \<Rightarrow> bool" where
  "position_ok z n \<longleftrightarrow> 1 \<le> n \<and> n < 2 ^ 31 \<and> length z < 507"

definition table_map :: "hash_seed \<Rightarrow> int hash_table option \<Rightarrow> string \<times> int \<Rightarrow> int option" where
  "table_map sd t = (\<lambda>(z, n).
     if position_ok z n
     then case t of
            None \<Rightarrow> None
          | Some h \<Rightarrow> (case hash_tab sd h (breakpoint_key z n) of None \<Rightarrow> None | Some d \<Rightarrow> d)
     else None)"

text \<open>Every table entry belongs to one position and carries an identifier of its own.\<close>

definition table_ok :: "hash_seed \<Rightarrow> int \<Rightarrow> int hash_table \<Rightarrow> bool" where
  "table_ok sd lastId h \<longleftrightarrow>
     hash_inv sd h \<and>
     (\<forall>k d. hash_tab sd h k = Some d \<longrightarrow>
        (\<exists>z n i. position_ok z n \<and> k = breakpoint_key z n \<and> d = Some i \<and> i \<le> lastId)) \<and>
     (\<forall>k l i. hash_tab sd h k = Some (Some i) \<longrightarrow> hash_tab sd h l = Some (Some i) \<longrightarrow> k = l)"

definition bp_inv :: "hash_seed \<Rightarrow> interp \<Rightarrow> bool" where
  "bp_inv sd s \<longleftrightarrow> (\<forall>h. paBreakpoints s = Some h \<longrightarrow> table_ok sd (nNextBreakpointId s) h)"

definition bp_map :: "hash_seed \<Rightarrow> interp \<Rightarrow> string \<times> int \<Rightarrow> int option" where
  "bp_map sd s = table_map sd (paBreakpoints s)"

lemma table_okD:
  assumes "table_ok sd lastId h"
  shows "hash_inv sd h"
    and "hash_tab sd h k = Some d \<Longrightarrow> \<exists>z n i. position_ok z n \<and> k = breakpoint_key z n \<and> d = Some i \<and> i \<le> lastId"
    and "hash_tab sd h k = Some (Some i) \<Longrightarrow> hash_tab sd h l = Some (Some i) \<Longrightarrow> k = l"
  using assms unfolding table_ok_def by blast+

lemma table_ok_empty: "table_ok sd lastId hash_empty" "table_map sd (Some hash_empty) = table_map sd None"
  by (auto simp: table_ok_def table_map_def hash.inv_empty hash.tab_empty)

lemma table_ok_set:
  assumes ok: "table_ok sd lastId h" and "hash_inv sd h2" "position_ok z n"
    and tab: "\<And>l. hash_tab sd h2 l = (if l = breakpoint_key z n then Some (Some (lastId + 1)) else hash_tab sd h l)"
  shows "table_ok sd (lastId + 1) h2"
proof -
  have old: "hash_tab sd h l = Some (Some i) \<Longrightarrow> i < lastId + 1" for l i using table_okD(2) [OF ok] by fastforce
  have "\<exists>z n i. position_ok z n \<and> l = breakpoint_key z n \<and> d = Some i \<and> i \<le> lastId + 1"
    if "hash_tab sd h2 l = Some d" for l d
  proof (cases "l = breakpoint_key z n")
    case True
    with that assms(3) show ?thesis by (auto simp: tab)
  next
    case False
    with that have "hash_tab sd h l = Some d" by (simp add: tab)
    then obtain w m i where "position_ok w m" "l = breakpoint_key w m" "d = Some i" "i \<le> lastId"
      using table_okD(2) [OF ok] by blast
    then show ?thesis by (intro exI [of _ w] exI [of _ m] exI [of _ i]) simp
  qed
  moreover have "l = l'" if "hash_tab sd h2 l = Some (Some i)" "hash_tab sd h2 l' = Some (Some i)" for l l' i
    using that table_okD(3) [OF ok, of l i l'] old [of l i] old [of l' i] by (auto simp: tab split: if_splits)
  ultimately show ?thesis using assms(2) unfolding table_ok_def by simp
qed

lemma table_map_set:
  assumes "position_ok z n"
    and tab: "\<And>l. hash_tab sd h2 l = (if l = breakpoint_key z n then Some (Some i) else hash_tab sd h l)"
  shows "table_map sd (Some h2) = (table_map sd (Some h))((z, n) \<mapsto> i)"
proof (rule ext)
  fix p :: "string \<times> int"
  obtain w m where p: "p = (w, m)" by fastforce
  have "breakpoint_key w m = breakpoint_key z n \<longleftrightarrow> w = z \<and> m = n" if "position_ok w m"
    using that assms(1) breakpoint_key_inj [of w m z n] by (auto simp: position_ok_def)
  then show "table_map sd (Some h2) p = ((table_map sd (Some h))((z, n) \<mapsto> i)) p"
    using assms(1) unfolding p by (auto simp: table_map_def tab)
qed

lemma table_remove:
  assumes ok: "table_ok sd lastId h" and hit: "hash_tab sd h k = Some (Some i)"
  shows "table_ok sd lastId (Th8_HashRemove sd h k) \<and>
    table_map sd (Some (Th8_HashRemove sd h k)) = (\<lambda>p. if table_map sd (Some h) p = Some i then None else table_map sd (Some h) p)"
proof -
  obtain h' r where f: "Th8_HashFind sd (True, True) h k (- 1) = (h', r)" by fastforce
  have d: "hash_inv sd h' \<and> hash_tab sd h' = (hash_tab sd h)(k := None)"
    using hash.delete [OF table_okD(1) [OF ok] _ _ f] hit by simp
  have rm: "Th8_HashRemove sd h k = h'" using f by (simp add: Th8_HashRemove_def)
  have uniq: "hash_tab sd h l = Some (Some i) \<Longrightarrow> l = k" for l using hit table_okD(3) [OF ok] by blast
  have "table_ok sd lastId h'"
    using table_okD [OF ok] d unfolding table_ok_def by (simp split: if_splits)
  moreover have "table_map sd (Some h') = (\<lambda>p. if table_map sd (Some h) p = Some i then None else table_map sd (Some h) p)"
  proof (rule ext)
    fix p :: "string \<times> int"
    obtain w m where p: "p = (w, m)" by fastforce
    show "table_map sd (Some h') p = (if table_map sd (Some h) p = Some i then None else table_map sd (Some h) p)"
    proof (cases "breakpoint_key w m = k")
      case True
      with d hit show ?thesis by (simp add: p table_map_def)
    next
      case False
      with uniq have "hash_tab sd h (breakpoint_key w m) \<noteq> Some (Some i)" by blast
      with d False show ?thesis by (auto simp: p table_map_def split: option.split)
    qed
  qed
  ultimately show ?thesis unfolding rm by blast
qed

text \<open>The three operations on the table are updates of the map.\<close>

fun bp_spec :: "bp_op \<Rightarrow> int option \<Rightarrow> (string \<times> int \<Rightarrow> int option) \<Rightarrow> (string \<times> int \<Rightarrow> int option)" where
  "bp_spec (Set_Bp newOk allocs z n) given m = (case given of None \<Rightarrow> m | Some i \<Rightarrow> m((z, n) \<mapsto> i))"
| "bp_spec (Clear_Bp i) given m = (\<lambda>p. if m p = Some i then None else m p)"
| "bp_spec Clear_All_Bps given m = Map.empty"

fun bp_given :: "hash_seed \<Rightarrow> bp_op \<Rightarrow> interp \<Rightarrow> int option" where
  "bp_given sd (Set_Bp newOk allocs z n) s = fst (Th8_SetBreakpoint sd newOk allocs z n s)"
| "bp_given sd _ s = None"

lemma hash_find_create:
  assumes "hash_inv sd h" "Th8_HashFind sd allocs h k 1 = (h', r)"
  shows "hash_inv sd h' \<and> (r = None \<longrightarrow> h' = h) \<and>
    (r \<noteq> None \<longrightarrow> r = Some k \<and> hash_tab sd h' k \<noteq> None \<and> (\<forall>l. l \<noteq> k \<longrightarrow> hash_tab sd h' l = hash_tab sd h l))"
proof (cases "hash_tab sd h k")
  case None
  show ?thesis
  proof (cases "allocs = (True, True)")
    case True
    with None assms hash.create [of sd h k 1 h' r] show ?thesis by auto
  next
    case False
    with None assms hash.create_fail [of sd h k 1 allocs] show ?thesis by simp
  qed
next
  case (Some d)
  with assms hash.find_hit [of sd h k 1 allocs] show ?thesis by auto
qed

lemma set_breakpoint_step:
  assumes inv: "bp_inv sd s" and n: "n < 2 ^ 31" and c: "0 \<le> nNextBreakpointId s" "nNextBreakpointId s + 1 < 2 ^ 31"
    and r_def: "r = Th8_SetBreakpoint sd newOk allocs z n s"
  shows "bp_inv sd (snd r) \<and>
    bp_map sd (snd r) = (case fst r of None \<Rightarrow> bp_map sd s | Some i \<Rightarrow> (bp_map sd s)((z, n) \<mapsto> i))"
proof (cases "position_ok z n \<and> (paBreakpoints s = None \<longrightarrow> newOk)")
  case False
  with n have "r = (None, s)"
    by (auto simp: r_def Th8_SetBreakpoint_def position_ok_def Th8_HashNew_def)
  with inv show ?thesis by simp
next
  case True
  then obtain h where h: "(case paBreakpoints s of None \<Rightarrow> Th8_HashNew newOk | Some h \<Rightarrow> Some h) = Some h"
    and ok: "table_ok sd (nNextBreakpointId s) h" and m: "bp_map sd s = table_map sd (Some h)"
    using inv table_ok_empty
    by (cases "paBreakpoints s") (auto simp: Th8_HashNew_def bp_inv_def bp_map_def)
  obtain h' q where f: "Th8_HashFind sd allocs h (breakpoint_key z n) 1 = (h', q)" by fastforce
  note fc = hash_find_create [OF table_okD(1) [OF ok] f]
  show ?thesis
  proof (cases q)
    case None
    with True f h fc have "r = (None, s\<lparr>paBreakpoints := Some h\<rparr>)"
      by (simp add: r_def Th8_SetBreakpoint_def position_ok_def)
    with ok m show ?thesis by (simp add: bp_inv_def bp_map_def)
  next
    case (Some k)
    define h2 where "h2 = entry_set_data sd h' (breakpoint_key z n) (Some (nNextBreakpointId s + 1))"
    have r: "r = (Some (nNextBreakpointId s + 1),
        s\<lparr>nNextBreakpointId := nNextBreakpointId s + 1, paBreakpoints := Some h2\<rparr>)"
      using True f h fc Some c by (simp add: r_def Th8_SetBreakpoint_def position_ok_def Let_def h2_def)
    have inv2: "hash_inv sd h2" unfolding h2_def using fc by (intro hash.set_inv) simp
    have tab2: "hash_tab sd h2 l =
        (if l = breakpoint_key z n then Some (Some (nNextBreakpointId s + 1)) else hash_tab sd h l)" for l
      unfolding h2_def using fc Some hash.set_tab [of sd h' "breakpoint_key z n"] by auto
    from True table_ok_set [OF ok inv2 _ tab2] table_map_set [OF _ tab2] show ?thesis
      unfolding r by (simp add: bp_inv_def bp_map_def m [unfolded bp_map_def])
  qed
qed

lemma tab_entry:
  assumes inv: "hash_inv sd h"
  shows "hash_tab sd h k = Some d \<longleftrightarrow> (\<exists>p \<in> set (entries h). he_key p = k \<and> he_data p = d)"
proof -
  have 1: "\<exists>p \<in> set (entries h). he_key p = k \<and> he_data p = d" if t: "hash_tab sd h k = Some d" for d
  proof -
    obtain p where "find (\<lambda>p. he_key p = k) (aBucket h ! th8HashKey sd k) = Some p" "he_data p = d"
      using t by (auto simp: hash_tab_def)
    then have p: "p \<in> set (aBucket h ! th8HashKey sd k)" "he_key p = k" "he_data p = d"
      by (auto simp: find_Some_iff)
    moreover have "aBucket h ! th8HashKey sd k \<in> set (aBucket h)"
      using inv th8HashKey_less [of sd k] by (intro nth_mem) (simp add: hash_inv_def)
    ultimately show ?thesis by (auto simp: entries_def)
  qed
  have "d = d'" if "p \<in> set (entries h)" "he_key p = k" "he_data p = d" "hash_tab sd h k = Some d'" for p d'
    using 1 [OF that(4)] that distinct_keys [OF inv] by (auto simp: distinct_map dest: inj_onD)
  moreover have "\<exists>d'. hash_tab sd h k = Some d'" if "p \<in> set (entries h)" "he_key p = k" for p
    using that set_entries_tab [OF inv] by blast
  ultimately show ?thesis using 1 by blast
qed

lemma find_breakpoint_tab:
  assumes ok: "table_ok sd lastId h"
  shows "find_breakpoint i h = Some p \<Longrightarrow> hash_tab sd h (he_key p) = Some (Some i)"
    and "find_breakpoint i h = None \<Longrightarrow> hash_tab sd h k \<noteq> Some (Some i)"
proof -
  note inv = table_okD(1) [OF ok]
  have some: "he_data p \<noteq> None" if "p \<in> set (entries h)" for p
  proof -
    have "hash_tab sd h (he_key p) = Some (he_data p)" using that tab_entry [OF inv] by blast
    from table_okD(2) [OF ok this] show ?thesis by auto
  qed
  show "hash_tab sd h (he_key p) = Some (Some i)" if "find_breakpoint i h = Some p"
  proof -
    have "p \<in> set (entries h)" "(case he_data p of None \<Rightarrow> 0 | Some i \<Rightarrow> i) = i"
      using that by (auto simp: find_breakpoint_def entries_def [symmetric] find_Some_iff)
    moreover from this some [of p] have "he_data p = Some i" by (auto split: option.splits)
    ultimately show ?thesis using tab_entry [OF inv] by blast
  qed
  show "find_breakpoint i h = None \<Longrightarrow> hash_tab sd h k \<noteq> Some (Some i)"
    using tab_entry [OF inv, of k "Some i"]
    by (auto simp: find_breakpoint_def entries_def [symmetric] find_None_iff split: option.splits)
qed

lemma clear_breakpoint_step:
  assumes inv: "bp_inv sd s"
  shows "bp_inv sd (snd (Th8_ClearBreakpoint sd i s)) \<and>
    bp_map sd (snd (Th8_ClearBreakpoint sd i s)) = (\<lambda>p. if bp_map sd s p = Some i then None else bp_map sd s p)"
proof (cases "paBreakpoints s")
  case None
  with inv show ?thesis by (simp add: Th8_ClearBreakpoint_def bp_map_def table_map_def fun_eq_iff)
next
  case (Some h)
  with inv have ok: "table_ok sd (nNextBreakpointId s) h" by (simp add: bp_inv_def)
  show ?thesis
  proof (cases "find_breakpoint i h")
    case None
    with find_breakpoint_tab(2) [OF ok] have "table_map sd (Some h) p \<noteq> Some i" for p
      by (cases p) (auto simp: table_map_def split: option.split)
    with inv Some None show ?thesis by (simp add: Th8_ClearBreakpoint_def bp_map_def)
  next
    case (Some p)
    from find_breakpoint_tab(1) [OF ok Some] table_remove [OF ok]
    show ?thesis unfolding bp_map_def bp_inv_def Th8_ClearBreakpoint_def \<open>paBreakpoints s = Some h\<close>
      using Some by simp
  qed
qed

lemma bp_step:
  assumes "bp_inv sd s" "\<And>newOk allocs z n. opn = Set_Bp newOk allocs z n \<Longrightarrow> n < 2 ^ 31"
    and "0 \<le> nNextBreakpointId s" "nNextBreakpointId s + 1 < 2 ^ 31"
  shows "bp_inv sd (bp_exec sd opn s) \<and> bp_map sd (bp_exec sd opn s) = bp_spec opn (bp_given sd opn s) (bp_map sd s)"
proof (cases opn)
  case (Set_Bp newOk allocs z n)
  with assms set_breakpoint_step [OF assms(1) _ assms(3,4) refl, of n newOk allocs z] show ?thesis by simp
next
  case (Clear_Bp i)
  with clear_breakpoint_step [OF assms(1)] show ?thesis by simp
next
  case Clear_All_Bps
  then show ?thesis by (simp add: Th8_ClearAllBreakpoints_def bp_inv_def bp_map_def table_map_def fun_eq_iff)
qed

lemma debug_event_map:
  assumes "bp_inv sd s" "nStepMode s = 0" "env_line env < 2 ^ 31"
  shows "debug_event sd env s = (if bp_map sd s (env_script env, env_line env) = None then 0 else TH8_DEBUG_BREAKPOINT)"
proof (cases "paBreakpoints s")
  case None
  with assms(2) show ?thesis by (simp add: debug_event_def bp_map_def table_map_def)
next
  case (Some h)
  with assms(1) have ok: "table_ok sd (nNextBreakpointId s) h" by (simp add: bp_inv_def)
  let ?k = "breakpoint_key (env_script env) (env_line env)"
  have "snd (Th8_HashFind sd (True, True) h ?k 0) \<noteq> None \<longleftrightarrow> hash_tab sd h ?k \<noteq> None"
    using hash.find_hit [OF table_okD(1) [OF ok], of ?k 0] hash.find_miss [OF table_okD(1) [OF ok], of ?k 0]
    by (cases "hash_tab sd h ?k") simp_all
  moreover have "(case hash_tab sd h ?k of None \<Rightarrow> None | Some d \<Rightarrow> d) = None \<longleftrightarrow> hash_tab sd h ?k = None"
    using table_okD(2) [OF ok] by (auto split: option.splits)
  ultimately show ?thesis using Some assms(2,3)
    by (auto simp: debug_event_def bp_map_def table_map_def position_ok_def)
qed

lemma set_breakpoint_succeeds:
  assumes "bp_inv sd s" "1 \<le> n" "length z \<le> 506" "0 \<le> nNextBreakpointId s" "nNextBreakpointId s + 1 < 2 ^ 31"
  shows "fst (Th8_SetBreakpoint sd True (True, True) z n s) = Some (nNextBreakpointId s + 1)"
proof -
  obtain h where h: "(case paBreakpoints s of None \<Rightarrow> Th8_HashNew True | Some h \<Rightarrow> Some h) = Some h" "hash_inv sd h"
    using assms(1) table_okD(1) by (cases "paBreakpoints s") (auto simp: Th8_HashNew_def bp_inv_def hash.inv_empty)
  obtain h' q where f: "Th8_HashFind sd (True, True) h (breakpoint_key z n) 1 = (h', q)" by fastforce
  have "q \<noteq> None"
    using f h(2) hash.create [of sd h "breakpoint_key z n" 1 h' q] hash.find_hit [of sd h "breakpoint_key z n" 1]
    by (cases "hash_tab sd h (breakpoint_key z n)") auto
  with f h assms(2-5) show ?thesis by (auto simp: Th8_SetBreakpoint_def Let_def)
qed

fun bp_abs :: "hash_seed \<Rightarrow> bp_op list \<Rightarrow> interp \<Rightarrow> (string \<times> int \<Rightarrow> int option) \<Rightarrow> (string \<times> int \<Rightarrow> int option)" where
  "bp_abs sd [] s m = m"
| "bp_abs sd (opn # ops) s m = bp_abs sd ops (bp_exec sd opn s) (bp_spec opn (bp_given sd opn s) m)"

fun line_fits :: "bp_op \<Rightarrow> bool" where
  "line_fits (Set_Bp newOk allocs z n) = (n < 2 ^ 31)"
| "line_fits _ = True"

lemma bp_exec_next:
  assumes "0 \<le> nNextBreakpointId s" "nNextBreakpointId s + 1 < 2 ^ 31"
  shows "nNextBreakpointId s \<le> nNextBreakpointId (bp_exec sd opn s) \<and>
    nNextBreakpointId (bp_exec sd opn s) \<le> nNextBreakpointId s + 1"
  using assms by (cases opn) (auto simp: Th8_SetBreakpoint_def Th8_ClearBreakpoint_def Th8_ClearAllBreakpoints_def Let_def
      split: option.split prod.split)

lemma bp_run:
  "bp_inv sd s \<Longrightarrow> \<forall>opn \<in> set ops. line_fits opn \<Longrightarrow>
   0 \<le> nNextBreakpointId s \<Longrightarrow> nNextBreakpointId s + int (length ops) < 2 ^ 31 \<Longrightarrow>
   nNextBreakpointId s \<le> nNextBreakpointId (fold (bp_exec sd) ops s) \<and>
   nNextBreakpointId (fold (bp_exec sd) ops s) \<le> nNextBreakpointId s + int (length ops) \<and>
   bp_inv sd (fold (bp_exec sd) ops s) \<and> bp_map sd (fold (bp_exec sd) ops s) = bp_abs sd ops s (bp_map sd s)"
proof (induction ops arbitrary: s)
  case (Cons opn ops)
  have "bp_inv sd (bp_exec sd opn s) \<and> bp_map sd (bp_exec sd opn s) = bp_spec opn (bp_given sd opn s) (bp_map sd s)"
    using Cons.prems by (intro bp_step) auto
  moreover have "nNextBreakpointId s \<le> nNextBreakpointId (bp_exec sd opn s)"
      "nNextBreakpointId (bp_exec sd opn s) \<le> nNextBreakpointId s + 1"
    using Cons.prems(3,4) bp_exec_next [of s sd opn] by auto
  ultimately show ?case using Cons.IH [of "bp_exec sd opn s"] Cons.prems by simp
qed simp

lemma bp_exec_mode [simp]: "nStepMode (bp_exec sd opn s) = nStepMode s"
  by (cases opn) (auto simp: Th8_SetBreakpoint_def Th8_ClearBreakpoint_def Th8_ClearAllBreakpoints_def Let_def
      split: option.split prod.split)

lemma bp_run_mode: "nStepMode (fold (bp_exec sd) ops s) = nStepMode s"
  by (induction ops arbitrary: s) simp_all

text \<open>C16: Breakpoints fire where they are set. Breakpoint identifiers come from a 32-bit counter. As long as it does not
  wrap around (fewer than \<open>2 ^ 31 - 1\<close> identifiers), after any sequence of setting, clearing and clearing all breakpoints
  (with any allocation failures) the check at a script position reports a breakpoint exactly when the abstract
  map from positions to identifiers holds one there: setting one at a line from 1 and a script name of at most
  506 bytes succeeds with the next identifier unless an allocation fails; a set that succeeded binds its own position and no
  other, clearing an identifier unbinds just the position that carries it, and the key of one position never
  collides with another.\<close>

theorem breakpoints_refine:
  assumes "paBreakpoints s = None" "nStepMode s = 0"
    and ids: "0 \<le> nNextBreakpointId s" "nNextBreakpointId s + int (length ops) < 2 ^ 31 - 1"
    and "\<forall>opn \<in> set ops. line_fits opn" "env_line env < 2 ^ 31"
  shows "debug_event sd env (fold (bp_exec sd) ops s) =
    (if bp_abs sd ops s Map.empty (env_script env, env_line env) = None then 0 else TH8_DEBUG_BREAKPOINT) \<and>
    (1 \<le> n \<longrightarrow> length z \<le> 506 \<longrightarrow>
      fst (Th8_SetBreakpoint sd True (True, True) z n (fold (bp_exec sd) ops s)) =
        Some (nNextBreakpointId (fold (bp_exec sd) ops s) + 1))"
proof -
  have "bp_inv sd s" "bp_map sd s = Map.empty" using assms(1)
    by (simp_all add: bp_inv_def bp_map_def table_map_def fun_eq_iff)
  with bp_run [of sd s ops] assms(5) ids have n: "0 \<le> nNextBreakpointId (fold (bp_exec sd) ops s)"
    "nNextBreakpointId (fold (bp_exec sd) ops s) + 1 < 2 ^ 31" and "bp_inv sd (fold (bp_exec sd) ops s)"
    "bp_map sd (fold (bp_exec sd) ops s) = bp_abs sd ops s Map.empty" by simp_all
  with debug_event_map [of sd "fold (bp_exec sd) ops s" env] assms(2,6) show ?thesis
    by (simp add: bp_run_mode set_breakpoint_succeeds [OF _ _ _ n])
qed

theorem breakpoints_refine_witness:
  "debug_event seed_init \<lparr>marker = 0, clock = None, msg_ok = True, env_line = 7, env_depth = 0,
       env_script = ''a.th8'', debug_cb = \<lambda>event s. (TH8_OK, s)\<rparr>
     (fold (bp_exec seed_init) [Set_Bp True (True, True) ''a.th8'' 7, Clear_All_Bps] interp_init) = 0"
  (is "debug_event _ ?env (fold _ ?ops _) = _")
proof -
  have "bp_abs seed_init ?ops interp_init Map.empty (env_script ?env, env_line ?env) = None" by simp
  then show ?thesis
    using breakpoints_refine [of interp_init ?ops ?env seed_init, THEN conjunct1] by (simp add: interp_init_def)
qed

end
