(* ===== verification/Th8_Trampoline.thy ===== *)
theory Th8_Trampoline
  imports Th8_Cancel
begin

text \<open>
  Non-recursive evaluation (\<open>src/src/th8_core.c\<close>): the chain of continuation callbacks, the trampoline
  \<open>th8RunCallbacks\<close> that drains it to a bottom marker, the blocking evaluation \<open>th8EvalCommon\<close> around it with
  its frame switch, detaching of suspended callbacks and cancel cleanup, and \<open>Th8_Thaw\<close>.

  A callback node is its address and its payload; the chain is the list of nodes, top first. A bottom marker
  is a node pointer, so the loop compares the address at the top of the chain with the marker's. What a
  payload does when it is invoked is the argument \<open>xProc\<close>, an arbitrary state transformer that receives and
  returns a return code; what \<open>th8EvalLocal\<close> pushes is an argument in the same way. A frame pointer is the
  chain of frame addresses that starts there. \<open>ok\<close> says whether a foreign cancel message can be copied.

  The trampoline may run forever; it is a partial function whose value is nothing when it does not return or
  when it would pop an empty chain.

  The theorems: a run to a bottom marker leaves exactly the chain below the marker; draining in two stages is
  draining at once; an unwinding cancellation ends an evaluation whatever its callbacks would go on to do; and a
  freeze that finds an error in flight drops it, so that the thaw resumes with success.
\<close>

section \<open>State\<close>

type_synonym 'cb chain = "(addr \<times> 'cb) list"

record 'cb nre = cancel +
  pCallbacks :: "'cb chain"
  pSuspendedCallbacks :: "'cb chain"
  pFrame :: "addr list"
  pSavedFrame :: "addr list"
  pDownlevelFrame :: "addr list"
  nEvalDepth :: int
  bResultBuildFailed :: bool

type_synonym 'cb proc = "'cb \<Rightarrow> int \<Rightarrow> 'cb nre \<Rightarrow> int \<times> 'cb nre"

definition chain_top :: "'cb chain \<Rightarrow> addr option" where
  "chain_top cbs = (case cbs of [] \<Rightarrow> None | (a, _) # _ \<Rightarrow> Some a)"

definition above :: "addr option \<Rightarrow> 'cb chain \<Rightarrow> 'cb chain" where
  "above pBottom cbs = takeWhile (\<lambda>(a, _). Some a \<noteq> pBottom) cbs"

definition from_bottom :: "addr option \<Rightarrow> 'cb chain \<Rightarrow> 'cb chain" where
  "from_bottom pBottom cbs = dropWhile (\<lambda>(a, _). Some a \<noteq> pBottom) cbs"

section \<open>The trampoline\<close>

definition Th8_NRAddCallback :: "addr option \<Rightarrow> 'cb \<Rightarrow> 'cb nre \<Rightarrow> int \<times> 'cb nre" where
  "Th8_NRAddCallback ans cb s =
     (case ans of
        None \<Rightarrow> (TH8_ERROR, s\<lparr>bResultBuildFailed := True, zResult := ''out of memory''\<rparr>)
      | Some a \<Rightarrow> (TH8_OK, s\<lparr>pCallbacks := (a, cb) # pCallbacks s\<rparr>))"

text \<open>The check for cancellation between two callbacks: stop with a result, or go on with a return code.\<close>

definition cancel_phase ::
    "bool \<Rightarrow> addr option \<Rightarrow> int \<Rightarrow> 'cb nre \<Rightarrow> (int \<times> 'cb nre) + (int \<times> 'cb nre)" where
  "cancel_phase ok pBottom rc s =
     (if th8CheckCancel s then
        (case Th8_IsBeingUnwound ok s of
           (True, s) \<Rightarrow>
             (case Th8_IsCanceled ok s of
                (rc, s) \<Rightarrow> Inl (rc, s\<lparr>pCallbacks := from_bottom pBottom (pCallbacks s)\<rparr>))
         | (False, s) \<Rightarrow> (case Th8_IsCanceled ok s of (rc, s) \<Rightarrow> Inr (rc, th8ClearCancel s)))
      else Inr (rc, s))"

partial_function (option) th8RunCallbacks ::
    "'cb proc \<Rightarrow> bool \<Rightarrow> addr option \<Rightarrow> int \<Rightarrow> 'cb nre \<Rightarrow> (int \<times> 'cb nre) option" where
  [code]: "th8RunCallbacks xProc ok pBottom rc s =
     (if chain_top (pCallbacks s) = pBottom then Some (rc, s)
      else
        (case cancel_phase ok pBottom rc s of
           Inl r \<Rightarrow> Some r
         | Inr (rc, s) \<Rightarrow>
             if Th8_IsSuspended s then Some (TH8_SUSPEND, s)
             else
               (case pCallbacks s of
                  [] \<Rightarrow> None
                | (a, cb) # rest \<Rightarrow>
                    (case xProc cb rc (s\<lparr>pCallbacks := rest\<rparr>) of
                       (rc, s) \<Rightarrow>
                         if rc = TH8_YIELD then Some (rc, s) else th8RunCallbacks xProc ok pBottom rc s))))"

definition th8EvalTrampoline :: "'cb proc \<Rightarrow> bool \<Rightarrow> 'cb nre \<Rightarrow> (int \<times> 'cb nre) option" where
  "th8EvalTrampoline xProc ok s = th8RunCallbacks xProc ok None TH8_OK s"

section \<open>Blocking evaluation\<close>

text \<open>
  A positive frame identifier counts from the outermost frame; the code turns it into an offset from the current
  one and keeps the offset in the same variable. An identifier that is not positive is such an offset already.
\<close>

definition frame_offset :: "int \<Rightarrow> addr list \<Rightarrow> int" where
  "frame_offset iFrame frames = (if iFrame > 0 then - int (length frames) + iFrame else iFrame)"

definition target_frame :: "int \<Rightarrow> addr list \<Rightarrow> addr list" where
  "target_frame iFrame frames = drop (nat (- frame_offset iFrame frames)) frames"

definition enter_frame :: "int \<Rightarrow> 'cb nre \<Rightarrow> 'cb nre" where
  "enter_frame iFrame s =
     (if iFrame \<noteq> 0 then s\<lparr>pDownlevelFrame := pFrame s, pFrame := target_frame iFrame (pFrame s)\<rparr> else s)"

definition detach_suspended :: "addr option \<Rightarrow> int \<Rightarrow> addr list \<Rightarrow> 'cb nre \<Rightarrow> 'cb nre" where
  "detach_suspended pBottom rc savedFrame s =
     (if (rc = TH8_SUSPEND \<or> rc = TH8_YIELD) \<and> chain_top (pCallbacks s) \<noteq> pBottom
      then s\<lparr>pSuspendedCallbacks := above pBottom (pCallbacks s),
             pCallbacks := from_bottom pBottom (pCallbacks s), pSavedFrame := savedFrame\<rparr>
      else s)"

definition eval_epilogue :: "int \<Rightarrow> addr list \<Rightarrow> int \<Rightarrow> bool \<Rightarrow> int \<Rightarrow> 'cb nre \<Rightarrow> int \<times> 'cb nre" where
  "eval_epilogue iFrame savedFrame nSavedDepth savedBuildFailed rc s =
     (let s = (if rc \<noteq> TH8_SUSPEND \<and> rc \<noteq> TH8_YIELD
               then (if iFrame \<noteq> 0 then s\<lparr>pDownlevelFrame := []\<rparr> else s)\<lparr>pFrame := savedFrame\<rparr>
               else s);
          s = (if th8CheckCancel s
               then (let s = s\<lparr>nEvalDepth := nSavedDepth\<rparr> in if nSavedDepth = 0 then th8ClearCancel s else s)
               else s);
          rc = (if rc = TH8_RETURN \<and> nSavedDepth = 0 then TH8_OK else rc);
          (rc, s) = (if rc = TH8_OK \<and> bResultBuildFailed s then (TH8_ERROR, s\<lparr>zResult := ''out of memory''\<rparr>)
                     else (rc, s))
      in (rc, s\<lparr>bResultBuildFailed := savedBuildFailed\<rparr>))"

definition th8EvalCommon ::
    "'cb proc \<Rightarrow> ('cb nre \<Rightarrow> int \<times> 'cb nre) \<Rightarrow> bool \<Rightarrow> int \<Rightarrow> 'cb nre \<Rightarrow> (int \<times> 'cb nre) option" where
  "th8EvalCommon xProc evalLocal ok iFrame s =
     (let savedFrame = pFrame s; nSavedDepth = nEvalDepth s
      in if iFrame \<noteq> 0 \<and> target_frame iFrame (pFrame s) = [] then Some (TH8_ERROR, s\<lparr>zResult := ''no such frame''\<rparr>)
         else
           (let iOffset = frame_offset iFrame (pFrame s);
                s = enter_frame iFrame s;
                pBottom = chain_top (pCallbacks s);
                savedBuildFailed = bResultBuildFailed s
            in case evalLocal (s\<lparr>bResultBuildFailed := False\<rparr>) of
                 (rc, s) \<Rightarrow>
                   (case (if chain_top (pCallbacks s) \<noteq> pBottom then th8RunCallbacks xProc ok pBottom rc s
                          else Some (rc, s)) of
                      None \<Rightarrow> None
                    | Some (rc, s) \<Rightarrow>
                        Some (eval_epilogue iOffset savedFrame nSavedDepth savedBuildFailed rc
                                (detach_suspended pBottom rc savedFrame s)))))"

definition Th8_Thaw :: "'cb proc \<Rightarrow> bool \<Rightarrow> 'cb nre \<Rightarrow> (int \<times> 'cb nre) option" where
  "Th8_Thaw xProc ok s =
     (let s = s\<lparr>bSuspended := int_cmp_xchg (bSuspended s) 0 1\<rparr>
      in if pSuspendedCallbacks s = [] then Some (TH8_OK, s)
         else
           (let saved = pCallbacks s
            in case th8RunCallbacks xProc ok None TH8_OK
                      (s\<lparr>pCallbacks := pSuspendedCallbacks s, pSuspendedCallbacks := []\<rparr>) of
                 None \<Rightarrow> None
               | Some (rc, s) \<Rightarrow>
                   (let s = s\<lparr>pCallbacks := saved\<rparr>
                    in Some (rc, if pSavedFrame s \<noteq> [] then s\<lparr>pFrame := pSavedFrame s, pSavedFrame := []\<rparr> else s))))"

section \<open>What the cancellation check keeps\<close>

lemma nre_adopt [simp]:
  fixes s :: "'cb nre"
  shows "pCallbacks (th8CancelReqAdopt ok s) = pCallbacks s" "nCancelReq (th8CancelReqAdopt ok s) = nCancelReq s"
    "bSuspended (th8CancelReqAdopt ok s) = bSuspended s"
  by (simp_all add: th8CancelReqAdopt_def th8CancelMsgXchg_def th8CancelMsgFree_def adopt_message_def Let_def
      split: option.split)

lemma nre_clear [simp]:
  fixes s :: "'cb nre"
  shows "pCallbacks (th8ClearCancel s) = pCallbacks s" "\<not> th8CheckCancel (th8ClearCancel s)"
  by (simp_all add: th8ClearCancel_def th8CancelReqClear_def th8CancelMsgXchg_def th8CancelMsgFree_def
      th8CheckCancel_def split: option.split)

lemma nre_checks:
  fixes s :: "'cb nre"
  shows "pCallbacks (snd (Th8_IsCanceled ok s)) = pCallbacks s"
    "fst (Th8_IsCanceled ok s) = (if th8CheckCancel s then TH8_ERROR else TH8_OK)"
    "pCallbacks (snd (Th8_IsBeingUnwound ok s)) = pCallbacks s"
    "nCancelReq (snd (Th8_IsBeingUnwound ok s)) = nCancelReq s"
    "th8CheckCancel (snd (Th8_IsBeingUnwound ok s)) = th8CheckCancel s"
    "nCancelReq (snd (Th8_IsCanceled ok s)) = nCancelReq s"
  by (simp_all add: Th8_IsCanceled_def Th8_IsBeingUnwound_def th8AdoptCancelRequest_def th8CheckCancel_def Let_def)

lemma cancel_phase_Inr:
  assumes "cancel_phase ok b rc s = Inr (rc', s')"
  shows "pCallbacks s' = pCallbacks s"
proof (cases "th8CheckCancel s")
  case True
  then obtain s1 where "Th8_IsBeingUnwound ok s = (False, s1)" "s' = th8ClearCancel (snd (Th8_IsCanceled ok s1))"
    using assms by (auto simp: cancel_phase_def split: prod.splits bool.splits)
  then show ?thesis using nre_checks(3) [of ok s] by (simp add: nre_checks(1))
qed (use assms in \<open>simp add: cancel_phase_def\<close>)

lemma cancel_phase_Inl:
  assumes "cancel_phase ok b rc s = Inl (rc', s')"
  shows "rc' = TH8_ERROR \<and> pCallbacks s' = from_bottom b (pCallbacks s) \<and> th8CheckCancel s \<and> th8CheckCancel s'"
proof -
  obtain s1 where u: "th8CheckCancel s" "Th8_IsBeingUnwound ok s = (True, s1)"
    and r: "rc' = fst (Th8_IsCanceled ok s1)" "pCallbacks s' = from_bottom b (pCallbacks (snd (Th8_IsCanceled ok s1)))"
      "nCancelReq s' = nCancelReq (snd (Th8_IsCanceled ok s1))"
    using assms by (auto simp: cancel_phase_def split: if_splits prod.splits bool.splits)
  have "th8CheckCancel s1" "pCallbacks s1 = pCallbacks s" using u nre_checks [of ok s] by simp_all
  with u r show ?thesis by (simp add: nre_checks th8CheckCancel_def)
qed

section \<open>Runs of the trampoline\<close>

text \<open>The iterations of the loop as rules; every run that returns is one of these.\<close>

inductive nre_run :: "'cb proc \<Rightarrow> bool \<Rightarrow> addr option \<Rightarrow> int \<Rightarrow> 'cb nre \<Rightarrow> int \<times> 'cb nre \<Rightarrow> bool"
  for xProc ok b where
  bottom: "chain_top (pCallbacks s) = b \<Longrightarrow> nre_run xProc ok b rc s (rc, s)"
| unwound: "chain_top (pCallbacks s) \<noteq> b \<Longrightarrow> cancel_phase ok b rc s = Inl r \<Longrightarrow> nre_run xProc ok b rc s r"
| suspended: "chain_top (pCallbacks s) \<noteq> b \<Longrightarrow> cancel_phase ok b rc s = Inr (rc1, s1) \<Longrightarrow> Th8_IsSuspended s1 \<Longrightarrow>
    nre_run xProc ok b rc s (TH8_SUSPEND, s1)"
| yielded: "chain_top (pCallbacks s) \<noteq> b \<Longrightarrow> cancel_phase ok b rc s = Inr (rc1, s1) \<Longrightarrow> \<not> Th8_IsSuspended s1 \<Longrightarrow>
    pCallbacks s1 = (a, cb) # rest \<Longrightarrow> xProc cb rc1 (s1\<lparr>pCallbacks := rest\<rparr>) = (TH8_YIELD, s2) \<Longrightarrow>
    nre_run xProc ok b rc s (TH8_YIELD, s2)"
| invoked: "chain_top (pCallbacks s) \<noteq> b \<Longrightarrow> cancel_phase ok b rc s = Inr (rc1, s1) \<Longrightarrow> \<not> Th8_IsSuspended s1 \<Longrightarrow>
    pCallbacks s1 = (a, cb) # rest \<Longrightarrow> xProc cb rc1 (s1\<lparr>pCallbacks := rest\<rparr>) = (rc2, s2) \<Longrightarrow> rc2 \<noteq> TH8_YIELD \<Longrightarrow>
    nre_run xProc ok b rc2 s2 r \<Longrightarrow> nre_run xProc ok b rc s r"

lemma run_complete: "nre_run xProc ok b rc s r \<Longrightarrow> th8RunCallbacks xProc ok b rc s = Some r"
  by (induction rule: nre_run.induct) (subst th8RunCallbacks.simps, simp)+

lemma run_sound:
  assumes "th8RunCallbacks xProc ok b rc s = Some r"
  shows "nre_run xProc ok b rc s r"
proof (rule th8RunCallbacks.raw_induct [where P = nre_run, OF _ assms], goal_cases)
  case (1 f xProc ok b rc s r)
  show ?case
  proof (cases "chain_top (pCallbacks s) = b")
    case True
    with 1(2) show ?thesis by (auto intro: nre_run.bottom)
  next
    case top: False
    show ?thesis
    proof (cases "cancel_phase ok b rc s")
      case (Inl r')
      with 1(2) top show ?thesis by (auto intro: nre_run.unwound)
    next
      case (Inr c)
      obtain rc1 s1 where c: "c = (rc1, s1)" by fastforce
      show ?thesis
      proof (cases "Th8_IsSuspended s1")
        case True
        with 1(2) top Inr c show ?thesis by (auto intro: nre_run.suspended)
      next
        case False
        with 1(2) top Inr c obtain a cb rest rc2 s2 where n: "pCallbacks s1 = (a, cb) # rest"
          "xProc cb rc1 (s1\<lparr>pCallbacks := rest\<rparr>) = (rc2, s2)"
          "(if rc2 = TH8_YIELD then Some (rc2, s2) else f xProc ok b rc2 s2) = Some r"
          by (auto split: list.splits prod.splits)
        show ?thesis
        proof (cases "rc2 = TH8_YIELD")
          case True
          with n(3) have "r = (TH8_YIELD, s2)" by simp
          with nre_run.yielded [where xProc = xProc, OF top Inr [unfolded c] False n(1) n(2) [unfolded True]] show ?thesis by simp
        next
          case nyield: False
          with n(3) 1(1) have "nre_run xProc ok b rc2 s2 r" by simp
          with nre_run.invoked [where xProc = xProc, OF top Inr [unfolded c] False n(1,2) nyield] show ?thesis .
        qed
      qed
    qed
  qed
qed

lemma run_iff: "th8RunCallbacks xProc ok b rc s = Some r \<longleftrightarrow> nre_run xProc ok b rc s r"
  using run_complete run_sound by blast

section \<open>The bottom marker\<close>

text \<open>
  Callbacks keep the chain they find and may push new nodes on it, at addresses that the chain does not use.
\<close>

definition pushes :: "'cb proc \<Rightarrow> bool" where
  "pushes xProc \<longleftrightarrow>
     (\<forall>cb rc s. \<exists>new. pCallbacks (snd (xProc cb rc s)) = new @ pCallbacks s \<and>
        fst ` set new \<inter> fst ` set (pCallbacks s) = {})"

definition above_bottom :: "'cb chain \<Rightarrow> 'cb chain \<Rightarrow> bool" where
  "above_bottom pre low \<longleftrightarrow> chain_top low \<notin> Some ` fst ` set pre"

lemma top_neq_bottom: "above_bottom pre low \<Longrightarrow> chain_top (pre @ low) = chain_top low \<longleftrightarrow> pre = []"
  by (cases pre) (auto simp: above_bottom_def chain_top_def)

lemma from_bottom_append: "above_bottom pre low \<Longrightarrow> from_bottom (chain_top low) (pre @ low) = low"
proof (induction pre)
  case Nil
  then show ?case by (cases low) (auto simp: from_bottom_def chain_top_def)
qed (auto simp: from_bottom_def above_bottom_def)

lemma above_append: "above_bottom pre low \<Longrightarrow> above (chain_top low) (pre @ low) = pre"
proof (induction pre)
  case Nil
  then show ?case by (cases low) (auto simp: above_def chain_top_def)
qed (auto simp: above_def above_bottom_def)

lemma invoke_above:
  assumes "pushes xProc" "pCallbacks s1 = pre @ low" "above_bottom pre low" "pre \<noteq> []"
    and "pCallbacks s1 = (a, cb) # rest" "xProc cb rc1 (s1\<lparr>pCallbacks := rest\<rparr>) = (rc2, s2)"
  obtains pre' where "pCallbacks s2 = pre' @ low" "above_bottom pre' low"
proof -
  obtain pre0 where pre0: "pre = (a, cb) # pre0" "rest = pre0 @ low" using assms(2,4,5) by (cases pre) auto
  obtain new where new: "pCallbacks s2 = new @ rest" "fst ` set new \<inter> fst ` set rest = {}"
    using assms(1,6) unfolding pushes_def by (metis nre.select_convs(1) nre.surjective nre.update_convs(1) snd_conv)
  have "above_bottom (new @ pre0) low"
  proof (cases low)
    case Nil
    then show ?thesis by (auto simp: above_bottom_def chain_top_def)
  next
    case (Cons q low')
    then have "fst q \<in> fst ` set rest" using pre0(2) by auto
    then have "fst q \<notin> fst ` set new" using new(2) by blast
    with assms(3) pre0(1) Cons show ?thesis by (cases q) (auto simp: above_bottom_def chain_top_def image_Un)
  qed
  with new(1) pre0(2) that [of "new @ pre0"] show thesis by simp
qed

lemma run_to_bottom:
  assumes "nre_run xProc ok b rc s r" and "pushes xProc"
  shows "pCallbacks s = pre @ low \<Longrightarrow> above_bottom pre low \<Longrightarrow> b = chain_top low \<Longrightarrow>
    \<exists>pre'. pCallbacks (snd r) = pre' @ low \<and> above_bottom pre' low \<and>
      (fst r \<noteq> TH8_SUSPEND \<and> fst r \<noteq> TH8_YIELD \<longrightarrow> pre' = [])"
  using assms
proof (induction arbitrary: pre rule: nre_run.induct)
  case (bottom s rc)
  then show ?case by (metis append_self_conv2 snd_conv top_neq_bottom)
next
  case (unwound s rc r)
  then have "pCallbacks (snd r) = low" using cancel_phase_Inl [of ok b rc s "fst r" "snd r"] by (simp add: from_bottom_append)
  then show ?case by (intro exI [of _ "[]"]) (simp add: above_bottom_def)
next
  case (suspended s rc rc1 s1)
  then show ?case using cancel_phase_Inr by (metis fst_conv snd_conv)
next
  case (yielded s rc rc1 s1 a cb rest s2)
  then have "pre \<noteq> []" "pCallbacks s1 = pre @ low" using cancel_phase_Inr [OF yielded(2)] by auto
  with yielded obtain pre' where "pCallbacks s2 = pre' @ low" "above_bottom pre' low"
    using invoke_above [of xProc s1 pre low] by blast
  then show ?case by auto
next
  case (invoked s rc rc1 s1 a cb rest rc2 s2 r)
  then have "pre \<noteq> []" "pCallbacks s1 = pre @ low" using cancel_phase_Inr [OF invoked(2)] by auto
  with invoked obtain pre' where "pCallbacks s2 = pre' @ low" "above_bottom pre' low"
    using invoke_above [of xProc s1 pre low] by blast
  with invoked show ?case by blast
qed

section \<open>Stages\<close>

text \<open>
  Draining to a marker and then to a lower one is draining to the lower one at once, unless the first stage
  was stopped by suspension, a yield or unwinding.
\<close>

lemma cancel_phase_marker:
  "cancel_phase ok b rc s = Inr (rc1, s1) \<Longrightarrow> cancel_phase ok b' rc s = Inr (rc1, s1)"
  by (auto simp: cancel_phase_def split: if_splits prod.splits bool.splits)

lemma run_stages:
  assumes "nre_run xProc ok b rc s r" and "pushes xProc"
  shows "pCallbacks s = pre @ mid @ low \<Longrightarrow> b = chain_top (mid @ low) \<Longrightarrow> b' = chain_top low \<Longrightarrow>
    above_bottom pre (mid @ low) \<Longrightarrow> above_bottom (pre @ mid) low \<Longrightarrow>
    pCallbacks (snd r) = mid @ low \<Longrightarrow> \<not> th8CheckCancel (snd r) \<Longrightarrow> fst r \<noteq> TH8_SUSPEND \<Longrightarrow> fst r \<noteq> TH8_YIELD \<Longrightarrow>
    nre_run xProc ok b' (fst r) (snd r) r' \<Longrightarrow> nre_run xProc ok b' rc s r'"
  using assms
proof (induction arbitrary: pre rule: nre_run.induct)
  case (unwound s rc r)
  have "th8CheckCancel (snd r)" using cancel_phase_Inl [of ok b rc s "fst r" "snd r"] unwound(2) by simp
  with unwound show ?case by simp
next
  case (invoked s rc rc1 s1 a cb rest rc2 s2 r)
  then have pre: "pre \<noteq> []" "pCallbacks s1 = pre @ mid @ low" using cancel_phase_Inr [OF invoked(2)] by auto
  obtain pre1 where pre1: "pCallbacks s2 = pre1 @ mid @ low" "above_bottom pre1 (mid @ low)"
    using invoke_above [OF invoked.prems(11) pre(2) invoked.prems(4) pre(1) invoked.hyps(4,5)] .
  obtain pre2 where "pCallbacks s2 = pre2 @ low" "above_bottom pre2 low"
    using invoke_above [OF invoked.prems(11) _ invoked.prems(5) _ invoked.hyps(4,5)] pre by auto
  with pre1 have "above_bottom (pre1 @ mid) low" by simp
  with pre1 invoked have "nre_run xProc ok b' rc2 s2 r'" by blast
  moreover have "chain_top (pCallbacks s) \<noteq> b'"
    using top_neq_bottom [of "pre @ mid" low] pre(1) invoked.prems(1,3,5) by simp
  ultimately show ?case
    using cancel_phase_marker [OF invoked.hyps(2)] invoked.hyps(3-6) by (blast intro: nre_run.invoked)
qed simp_all

section \<open>Runs inside an evaluation\<close>

text \<open>Whole iterations of the loop: from a code and a state to the code and the state before a later iteration.\<close>

inductive nre_steps :: "'cb proc \<Rightarrow> bool \<Rightarrow> addr option \<Rightarrow> int \<Rightarrow> 'cb nre \<Rightarrow> int \<Rightarrow> 'cb nre \<Rightarrow> bool"
  for xProc ok b where
  here: "nre_steps xProc ok b rc s rc s"
| step: "chain_top (pCallbacks s) \<noteq> b \<Longrightarrow> cancel_phase ok b rc s = Inr (rc1, s1) \<Longrightarrow> \<not> Th8_IsSuspended s1 \<Longrightarrow>
    pCallbacks s1 = (a, cb) # rest \<Longrightarrow> xProc cb rc1 (s1\<lparr>pCallbacks := rest\<rparr>) = (rc2, s2) \<Longrightarrow> rc2 \<noteq> TH8_YIELD \<Longrightarrow>
    nre_steps xProc ok b rc2 s2 rc' s' \<Longrightarrow> nre_steps xProc ok b rc s rc' s'"

lemma calm_step:
  assumes "\<not> th8CheckCancel s" "\<not> Th8_IsSuspended s" "pCallbacks s = (a, cb) # rest" "Some a \<noteq> b"
    and "xProc cb rc (s\<lparr>pCallbacks := rest\<rparr>) = (rc2, s2)" "rc2 \<noteq> TH8_YIELD" "nre_steps xProc ok b rc2 s2 rc' s'"
  shows "nre_steps xProc ok b rc s rc' s'"
  by (rule nre_steps.step [OF _ _ assms(2,3,5-7)]) (use assms(1,3,4) in \<open>simp_all add: chain_top_def cancel_phase_def\<close>)

lemma steps_run: "nre_steps xProc ok b rc s rc' s' \<Longrightarrow> nre_run xProc ok b rc' s' r \<Longrightarrow> nre_run xProc ok b rc s r"
  by (induction rule: nre_steps.induct) (auto intro: nre_run.invoked)

lemma steps_not_bottom:
  "nre_steps xProc ok b rc s rc' s' \<Longrightarrow> chain_top (pCallbacks s') \<noteq> b \<Longrightarrow> chain_top (pCallbacks s) \<noteq> b"
  by (induction rule: nre_steps.induct) auto

lemma steps_above:
  assumes "nre_steps xProc ok (chain_top low) rc s rc' s'" "pushes xProc"
  shows "pCallbacks s = pre @ low \<Longrightarrow> above_bottom pre low \<Longrightarrow> \<exists>pre'. pCallbacks s' = pre' @ low \<and> above_bottom pre' low"
  using assms
proof (induction arbitrary: pre rule: nre_steps.induct)
  case (step s rc rc1 s1 a cb rest rc2 s2 rc' s')
  then have "pre \<noteq> []" "pCallbacks s1 = pre @ low" using cancel_phase_Inr [OF step(2)] by auto
  with step obtain pre' where "pCallbacks s2 = pre' @ low" "above_bottom pre' low"
    using invoke_above [of xProc s1 pre low] by blast
  with step show ?case by blast
qed blast

lemma eval_common_steps:
  assumes "iFrame = 0 \<or> target_frame iFrame (pFrame s) \<noteq> []"
    and "evalLocal ((enter_frame iFrame s)\<lparr>bResultBuildFailed := False\<rparr>) = (rc0, s0)"
    and "nre_steps xProc ok (chain_top (pCallbacks s)) rc0 s0 rc u" "chain_top (pCallbacks u) \<noteq> chain_top (pCallbacks s)"
    and "nre_run xProc ok (chain_top (pCallbacks s)) rc u (rc1, s1)"
  shows "th8EvalCommon xProc evalLocal ok iFrame s =
    Some (eval_epilogue (frame_offset iFrame (pFrame s)) (pFrame s) (nEvalDepth s) (bResultBuildFailed s) rc1
      (detach_suspended (chain_top (pCallbacks s)) rc1 (pFrame s) s1))"
proof -
  have "th8RunCallbacks xProc ok (chain_top (pCallbacks s)) rc0 s0 = Some (rc1, s1)"
    using steps_run [OF assms(3,5)] by (simp add: run_iff)
  moreover have "pCallbacks (enter_frame iFrame s) = pCallbacks s" "bResultBuildFailed (enter_frame iFrame s) = bResultBuildFailed s"
    by (simp_all add: enter_frame_def)
  ultimately show ?thesis using assms(1,2) steps_not_bottom [OF assms(3,4)] by (auto simp: th8EvalCommon_def Let_def)
qed

section \<open>Properties\<close>

lemma epilogue_keeps:
  "pCallbacks (snd (eval_epilogue i f d bf rc s)) = pCallbacks s"
  "rc \<noteq> TH8_SUSPEND \<Longrightarrow> rc \<noteq> TH8_YIELD \<Longrightarrow> pFrame (snd (eval_epilogue i f d bf rc s)) = f"
proof -
  have c: "pFrame (th8ClearCancel t) = pFrame t" for t :: "'a nre"
    by (simp add: th8ClearCancel_def th8CancelReqClear_def th8CancelMsgXchg_def th8CancelMsgFree_def split: option.split)
  show "pCallbacks (snd (eval_epilogue i f d bf rc s)) = pCallbacks s"
    by (simp add: eval_epilogue_def Let_def)
  show "rc \<noteq> TH8_SUSPEND \<Longrightarrow> rc \<noteq> TH8_YIELD \<Longrightarrow> pFrame (snd (eval_epilogue i f d bf rc s)) = f"
    by (simp add: eval_epilogue_def Let_def c)
qed

lemma epilogue_unwound:
  assumes "th8CheckCancel s"
  shows "fst (eval_epilogue i f d bf TH8_ERROR s) = TH8_ERROR" "nEvalDepth (snd (eval_epilogue i f d bf TH8_ERROR s)) = d"
    "th8CheckCancel (snd (eval_epilogue i f d bf TH8_ERROR s)) \<longleftrightarrow> d \<noteq> 0"
proof -
  have c: "nEvalDepth (th8ClearCancel t) = nEvalDepth t" for t :: "'a nre"
    by (simp add: th8ClearCancel_def th8CancelReqClear_def th8CancelMsgXchg_def th8CancelMsgFree_def split: option.split)
  have r: "th8CheckCancel (t\<lparr>bResultBuildFailed := x\<rparr>) = th8CheckCancel t" "th8CheckCancel (t\<lparr>nEvalDepth := n\<rparr>) = th8CheckCancel t"
    "th8CheckCancel (t\<lparr>pFrame := y\<rparr>) = th8CheckCancel t" "th8CheckCancel (t\<lparr>pDownlevelFrame := y\<rparr>) = th8CheckCancel t"
    for t :: "'a nre" and x y n by (simp_all add: th8CheckCancel_def)
  show "fst (eval_epilogue i f d bf TH8_ERROR s) = TH8_ERROR" by (simp add: eval_epilogue_def Let_def)
  show "nEvalDepth (snd (eval_epilogue i f d bf TH8_ERROR s)) = d" using assms by (simp add: eval_epilogue_def Let_def c r)
  show "th8CheckCancel (snd (eval_epilogue i f d bf TH8_ERROR s)) \<longleftrightarrow> d \<noteq> 0" using assms by (simp add: eval_epilogue_def Let_def r)
qed

lemma epilogue_code:
  "fst (eval_epilogue i f d bf rc s) \<noteq> TH8_SUSPEND \<Longrightarrow> rc \<noteq> TH8_SUSPEND"
  "fst (eval_epilogue i f d bf rc s) \<noteq> TH8_YIELD \<Longrightarrow> rc \<noteq> TH8_YIELD"
  by (auto simp: eval_epilogue_def Let_def)

lemma detach_keeps:
  assumes "pCallbacks s = pre @ low" "above_bottom pre low" "rc \<noteq> TH8_SUSPEND \<and> rc \<noteq> TH8_YIELD \<longrightarrow> pre = []"
  shows "pCallbacks (detach_suspended (chain_top low) rc f s) = low"
  using assms top_neq_bottom [OF assms(2)] from_bottom_append [OF assms(2)] by (auto simp: detach_suspended_def)

lemma disjoint_above: "fst ` set new \<inter> fst ` set low = {} \<Longrightarrow> above_bottom new low"
  by (cases low) (force simp: above_bottom_def chain_top_def)+

text \<open>C17: A blocking evaluation is balanced. If the evaluator and the callbacks only push on the callback chain, then
  whenever \<open>th8EvalCommon\<close> returns, with any code, the chain is the one it started from, whatever was pushed,
  invoked, discarded by cancellation or detached by a suspension or yield inside; and with any code but
  \<open>TH8_SUSPEND\<close> and \<open>TH8_YIELD\<close> it is back in the frame it started from.\<close>

theorem eval_balanced:
  assumes "th8EvalCommon xProc evalLocal ok iFrame s = Some (rc, s')"
    and push: "pushes xProc"
    and local: "\<And>t. \<exists>new. pCallbacks (snd (evalLocal t)) = new @ pCallbacks t \<and>
        fst ` set new \<inter> fst ` set (pCallbacks t) = {}"
  shows "pCallbacks s' = pCallbacks s \<and> (rc \<noteq> TH8_SUSPEND \<and> rc \<noteq> TH8_YIELD \<longrightarrow> pFrame s' = pFrame s)"
proof (cases "iFrame \<noteq> 0 \<and> target_frame iFrame (pFrame s) = []")
  case True
  with assms(1) show ?thesis by (auto simp: th8EvalCommon_def Let_def)
next
  case False
  define t where "t = (enter_frame iFrame s)\<lparr>bResultBuildFailed := False\<rparr>"
  have t: "pCallbacks t = pCallbacks s" "bResultBuildFailed (enter_frame iFrame s) = bResultBuildFailed s"
    "pCallbacks (enter_frame iFrame s) = pCallbacks s" by (simp_all add: t_def enter_frame_def)
  obtain rc0 s0 where e: "evalLocal t = (rc0, s0)" by fastforce
  obtain new where new: "pCallbacks s0 = new @ pCallbacks s" "above_bottom new (pCallbacks s)"
    using local [of t] e t(1) disjoint_above by auto
  obtain rc1 s1 where r: "(if chain_top (pCallbacks s0) \<noteq> chain_top (pCallbacks s)
      then th8RunCallbacks xProc ok (chain_top (pCallbacks s)) rc0 s0 else Some (rc0, s0)) = Some (rc1, s1)"
    and fin: "(rc, s') = eval_epilogue (frame_offset iFrame (pFrame s)) (pFrame s) (nEvalDepth s) (bResultBuildFailed s) rc1
      (detach_suspended (chain_top (pCallbacks s)) rc1 (pFrame s) s1)"
    using assms(1) False e t(2,3)
    by (auto simp: th8EvalCommon_def Let_def t_def [symmetric] split: if_splits option.splits prod.splits)
  have "\<exists>pre. pCallbacks s1 = pre @ pCallbacks s \<and> above_bottom pre (pCallbacks s) \<and>
      (rc1 \<noteq> TH8_SUSPEND \<and> rc1 \<noteq> TH8_YIELD \<longrightarrow> pre = [])"
  proof (cases "new = []")
    case True
    with r new show ?thesis by auto
  next
    case False
    with r new top_neq_bottom [OF new(2)] have "nre_run xProc ok (chain_top (pCallbacks s)) rc0 s0 (rc1, s1)"
      by (simp add: run_iff)
    from run_to_bottom [OF this push new refl] show ?thesis by simp
  qed
  then have "pCallbacks (detach_suspended (chain_top (pCallbacks s)) rc1 (pFrame s) s1) = pCallbacks s"
    using detach_keeps by blast
  with fin epilogue_keeps epilogue_code show ?thesis by (metis fst_conv snd_conv)
qed

definition nre_init :: "'cb nre" where
  "nre_init = \<lparr>nCancelReq = 0, nCancelReqMsg = None, xbufs = Map.empty, cancelFlags = 0, zCancelMsg = None,
     bCancelMsgOwned = False, bSuspended = 0, bExit = 0, zResult = [], pCallbacks = [], pSuspendedCallbacks = [],
     pFrame = [], pSavedFrame = [], pDownlevelFrame = [], nEvalDepth = 0, bResultBuildFailed = False\<rparr>"

lemma nre_init_calm [simp]: "\<not> th8CheckCancel nre_init" "\<not> Th8_IsSuspended nre_init"
  by (simp_all add: nre_init_def th8CheckCancel_def Th8_IsSuspended_def)

text \<open>A callback that passes the code through, and an evaluator that pushes one callback at an unused address.\<close>

abbreviation pass_through :: "nat proc" where
  "pass_through \<equiv> \<lambda>cb rc s. (rc, s)"

definition push_one :: "nat nre \<Rightarrow> int \<times> nat nre" where
  "push_one s = Th8_NRAddCallback (Some (Suc (sum_list (map fst (pCallbacks s))))) 0 s"

lemma fresh_above: "(a, x) \<in> set cbs \<Longrightarrow> Suc (sum_list (map fst cbs)) \<noteq> a" for cbs :: "nat chain"
  using member_le_sum_list [of a "map fst cbs"] by force

lemma push_one_fresh:
  "\<exists>new. pCallbacks (snd (push_one t)) = new @ pCallbacks t \<and> fst ` set new \<inter> fst ` set (pCallbacks t) = {}"
proof -
  have "fst ` set [(Suc (sum_list (map fst (pCallbacks t))), 0 :: nat)] \<inter> fst ` set (pCallbacks t) = {}" using fresh_above by force
  then show ?thesis unfolding push_one_def Th8_NRAddCallback_def by (intro exI [of _ "[(Suc (sum_list (map fst (pCallbacks t))), 0)]"]) simp
qed

theorem eval_balanced_witness:
  "\<exists>s'. th8EvalCommon pass_through push_one True 0 nre_init = Some (TH8_OK, s') \<and> pCallbacks s' = []"
proof -
  let ?s = "nre_init\<lparr>pCallbacks := [(1, 0 :: nat)]\<rparr>"
  have "th8RunCallbacks pass_through True None TH8_OK ?s = Some (TH8_OK, nre_init)"
    by (subst th8RunCallbacks.simps, simp add: nre_init_def chain_top_def cancel_phase_def th8CheckCancel_def
        Th8_IsSuspended_def) (subst th8RunCallbacks.simps, simp add: chain_top_def)
  then obtain s' where e: "th8EvalCommon pass_through push_one True 0 nre_init = Some (TH8_OK, s')"
    by (auto simp: th8EvalCommon_def push_one_def Th8_NRAddCallback_def nre_init_def chain_top_def eval_epilogue_def
        detach_suspended_def th8CheckCancel_def enter_frame_def frame_offset_def Let_def)
  have "pushes pass_through" by (auto simp: pushes_def)
  from eval_balanced [OF e this push_one_fresh] e show ?thesis by (simp add: nre_init_def)
qed

text \<open>Stages compose. Draining the chain to a marker and then on to a lower marker is the same as draining to the
  lower marker at once, unless the first stage ended by suspension, a yield or an unwinding cancellation: a
  blocking evaluation nested in a callback behaves as a part of the outer run.\<close>

lemma trampoline_stages:
  assumes "pushes xProc" "pCallbacks s = pre @ mid @ low" "distinct (map fst (pre @ mid @ low))"
    and "th8RunCallbacks xProc ok (chain_top (mid @ low)) rc s = Some (rc1, s1)"
    and "rc1 \<noteq> TH8_SUSPEND" "rc1 \<noteq> TH8_YIELD" "\<not> th8CheckCancel s1"
    and "th8RunCallbacks xProc ok (chain_top low) rc1 s1 = Some r"
  shows "th8RunCallbacks xProc ok (chain_top low) rc s = Some r"
proof -
  have d: "fst ` set pre \<inter> fst ` set (mid @ low) = {}" "fst ` set (pre @ mid) \<inter> fst ` set low = {}"
    using assms(3) by (auto simp: image_Un)
  note above = disjoint_above [OF d(1)] disjoint_above [OF d(2)]
  have run: "nre_run xProc ok (chain_top (mid @ low)) rc s (rc1, s1)" using assms(4) by (simp add: run_iff)
  from run_to_bottom [OF run assms(1,2) above(1) refl] assms(5,6) have "pCallbacks s1 = mid @ low" by auto
  with run_stages [OF run assms(1,2) refl refl above] assms(5-8) show ?thesis by (simp add: run_iff)
qed

text \<open>
  The frame identifier that names the current frame from the outside (the number of frames) becomes the offset
  zero, which the end of the evaluation takes for no frame switch: the link to the calling level stays set.
\<close>

lemma downlevel_left_set:
  assumes "pFrame s \<noteq> []" "evalLocal = Pair TH8_OK"
  shows "\<exists>s'. th8EvalCommon xProc evalLocal ok (int (length (pFrame s))) s = Some (TH8_OK, s') \<and> pDownlevelFrame s' = pFrame s"
proof -
  have "pDownlevelFrame (th8ClearCancel t) = pDownlevelFrame t" for t :: "'a nre"
    by (simp add: th8ClearCancel_def th8CancelReqClear_def th8CancelMsgXchg_def th8CancelMsgFree_def split: option.split)
  moreover have "bResultBuildFailed (th8ClearCancel t) = bResultBuildFailed t" for t :: "'a nre"
    by (simp add: th8ClearCancel_def th8CancelReqClear_def th8CancelMsgXchg_def th8CancelMsgFree_def split: option.split)
  ultimately show ?thesis using assms
    by (auto simp: th8EvalCommon_def enter_frame_def frame_offset_def target_frame_def eval_epilogue_def detach_suspended_def Let_def)
qed

text \<open>C18: An unwinding cancellation ends the evaluation. Take any blocking evaluation whose evaluator and callbacks
  only push on the chain, after any number of callbacks. If an unwinding cancellation is then pending,
  \<open>th8EvalCommon\<close> returns with \<open>TH8_ERROR\<close>, also when the callbacks left on the chain would have pushed others for
  ever. The chain, the frame and the evaluation depth are those of the entry. At the outermost level the
  cancellation is consumed; at an inner level it stays pending, so that the outer evaluations end the same way.\<close>

theorem unwind_ends_evaluation:
  assumes frame: "iFrame = 0 \<or> target_frame iFrame (pFrame s) \<noteq> []"
    and eval: "evalLocal ((enter_frame iFrame s)\<lparr>bResultBuildFailed := False\<rparr>) = (rc0, s0)"
    and new: "pCallbacks s0 = new @ pCallbacks s" "fst ` set new \<inter> fst ` set (pCallbacks s) = {}"
    and push: "pushes xProc"
    and steps: "nre_steps xProc ok (chain_top (pCallbacks s)) rc0 s0 rc u"
    and left: "chain_top (pCallbacks u) \<noteq> chain_top (pCallbacks s)"
    and unwound: "fst (Th8_IsBeingUnwound ok u)"
  shows "\<exists>s'. th8EvalCommon xProc evalLocal ok iFrame s = Some (TH8_ERROR, s') \<and> pCallbacks s' = pCallbacks s \<and>
    pFrame s' = pFrame s \<and> nEvalDepth s' = nEvalDepth s \<and> (th8CheckCancel s' \<longleftrightarrow> nEvalDepth s \<noteq> 0)"
proof -
  let ?b = "chain_top (pCallbacks s)"
  obtain pre where pre: "pCallbacks u = pre @ pCallbacks s" "above_bottom pre (pCallbacks s)"
    using steps_above [OF steps push new(1) disjoint_above [OF new(2)]] by blast
  have "th8CheckCancel u" using unwound by (auto simp: Th8_IsBeingUnwound_def Let_def split: if_splits)
  then have "isl (cancel_phase ok ?b rc u)"
    using unwound by (cases "Th8_IsBeingUnwound ok u") (auto simp: cancel_phase_def split: prod.splits bool.splits)
  then obtain rc1 s1 where c: "cancel_phase ok ?b rc u = Inl (rc1, s1)" by (auto simp: isl_def)
  note out = cancel_phase_Inl [OF c]
  have s1: "rc1 = TH8_ERROR" "pCallbacks s1 = pCallbacks s" "th8CheckCancel s1"
    using out pre from_bottom_append by auto
  have "detach_suspended ?b rc1 (pFrame s) s1 = s1" using s1(2) by (simp add: detach_suspended_def)
  then have e: "th8EvalCommon xProc evalLocal ok iFrame s =
      Some (eval_epilogue (frame_offset iFrame (pFrame s)) (pFrame s) (nEvalDepth s) (bResultBuildFailed s) TH8_ERROR s1)"
    using eval_common_steps [where evalLocal = evalLocal and s = s and iFrame = iFrame, OF frame eval steps left nre_run.unwound [where xProc = xProc, OF left c]] s1(1) by simp
  obtain rc' s' where r: "eval_epilogue (frame_offset iFrame (pFrame s)) (pFrame s) (nEvalDepth s) (bResultBuildFailed s) TH8_ERROR s1 = (rc', s')"
    by fastforce
  note facts = epilogue_unwound [OF s1(3), of "frame_offset iFrame (pFrame s)" "pFrame s" "nEvalDepth s" "bResultBuildFailed s"]
    epilogue_keeps [where i = "frame_offset iFrame (pFrame s)" and f = "pFrame s" and d = "nEvalDepth s" and bf = "bResultBuildFailed s"
      and rc = TH8_ERROR and s = s1]
  show ?thesis using facts s1(2) e unfolding r by simp
qed

text \<open>
  A callback that pushes its successor for ever. The second one requests a cancellation with \<open>TH8_CANCEL_UNWIND\<close>;
  the third is never invoked and the evaluation returns.
\<close>

definition endless :: "nat proc" where
  "endless = (\<lambda>cb rc s.
     let s = s\<lparr>pCallbacks := (Suc (sum_list (map fst (pCallbacks s))), Suc cb) # pCallbacks s\<rparr>
     in (rc, if cb = 1 then snd (Th8_CancelEval None True True None TH8_CANCEL_UNWIND s) else s))"

lemma endless_pushes: "pushes endless"
proof -
  have "pCallbacks (snd (endless cb rc s)) = [(Suc (sum_list (map fst (pCallbacks s))), Suc cb)] @ pCallbacks s" for cb rc s
    by (simp add: endless_def Let_def Th8_CancelEval_def th8CancelReqOr_def)
  moreover have "fst ` set [(Suc (sum_list (map fst (pCallbacks s))), Suc cb)] \<inter> fst ` set (pCallbacks s) = {}" for cb and s :: "nat nre"
    using fresh_above by force
  ultimately show ?thesis unfolding pushes_def by blast
qed

theorem unwind_ends_evaluation_witness:
  "\<exists>s'. th8EvalCommon endless push_one True 0 nre_init = Some (TH8_ERROR, s') \<and> pCallbacks s' = [] \<and> \<not> th8CheckCancel s'"
proof -
  let ?s = "nre_init :: nat nre"
  let ?u = "?s\<lparr>pCallbacks := [(1, 2)], nCancelReq := 0x101, cancelFlags := 1\<rparr>"
  have eval: "push_one ((enter_frame 0 ?s)\<lparr>bResultBuildFailed := False\<rparr>) = (TH8_OK, ?s\<lparr>pCallbacks := [(1, 0)]\<rparr>)"
    by (simp add: push_one_def Th8_NRAddCallback_def enter_frame_def nre_init_def)
  let ?t = "\<lambda>cb. ?s\<lparr>pCallbacks := [(1, cb)]\<rparr>"
  have calm: "\<not> th8CheckCancel (?t cb)" "\<not> Th8_IsSuspended (?t cb)" "pCallbacks (?t cb) = (1, cb) # []" "Some 1 \<noteq> (None :: addr option)"
    "TH8_OK \<noteq> TH8_YIELD" for cb by (simp_all add: nre_init_def th8CheckCancel_def Th8_IsSuspended_def)
  have "endless 1 TH8_OK ((?t 1)\<lparr>pCallbacks := []\<rparr>) = (TH8_OK, ?u)"
    by (simp add: endless_def nre_init_def Th8_CancelEval_def th8CancelReqOr_def)
  from calm_step [where xProc = endless, OF calm(1-4) this calm(5) nre_steps.here]
  have "nre_steps endless True None TH8_OK (?t 1) TH8_OK ?u" .
  moreover have "endless 0 TH8_OK ((?t 0)\<lparr>pCallbacks := []\<rparr>) = (TH8_OK, ?t 1)"
    by (simp add: endless_def nre_init_def)
  ultimately have "nre_steps endless True None TH8_OK (?t 0) TH8_OK ?u"
    using calm_step [where xProc = endless, OF calm(1-4) _ calm(5)] by blast
  then have "nre_steps endless True (chain_top (pCallbacks ?s)) TH8_OK (?s\<lparr>pCallbacks := [(1, 0)]\<rparr>) TH8_OK ?u"
    by (simp add: nre_init_def chain_top_def)
  from unwind_ends_evaluation [where evalLocal = push_one and s = ?s and iFrame = 0, OF _ eval _ _ endless_pushes this, of "[(1, 0)]"] show ?thesis
    by (auto simp: nre_init_def chain_top_def Th8_IsBeingUnwound_def th8CheckCancel_def th8AdoptCancelRequest_def th8CancelReqAdopt_def
        th8CancelMsgXchg_def th8CancelMsgFree_def adopt_message_def Let_def)
qed

text \<open>C19: A freeze drops the code in flight, and the thaw reports success in its place. Take any blocking evaluation whose
  evaluator and callbacks only push on the chain, after any number of callbacks, and let it find the suspend flag set
  between two of them, with a return code \<open>rc\<close> on its way to the next callback. The evaluation returns \<open>TH8_SUSPEND\<close> with
  exactly the callbacks that are left, \<open>rem\<close>, set aside, and \<open>Th8_Thaw\<close> runs exactly these in the state of the freeze and gives
  back the chain and the frame of the entry; but the first of them gets \<open>TH8_OK\<close>, whatever \<open>rc\<close> was, also when an error was
  propagating.\<close>

theorem freeze_drops_code:
  assumes frame: "iFrame = 0 \<or> target_frame iFrame (pFrame s) \<noteq> []"
    and eval: "evalLocal ((enter_frame iFrame s)\<lparr>bResultBuildFailed := False\<rparr>) = (rc0, s0)"
    and new: "pCallbacks s0 = new @ pCallbacks s" "fst ` set new \<inter> fst ` set (pCallbacks s) = {}"
    and push: "pushes xProc"
    and steps: "nre_steps xProc ok (chain_top (pCallbacks s)) rc0 s0 rc u"
    and left: "pCallbacks u = rem @ pCallbacks s" "rem \<noteq> []"
    and frozen: "bSuspended u = 1" "\<not> th8CheckCancel u"
  shows "\<exists>v. th8EvalCommon xProc evalLocal ok iFrame s = Some (TH8_SUSPEND, v) \<and>
    pSuspendedCallbacks v = rem \<and> pCallbacks v = pCallbacks s \<and>
    Th8_Thaw xProc ok v =
      map_option (\<lambda>(rc', w). (rc', if pSavedFrame w \<noteq> []
          then w\<lparr>pCallbacks := pCallbacks s, pFrame := pSavedFrame w, pSavedFrame := []\<rparr> else w\<lparr>pCallbacks := pCallbacks s\<rparr>))
        (th8RunCallbacks xProc ok None TH8_OK
          (u\<lparr>bSuspended := 0, pCallbacks := rem, pSuspendedCallbacks := [], pSavedFrame := pFrame s,
             bResultBuildFailed := bResultBuildFailed s\<rparr>))"
proof -
  let ?b = "chain_top (pCallbacks s)"
  let ?v = "u\<lparr>pSuspendedCallbacks := rem, pCallbacks := pCallbacks s, pSavedFrame := pFrame s, bResultBuildFailed := bResultBuildFailed s\<rparr>"
  have above: "above_bottom rem (pCallbacks s)"
    using steps_above [OF steps push new(1) disjoint_above [OF new(2)]] left(1) by auto
  then have top: "chain_top (pCallbacks u) \<noteq> ?b" using left top_neq_bottom [of rem "pCallbacks s"] by simp
  have c: "cancel_phase ok ?b rc u = Inr (rc, u)" using frozen(2) by (simp add: cancel_phase_def)
  have sus: "Th8_IsSuspended u" using frozen(1) by (simp add: Th8_IsSuspended_def)
  have "detach_suspended ?b TH8_SUSPEND (pFrame s) u =
      u\<lparr>pSuspendedCallbacks := rem, pCallbacks := pCallbacks s, pSavedFrame := pFrame s\<rparr>"
    using top left(1) above_append [OF above] from_bottom_append [OF above] by (simp add: detach_suspended_def)
  then have v: "th8EvalCommon xProc evalLocal ok iFrame s = Some (TH8_SUSPEND, ?v)"
    using eval_common_steps [where evalLocal = evalLocal and s = s and iFrame = iFrame, OF frame eval steps top nre_run.suspended [where xProc = xProc, OF top c sus]] frozen(2)
    by (simp add: eval_epilogue_def th8CheckCancel_def Let_def)
  have "Th8_Thaw xProc ok ?v = map_option (\<lambda>(rc', w). (rc', if pSavedFrame w \<noteq> []
          then w\<lparr>pCallbacks := pCallbacks s, pFrame := pSavedFrame w, pSavedFrame := []\<rparr> else w\<lparr>pCallbacks := pCallbacks s\<rparr>))
        (th8RunCallbacks xProc ok None TH8_OK
          (u\<lparr>bSuspended := 0, pCallbacks := rem, pSuspendedCallbacks := [], pSavedFrame := pFrame s,
             bResultBuildFailed := bResultBuildFailed s\<rparr>))"
  proof -
    let ?t = "u\<lparr>bSuspended := 0, pCallbacks := rem, pSuspendedCallbacks := [], pSavedFrame := pFrame s,
      bResultBuildFailed := bResultBuildFailed s\<rparr>"
    let ?t' = "u\<lparr>pSavedFrame := pFrame s, bResultBuildFailed := bResultBuildFailed s, bSuspended := 0, pCallbacks := rem,
      pSuspendedCallbacks := []\<rparr>"
    define r where "r = th8RunCallbacks xProc ok None TH8_OK ?t"
    have r': "th8RunCallbacks xProc ok None TH8_OK ?t' = r" unfolding r_def by (rule arg_cong) (cases u, simp)
    show ?thesis unfolding r_def [symmetric] using frozen(1) left(2)
      by (cases r) (auto simp: Th8_Thaw_def int_cmp_xchg_def Let_def r')
  qed
  with v show ?thesis by (intro exI [of _ ?v]) simp
qed

text \<open>
  A failing callback with a \<open>catch\<close> continuation below it. Uninterrupted, the continuation sees the error; when the
  host freezes the interpreter during the failing callback and thaws it later, it sees success.
\<close>

definition catch_demo :: "bool \<Rightarrow> bool proc" where
  "catch_demo freeze = (\<lambda>cb rc s. if cb then (TH8_ERROR, if freeze then snd (Th8_Freeze s) else s)
     else (TH8_OK, s\<lparr>zResult := (if rc = TH8_ERROR then ''caught'' else ''no error'')\<rparr>))"

definition push_catch :: "bool nre \<Rightarrow> int \<times> bool nre" where
  "push_catch s = (TH8_OK, s\<lparr>pCallbacks := [(1, True), (2, False)] @ pCallbacks s\<rparr>)"

lemma catch_demo_pushes: "pushes (catch_demo freeze)"
  by (auto simp: pushes_def catch_demo_def Th8_Freeze_def)

lemma catch_sees_error:
  "th8EvalCommon (catch_demo False) push_catch True 0 nre_init = Some (TH8_OK, nre_init\<lparr>zResult := ''caught''\<rparr>)"
proof -
  have "th8RunCallbacks (catch_demo False) True None TH8_OK (nre_init\<lparr>pCallbacks := [(1, True), (2, False)]\<rparr>) =
     Some (TH8_OK, nre_init\<lparr>zResult := ''caught''\<rparr>)"
    by (subst th8RunCallbacks.simps, simp add: nre_init_def chain_top_def cancel_phase_def th8CheckCancel_def
        Th8_IsSuspended_def catch_demo_def, subst th8RunCallbacks.simps, simp add: chain_top_def cancel_phase_def
        th8CheckCancel_def Th8_IsSuspended_def, subst th8RunCallbacks.simps, simp add: chain_top_def)
  then show ?thesis
    by (simp add: th8EvalCommon_def push_catch_def enter_frame_def frame_offset_def nre_init_def chain_top_def eval_epilogue_def detach_suspended_def
        th8CheckCancel_def Let_def)
qed

theorem freeze_drops_code_witness:
  "\<exists>v w. th8EvalCommon (catch_demo True) push_catch True 0 nre_init = Some (TH8_SUSPEND, v) \<and>
     Th8_Thaw (catch_demo True) True v = Some (TH8_OK, w) \<and> zResult w = ''no error''"
proof -
  let ?s = "nre_init :: bool nre"
  let ?u = "?s\<lparr>pCallbacks := [(2, False)], bSuspended := 1\<rparr>"
  have eval: "push_catch ((enter_frame 0 ?s)\<lparr>bResultBuildFailed := False\<rparr>) = (TH8_OK, ?s\<lparr>pCallbacks := [(1, True), (2, False)]\<rparr>)"
    by (simp add: push_catch_def enter_frame_def nre_init_def)
  have steps: "nre_steps (catch_demo True) True (chain_top (pCallbacks ?s)) TH8_OK (?s\<lparr>pCallbacks := [(1, True), (2, False)]\<rparr>) TH8_ERROR ?u"
  proof (rule calm_step [OF _ _ _ _ _ _ nre_steps.here])
    show "catch_demo True True TH8_OK ((?s\<lparr>pCallbacks := [(1, True), (2, False)]\<rparr>)\<lparr>pCallbacks := [(2, False)]\<rparr>) = (TH8_ERROR, ?u)"
      by (simp add: catch_demo_def Th8_Freeze_def int_cmp_xchg_def nre_init_def)
  qed (simp_all add: nre_init_def chain_top_def th8CheckCancel_def Th8_IsSuspended_def)
  have run: "th8RunCallbacks (catch_demo True) True None TH8_OK (?s\<lparr>pCallbacks := [(2, False)]\<rparr>) =
      Some (TH8_OK, ?s\<lparr>zResult := ''no error''\<rparr>)"
    by (subst th8RunCallbacks.simps, simp add: nre_init_def chain_top_def cancel_phase_def th8CheckCancel_def
        Th8_IsSuspended_def catch_demo_def) (subst th8RunCallbacks.simps, simp add: chain_top_def)
  from freeze_drops_code [where evalLocal = push_catch and s = ?s and iFrame = 0, OF _ eval _ _ catch_demo_pushes steps, of "[(1, True), (2, False)]" "[(2, False)]"] run
  show ?thesis by (auto simp: nre_init_def th8CheckCancel_def)
qed

lemma trampoline_stages_witness:
  "th8RunCallbacks pass_through True None TH8_ERROR (nre_init\<lparr>pCallbacks := [(1, 0), (2, 1)]\<rparr>) = Some (TH8_ERROR, nre_init)"
proof -
  let ?s = "nre_init\<lparr>pCallbacks := [(1, 0), (2, 1)]\<rparr>" and ?s1 = "nre_init\<lparr>pCallbacks := [(2, 1)]\<rparr>"
  have 1: "th8RunCallbacks pass_through True (chain_top ([(2, 1)] @ [])) TH8_ERROR ?s = Some (TH8_ERROR, ?s1)"
    by (subst th8RunCallbacks.simps, simp add: nre_init_def chain_top_def cancel_phase_def th8CheckCancel_def
        Th8_IsSuspended_def) (subst th8RunCallbacks.simps, simp add: chain_top_def)
  have 2: "th8RunCallbacks pass_through True (chain_top []) TH8_ERROR ?s1 = Some (TH8_ERROR, nre_init)"
    by (subst th8RunCallbacks.simps, simp add: nre_init_def chain_top_def cancel_phase_def th8CheckCancel_def
        Th8_IsSuspended_def) (subst th8RunCallbacks.simps, simp add: chain_top_def)
  have "pushes pass_through" by (auto simp: pushes_def)
  from trampoline_stages [OF this, of ?s "[(1, 0)]" "[(2, 1)]" "[]", OF _ _ 1 _ _ _ 2]
  show ?thesis by (simp add: chain_top_def nre_init_def th8CheckCancel_def)
qed

end
