(* ===== verification/Th8_Lists.thy ===== *)
theory Th8_Lists
  imports Th8_Numbers Th8_Alloc
begin

text \<open>
  Lists as strings: the parser and writer of \<open>src/externals/spilornis/Spilornis.c\<close> in the narrow
  configuration of \<open>src/src/th8_spilornis.h\<close> (one-byte \<open>WCHAR\<close>, \<open>char\<close> pointers).

  A pointer into a text with a limit is the string from the pointer to the limit; a write into a buffer
  is the string written. \<open>UCSCHAR\<close> is a 64-bit word. Assertions are compiled out in the builds that ship;
  the counters of the memory routines are not modelled.
\<close>

section \<open>Characters and digits\<close>

type_synonym UCSCHAR = "64 word"

definition th8_spilornis_isspace :: "char \<Rightarrow> bool" where
  "th8_spilornis_isspace c \<longleftrightarrow>
     c = CHR '' '' \<or> c = TAB \<or> c = NL \<or> c = CR \<or> c = FF \<or> c = VT"

definition EagleIsBinDigit :: "char \<Rightarrow> bool" where
  "EagleIsBinDigit c \<longleftrightarrow> uchar c \<ge> uchar (CHR ''0'') \<and> uchar c \<le> uchar (CHR ''1'')"

definition EagleIsOctDigit :: "char \<Rightarrow> bool" where
  "EagleIsOctDigit c \<longleftrightarrow> uchar c \<ge> uchar (CHR ''0'') \<and> uchar c \<le> uchar (CHR ''7'')"

definition EagleIsDecDigit :: "char \<Rightarrow> bool" where
  "EagleIsDecDigit c \<longleftrightarrow> uchar c \<ge> uchar (CHR ''0'') \<and> uchar c \<le> uchar (CHR ''9'')"

definition EagleIsHexDigit :: "char \<Rightarrow> bool" where
  "EagleIsHexDigit c \<longleftrightarrow>
     uchar c \<ge> uchar (CHR ''0'') \<and> uchar c \<le> uchar (CHR ''9'') \<or>
     uchar c \<ge> uchar (CHR ''A'') \<and> uchar c \<le> uchar (CHR ''F'') \<or>
     uchar c \<ge> uchar (CHR ''a'') \<and> uchar c \<le> uchar (CHR ''f'')"

text \<open>
  The digit scanners: the string is the window of at most \<open>numChars\<close> bytes from \<open>src\<close>, the third argument
  the number built so far. They return the bytes consumed and the number.
\<close>

fun EagleParseBin :: "string \<Rightarrow> UCSCHAR \<Rightarrow> nat \<times> UCSCHAR" where
  "EagleParseBin [] result = (0, result)"
| "EagleParseBin (digit # p) result =
     (if \<not> EagleIsBinDigit digit then (0, result)
      else apfst Suc (EagleParseBin p (push_bit 1 result OR of_nat (uchar digit - uchar (CHR ''0'')))))"

fun EagleParseOct :: "string \<Rightarrow> UCSCHAR \<Rightarrow> nat \<times> UCSCHAR" where
  "EagleParseOct [] result = (0, result)"
| "EagleParseOct (digit # p) result =
     (if \<not> EagleIsOctDigit digit then (0, result)
      else apfst Suc (EagleParseOct p (push_bit 3 result OR of_nat (uchar digit - uchar (CHR ''0'')))))"

fun EagleParseDec :: "string \<Rightarrow> UCSCHAR \<Rightarrow> nat \<times> UCSCHAR" where
  "EagleParseDec [] result = (0, result)"
| "EagleParseDec (digit # p) result =
     (if \<not> EagleIsDecDigit digit then (0, result)
      else apfst Suc (EagleParseDec p (result * 10 + of_nat (uchar digit - uchar (CHR ''0'')))))"

fun EagleParseHex :: "string \<Rightarrow> UCSCHAR \<Rightarrow> nat \<times> UCSCHAR" where
  "EagleParseHex [] result = (0, result)"
| "EagleParseHex (digit # p) result =
     (if \<not> EagleIsHexDigit digit then (0, result)
      else
        (let v = (if uchar digit \<ge> uchar (CHR ''a'') then 10 + uchar digit - uchar (CHR ''a'')
                  else if uchar digit \<ge> uchar (CHR ''A'') then 10 + uchar digit - uchar (CHR ''A'')
                  else uchar digit - uchar (CHR ''0''))
         in apfst Suc (EagleParseHex p (push_bit 4 result OR of_nat v))))"

section \<open>Backslash sequences\<close>

text \<open>
  A byte converted to \<open>UCSCHAR\<close>: through \<open>WCHAR\<close>, an unsigned byte, or straight from a \<open>char\<close>, which is
  signed and extends its sign.
\<close>

definition ucs :: "char \<Rightarrow> UCSCHAR" where
  "ucs c = of_nat (uchar c)"

definition ucs_signed :: "char \<Rightarrow> UCSCHAR" where
  "ucs_signed c = of_int (c2i c)"

definition ucs_byte :: "UCSCHAR \<Rightarrow> UCSCHAR" where
  "ucs_byte r = r AND 0xFF"

text \<open>
  The bytes written for a result: the lowest one and, for a result beyond 16 bits, the second one of its
  little-endian representation.
\<close>

definition ucs_bytes :: "UCSCHAR \<Rightarrow> string" where
  "ucs_bytes result =
     char_of (unat (result AND 0xFF)) #
     (if result AND NOT 0xFFFF \<noteq> 0 then [char_of (unat (drop_bit 8 result AND 0xFF))] else [])"

text \<open>An escape of digits after the letter \<open>c\<close>: the letter itself when there are none.\<close>

definition digits_or :: "char \<Rightarrow> (UCSCHAR \<Rightarrow> UCSCHAR) \<Rightarrow> nat \<times> UCSCHAR \<Rightarrow> nat \<times> UCSCHAR" where
  "digits_or c trim scan = (if fst scan = 0 then (2, ucs c) else (2 + fst scan, trim (snd scan)))"

text \<open>\<open>case '\n'\<close>: the newline and the blanks after it, at most \<open>numChars\<close> bytes in all.\<close>

definition newline_count :: "string \<Rightarrow> nat" where
  "newline_count rest = 2 + length (takeWhile (\<lambda>c. c = CHR '' '' \<or> c = TAB) rest)"

text \<open>\<open>default\<close>: one to three octal digits, or the byte itself. The string starts at the byte after the backslash.\<close>

definition octal_or_self :: "string \<Rightarrow> nat \<times> UCSCHAR" where
  "octal_or_self p =
     (let d = (\<lambda>c. ucs c - ucs (CHR ''0'')) in
      if EagleIsDecDigit (p ! 0) \<and> uchar (p ! 0) < uchar (CHR ''8'') then
        (let result = ucs_byte (d (p ! 0)) in
         if length p = 1 \<or> \<not> EagleIsDecDigit (p ! 1) \<or> uchar (p ! 1) \<ge> uchar (CHR ''8'') then (2, result)
         else
           (let result = ucs_byte (push_bit 3 result + d (p ! 1)) in
            if length p = 2 \<or> \<not> EagleIsDecDigit (p ! 2) \<or> uchar (p ! 2) \<ge> uchar (CHR ''8'') then (3, result)
            else (4, ucs_byte (push_bit 3 result + d (p ! 2)))))
      else (2, ucs_signed (p ! 0)))"

text \<open>
  The window starts at the backslash; the result is the number of bytes read and the value. \<open>c\<close> is the byte
  \<open>*p\<close>, \<open>rest\<close> what follows it.
\<close>

definition backslash_value :: "char \<Rightarrow> string \<Rightarrow> nat \<times> UCSCHAR" where
  "backslash_value c rest =
     (let numChars = length rest + 2 in
      if c = NUL then (1, ucs BSL)
      else if c = CHR ''a'' then (2, 7)
      else if c = CHR ''b'' then (2, 8)
      else if c = CHR ''f'' then (2, ucs FF)
      else if c = CHR ''n'' then (2, ucs NL)
      else if c = CHR ''r'' then (2, ucs CR)
      else if c = CHR ''t'' then (2, ucs TAB)
      else if c = CHR ''v'' then (2, ucs VT)
      else if c = BSL then (2, ucs BSL)
      else if c = CHR ''B'' then digits_or c ucs_byte (EagleParseBin rest 0)
      else if c = CHR ''o'' then digits_or c ucs_byte (EagleParseOct rest 0)
      else if c = CHR ''d'' then digits_or c ucs_byte (EagleParseDec rest 0)
      else if c = CHR ''x'' then digits_or c ucs_byte (EagleParseHex rest 0)
      else if c = CHR ''X'' then digits_or c id (EagleParseHex rest 0)
      else if c = CHR ''u'' then
        digits_or c id (EagleParseHex (take (if numChars > 5 then 4 else numChars - 2) rest) 0)
      else if c = CHR ''U'' then
        digits_or c id (EagleParseHex (take (if numChars > 9 then 8 else numChars - 2) rest) 0)
      else if c = NL then (newline_count rest, ucs (CHR '' ''))
      else octal_or_self (c # rest))"

fun EagleParseBackslash :: "string \<Rightarrow> nat \<times> string" where
  "EagleParseBackslash [] = (0, [])"
| "EagleParseBackslash [_] = (1, ucs_bytes (ucs BSL))"
| "EagleParseBackslash (_ # c # rest) = apsnd ucs_bytes (backslash_value c rest)"

lemma digit_scan_bound [th8_bound]:
  "fst (EagleParseBin p r) \<le> length p" "fst (EagleParseOct p r) \<le> length p"
  "fst (EagleParseDec p r) \<le> length p" "fst (EagleParseHex p r) \<le> length p"
  by (induction p arbitrary: r; simp add: Let_def)+

lemma octal_or_self_bound:
  assumes "p \<noteq> []"
  shows "2 \<le> fst (octal_or_self p) \<and> fst (octal_or_self p) \<le> length p + 1"
  using assms by (cases p rule: list.exhaust; cases "tl p"; cases "tl (tl p)") (auto simp: octal_or_self_def Let_def)

lemma backslash_value_bound:
  "0 < fst (backslash_value c rest) \<and> fst (backslash_value c rest) \<le> length rest + 2"
proof -
  have t: "length (takeWhile P rest) \<le> length rest" for P :: "char \<Rightarrow> bool"
    by (rule length_takeWhile_le)
  have h: "fst (EagleParseHex (take n rest) 0) \<le> length rest" for n
    using digit_scan_bound(4) [of "take n rest" 0] by simp
  show ?thesis
    using octal_or_self_bound [of "c # rest"]
    by (auto simp: backslash_value_def Let_def digits_or_def newline_count_def digit_scan_bound t h)
qed

lemma EagleParseBackslash_bound [th8_bound]:
  "src \<noteq> [] \<Longrightarrow> 0 < fst (EagleParseBackslash src) \<and> fst (EagleParseBackslash src) \<le> length src"
  using backslash_value_bound
  by (cases src rule: EagleParseBackslash.cases) auto

lemma EagleParseBackslash_pos [simp]: "0 < fst (EagleParseBackslash (c # cs))"
  using EagleParseBackslash_bound [of "c # cs"] by simp

text \<open>No sequence writes more bytes than it reads: a single byte read is the backslash itself.\<close>

lemma ucs_bytes_length [simp]:
  "length (ucs_bytes r) \<le> 2" "length (ucs_bytes (ucs BSL)) = 1"
  by (simp_all add: ucs_bytes_def ucs_def)

lemma EagleParseBackslash_write [th8_bound]:
  "length (snd (EagleParseBackslash src)) \<le> fst (EagleParseBackslash src)"
proof (cases src rule: EagleParseBackslash.cases)
  case (3 b c rest)
  have "2 \<le> fst (backslash_value c rest) \<or> backslash_value c rest = (1, ucs BSL)"
    using octal_or_self_bound [of "c # rest"]
    by (simp add: backslash_value_def Let_def digits_or_def newline_count_def)
  then show ?thesis
    unfolding 3 by (auto intro: order_trans [OF ucs_bytes_length(1)])
qed simp_all

section \<open>Collapsing backslashes\<close>

function EagleCopyAndCollapse :: "string \<Rightarrow> string" where
  "EagleCopyAndCollapse [] = []"
| "EagleCopyAndCollapse (c # src) =
     (if c = BSL then
        (let numRead = fst (EagleParseBackslash (c # src))
         in snd (EagleParseBackslash (c # src)) @ EagleCopyAndCollapse (drop numRead (c # src)))
      else c # EagleCopyAndCollapse src)"
  by pat_completeness auto
termination EagleCopyAndCollapse
  by (relation "measure length") (auto intro: diff_less)

section \<open>Writing an element\<close>

type_synonym FLAGS = int

abbreviation EAGLE_DONT_USE_BRACES :: FLAGS where "EAGLE_DONT_USE_BRACES \<equiv> 1"
abbreviation EAGLE_USE_BRACES :: FLAGS where "EAGLE_USE_BRACES \<equiv> 2"
abbreviation EAGLE_BRACES_UNMATCHED :: FLAGS where "EAGLE_BRACES_UNMATCHED \<equiv> 4"
abbreviation EAGLE_DONT_QUOTE_HASH :: FLAGS where "EAGLE_DONT_QUOTE_HASH \<equiv> 8"

text \<open>The loop of \<open>EagleScanCountedElement\<close> over the bytes left, with the nesting level and the flags.\<close>

function scan_loop :: "string \<Rightarrow> int \<Rightarrow> FLAGS \<Rightarrow> int \<times> FLAGS" where
  "scan_loop [] nestingLevel flags = (nestingLevel, flags)"
| "scan_loop (c # p) nestingLevel flags =
     (if c = CHR ''{'' then scan_loop p (nestingLevel + 1) flags
      else if c = CHR ''}'' then
        scan_loop p (nestingLevel - 1)
          (if nestingLevel - 1 < 0 then flags OR (EAGLE_DONT_USE_BRACES OR EAGLE_BRACES_UNMATCHED) else flags)
      else if c \<in> {CHR ''['', CHR ''$'', CHR '';'', CHR '' '', FF, NL, CR, TAB, VT} then
        scan_loop p nestingLevel (flags OR EAGLE_USE_BRACES)
      else if c = BSL then
        (if p = [] \<or> hd p = NL then
           scan_loop p nestingLevel (EAGLE_DONT_USE_BRACES OR EAGLE_BRACES_UNMATCHED)
         else
           scan_loop (drop (fst (EagleParseBackslash (c # p))) (c # p)) nestingLevel (flags OR EAGLE_USE_BRACES))
      else scan_loop p nestingLevel flags)"
  by pat_completeness auto
termination scan_loop
  by (relation "measure (\<lambda>(p, _). length p)") (auto intro: diff_less)

text \<open>The bytes to reserve (the loop ends at the last byte) and the flags.\<close>

definition EagleScanCountedElement :: "string \<Rightarrow> nat \<times> FLAGS" where
  "EagleScanCountedElement string =
     (let flags = (if string = [] \<or> hd string = CHR ''{'' \<or> hd string = DQ then EAGLE_USE_BRACES else 0);
          (nestingLevel, flags) = scan_loop string 0 flags;
          flags = (if nestingLevel \<noteq> 0 then EAGLE_DONT_USE_BRACES OR EAGLE_BRACES_UNMATCHED else flags)
      in (2 * length string + 2, flags))"

text \<open>What the loop of \<open>EagleConvertCountedElement\<close> writes for one byte.\<close>

definition convert_char :: "FLAGS \<Rightarrow> char \<Rightarrow> string" where
  "convert_char flags c =
     (if c \<in> {CHR '']'', CHR ''['', CHR ''$'', CHR '';'', CHR '' '', BSL, DQ} then [BSL, c]
      else if c = CHR ''{'' \<or> c = CHR ''}'' then
        (if flags AND EAGLE_BRACES_UNMATCHED \<noteq> 0 then [BSL, c] else [c])
      else if c = FF then [BSL, CHR ''f'']
      else if c = NL then [BSL, CHR ''n'']
      else if c = CR then [BSL, CHR ''r'']
      else if c = TAB then [BSL, CHR ''t'']
      else if c = VT then [BSL, CHR ''v'']
      else [c])"

definition EagleConvertCountedElement :: "string \<Rightarrow> FLAGS \<Rightarrow> string" where
  "EagleConvertCountedElement src flags =
     (if src = [] then ''{}''
      else
        (let quoteHash = (hd src = CHR ''#'' \<and> flags AND EAGLE_DONT_QUOTE_HASH = 0);
             flags = (if quoteHash then flags OR EAGLE_USE_BRACES else flags)
         in if flags AND EAGLE_USE_BRACES \<noteq> 0 \<and> flags AND EAGLE_DONT_USE_BRACES = 0
            then CHR ''{'' # src @ [CHR ''}'']
            else if hd src = CHR ''{'' then
              [BSL, CHR ''{''] @ concat (map (convert_char (flags OR EAGLE_BRACES_UNMATCHED)) (tl src))
            else if quoteHash then
              [BSL, CHR ''#''] @ concat (map (convert_char flags) (tl src))
            else concat (map (convert_char flags) src)))"

section \<open>Finding an element\<close>

definition garbage_after :: "string \<Rightarrow> string \<Rightarrow> string" where
  "garbage_after kind p =
     ''list element in '' @ kind @ '' followed by '' @ [DQ] @
     takeWhile (\<lambda>c. c \<noteq> NUL) (takeWhile (\<lambda>c. \<not> th8_spilornis_isspace c) (take 20 p)) @
     [DQ] @ '' instead of space''"

text \<open>
  The loop over the bytes \<open>p\<close> left, with \<open>nSize\<close> bytes of the element behind it. It returns the size of the
  element, the position after it and the final brace count.
\<close>

function find_loop :: "string \<Rightarrow> nat \<Rightarrow> bool \<Rightarrow> nat \<Rightarrow> (nat \<times> string \<times> nat) res" where
  "find_loop [] openBraces inQuotes nSize =
     (if openBraces \<noteq> 0 then Inl ''unmatched open brace in list''
      else if inQuotes then Inl ''unmatched open quote in list''
      else Inr (nSize, [], openBraces))"
| "find_loop (c # p) openBraces inQuotes nSize =
     (if c = CHR ''{'' then
        find_loop p (if openBraces \<noteq> 0 then openBraces + 1 else openBraces) inQuotes (nSize + 1)
      else if c = CHR ''}'' then
        (if openBraces > 1 then find_loop p (openBraces - 1) inQuotes (nSize + 1)
         else if openBraces = 1 then
           (if p = [] \<or> th8_spilornis_isspace (hd p) then Inr (nSize, p, openBraces)
            else Inl (garbage_after ''braces'' p))
         else find_loop p openBraces inQuotes (nSize + 1))
      else if c = BSL then
        (let numChars = fst (EagleParseBackslash (c # p))
         in find_loop (drop numChars (c # p)) openBraces inQuotes (nSize + numChars))
      else if c \<in> {CHR '' '', FF, NL, CR, TAB, VT} then
        (if openBraces = 0 \<and> \<not> inQuotes then Inr (nSize, c # p, openBraces)
         else find_loop p openBraces inQuotes (nSize + 1))
      else if c = DQ \<and> inQuotes then
        (if p = [] \<or> th8_spilornis_isspace (hd p) then Inr (nSize, p, openBraces)
         else Inl (garbage_after ''quotes'' p))
      else find_loop p openBraces inQuotes (nSize + 1))"
  by pat_completeness auto
termination find_loop
  by (relation "measure (\<lambda>(p, _). length p)") (auto intro: diff_less)

text \<open>
  The result is the text from \<open>*elementPtr\<close> on, the size of the element, whether it was in braces, and the
  text from \<open>*nextPtr\<close> on.
\<close>

definition EagleFindElement :: "string \<Rightarrow> (string \<times> nat \<times> bool \<times> string) res" where
  "EagleFindElement list =
     (case dropWhile th8_spilornis_isspace list of
        [] \<Rightarrow> Inr ([], 0, False, [])
      | c # p \<Rightarrow>
          (let (openBraces, inQuotes, elemStart) =
                 (if c = CHR ''{'' then (1, False, p) else if c = DQ then (0, True, p) else (0, False, c # p))
           in case find_loop elemStart openBraces inQuotes 0 of
                Inl e \<Rightarrow> Inl e
              | Inr (nSize, p, openBraces) \<Rightarrow>
                  Inr (elemStart, nSize, openBraces \<noteq> 0, dropWhile th8_spilornis_isspace p)))"

section \<open>Splitting a list\<close>

text \<open>The loop by the class of its first byte.\<close>

lemma isspace_set: "c \<in> {CHR '' '', FF, NL, CR, TAB, VT} \<longleftrightarrow> th8_spilornis_isspace c"
  by (auto simp: th8_spilornis_isspace_def)

lemma isspace_not [simp]:
  "\<not> th8_spilornis_isspace (CHR ''{'')" "\<not> th8_spilornis_isspace (CHR ''}'')"
  "\<not> th8_spilornis_isspace BSL" "\<not> th8_spilornis_isspace DQ" "th8_spilornis_isspace (CHR '' '')"
  by (simp_all add: th8_spilornis_isspace_def)

lemmas find_Cons = find_loop.simps(2) [unfolded isspace_set]

declare find_loop.simps(2) [simp del]

lemma find_open [simp]:
  "find_loop (CHR ''{'' # p) ob q k = find_loop p (if ob \<noteq> 0 then ob + 1 else ob) q (k + 1)"
  by (simp add: find_Cons)

lemma find_close [simp]:
  "find_loop (CHR ''}'' # p) ob q k =
     (if ob > 1 then find_loop p (ob - 1) q (k + 1)
      else if ob = 1 then
        (if p = [] \<or> th8_spilornis_isspace (hd p) then Inr (k, p, ob) else Inl (garbage_after ''braces'' p))
      else find_loop p ob q (k + 1))"
  by (simp add: find_Cons)

lemma find_backslash:
  "find_loop (BSL # p) ob q k =
     find_loop (drop (fst (EagleParseBackslash (BSL # p))) (BSL # p)) ob q (k + fst (EagleParseBackslash (BSL # p)))"
  by (simp add: find_Cons Let_def)

lemma find_space:
  "th8_spilornis_isspace c \<Longrightarrow>
     find_loop (c # p) ob q k = (if ob = 0 \<and> \<not> q then Inr (k, c # p, ob) else find_loop p ob q (k + 1))"
  by (subst find_Cons) auto

lemma find_quote [simp]:
  "find_loop (DQ # p) ob q k =
     (if q then
        (if p = [] \<or> th8_spilornis_isspace (hd p) then Inr (k, p, ob) else Inl (garbage_after ''quotes'' p))
      else find_loop p ob q (k + 1))"
  by (simp add: find_Cons)

definition ordinary_byte :: "char \<Rightarrow> bool" where
  "ordinary_byte c \<longleftrightarrow> \<not> th8_spilornis_isspace c \<and> c \<notin> {CHR ''{'', CHR ''}'', BSL, DQ}"

lemma find_ordinary: "ordinary_byte c \<Longrightarrow> find_loop (c # p) ob q k = find_loop p ob q (k + 1)"
  unfolding ordinary_byte_def by (subst find_Cons) auto

lemma byte_cases:
  obtains "c = CHR ''{''" | "c = CHR ''}''" | "c = BSL" | "c = DQ" | "th8_spilornis_isspace c" | "ordinary_byte c"
  unfolding ordinary_byte_def by blast

lemma find_loop_consumes:
  "find_loop p ob q k = Inr (n, p', ob') \<Longrightarrow>
     \<exists>u. p = u @ p' \<and> k \<le> n \<and> n \<le> k + length u \<and> (p' \<noteq> [] \<longrightarrow> th8_spilornis_isspace (hd p'))"
proof (induction "length p" arbitrary: p ob q k rule: less_induct)
  case (less p ob q k)
  have later: ?case if "find_loop (drop m p) ob1 q (k + m) = Inr (n, p', ob')" "0 < m" "m \<le> length p" for m ob1
  proof -
    note m = that
    obtain u where u: "drop m p = u @ p'" "k + m \<le> n" "n \<le> k + m + length u"
      "p' \<noteq> [] \<longrightarrow> th8_spilornis_isspace (hd p')"
      using less.hyps [of "drop m p", OF _ m(1)] m(2,3) by (metis diff_less length_drop order_less_le_trans)
    then show ?thesis
      by (intro exI [of _ "take m p @ u"]) (use m(3) append_take_drop_id [of m p] in auto)
  qed
  show ?case
  proof (cases p)
    case Nil
    with less.prems show ?thesis by (auto split: if_splits)
  next
    case (Cons c cs)
    note tail = later [of "Suc 0"]
    show ?thesis
    proof (cases c rule: byte_cases)
      case 3
      then show ?thesis
        using less.prems Cons later [of "fst (EagleParseBackslash p)" ob] EagleParseBackslash_bound [of p]
        by (simp add: find_backslash)
    qed (use less.prems Cons tail in \<open>auto simp: find_space find_ordinary split: if_splits\<close>)
  qed
qed

lemma EagleFindElement_consumes:
  assumes "EagleFindElement text = Inr (element, n, brace, rest)" "element \<noteq> []"
  obtains u where "text = u @ rest" "u \<noteq> []" "n \<le> length u"
    "rest \<noteq> [] \<Longrightarrow> n < length u \<and> (\<exists>c \<in> set u. th8_spilornis_isspace c) \<and> \<not> th8_spilornis_isspace (hd rest)"
proof -
  let ?sp = "th8_spilornis_isspace"
  obtain c p where p: "dropWhile ?sp text = c # p"
    using assms by (auto simp: EagleFindElement_def split: list.splits)
  then have c: "\<not> ?sp c" by (metis dropWhile_eq_Cons_conv)
  obtain lead ob q where s: "c # p = lead @ element" "lead = [] \<Longrightarrow> element = c # p"
    and f: "\<exists>p' ob'. find_loop element ob q 0 = Inr (n, p', ob') \<and> rest = dropWhile ?sp p'"
    using assms(1) p by (fastforce simp: EagleFindElement_def Let_def split: if_splits sum.splits prod.splits)
  from f obtain p' ob' where f: "find_loop element ob q 0 = Inr (n, p', ob')" and r: "rest = dropWhile ?sp p'"
    by blast
  obtain v where v: "element = v @ p'" "n \<le> length v" "p' \<noteq> [] \<longrightarrow> ?sp (hd p')"
    using find_loop_consumes [OF f] by auto
  define u where "u = takeWhile ?sp text @ lead @ v @ takeWhile ?sp p'"
  have "text = takeWhile ?sp text @ lead @ element" using p s(1) by (metis takeWhile_dropWhile_id)
  then have split: "text = u @ rest" unfolding u_def v(1) r by simp
  have "lead \<noteq> [] \<or> v \<noteq> []" using s(2) v(1,3) c by (cases v) auto
  then have "u \<noteq> []" by (auto simp: u_def)
  moreover have "n < length u \<and> (\<exists>x \<in> set u. ?sp x) \<and> \<not> ?sp (hd rest)" if "rest \<noteq> []"
  proof -
    from that r have "p' \<noteq> []" by auto
    with v(3) have "takeWhile ?sp p' \<noteq> []" "hd p' \<in> set (takeWhile ?sp p')" by (cases p'; simp)+
    moreover from this(1) have "n < length u" using v(2) by (cases "takeWhile ?sp p'") (simp_all add: u_def)
    moreover have "\<not> ?sp (hd rest)" using that r hd_dropWhile by blast
    ultimately show ?thesis using v(3) \<open>p' \<noteq> []\<close> by (auto simp: u_def)
  qed
  moreover have "n \<le> length u" using v(2) by (simp add: u_def)
  ultimately show thesis by (intro that [OF split]) blast+
qed

lemma EagleFindElement_shorter:
  "EagleFindElement text = Inr (element, n, brace, rest) \<Longrightarrow> element \<noteq> [] \<Longrightarrow> length rest < length text"
  by (erule EagleFindElement_consumes) auto

text \<open>The estimate of \<open>Eagle_SplitList\<close>: two, and one for every run of white space.\<close>

fun skip_run :: "string \<Rightarrow> string" where
  "skip_run [] = []"
| "skip_run (next # l) = (if th8_spilornis_isspace next then skip_run l else l)"

lemma skip_run_length [termination_simp]: "length (skip_run l) \<le> length l"
  by (induction l) auto

fun space_runs :: "string \<Rightarrow> nat" where
  "space_runs [] = 0"
| "space_runs (c # l) = (if th8_spilornis_isspace c then 1 + space_runs (skip_run l) else space_runs l)"

abbreviation LIBRARY_MAXIMUM_SIZE_T :: nat where "LIBRARY_MAXIMUM_SIZE_T \<equiv> 0x7FFFFFFF"

text \<open>
  The element loop: \<open>i\<close> elements are written before \<open>pText\<close>, into arrays of \<open>nSize\<close> entries. The result
  is the elements written from here on, and the error that stopped the loop, if any.
\<close>

function split_loop :: "nat \<Rightarrow> string \<Rightarrow> nat \<Rightarrow> string list \<times> string option" where
  "split_loop nSize pText i =
     (if pText = [] then ([], None)
      else
        (case EagleFindElement pText of
           Inl e \<Rightarrow> ([], Some e)
         | Inr (element, elSize, brace, rest) \<Rightarrow>
             if element = [] then ([], None)
             else if i \<ge> nSize then ([], Some ''wrong estimated list size'')
             else
               (let el = (if brace then take elSize element else EagleCopyAndCollapse (take elSize element))
                in apfst (Cons el) (split_loop nSize rest (i + 1)))))"
  by auto
termination split_loop
  by (relation "measure (\<lambda>(_, pText, _). length pText)") (auto dest: EagleFindElement_shorter)

declare split_loop.simps [simp del]

text \<open>\<open>lengths_ok\<close> and \<open>pointers_ok\<close> say whether the two arrays could be allocated.\<close>

definition Eagle_SplitList :: "bool \<Rightarrow> bool \<Rightarrow> string \<Rightarrow> string list res" where
  "Eagle_SplitList lengths_ok pointers_ok pText =
     (let nSize = 2 + space_runs pText; listLength = length pText in
      if nSize > LIBRARY_MAXIMUM_SIZE_T div 8 then Inl ''list too large for element lengths (''
      else if \<not> lengths_ok then Inl ''out of memory for list element lengths (''
      else if nSize > LIBRARY_MAXIMUM_SIZE_T div 8 \<or> listLength + 1 > LIBRARY_MAXIMUM_SIZE_T - nSize * 8
      then Inl ''list too large for element data (''
      else if \<not> pointers_ok then Inl ''out of memory for list element pointers (''
      else (case split_loop nSize pText 0 of (els, Some e) \<Rightarrow> Inl e | (els, None) \<Rightarrow> Inr els))"

section \<open>Joining a list\<close>

abbreviation LIBRARY_LOCAL_FLAGS :: nat where "LIBRARY_LOCAL_FLAGS \<equiv> 20"

text \<open>The first pass, which reserves space, and the second, which writes; \<open>i\<close> counts the elements before.\<close>

fun join_estimate :: "nat \<Rightarrow> string list \<Rightarrow> nat" where
  "join_estimate i [] = 0"
| "join_estimate i (e # es) = (if i > 0 then 1 else 0) + fst (EagleScanCountedElement e) + join_estimate (i + 1) es"

fun join_write :: "nat \<Rightarrow> string list \<Rightarrow> string" where
  "join_write i [] = []"
| "join_write i (e # es) =
     (if i > 0 then '' '' else []) @
     EagleConvertCountedElement e
       (snd (EagleScanCountedElement e) OR (if i = 0 then 0 else EAGLE_DONT_QUOTE_HASH)) @
     join_write (i + 1) es"

definition Eagle_JoinList :: "bool \<Rightarrow> bool \<Rightarrow> string list \<Rightarrow> string res" where
  "Eagle_JoinList flags_ok text_ok ppElements =
     (let elementCount = length ppElements in
      if elementCount > LIBRARY_LOCAL_FLAGS \<and> elementCount > LIBRARY_MAXIMUM_SIZE_T div 4
      then Inl ''list too large for element flags (''
      else if elementCount > LIBRARY_LOCAL_FLAGS \<and> \<not> flags_ok
      then Inl ''out of memory for list element flags (''
      else if \<not> text_ok then Inl ''out of memory for list element text (''
      else Inr (join_write 0 ppElements))"

section \<open>The arrays of a split are large enough\<close>

lemma skip_run_append:
  "skip_run (u @ r) = (if \<forall>c \<in> set u. th8_spilornis_isspace c then skip_run r else skip_run u @ r)"
  by (induction u) auto

lemma space_runs_append:
  "r = [] \<or> \<not> th8_spilornis_isspace (hd r) \<Longrightarrow> space_runs (u @ r) = space_runs u + space_runs r"
proof (induction u rule: space_runs.induct)
  case (2 c l)
  have all: "space_runs (skip_run l) = 0" if "\<forall>c \<in> set l. th8_spilornis_isspace c"
    using that by (induction l) auto
  have "space_runs (skip_run r) = space_runs r" using "2.prems" by (cases r) auto
  with 2 all show ?case by (auto simp: skip_run_append)
qed simp

lemma space_runs_pos: "\<exists>c \<in> set u. th8_spilornis_isspace c \<Longrightarrow> 0 < space_runs u"
  by (induction u) auto

lemma EagleCopyAndCollapse_length [th8_bound]: "length (EagleCopyAndCollapse s) \<le> length s"
proof (induction s rule: EagleCopyAndCollapse.induct)
  case (2 c src)
  show ?case
  proof (cases "c = BSL")
    case True
    with 2 have "length (EagleCopyAndCollapse (drop (fst (EagleParseBackslash (c # src))) (c # src)))
        \<le> length (c # src) - fst (EagleParseBackslash (c # src))"
      by fastforce
    then show ?thesis
      using True EagleParseBackslash_bound [of "c # src"] EagleParseBackslash_write [of "c # src"]
      by (simp add: Let_def)
  qed (use 2 in simp)
qed simp

lemma find_loop_error: "find_loop p ob q k = Inl e \<Longrightarrow> e \<noteq> [] \<and> hd e \<noteq> CHR ''w''"
proof (induction "length p" arbitrary: p ob q k rule: less_induct)
  case (less p ob q k)
  show ?case
  proof (cases p)
    case Nil
    with less.prems show ?thesis by (auto split: if_splits)
  next
    case (Cons c cs)
    note tail = less.hyps [of cs]
    show ?thesis
    proof (cases c rule: byte_cases)
      case 3
      show ?thesis
        by (rule less.hyps [of "drop (fst (EagleParseBackslash p)) p"])
           (use less.prems 3 Cons in \<open>auto simp: find_backslash intro: diff_less\<close>)
    qed (use less.prems Cons tail in \<open>auto simp: find_space find_ordinary garbage_after_def split: if_splits\<close>)
  qed
qed

lemma EagleFindElement_error: "EagleFindElement text = Inl e \<Longrightarrow> e \<noteq> ''wrong estimated list size''"
  by (auto simp: EagleFindElement_def Let_def split: list.splits if_splits sum.splits dest: find_loop_error)

lemma split_loop_stop:
  "split_loop nSize [] i = ([], None)"
  "list \<noteq> [] \<Longrightarrow> EagleFindElement list = Inl e \<Longrightarrow> split_loop nSize list i = ([], Some e)"
  "EagleFindElement list = Inr ([], x) \<Longrightarrow> split_loop nSize list i = ([], None)"
  by (subst split_loop.simps; auto split: if_splits)+

lemma split_loop_step:
  "EagleFindElement list = Inr (el, n, br, r) \<Longrightarrow> list \<noteq> [] \<Longrightarrow> el \<noteq> [] \<Longrightarrow>
     split_loop nSize list i =
       (if i \<ge> nSize then ([], Some ''wrong estimated list size'')
        else apfst (Cons (if br then take n el else EagleCopyAndCollapse (take n el))) (split_loop nSize r (i + 1)))"
  by (subst split_loop.simps) (simp add: Let_def)

lemma split_loop_fits:
  "split_loop nSize list i = (els, err) \<Longrightarrow> i + space_runs list + 2 \<le> nSize \<Longrightarrow>
     i + length els < nSize \<and> (\<Sum>e \<leftarrow> els. length e + 1) \<le> length list + 1 \<and>
     err \<noteq> Some ''wrong estimated list size''"
proof (induction nSize list i arbitrary: els rule: split_loop.induct)
  case (1 nSize list i)
  show ?case
  proof (cases "list = [] \<or> (\<exists>e. EagleFindElement list = Inl e) \<or> (\<exists>x. EagleFindElement list = Inr ([], x))")
    case True
    then show ?thesis
      using "1.prems" by (cases "list = []") (auto simp: split_loop_stop dest: EagleFindElement_error)
  next
    case False
    then obtain el n br r where f: "EagleFindElement list = Inr (el, n, br, r)" "el \<noteq> []" "list \<noteq> []"
      by (metis sumE prod.exhaust)
    obtain u where u: "list = u @ r" "u \<noteq> []" "n \<le> length u"
      "r \<noteq> [] \<Longrightarrow> n < length u \<and> (\<exists>c \<in> set u. th8_spilornis_isspace c) \<and> \<not> th8_spilornis_isspace (hd r)"
      using EagleFindElement_consumes [OF f(1,2)] by metis
    define x where "x = (if br then take n el else EagleCopyAndCollapse (take n el))"
    have x: "length x \<le> n"
      using EagleCopyAndCollapse_length [of "take n el"] by (auto simp: x_def)
    have i: "i < nSize" using "1.prems"(2) by simp
    then obtain es where es: "split_loop nSize r (i + 1) = (es, err)" "els = x # es"
      using "1.prems"(1) by (cases "split_loop nSize r (i + 1)") (simp add: split_loop_step [OF f(1,3,2)] x_def)
    show ?thesis
    proof (cases "r = []")
      case True
      with es u x "1.prems"(2) show ?thesis by (auto simp: split_loop_stop)
    next
      case False
      with u have "space_runs list = space_runs u + space_runs r" "0 < space_runs u"
        by (auto simp: space_runs_append space_runs_pos)
      with "1.prems"(2) have "i + 1 + space_runs r + 2 \<le> nSize" by simp
      with "1.IH" [OF f(3) f(1) refl refl refl f(2)] i es
      have "i + 1 + length es < nSize \<and> (\<Sum>e \<leftarrow> es. length e + 1) \<le> length r + 1 \<and>
        err \<noteq> Some ''wrong estimated list size''" by auto
      with es u(1) u(4) [OF False] x show ?thesis by auto
    qed
  qed
qed

section \<open>Elements in braces\<close>

text \<open>A brace after the element ends every backslash sequence where it ended before.\<close>

lemma digit_scan_count:
  "fst (EagleParseBin p r) = length (takeWhile EagleIsBinDigit p)"
  "fst (EagleParseOct p r) = length (takeWhile EagleIsOctDigit p)"
  "fst (EagleParseDec p r) = length (takeWhile EagleIsDecDigit p)"
  "fst (EagleParseHex p r) = length (takeWhile EagleIsHexDigit p)"
  by (induction p arbitrary: r; simp add: Let_def)+

lemma takeWhile_take_stop: "\<not> P x \<Longrightarrow> takeWhile P (take n (cs @ x # r)) = takeWhile P (take n cs)"
proof (induction cs arbitrary: n)
  case Nil
  then show ?case by (cases n) auto
next
  case (Cons c cs)
  then show ?case by (cases n) auto
qed

lemma takeWhile_stop: "\<not> P x \<Longrightarrow> takeWhile P (cs @ x # r) = takeWhile P cs"
  by (induction cs) auto

lemma brace_no_digit [simp]:
  "\<not> EagleIsBinDigit (CHR ''}'')" "\<not> EagleIsOctDigit (CHR ''}'')"
  "\<not> EagleIsDecDigit (CHR ''}'')" "\<not> EagleIsHexDigit (CHR ''}'')"
  by (simp_all add: EagleIsBinDigit_def EagleIsOctDigit_def EagleIsDecDigit_def EagleIsHexDigit_def)

lemma digits_or_count: "fst (digits_or c f x) = 2 + fst x"
  by (simp add: digits_or_def)

lemma octal_or_self_stop: "fst (octal_or_self (c # cs @ CHR ''}'' # r)) = fst (octal_or_self (c # cs))"
  by (cases cs rule: list.exhaust; cases "tl cs") (auto simp: octal_or_self_def Let_def)

lemma hex_window:
  "take (if length p + 2 > 5 then 4 else length p + 2 - 2) p = take 4 p"
  "take (if length p + 2 > 9 then 8 else length p + 2 - 2) p = take 8 p"
  by auto

lemma EagleParseBackslash_stop:
  assumes "p \<noteq> []" "hd p \<noteq> NL"
  shows "fst (EagleParseBackslash (b # p @ CHR ''}'' # r)) = fst (EagleParseBackslash (b # p))"
proof -
  obtain c cs where p: "p = c # cs" using assms by (cases p) auto
  have "fst (backslash_value c (cs @ CHR ''}'' # r)) = fst (backslash_value c cs)"
    using assms p
    by (simp only: backslash_value_def Let_def hex_window if_distrib [of fst] digits_or_count digit_scan_count
        octal_or_self_stop takeWhile_stop takeWhile_take_stop brace_no_digit not_False_eq_True fst_conv list.sel simp_thms if_False)
  then show ?thesis by (simp add: p)
qed

lemma scan_loop_odd: "odd f \<Longrightarrow> odd (snd (scan_loop p n f))"
  by (induction p n f rule: scan_loop.induct) (auto simp: even_or_iff)

lemma scan_open: "scan_loop (CHR ''{'' # p) n f = scan_loop p (n + 1) f"
  by simp

lemma scan_close:
  "scan_loop (CHR ''}'' # p) n f = (n', f') \<Longrightarrow> even f' \<Longrightarrow> 0 \<le> n \<Longrightarrow> 0 < n \<and> scan_loop p (n - 1) f = (n', f')"
  using scan_loop_odd [of "f OR (1 OR 4)" p "n - 1"]
  by (cases "n - 1 < 0") (auto simp: even_or_iff)

lemma scan_backslash:
  "scan_loop (BSL # p) n f = (n', f') \<Longrightarrow> even f' \<Longrightarrow>
     p \<noteq> [] \<and> hd p \<noteq> NL \<and>
     scan_loop (drop (fst (EagleParseBackslash (BSL # p))) (BSL # p)) n (f OR 2) = (n', f')"
  using scan_loop_odd [of "1 OR 4" p n]
  by (cases "p = [] \<or> hd p = NL") (subst (asm) scan_loop.simps; simp)+

lemma scan_other:
  "c \<notin> {CHR ''{'', CHR ''}'', BSL} \<Longrightarrow> \<exists>g. scan_loop (c # p) n f = scan_loop p n g"
  by auto

lemma find_braced:
  "scan_loop p n f = (n', f') \<Longrightarrow> even f' \<Longrightarrow> 0 \<le> n \<Longrightarrow>
     0 \<le> n' \<and>
     find_loop (p @ CHR ''}'' # r) (nat n + 1) False k = find_loop (CHR ''}'' # r) (nat n' + 1) False (k + length p)"
proof (induction "length p" arbitrary: p n f k rule: less_induct)
  case (less p n f k)
  show ?case
  proof (cases p)
    case Nil
    with less.prems show ?thesis by simp
  next
    case (Cons c q)
    have other: ?thesis if c: "c \<notin> {CHR ''{'', CHR ''}'', BSL}"
    proof -
      obtain g where g: "scan_loop q n g = (n', f')"
        using scan_other [OF c, of q n f] less.prems(1) Cons by metis
      have "find_loop (c # q @ CHR ''}'' # r) (nat n + 1) False k = find_loop (q @ CHR ''}'' # r) (nat n + 1) False (k + 1)"
        using c by (cases c rule: byte_cases) (simp_all add: find_space find_ordinary)
      with less.hyps [OF _ g less.prems(2,3), of "k + 1"] Cons show ?thesis by simp
    qed
    show ?thesis
    proof (cases c rule: byte_cases)
      case 1
      with less.hyps [of q "n + 1" f "k + 1"] less.prems Cons show ?thesis
        by (simp add: nat_add_distrib)
    next
      case 2
      then have "0 < n" "scan_loop q (n - 1) f = (n', f')"
        using scan_close [of q n f n' f'] less.prems Cons by auto
      with less.hyps [of q "n - 1" f "k + 1"] less.prems Cons 2 show ?thesis
        by (simp add: nat_diff_distrib)
    next
      case 3
      let ?m = "fst (EagleParseBackslash p)"
      have s: "q \<noteq> []" "hd q \<noteq> NL" "scan_loop (drop ?m p) n (f OR 2) = (n', f')"
        using scan_backslash [of q n f n' f'] less.prems Cons 3 by auto
      have m: "0 < ?m" "?m \<le> length p" using EagleParseBackslash_bound [of p] Cons by auto
      have e: "find_loop (p @ CHR ''}'' # r) (nat n + 1) False k =
          find_loop (drop ?m p @ CHR ''}'' # r) (nat n + 1) False (k + ?m)"
        using EagleParseBackslash_stop [OF s(1,2), of BSL r] m(2) drop_append [of ?m p "CHR ''}'' # r"]
        by (simp add: Cons 3 find_backslash)
      have "length (drop ?m p) < length p" "k + ?m + length (drop ?m p) = k + length p"
        using m by simp_all
      with less.hyps [OF this(1) s(3) less.prems(2,3), of "k + ?m"] show ?thesis by (simp only: e)
    qed (use other in \<open>auto simp: ordinary_byte_def th8_spilornis_isspace_def\<close>)
  qed
qed

section \<open>Elements with backslashes\<close>

declare EagleParseBackslash.simps(3) [simp del]

lemmas escape_simps = EagleParseBackslash.simps(3) backslash_value_def octal_or_self_def EagleIsDecDigit_def
  ucs_bytes_def ucs_def ucs_signed_def c2i_def Let_def

lemma escape_letter [simp]:
  "EagleParseBackslash (BSL # CHR ''f'' # p) = (2, [FF])"
  "EagleParseBackslash (BSL # CHR ''n'' # p) = (2, [NL])"
  "EagleParseBackslash (BSL # CHR ''r'' # p) = (2, [CR])"
  "EagleParseBackslash (BSL # CHR ''t'' # p) = (2, [TAB])"
  "EagleParseBackslash (BSL # CHR ''v'' # p) = (2, [VT])"
  by (simp_all add: escape_simps char_of_def bit_0)

lemma escape_self [simp]:
  "EagleParseBackslash (BSL # CHR '']'' # p) = (2, '']'')"
  "EagleParseBackslash (BSL # CHR ''['' # p) = (2, ''['')"
  "EagleParseBackslash (BSL # CHR ''$'' # p) = (2, ''$'')"
  "EagleParseBackslash (BSL # CHR '';'' # p) = (2, '';'')"
  "EagleParseBackslash (BSL # CHR '' '' # p) = (2, '' '')"
  "EagleParseBackslash (BSL # CHR ''{'' # p) = (2, ''{'')"
  "EagleParseBackslash (BSL # CHR ''}'' # p) = (2, ''}'')"
  "EagleParseBackslash (BSL # CHR ''#'' # p) = (2, ''#'')"
  "EagleParseBackslash (BSL # BSL # p) = (2, [BSL])"
  "EagleParseBackslash (BSL # DQ # p) = (2, [DQ])"
  by (simp_all add: escape_simps char_of_def bit_0)

text \<open>A piece of a bare element: a byte that stands for itself, or a backslash sequence for it.\<close>

definition piece :: "char \<Rightarrow> string \<Rightarrow> bool" where
  "piece c w \<longleftrightarrow>
     w = [c] \<and> c \<noteq> BSL \<and> \<not> th8_spilornis_isspace c \<or>
     (\<exists>x. w = [BSL, x] \<and> (\<forall>p. EagleParseBackslash (BSL # x # p) = (2, [c])))"

lemma convert_char_piece: "piece c (convert_char f c)"
  unfolding piece_def convert_char_def
  by (auto simp: th8_spilornis_isspace_def)

lemma piece_find: "piece c w \<Longrightarrow> find_loop (w @ r) 0 False k = find_loop r 0 False (k + length w)"
  by (cases c rule: byte_cases)
     (auto simp: piece_def find_ordinary find_backslash)

lemma piece_collapse: "piece c w \<Longrightarrow> EagleCopyAndCollapse (w @ r) = c # EagleCopyAndCollapse r"
  by (auto simp: piece_def Let_def)

definition pieces :: "string \<Rightarrow> string \<Rightarrow> bool" where
  "pieces s t \<longleftrightarrow> (\<exists>ws. list_all2 piece s ws \<and> t = concat ws)"

lemma pieces_convert: "pieces s (concat (map (convert_char f) s))"
  unfolding pieces_def by (auto simp: list_all2_map2 convert_char_piece list.rel_refl intro!: exI)

lemma pieces_found:
  assumes "pieces s t" "r = [] \<or> th8_spilornis_isspace (hd r)"
  shows "find_loop (t @ r) 0 False k = Inr (k + length t, r, 0)" and "EagleCopyAndCollapse t = s"
proof -
  obtain ws where ws: "list_all2 piece s ws" "t = concat ws" using assms(1) by (auto simp: pieces_def)
  have stop: "find_loop r 0 False n = Inr (n, r, 0)" for n
    using assms(2) by (cases r) (auto simp: find_space)
  from ws(1) have "find_loop (concat ws @ r) 0 False k = find_loop r 0 False (k + length (concat ws))"
    by (induction s ws arbitrary: k rule: list_all2_induct) (simp_all add: piece_find add.assoc)
  with stop ws(2) show "find_loop (t @ r) 0 False k = Inr (k + length t, r, 0)" by simp
  from ws(1) have "EagleCopyAndCollapse (concat ws) = s"
    by (induction s ws rule: list_all2_induct) (simp_all add: piece_collapse)
  with ws(2) show "EagleCopyAndCollapse t = s" by simp
qed

section \<open>Joining and splitting\<close>

lemma or_and_bits:
  "(f OR 8) AND 2 = f AND (2 :: int)" "(f OR 8) AND 1 = f AND (1 :: int)" "(f OR 2) AND 1 = f AND (1 :: int)"
  by (simp_all add: bit.conj_disj_distrib2)

lemma pieces_Cons: "piece c v \<Longrightarrow> pieces cs t \<Longrightarrow> pieces (c # cs) (v @ t)"
  unfolding pieces_def by (metis concat.simps(2) list_all2_Cons)

lemma convert_char_head:
  "c \<noteq> CHR ''{'' \<Longrightarrow> \<exists>x v. convert_char f c = x # v \<and> x \<notin> {CHR ''{'', DQ} \<and> \<not> th8_spilornis_isspace x"
  by (auto simp: convert_char_def th8_spilornis_isspace_def)

text \<open>
  What the writer produces for one element: the element in braces, balanced as the scan found it, or pieces
  whose first byte opens nothing.
\<close>

lemma EagleConvertCountedElement_cases:
  assumes w: "w = EagleConvertCountedElement e (snd (EagleScanCountedElement e) OR h)" and h: "h = 0 \<or> h = 8"
  obtains (braces) g f where "w = CHR ''{'' # e @ [CHR ''}'']" "scan_loop e 0 g = (0, f)" "even f"
  | (bare) x v where "pieces e w" "w = x # v" "x \<notin> {CHR ''{'', DQ}" "\<not> th8_spilornis_isspace x"
proof (cases e)
  case Nil
  then show thesis
    using w by (intro braces [of 2 2]) (simp_all add: EagleConvertCountedElement_def)
next
  case (Cons c cs)
  define g where "g = (if e = [] \<or> hd e = CHR ''{'' \<or> hd e = DQ then 2 else 0 :: int)"
  obtain n f where s: "scan_loop e 0 g = (n, f)" by fastforce
  define k where "k = (if n \<noteq> 0 then 1 OR 4 else f) OR h"
  have k: "snd (EagleScanCountedElement e) OR h = k"
    by (simp add: EagleScanCountedElement_def Let_def s [unfolded g_def] k_def)
  have k1: "k AND 1 = 0 \<Longrightarrow> n = 0 \<and> even f"
    using h by (auto simp: k_def and_one_eq even_or_iff split: if_splits)
  have bare': thesis if "w = v @ concat (map (convert_char j) cs)" "piece c v" "v = x # y"
    "x \<notin> {CHR ''{'', DQ}" "\<not> th8_spilornis_isspace x" for v j x y
    by (rule bare [of x]) (use that pieces_Cons [OF that(2) pieces_convert [of cs j]] Cons in auto)
  have esc: "piece c [BSL, c]" if "c = CHR ''{'' \<or> c = CHR ''#''"
    using that by (auto simp: piece_def)
  define quote where "quote = (c = CHR ''#'' \<and> k AND 8 = 0)"
  define k' where "k' = (if quote then k OR 2 else k)"
  have w': "w = (if k' AND 2 \<noteq> 0 \<and> k' AND 1 = 0 then CHR ''{'' # e @ [CHR ''}'']
      else if c = CHR ''{'' then [BSL, CHR ''{''] @ concat (map (convert_char (k' OR 4)) cs)
      else if quote then [BSL, CHR ''#''] @ concat (map (convert_char k') cs)
      else convert_char k' c @ concat (map (convert_char k') cs))"
    unfolding w k EagleConvertCountedElement_def Let_def k'_def quote_def using Cons by simp
  consider "k' AND 2 \<noteq> 0 \<and> k' AND 1 = 0" | "\<not> (k' AND 2 \<noteq> 0 \<and> k' AND 1 = 0)" "c = CHR ''{''"
    | "\<not> (k' AND 2 \<noteq> 0 \<and> k' AND 1 = 0)" "c \<noteq> CHR ''{''" quote
    | "\<not> (k' AND 2 \<noteq> 0 \<and> k' AND 1 = 0)" "c \<noteq> CHR ''{''" "\<not> quote" by blast
  then show thesis
  proof cases
    case 1
    then have "k AND 1 = 0" by (simp add: k'_def or_and_bits split: if_splits)
    with k1 s w' 1 show thesis by (intro braces [of g f]) simp_all
  next
    case 2
    then show thesis using w' esc by (intro bare' [of "[BSL, c]" "k' OR 4" BSL "[c]"]) simp_all
  next
    case 3
    then show thesis using w' esc by (intro bare' [of "[BSL, c]" k' BSL "[c]"]) (simp_all add: quote_def)
  next
    case 4
    then obtain x v where "convert_char k' c = x # v" "x \<notin> {CHR ''{'', DQ}" "\<not> th8_spilornis_isspace x"
      using convert_char_head by blast
    with 4 w' convert_char_piece [of c k'] show thesis by (intro bare' [of "convert_char k' c" k' x v]) auto
  qed
qed

text \<open>The reader finds the element again, whatever follows after a separator.\<close>

lemma written_element_found:
  assumes "w = EagleConvertCountedElement e (snd (EagleScanCountedElement e) OR h)" "h = 0 \<or> h = 8"
    and r: "r = [] \<or> th8_spilornis_isspace (hd r)"
  obtains el n br where "EagleFindElement (w @ r) = Inr (el, n, br, dropWhile th8_spilornis_isspace r)" "el \<noteq> []"
    "(if br then take n el else EagleCopyAndCollapse (take n el)) = e"
  using assms(1,2)
proof (cases rule: EagleConvertCountedElement_cases)
  case (braces g f)
  have "find_loop (e @ CHR ''}'' # r) 1 False 0 = Inr (length e, r, 1)"
    using find_braced [OF braces(2,3), of r 0] r by simp
  then show thesis
    by (intro that [of "e @ CHR ''}'' # r" "length e" True]) (simp_all add: braces(1) EagleFindElement_def)
next
  case (bare x v)
  have "find_loop (w @ r) 0 False 0 = Inr (length w, r, 0)" "EagleCopyAndCollapse w = e"
    using pieces_found(1) [OF bare(1) r, of 0] pieces_found(2) [OF bare(1) r] by simp_all
  then show thesis
    using bare by (intro that [of "w @ r" "length w" False]) (simp_all add: EagleFindElement_def)
qed

lemma written_element_start:
  assumes "w = EagleConvertCountedElement e (snd (EagleScanCountedElement e) OR h)" "h = 0 \<or> h = 8"
  shows "w \<noteq> [] \<and> \<not> th8_spilornis_isspace (hd w)"
  using assms by (cases rule: EagleConvertCountedElement_cases) auto

text \<open>Written elements, each after a space.\<close>

definition written :: "string \<Rightarrow> string \<Rightarrow> bool" where
  "written e w \<longleftrightarrow> (\<exists>h. (h = 0 \<or> h = 8) \<and> w = EagleConvertCountedElement e (snd (EagleScanCountedElement e) OR h))"

definition spaced :: "string list \<Rightarrow> string" where
  "spaced ws = concat (map (Cons (CHR '' '')) ws)"

lemma split_spaced:
  "list_all2 written es ws \<Longrightarrow> j + length es \<le> nSize \<Longrightarrow>
     split_loop nSize (dropWhile th8_spilornis_isspace (spaced ws)) j = (es, None)"
proof (induction es ws arbitrary: j rule: list_all2_induct)
  case Nil
  then show ?case by (simp add: split_loop_stop spaced_def)
next
  case (Cons e es w ws)
  then obtain h where w: "w = EagleConvertCountedElement e (snd (EagleScanCountedElement e) OR h)" and h: "h = 0 \<or> h = 8"
    by (auto simp: written_def)
  have start: "dropWhile th8_spilornis_isspace (spaced (w # ws)) = w @ spaced ws"
    using written_element_start [OF w h] by (cases w) (auto simp: spaced_def)
  have "spaced ws = [] \<or> th8_spilornis_isspace (hd (spaced ws))" by (cases ws) (auto simp: spaced_def)
  then obtain el n br where f: "EagleFindElement (w @ spaced ws) = Inr (el, n, br, dropWhile th8_spilornis_isspace (spaced ws))"
    "el \<noteq> []" "(if br then take n el else EagleCopyAndCollapse (take n el)) = e"
    using written_element_found [OF w h, of "spaced ws"] by auto
  have "w @ spaced ws \<noteq> []" using written_element_start [OF w h] by simp
  with split_loop_step [OF f(1) this f(2), of nSize j] Cons.IH [of "j + 1"] Cons.prems f(3)
  show ?case by (simp only: start) simp
qed

lemma split_loop_limit:
  "split_loop m list i = (es, None) \<Longrightarrow>
     split_loop nSize list i = (es, None) \<or> snd (split_loop nSize list i) = Some ''wrong estimated list size''"
proof (induction m list i arbitrary: es rule: split_loop.induct)
  case (1 m list i)
  show ?case
  proof (cases "list = [] \<or> (\<exists>e. EagleFindElement list = Inl e) \<or> (\<exists>x. EagleFindElement list = Inr ([], x))")
    case True
    with "1.prems" show ?thesis by (cases "list = []") (auto simp: split_loop_stop)
  next
    case False
    then obtain el n br r where f: "EagleFindElement list = Inr (el, n, br, r)" "el \<noteq> []" "list \<noteq> []"
      by (metis sumE prod.exhaust)
    note step = split_loop_step [OF f(1,3,2)]
    from "1.prems" obtain xs where xs: "i < m" "split_loop m r (i + 1) = (xs, None)"
      "es = (if br then take n el else EagleCopyAndCollapse (take n el)) # xs"
      by (cases "split_loop m r (i + 1)") (auto simp: step split: if_splits)
    with "1.IH" [OF f(3) f(1) refl refl refl f(2)] show ?thesis by (auto simp: step)
  qed
qed

lemma space_runs_length [th8_bound]: "space_runs list \<le> length list"
proof (induction list rule: space_runs.induct)
  case (2 c l)
  with skip_run_length [of l] show ?case by (cases "th8_spilornis_isspace c") auto
qed simp

text \<open>
  Elements written one after the other, with a space between them, split into the elements again, within the
  estimate that \<open>Eagle_SplitList\<close> makes for the text.
\<close>

lemma split_written:
  assumes "list_all2 written es ws"
  shows "split_loop (2 + space_runs (tl (spaced ws))) (tl (spaced ws)) 0 = (es, None)"
proof -
  have "dropWhile th8_spilornis_isspace (spaced ws) = tl (spaced ws)"
  proof (cases ws)
    case (Cons w ws')
    with assms have "w \<noteq> [] \<and> \<not> th8_spilornis_isspace (hd w)"
      using written_element_start by (auto simp: list_all2_Cons2 written_def)
    with Cons show ?thesis by (cases w) (auto simp: spaced_def)
  qed (simp add: spaced_def)
  with split_spaced [OF assms, of 0 "length es"] have "split_loop (length es) (tl (spaced ws)) 0 = (es, None)" by simp
  from split_loop_limit [OF this, of "2 + space_runs (tl (spaced ws))"]
    split_loop_fits [of "2 + space_runs (tl (spaced ws))" "tl (spaced ws)" 0]
  show ?thesis by (cases "split_loop (2 + space_runs (tl (spaced ws))) (tl (spaced ws)) 0") auto
qed

lemma join_write_spaced: "\<exists>ws. list_all2 written es ws \<and> join_write i es = (if i = 0 then tl (spaced ws) else spaced ws)"
proof (induction es arbitrary: i)
  case (Cons e es)
  then obtain ws where ws: "list_all2 written es ws" "join_write (Suc i) es = spaced ws" by (metis nat.distinct(1))
  define w where "w = EagleConvertCountedElement e (snd (EagleScanCountedElement e) OR (if i = 0 then 0 else 8))"
  have "written e w" unfolding written_def w_def by (intro exI [of _ "if i = 0 then 0 else 8"]) simp
  with ws show ?case by (intro exI [of _ "w # ws"]) (simp add: spaced_def w_def)
qed (simp add: spaced_def)

lemma split_join:
  "split_loop (2 + space_runs (join_write 0 es)) (join_write 0 es) 0 = (es, None)"
  using join_write_spaced [of es 0] split_written by auto

lemma convert_char_length: "length (convert_char f c) \<le> 2"
  by (simp add: convert_char_def)

lemma convert_chars_length: "length (concat (map (convert_char f) s)) \<le> 2 * length s"
proof (induction s)
  case (Cons c s)
  with convert_char_length [of f c] show ?case by simp
qed simp

lemma EagleConvertCountedElement_length [th8_bound]:
  "length (EagleConvertCountedElement e f) \<le> fst (EagleScanCountedElement e)"
proof (cases e)
  case (Cons c s)
  have "length (concat (map (convert_char k) s)) \<le> 2 * length s"
    "length (concat (map (convert_char k) e)) \<le> 2 * length e" for k
    by (rule convert_chars_length)+
  with Cons show ?thesis
    by (auto simp: EagleConvertCountedElement_def EagleScanCountedElement_def Let_def split_def le_SucI)
qed (simp add: EagleConvertCountedElement_def EagleScanCountedElement_def split_def)

lemma join_write_length: "length (join_write i es) \<le> join_estimate i es"
proof (induction es arbitrary: i)
  case (Cons e es)
  with EagleConvertCountedElement_length [of e] show ?case by (auto intro: add_mono)
qed simp

section \<open>Theorems\<close>

text \<open>
  C20: A list written by \<open>Eagle_JoinList\<close> splits into exactly the elements it was written from, whatever bytes
  they hold (empty elements, unbalanced braces, trailing backslashes, leading hashes, white space, NUL), as long
  as the text is small enough for the two arrays of \<open>Eagle_SplitList\<close> and they can be allocated.
\<close>

theorem list_roundtrip:
  assumes "Eagle_JoinList flags_ok text_ok es = Inr list" and "9 * length list + 17 \<le> LIBRARY_MAXIMUM_SIZE_T"
  shows "Eagle_SplitList True True list = Inr es"
proof -
  have list: "list = join_write 0 es"
    using assms(1) by (auto simp: Eagle_JoinList_def Let_def split: if_splits)
  then show ?thesis
    using assms(2) split_join [of es] space_runs_length [of list] by (simp add: Eagle_SplitList_def)
qed

theorem list_roundtrip_witness:
  "Eagle_SplitList True True ([BSL, CHR ''{''] @ ''a {} {b c} d'' @ [BSL, BSL]) =
     Inr [''{a'', [], ''b c'', ''d'' @ [BSL]]"
proof (rule list_roundtrip)
  show "Eagle_JoinList True True [''{a'', [], ''b c'', ''d'' @ [BSL]] =
      Inr ([BSL, CHR ''{''] @ ''a {} {b c} d'' @ [BSL, BSL])"
    by (simp add: Eagle_JoinList_def EagleScanCountedElement_def EagleConvertCountedElement_def convert_char_def)
qed simp

text \<open>
  C21: Neither direction overruns what it allocated. On any text, well formed or not, \<open>Eagle_SplitList\<close> stores
  fewer elements than its arrays have entries (so that the terminating NULL fits) and never reports a wrong
  estimate, and the elements with their terminating bytes fit into the copy of the text. \<open>Eagle_JoinList\<close>
  never writes more than it reserved.
\<close>

theorem list_buffers_safe:
  "(case split_loop (2 + space_runs list) list 0 of (els, err) \<Rightarrow>
      length els < 2 + space_runs list \<and> (\<Sum>e \<leftarrow> els. length e + 1) \<le> length list + 1 \<and>
      err \<noteq> Some ''wrong estimated list size'') \<and>
   length (join_write 0 es) \<le> join_estimate 0 es"
  using split_loop_fits [of "2 + space_runs list" list 0] join_write_length
  by (cases "split_loop (2 + space_runs list) list 0") simp

end
