(* ===== verification/Th8_ListValues.thy ===== *)
theory Th8_ListValues
  imports Th8_Lists Th8_Limits
begin

text \<open>
  List values of the interpreter (\<open>src/src/th8_core.c\<close>): appending to a string and to a list with the taint
  and sensitivity tags that a length carries (\<open>Th8_StringAppend\<close>, \<open>Th8_ListAppend\<close>), and splitting a list
  through the cache of internal representations (\<open>Th8_SplitList\<close>).

  A value is a byte buffer with a tagged length, as in the code: the low 28 bits are the length. Results of
  allocations are arguments. A call of the panic handler for an oversize string is counted in \<open>oversize\<close>, since
  the handler may return.

  The theorems: a list built by appending splits into the elements appended, with the union of their tags; a split
  through the cache returns what a parse of the same text returns, unless an earlier caller asked for the elements
  without their count, in which case an empty list was stored for the text.
\<close>

section \<open>Appending with tagged lengths\<close>

text \<open>\<open>TH8_ALLOC\<close> refuses zero and more than \<open>TH8_MX_ALLOC\<close> bytes, whatever the platform would answer.\<close>

definition alloc_given :: "bool \<Rightarrow> size_t \<Rightarrow> bool" where
  "alloc_given ok nByte \<longleftrightarrow> ok \<and> nByte \<noteq> 0 \<and> nByte \<le> TH8_MX_ALLOC"

record str_interp =
  limits :: interp
  buildFailed :: bool
  oversize :: nat

definition th8OversizeString :: "str_interp \<Rightarrow> str_interp" where
  "th8OversizeString st = st\<lparr>oversize := oversize st + 1\<rparr>"

definition Th8_StringAppend ::
  "bool \<Rightarrow> string \<times> size_t \<Rightarrow> string \<Rightarrow> size_t \<Rightarrow> str_interp \<Rightarrow> int \<times> (string \<times> size_t) \<times> str_interp" where
  "Th8_StringAppend alloc_ok str zApp nApp st =
     (let (pzStr, pnStr) = str;
          nApp = resolve_len zApp nApp;
          nTag = (pnStr AND TH8_TAG_BITS) OR (nApp AND TH8_TAG_BITS);
          nNew = TH8_LEN pnStr + TH8_LEN nApp;
          st = (if nNew > TH8_MX_STRLEN then th8OversizeString st else st)
      in case th8CheckResultSize nNew (limits st) of
           (rc, i) \<Rightarrow>
             if rc \<noteq> TH8_OK then (TH8_ERROR, str, st\<lparr>limits := i\<rparr>)
             else if \<not> alloc_given alloc_ok (nNew + 1) then
               (TH8_ERROR, str, st\<lparr>limits := i\<lparr>zResult := ''out of memory''\<rparr>, buildFailed := True\<rparr>)
             else (TH8_OK, (bytes_of pzStr pnStr @ bytes_of zApp nApp, nNew OR nTag), st\<lparr>limits := i\<rparr>))"

text \<open>
  \<open>TH8_STR_APPEND\<close>: the next append of a sequence, skipped once one has failed.
\<close>

definition STR_APPEND :: "bool \<Rightarrow> string \<Rightarrow> size_t \<Rightarrow> int \<times> (string \<times> size_t) \<times> str_interp \<Rightarrow>
    int \<times> (string \<times> size_t) \<times> str_interp" where
  "STR_APPEND alloc_ok zApp nApp run =
     (case run of (rc, str, st) \<Rightarrow>
        if rc \<noteq> TH8_OK then run else Th8_StringAppend alloc_ok str zApp nApp st)"

text \<open>The allocations of one \<open>Th8_ListAppend\<close>: the separator, the joined text, its copy, and the fallback.\<close>

record append_env =
  sep_ok :: bool
  join_ok :: bool
  text_ok :: bool
  open_ok :: bool
  elem_ok :: bool
  close_ok :: bool

definition Th8_ListAppend ::
  "append_env \<Rightarrow> string \<times> size_t \<Rightarrow> string \<Rightarrow> size_t \<Rightarrow> str_interp \<Rightarrow> int \<times> (string \<times> size_t) \<times> str_interp" where
  "Th8_ListAppend env list zElem nElem st =
     (let nElem = resolve_len zElem nElem;
          nElemTag = nElem AND TH8_TAG_BITS;
          nElem = TH8_LEN nElem;
          elem = bytes_of zElem nElem;
          run = (TH8_OK, list, st);
          run = (if snd list > 0 then STR_APPEND (sep_ok env) '' '' 1 run else run);
          run =
            (case Eagle_JoinList True (alloc_given (join_ok env) (of_nat (join_estimate 0 [elem] + 1))) [elem] of
               Inr zJoined \<Rightarrow> STR_APPEND (text_ok env) zJoined (of_nat (length zJoined)) run
             | Inl _ \<Rightarrow>
                 STR_APPEND (close_ok env) ''}'' 1
                   (STR_APPEND (elem_ok env) zElem nElem (STR_APPEND (open_ok env) ''{'' 1 run)))
      in case run of (rc, (zList, nList), st) \<Rightarrow>
           if rc \<noteq> TH8_OK then run else (TH8_OK, (zList, nList OR nElemTag), st))"

section \<open>Splitting through the cache\<close>

abbreviation TH8_MAX_LIST_ELEMENTS :: nat where "TH8_MAX_LIST_ELEMENTS \<equiv> 1000000"

text \<open>
  What one split meets: the cache allocations of its two lookups, the two arrays and the error message of
  the list parser, the block handed to the caller and the copy kept in the cache.
\<close>

record split_env =
  find_al :: cache_alloc
  store_al :: cache_alloc
  arrays_ok :: "bool \<times> bool"
  message_ok :: bool
  copy_ok :: bool
  keep_ok :: bool

text \<open>Which results the caller asks for, and whether it allows caching.\<close>

record split_want =
  want_elems :: bool
  want_lengths :: bool
  want_count :: bool
  no_cache :: bool

definition dest_split :: "rep \<Rightarrow> string list option" where
  "dest_split r = (case r of SplitRep els \<Rightarrow> Some els | _ \<Rightarrow> None)"

text \<open>The size of a block of element pointers, lengths and bytes; the sum of the lengths is checked on a hit only.\<close>

definition checked_total :: "string list \<Rightarrow> size_t option" where
  "checked_total els =
     fold (\<lambda>e acc. Option.bind acc (\<lambda>n. SAFE_ADD_SIZE n (of_nat (length e) + 1))) els (Some 0)"

definition plain_total :: "string list \<Rightarrow> size_t" where
  "plain_total els = (\<Sum>e \<leftarrow> els. of_nat (length e) + 1)"

definition split_block :: "nat \<Rightarrow> size_t \<Rightarrow> size_t option" where
  "split_block nE nStrTotal =
     Option.bind (SAFE_MUL_SIZE 8 (of_nat nE)) (\<lambda>t1.
     Option.bind (SAFE_MUL_SIZE 8 (of_nat nE)) (\<lambda>t2.
     Option.bind (SAFE_ADD_SIZE t1 t2) (\<lambda>nAlloc. SAFE_ADD_SIZE nAlloc nStrTotal)))"

text \<open>
  What a successful call delivers: the count, the elements and their tagged lengths (\<open>None\<close> for a null
  pointer or a result that was not asked for).
\<close>

record split_out =
  pnCount :: "nat option"
  pazElem :: "string list option"
  panElem :: "size_t list option"

definition deliver :: "split_want \<Rightarrow> size_t \<Rightarrow> string list \<Rightarrow> split_out" where
  "deliver want nListTag els =
     \<lparr>pnCount = (if want_count want then Some (length els) else None),
      pazElem = (if want_elems want \<and> els \<noteq> [] then Some els else None),
      panElem = (if want_elems want \<and> want_lengths want \<and> els \<noteq> []
                 then Some (map (\<lambda>e. of_nat (length e) OR nListTag) els) else None)\<rparr>"

text \<open>The cache-hit branch.\<close>

definition split_hit :: "split_env \<Rightarrow> split_want \<Rightarrow> size_t \<Rightarrow> string list \<Rightarrow> split_out res" where
  "split_hit env want nListTag els =
     (if length els > TH8_MAX_LIST_ELEMENTS then Inl []
      else if \<not> want_elems want then Inr (deliver want nListTag els)
      else
        (case Option.bind (checked_total els) (split_block (length els)) of
           None \<Rightarrow> Inl []
         | Some nAlloc \<Rightarrow> if alloc_given (copy_ok env) nAlloc then Inr (deliver want nListTag els) else Inl []))"

text \<open>
  The elements copied for the caller after a parse: each length is capped at the length of the list.
\<close>

definition split_copy :: "split_env \<Rightarrow> split_want \<Rightarrow> size_t \<Rightarrow> nat \<Rightarrow> string list \<Rightarrow> split_out res" where
  "split_copy env want nListTag nList els =
     (let els' = map (take nList) els
      in if length els > TH8_MAX_LIST_ELEMENTS then Inl ''list too many elements''
         else if want_elems want \<and> els \<noteq> [] then
           (case split_block (length els) (plain_total els') of
              None \<Rightarrow> Inl ''list too large''
            | Some nAlloc \<Rightarrow>
                if alloc_given (copy_ok env) nAlloc then Inr (deliver want nListTag els') else Inl ''out of memory'')
         else Inr (deliver want nListTag els))"

text \<open>
  The store after a parse: with no count to read the number of elements from (\<open>pnCount\<close> null) an empty list
  is stored.
\<close>

definition split_store :: "hash_seed \<Rightarrow> split_env \<Rightarrow> split_want \<Rightarrow> string \<Rightarrow> string list \<Rightarrow> cache \<Rightarrow> cache" where
  "split_store s env want z els c =
     (if \<not> want_elems want \<or> els = [] \<or> no_cache want then c
      else
        (case Th8_FindInCache s (store_al env) TH8_CACHE_LIST z c of
           (c, None) \<Rightarrow> c
         | (c, Some p) \<Rightarrow>
             if Option.bind (cache_at s c p) (\<lambda>e. dest_split (u_rep (ce_value e))) \<noteq> None then c
             else if want_count want then
               (if want_lengths want \<and>
                   (case split_block (length els) (plain_total els) of None \<Rightarrow> False | Some n \<Rightarrow> alloc_given (keep_ok env) n)
                then cache_store s c p (SplitRep els) else c)
             else cache_store s c p (SplitRep [])))"

text \<open>The lookup before the parse.\<close>

definition split_lookup :: "hash_seed \<Rightarrow> split_env \<Rightarrow> split_want \<Rightarrow> string \<Rightarrow> cache \<Rightarrow> cache \<times> string list option" where
  "split_lookup s env want z c =
     (if no_cache want then (c, None)
      else (case Th8_FindInCache s (find_al env) TH8_CACHE_LIST z c of
              (c, None) \<Rightarrow> (c, None)
            | (c, Some p) \<Rightarrow> (c, Option.bind (cache_at s c p) (\<lambda>e. dest_split (u_rep (ce_value e))))))"

definition Th8_SplitList ::
  "hash_seed \<Rightarrow> split_env \<Rightarrow> split_want \<Rightarrow> string \<Rightarrow> size_t \<Rightarrow> cache \<Rightarrow> split_out res \<times> cache" where
  "Th8_SplitList s env want zList nList c =
     (let nList = resolve_len zList nList; nListTag = nList AND TH8_TAG_BITS; z = bytes_of zList nList in
      if TH8_LEN nList = 0 then (Inr (deliver want nListTag []), c)
      else
        (case split_lookup s env want z c of
           (c, Some els) \<Rightarrow> (split_hit env want nListTag els, c)
         | (c, None) \<Rightarrow>
             (case Eagle_SplitList (fst (arrays_ok env)) (snd (arrays_ok env)) z of
                Inl zError \<Rightarrow> (Inl (if message_ok env then zError else ''Expected list, got: '' @ [DQ]), c)
              | Inr els \<Rightarrow>
                  (case split_copy env want nListTag (length z) els of
                     Inl e \<Rightarrow> (Inl e, c)
                   | Inr out \<Rightarrow> (Inr out, split_store s env want z (map (take (length z)) els) c)))))"

section \<open>Tags\<close>

definition tagged :: "nat \<Rightarrow> size_t \<Rightarrow> size_t" where
  "tagged k t = of_nat k OR t"

lemma tag_and_mask: "(t :: size_t) AND TH8_TAG_BITS = t \<Longrightarrow> t AND TH8_LEN_MASK = 0"
proof -
  assume t: "t AND TH8_TAG_BITS = t"
  have "t AND TH8_LEN_MASK = t AND (TH8_TAG_BITS AND TH8_LEN_MASK)" using t by (metis and.assoc)
  then show "t AND TH8_LEN_MASK = 0" by simp
qed

lemma len_and_mask: "k < 2 ^ 28 \<Longrightarrow> (of_nat k :: size_t) AND TH8_LEN_MASK = of_nat k"
proof -
  assume k: "k < 2 ^ 28"
  have "(of_nat k :: size_t) AND TH8_LEN_MASK = take_bit 28 (of_nat k)"
    by (simp add: take_bit_eq_mask mask_eq_exp_minus_1)
  also have "\<dots> = of_nat (take_bit 28 k)" by (simp add: of_nat_take_bit)
  also have "take_bit 28 k = k" using k by (rule take_bit_nat_eq_self)
  finally show ?thesis .
qed

lemma tagged_parts:
  assumes "k < 2 ^ 28" "t AND TH8_TAG_BITS = t"
  shows "TH8_LEN (tagged k t) = of_nat k" "tagged k t AND TH8_TAG_BITS = t"
proof -
  show "TH8_LEN (tagged k t) = of_nat k"
    using len_and_mask [OF assms(1)] tag_and_mask [OF assms(2)]
    by (simp add: TH8_LEN_def tagged_def bit.conj_disj_distrib2)
  have "(of_nat k :: size_t) AND TH8_TAG_BITS = (of_nat k AND TH8_LEN_MASK) AND TH8_TAG_BITS"
    by (simp only: len_and_mask [OF assms(1)])
  also have "\<dots> = of_nat k AND (TH8_LEN_MASK AND TH8_TAG_BITS)" by (rule and.assoc)
  finally have "(of_nat k :: size_t) AND TH8_TAG_BITS = 0" by simp
  then show "tagged k t AND TH8_TAG_BITS = t"
    using assms(2) by (simp add: tagged_def bit.conj_disj_distrib2)
qed

lemma TH8_LEN_small: "unat (TH8_LEN n) < 2 ^ 28"
proof -
  have "TH8_LEN n = take_bit 28 n"
    by (simp add: TH8_LEN_def take_bit_eq_mask mask_eq_exp_minus_1)
  then show ?thesis using take_bit_nat_less_exp [of 28 "unat n"] by (simp add: unsigned_take_bit_eq)
qed

lemma tag_or: "(t :: size_t) AND TH8_TAG_BITS = t \<Longrightarrow> (t OR (u AND TH8_TAG_BITS)) AND TH8_TAG_BITS = t OR (u AND TH8_TAG_BITS)"
  by (simp add: bit.conj_disj_distrib2 and.assoc)

lemma unat_of_nat_small: "k < 2 ^ 28 \<Longrightarrow> unat (of_nat k :: size_t) = k"
  by (simp add: unat_of_nat take_bit_nat_eq_self)

section \<open>Appending\<close>

definition sized :: "string \<times> size_t \<Rightarrow> bool" where
  "sized v \<longleftrightarrow> length (fst v) = unat (TH8_LEN (snd v))"

lemma sized_bytes: "sized (z, n) \<Longrightarrow> bytes_of z n = z"
  by (simp add: sized_def bytes_of_def)

lemma bytes_of_text: "length z < 2 ^ 28 \<Longrightarrow> bytes_of z (of_nat (length z)) = z"
  using len_and_mask [of "length z"] by (simp add: bytes_of_def TH8_LEN_def unat_of_nat_small)

lemma tagged_not_NOLEN: "k < 2 ^ 28 \<Longrightarrow> t AND TH8_TAG_BITS = t \<Longrightarrow> (of_nat k :: size_t) OR t \<noteq> TH8_NOLEN"
proof
  assume k: "k < 2 ^ 28" and t: "t AND TH8_TAG_BITS = t" and e: "(of_nat k :: size_t) OR t = TH8_NOLEN"
  have "(of_nat k :: size_t) AND 0x3FFFFFFF = (of_nat k AND TH8_LEN_MASK) AND 0x3FFFFFFF" by (simp only: len_and_mask [OF k])
  also have "\<dots> = of_nat k AND (TH8_LEN_MASK AND 0x3FFFFFFF)" by (rule and.assoc)
  finally have a: "(of_nat k :: size_t) AND 0x3FFFFFFF = of_nat k" using len_and_mask [OF k] by simp
  have "t AND 0x3FFFFFFF = (t AND TH8_TAG_BITS) AND 0x3FFFFFFF" by (simp only: t)
  also have "\<dots> = t AND (TH8_TAG_BITS AND 0x3FFFFFFF)" by (rule and.assoc)
  finally have b: "t AND 0x3FFFFFFF = t" using t by simp
  have "((of_nat k :: size_t) OR t) AND 0x3FFFFFFF = of_nat k OR t" using a b by (simp add: bit.conj_disj_distrib2)
  then show False unfolding e by simp
qed

lemma resolve_len_numeral [simp]: "resolve_len z 1 = 1" "resolve_len z TH8_NOLEN = Th8_Strlen z"
  by (simp_all add: resolve_len_def)

lemma resolve_len_text [simp]: "k < 2 ^ 28 \<Longrightarrow> resolve_len z (of_nat k) = of_nat k"
  using tagged_not_NOLEN [of k 0] by (simp add: resolve_len_def)

lemma resolve_len_LEN [simp]: "resolve_len z (TH8_LEN n) = TH8_LEN n"
  using resolve_len_text [OF TH8_LEN_small, of z n] by simp

text \<open>A length that counts the bytes of a value of less than 256 megabytes is not \<open>TH8_NOLEN\<close>.\<close>

lemma resolve_len_sized:
  assumes "length z = unat (TH8_LEN n)" "length z \<le> 104857600"
  shows "resolve_len z n = n"
proof -
  have "unat (TH8_LEN TH8_NOLEN) = 268435455" by (simp add: TH8_LEN_def)
  with assms show ?thesis by (auto simp: resolve_len_def)
qed

text \<open>A successful append to a value of \<open>k\<close> bytes with tags \<open>t\<close>.\<close>

lemma StringAppend_ok:
  assumes "Th8_StringAppend ok (z, tagged (length z) t) zApp nApp st = (TH8_OK, v, st')"
    and z: "length z < 2 ^ 28" and t: "t AND TH8_TAG_BITS = t" and a: "length zApp = unat (TH8_LEN nApp)"
    and nl: "resolve_len zApp nApp = nApp"
  shows "v = (z @ zApp, tagged (length (z @ zApp)) (t OR (nApp AND TH8_TAG_BITS))) \<and> length (z @ zApp) < 2 ^ 28"
proof -
  note p = tagged_parts [OF z t]
  define nNew where "nNew = (of_nat (length z) :: size_t) + TH8_LEN nApp"
  have nNew: "nNew = of_nat (length (z @ zApp))" by (simp add: nNew_def a)
  have "length (z @ zApp) < 2 ^ 29" using z TH8_LEN_small [of nApp] a by simp
  then have u: "unat (nNew + 1) = length (z @ zApp) + 1"
    unfolding nNew by (simp add: unat_word_ariths unat_of_nat take_bit_nat_eq_self)
  from assms(1) have v: "alloc_given ok (nNew + 1)"
    "v = (bytes_of z (tagged (length z) t) @ bytes_of zApp nApp, nNew OR (t OR (nApp AND TH8_TAG_BITS)))"
    by (auto simp: Th8_StringAppend_def Let_def nl p nNew_def split: prod.splits if_splits)
  have "unat (nNew + 1) \<le> 2 ^ 28" using v(1) by (simp add: alloc_given_def word_le_nat_alt)
  with u have len: "length (z @ zApp) < 2 ^ 28" by simp
  have "bytes_of z (tagged (length z) t) = z" "bytes_of zApp nApp = zApp"
    using p(1) a z by (simp_all add: bytes_of_def unat_of_nat_small)
  with v(2) len show ?thesis by (simp add: tagged_def nNew)
qed

lemma no_tag: "TH8_LEN 1 = 1" "(1 :: size_t) AND TH8_TAG_BITS = 0"
  by (simp_all add: TH8_LEN_def)

lemma TH8_LEN_tags: "TH8_LEN n AND TH8_TAG_BITS = 0" "TH8_LEN (TH8_LEN n) = TH8_LEN n"
  by (simp_all add: TH8_LEN_def and.assoc)

lemma length_no_tag: "k < 2 ^ 28 \<Longrightarrow> (of_nat k :: size_t) AND TH8_TAG_BITS = 0"
  using tagged_parts(2) [of k 0] by (simp add: tagged_def)

lemma STR_APPEND_OkD:
  "STR_APPEND ok z n run = (TH8_OK, v, st') \<Longrightarrow> \<exists>str st. run = (TH8_OK, str, st) \<and> Th8_StringAppend ok str z n st = (TH8_OK, v, st')"
  by (auto simp: STR_APPEND_def split: prod.splits if_splits)

text \<open>The text that a single element is joined into.\<close>

definition element_text :: "string \<Rightarrow> string" where
  "element_text e = EagleConvertCountedElement e (snd (EagleScanCountedElement e))"

lemma written_element_text: "written e (element_text e)"
  unfolding written_def element_text_def by (intro exI [of _ 0]) simp

lemma alloc_given_nat:
  assumes "0 < k" "k \<le> 268435456" "ok"
  shows "alloc_given ok (of_nat k)"
proof -
  have u: "unat (of_nat k :: size_t) = k" using assms(2) by (simp add: unat_of_nat take_bit_nat_eq_self)
  have mx: "unat TH8_MX_ALLOC = 268435456" by simp
  have "(of_nat k :: size_t) \<noteq> 0" using u assms(1) by fastforce
  then show ?thesis unfolding alloc_given_def word_le_nat_alt u mx using assms by blast
qed

lemma join_one:
  assumes "length e \<le> 104857600" "ok"
  shows "Eagle_JoinList True (alloc_given ok (of_nat (join_estimate 0 [e] + 1))) [e] = Inr (element_text e)"
    and "length (element_text e) \<le> 2 * length e + 2"
proof -
  have est: "join_estimate 0 [e] = 2 * length e + 2"
    by (simp add: EagleScanCountedElement_def split_def Let_def)
  have "alloc_given ok (of_nat (join_estimate 0 [e] + 1))"
    unfolding est using assms by (intro alloc_given_nat) simp_all
  then show "Eagle_JoinList True (alloc_given ok (of_nat (join_estimate 0 [e] + 1))) [e] = Inr (element_text e)"
    by (simp add: Eagle_JoinList_def element_text_def)
  show "length (element_text e) \<le> 2 * length e + 2"
    using EagleConvertCountedElement_length [of e "snd (EagleScanCountedElement e)"] est
    by (simp add: element_text_def)
qed

text \<open>The separator and the joined text, when the join succeeds.\<close>

definition append_parts :: "append_env \<Rightarrow> bool \<Rightarrow> string \<times> size_t \<Rightarrow> string \<Rightarrow> str_interp \<Rightarrow>
    int \<times> (string \<times> size_t) \<times> str_interp" where
  "append_parts env sep list w st =
     STR_APPEND (text_ok env) w (of_nat (length w))
       (if sep then STR_APPEND (sep_ok env) '' '' 1 (TH8_OK, list, st) else (TH8_OK, list, st))"

lemma ListAppend_parts:
  assumes "length l < 2 ^ 28" "ws = [] \<Longrightarrow> l = [] \<and> t = 0" "ws \<noteq> [] \<Longrightarrow> l \<noteq> []"
    and t: "t AND TH8_TAG_BITS = t" and e: "sized (zElem, nElem)" "length zElem \<le> 104857600" and ok: "join_ok env"
  shows "Th8_ListAppend env (l, tagged (length l) t) zElem nElem st =
    (case append_parts env (ws \<noteq> []) (l, tagged (length l) t) (element_text zElem) st of
       (rc, v, st') \<Rightarrow> if rc \<noteq> TH8_OK then (rc, v, st') else (TH8_OK, (fst v, snd v OR (nElem AND TH8_TAG_BITS)), st'))"
proof -
  have nl: "resolve_len zElem nElem = nElem" using e by (intro resolve_len_sized) (simp_all add: sized_def)
  have b: "bytes_of zElem (TH8_LEN nElem) = zElem"
    using e(1) by (simp add: bytes_of_def sized_def TH8_LEN_tags)
  have pos: "tagged (length l) t > 0 \<longleftrightarrow> ws \<noteq> []"
  proof
    assume "ws \<noteq> []"
    then have "0 < length l" using assms(3) by simp
    then have "TH8_LEN (tagged (length l) t) \<noteq> 0"
      using tagged_parts(1) [OF assms(1) t] unat_of_nat_small [OF assms(1)] by (metis less_irrefl unat_0)
    then show "tagged (length l) t > 0" by (auto simp: word_gt_0 TH8_LEN_def)
  qed (use assms(2) in \<open>auto simp: tagged_def\<close>)
  show ?thesis
    unfolding Th8_ListAppend_def Let_def nl b join_one(1) [OF e(2) ok] sum.case snd_conv pos append_parts_def
    by (auto split: prod.splits)
qed

lemma append_parts_ok:
  assumes "append_parts env sep (l, tagged (length l) t) w st = (TH8_OK, v, st')"
    and l: "length l < 2 ^ 28" and t: "t AND TH8_TAG_BITS = t" and w: "length w < 2 ^ 28"
  defines "l' \<equiv> l @ (if sep then '' '' else []) @ w"
  shows "v = (l', tagged (length l') t) \<and> length l' < 2 ^ 28"
proof -
  define l0 where "l0 = l @ (if sep then '' '' else [])"
  obtain v0 st0 where s0: "(if sep then STR_APPEND (sep_ok env) '' '' 1 (TH8_OK, (l, tagged (length l) t), st)
      else (TH8_OK, (l, tagged (length l) t), st)) = (TH8_OK, v0, st0)"
    "Th8_StringAppend (text_ok env) v0 w (of_nat (length w)) st0 = (TH8_OK, v, st')"
    using assms(1) unfolding append_parts_def by (auto dest!: STR_APPEND_OkD)
  have v0: "v0 = (l0, tagged (length l0) t) \<and> length l0 < 2 ^ 28"
  proof (cases sep)
    case True
    then have "Th8_StringAppend (sep_ok env) (l, tagged (length l) t) '' '' 1 st = (TH8_OK, v0, st0)"
      using s0(1) by (auto dest!: STR_APPEND_OkD)
    from StringAppend_ok [OF this l t] True show ?thesis by (simp add: no_tag l0_def)
  qed (use s0(1) l in \<open>simp add: l0_def\<close>)
  then show ?thesis
    using StringAppend_ok [of "text_ok env" l0 t w "of_nat (length w)" st0 v st'] s0(2) t w
      tagged_parts(1) [OF w, of 0] unat_of_nat_small [OF w] length_no_tag [OF w]
    by (simp add: tagged_def l0_def l'_def)
qed

lemma tl_spaced_snoc: "tl (spaced ws) @ (if ws \<noteq> [] then '' '' else []) @ w = tl (spaced (ws @ [w]))"
  by (cases ws) (auto simp: spaced_def)

lemma tl_spaced_snoc_length: "length (tl (spaced (ws @ [w]))) \<le> length (tl (spaced ws)) + 1 + length w"
  by (simp only: tl_spaced_snoc [symmetric] length_append) simp

lemma ListAppend_ok:
  assumes run: "Th8_ListAppend env (l, tagged (length l) t) zElem nElem st = (TH8_OK, v, st')"
    and l: "l = tl (spaced ws)" "length l < 2 ^ 28" "l = [] \<longleftrightarrow> ws = []" "ws = [] \<Longrightarrow> t = 0"
    and t: "t AND TH8_TAG_BITS = t" and e: "sized (zElem, nElem)" "length zElem \<le> 104857600" and ok: "join_ok env"
  defines "l' \<equiv> tl (spaced (ws @ [element_text zElem]))"
  shows "v = (l', tagged (length l') (t OR (nElem AND TH8_TAG_BITS))) \<and> length l' < 2 ^ 28"
proof -
  have w: "length (element_text zElem) < 2 ^ 28" using join_one(2) [OF e(2) TrueI] e(2) by simp
  obtain v1 where a: "append_parts env (ws \<noteq> []) (l, tagged (length l) t) (element_text zElem) st = (TH8_OK, v1, st')"
    and v: "v = (fst v1, snd v1 OR (nElem AND TH8_TAG_BITS))"
    using run ListAppend_parts [OF l(2) _ _ t e ok, of ws st] l(3,4) by (auto split: prod.splits if_splits)
  from append_parts_ok [OF a l(2) t w] v show ?thesis
    unfolding l(1) tl_spaced_snoc l'_def [symmetric] by (simp add: tagged_def or.assoc)
qed

text \<open>A loop that appends elements one by one until one fails, as \<open>list_command\<close> does.\<close>

fun append_all :: "append_env \<Rightarrow> (string \<times> size_t) list \<Rightarrow> string \<times> size_t \<Rightarrow> str_interp \<Rightarrow>
    int \<times> (string \<times> size_t) \<times> str_interp" where
  "append_all env [] list st = (TH8_OK, list, st)"
| "append_all env (e # es) list st =
     (case Th8_ListAppend env list (fst e) (snd e) st of
        (rc, list', st') \<Rightarrow> if rc \<noteq> TH8_OK then (rc, list', st') else append_all env es list' st')"

definition all_tags :: "(string \<times> size_t) list \<Rightarrow> size_t" where
  "all_tags es = fold (\<lambda>e t. t OR (snd e AND TH8_TAG_BITS)) es 0"

lemma spaced_empty_iff: "list_all2 written es ws \<Longrightarrow> tl (spaced ws) = [] \<longleftrightarrow> ws = []"
  using written_element_start by (cases ws) (auto simp: spaced_def list_all2_Cons2 written_def)

lemma append_all_ok:
  assumes "append_all env es (tl (spaced ws), tagged (length (tl (spaced ws))) t) st = (TH8_OK, v, st')"
    and "list_all2 written es0 ws" "length (tl (spaced ws)) < 2 ^ 28" "ws = [] \<Longrightarrow> t = 0" "t AND TH8_TAG_BITS = t"
    and "\<forall>e \<in> set es. sized e \<and> length (fst e) \<le> 104857600" "join_ok env"
  shows "\<exists>ws'. list_all2 written (es0 @ map fst es) ws' \<and> length (tl (spaced ws')) < 2 ^ 28 \<and>
    v = (tl (spaced ws'), tagged (length (tl (spaced ws'))) (fold (\<lambda>e t. t OR (snd e AND TH8_TAG_BITS)) es t))"
  using assms
proof (induction es arbitrary: ws es0 t st)
  case Nil
  then show ?case by auto
next
  case (Cons e es)
  let ?l = "tl (spaced ws)" and ?ws = "ws @ [element_text (fst e)]" and ?t = "t OR (snd e AND TH8_TAG_BITS)"
  from Cons.prems(1) obtain v1 st1 where
    a: "Th8_ListAppend env (?l, tagged (length ?l) t) (fst e) (snd e) st = (TH8_OK, v1, st1)"
    and r: "append_all env es v1 st1 = (TH8_OK, v, st')"
    by (auto split: prod.splits if_splits)
  have v1: "v1 = (tl (spaced ?ws), tagged (length (tl (spaced ?ws))) ?t) \<and> length (tl (spaced ?ws)) < 2 ^ 28"
    using ListAppend_ok [OF a refl] Cons.prems(2-7) spaced_empty_iff [OF Cons.prems(2)] by auto
  have "list_all2 written (es0 @ [fst e]) ?ws"
    using Cons.prems(2) by (simp add: list_all2_appendI written_element_text)
  from Cons.IH [OF r [unfolded conjunct1 [OF v1]] this] v1 tag_or [OF Cons.prems(5), of "snd e"] Cons.prems(6,7)
  show ?case by simp
qed

text \<open>With every allocation granted and the default limit, appending succeeds as long as the text is small.\<close>

abbreviation append_ok :: append_env where
  "append_ok \<equiv> \<lparr>sep_ok = True, join_ok = True, text_ok = True, open_ok = True, elem_ok = True, close_ok = True\<rparr>"

lemma StringAppend_succeeds:
  assumes "length z + length zApp \<le> 104857600" "length zApp = unat (TH8_LEN nApp)" "t AND TH8_TAG_BITS = t"
    and "nResultLimit (limits st) = 0"
  shows "\<exists>v. Th8_StringAppend True (z, tagged (length z) t) zApp nApp st = (TH8_OK, v, st)"
proof -
  have z: "length z < 2 ^ 28" using assms(1) by simp
  note p = tagged_parts [OF z assms(3)]
  have nl: "resolve_len zApp nApp = nApp" using assms(1,2) by (intro resolve_len_sized) simp_all
  have n: "(of_nat (length z) :: size_t) + TH8_LEN nApp = of_nat (length z + length zApp)"
    using assms(2) by simp
  have u: "unat (of_nat (length z + length zApp) :: size_t) = length z + length zApp"
    using assms(1) by (intro unat_of_nat_small; simp)
  have small: "\<not> (of_nat (length z + length zApp) :: size_t) > TH8_MX_STRLEN"
    unfolding word_less_nat_alt u using assms(1) by simp
  have "alloc_given True (of_nat (length z + length zApp) + 1)"
    using alloc_given_nat [of "length z + length zApp + 1" True] assms(1) by (simp add: add.commute)
  then show ?thesis
    using small assms(4)
    unfolding Th8_StringAppend_def Let_def split nl p(1) n by (simp add: th8CheckResultSize_def)
qed

lemma append_parts_succeeds:
  assumes "length l + 1 + length w \<le> 104857600" "t AND TH8_TAG_BITS = t" "nResultLimit (limits st) = 0"
  shows "\<exists>v. append_parts append_ok sep (l, tagged (length l) t) w st = (TH8_OK, v, st)"
proof -
  define l0 where "l0 = l @ (if sep then '' '' else [])"
  have l: "length l < 2 ^ 28" and w: "length w < 2 ^ 28" using assms(1) by simp_all
  have "STR_APPEND True '' '' 1 (TH8_OK, (l, tagged (length l) t), st) = (TH8_OK, (l0, tagged (length l0) t), st)" if sep
  proof -
    obtain v where v: "Th8_StringAppend True (l, tagged (length l) t) '' '' 1 st = (TH8_OK, v, st)"
      using StringAppend_succeeds [of l "'' ''" 1 t st] assms by (auto simp: no_tag)
    from StringAppend_ok [OF this l assms(2)] that v show ?thesis by (simp add: STR_APPEND_def no_tag l0_def)
  qed
  moreover have "\<exists>v. Th8_StringAppend True (l0, tagged (length l0) t) w (of_nat (length w)) st = (TH8_OK, v, st)"
    using assms tagged_parts(1) [OF w, of 0] unat_of_nat_small [OF w]
    by (intro StringAppend_succeeds) (auto simp: l0_def tagged_def)
  ultimately show ?thesis by (auto simp: append_parts_def STR_APPEND_def l0_def)
qed

lemma append_all_succeeds:
  assumes "list_all2 written es0 ws" "ws = [] \<Longrightarrow> t = 0" "t AND TH8_TAG_BITS = t"
    and "\<forall>e \<in> set es. sized e" "nResultLimit (limits st) = 0"
    and "length (tl (spaced ws)) + (\<Sum>e \<leftarrow> es. 2 * length (fst e) + 3) \<le> 104857600"
  shows "\<exists>v. append_all append_ok es (tl (spaced ws), tagged (length (tl (spaced ws))) t) st = (TH8_OK, v, st)"
  using assms
proof (induction es arbitrary: ws es0 t)
  case (Cons e es)
  let ?l = "tl (spaced ws)" and ?w = "element_text (fst e)" and ?t = "t OR (snd e AND TH8_TAG_BITS)"
  let ?ws = "ws @ [?w]"
  have small: "length (fst e) \<le> 104857600" using Cons.prems(6) by simp
  have len: "length ?l + 1 + length ?w \<le> 104857600" "length ?w \<le> 2 * length (fst e) + 2"
    using Cons.prems(6) join_one(2) [OF small TrueI] by simp_all
  have l: "length ?l < 2 ^ 28" using len(1) by simp
  have e: "sized (fst e, snd e)" using Cons.prems(4) by simp
  have emp: "?l = [] \<longleftrightarrow> ws = []" by (rule spaced_empty_iff [OF Cons.prems(1)])
  obtain v where "Th8_ListAppend append_ok (?l, tagged (length ?l) t) (fst e) (snd e) st = (TH8_OK, v, st)"
    using ListAppend_parts [of ?l ws t "fst e" "snd e" append_ok st] l emp Cons.prems(2,3) e small
      append_parts_succeeds [OF len(1) Cons.prems(3,5), of "ws \<noteq> []"] by auto
  moreover from ListAppend_ok [OF this refl l emp Cons.prems(2,3) e small]
  have "v = (tl (spaced ?ws), tagged (length (tl (spaced ?ws))) ?t)" by simp
  moreover have "\<exists>v. append_all append_ok es (tl (spaced ?ws), tagged (length (tl (spaced ?ws))) ?t) st = (TH8_OK, v, st)"
  proof (rule Cons.IH)
    show "list_all2 written (es0 @ [fst e]) ?ws"
      using Cons.prems(1) by (simp add: list_all2_appendI written_element_text)
    show "length (tl (spaced ?ws)) + (\<Sum>e \<leftarrow> es. 2 * length (fst e) + 3) \<le> 104857600"
      using Cons.prems(6) len(2) tl_spaced_snoc_length [of ws ?w] by simp
  qed (use Cons.prems tag_or [OF Cons.prems(3)] in auto)
  ultimately show ?case by simp
qed simp

section \<open>The cache of split lists\<close>

lemma SplitList_granted: "Eagle_SplitList a b z = Inr els \<Longrightarrow> Eagle_SplitList True True z = Inr els"
  by (auto simp: Eagle_SplitList_def Let_def split: if_splits)

lemma SplitList_fits:
  assumes "Eagle_SplitList a b z = Inr els"
  shows "(\<Sum>e \<leftarrow> els. length e + 1) \<le> length z + 1"
proof -
  have "split_loop (2 + space_runs z) z 0 = (els, None)"
    using assms by (auto simp: Eagle_SplitList_def Let_def split: if_splits prod.splits option.splits)
  with split_loop_fits [OF this] show ?thesis by simp
qed

lemma SplitList_capped:
  assumes "Eagle_SplitList a b z = Inr els"
  shows "map (take (length z)) els = els"
proof (rule map_idI)
  fix e assume "e \<in> set els"
  then have "length e + 1 \<le> (\<Sum>e \<leftarrow> els. length e + 1)" by (intro member_le_sum_list) auto
  with SplitList_fits [OF assms] show "take (length z) e = e" by simp
qed

lemma SplitList_Nil: "Eagle_SplitList True True [] = Inr []"
  by (simp add: Eagle_SplitList_def split_loop_stop)

text \<open>Every valid split in the cache is what a parse of its text gives, and is not empty.\<close>

definition list_coherent :: "cache_entry \<Rightarrow> bool" where
  "list_coherent e \<longleftrightarrow>
     cacheType e = TH8_CACHE_LIST \<longrightarrow>
       (\<exists>z. zOriginal e = Some z \<and>
            (\<forall>els. dest_split (u_rep (ce_value e)) = Some els \<longrightarrow> Eagle_SplitList True True z = Inr els \<and> els \<noteq> []))"

lemma list_coherent_fresh: "list_coherent (fresh_entry type z)"
  by (simp add: list_coherent_def fresh_entry_def dest_split_def)

lemma find_list:
  assumes "cache_all s list_coherent c" "Th8_FindInCache s al TH8_CACHE_LIST z c = (c1, r)"
  shows "cache_all s list_coherent c1"
    and "r = Some p \<Longrightarrow> \<exists>e. cache_at s c1 p = Some e \<and> list_coherent e \<and> cacheType e = TH8_CACHE_LIST \<and> zOriginal e = Some z"
proof -
  note res = FindInCache_result [OF assms(1) list_coherent_fresh assms(2)]
  then show all: "cache_all s list_coherent c1" by blast
  assume "r = Some p"
  with res obtain e where e: "cache_at s c1 p = Some e" "entry_matches e TH8_CACHE_LIST z"
    using fresh_matches by blast
  with cache_all_at [OF all e(1)]
  show "\<exists>e. cache_at s c1 p = Some e \<and> list_coherent e \<and> cacheType e = TH8_CACHE_LIST \<and> zOriginal e = Some z"
    by (auto simp: entry_matches_def list_coherent_def split: option.splits)
qed

lemma split_store_coherent:
  assumes "cache_all s list_coherent c" "Eagle_SplitList True True z = Inr els"
    and "want_count want \<or> \<not> want_elems want \<or> no_cache want"
  shows "cache_all s list_coherent (split_store s env want z els c)"
proof (cases "\<not> want_elems want \<or> els = [] \<or> no_cache want")
  case False
  obtain c1 r where f: "Th8_FindInCache s (store_al env) TH8_CACHE_LIST z c = (c1, r)" by fastforce
  note all = find_list(1) [OF assms(1) f]
  have "cache_all s list_coherent (cache_store s c1 p (SplitRep els))" if r: "r = Some p" for p
  proof (rule store_all [OF all])
    fix e assume "cache_at s c1 p = Some e"
    with find_list(2) [OF assms(1) f r] assms(2) False
    show "list_coherent (e\<lparr>ce_value := (ce_value e)\<lparr>u_rep := SplitRep els\<rparr>\<rparr>)"
      by (auto simp: list_coherent_def dest_split_def)
  qed
  with all f False assms(3) show ?thesis
    by (auto simp: split_store_def split: option.splits)
qed (use assms(1) in \<open>auto simp: split_store_def\<close>)

lemma SAFE_nat:
  "a + b < 2 ^ 64 \<Longrightarrow> SAFE_ADD_SIZE (of_nat a) (of_nat b) = Some (of_nat (a + b))"
  "a < 2 ^ 64 \<Longrightarrow> b < 2 ^ 64 \<Longrightarrow> a * b < 2 ^ 64 \<Longrightarrow> SAFE_MUL_SIZE (of_nat a) (of_nat b) = Some (of_nat (a * b))"
proof -
  have u: "unat (of_nat k :: size_t) = k" if "k < 2 ^ 64" for k
    using that by (simp add: unat_of_nat take_bit_nat_eq_self)
  show "SAFE_ADD_SIZE (of_nat a) (of_nat b) = Some (of_nat (a + b))" if "a + b < 2 ^ 64"
    unfolding SAFE_ADD_iff using u [OF that] u [of a] u [of b] that by linarith
  show "SAFE_MUL_SIZE (of_nat a) (of_nat b) = Some (of_nat (a * b))" if "a < 2 ^ 64" "b < 2 ^ 64" "a * b < 2 ^ 64"
    unfolding SAFE_MUL_iff using u [OF that(1)] u [OF that(2)] u [OF that(3)] by (simp only:)
qed

lemma plain_total_nat: "plain_total els = of_nat (\<Sum>e \<leftarrow> els. length e + 1)"
  unfolding plain_total_def by (induction els) simp_all

lemma checked_total_nat:
  assumes "(\<Sum>e \<leftarrow> els. length e + 1) < 2 ^ 32"
  shows "checked_total els = Some (of_nat (\<Sum>e \<leftarrow> els. length e + 1))"
proof -
  have "fold (\<lambda>e acc. Option.bind acc (\<lambda>n. SAFE_ADD_SIZE n (of_nat (length e) + 1))) els (Some (of_nat k)) =
      Some (of_nat (k + (\<Sum>e \<leftarrow> els. length e + 1)))"
    if "k + (\<Sum>e \<leftarrow> els. length e + 1) < 2 ^ 32" for k
    using that
  proof (induction els arbitrary: k)
    case (Cons e els)
    have "SAFE_ADD_SIZE (of_nat k) (of_nat (length e + 1)) = Some (of_nat (k + (length e + 1)))"
      using Cons.prems by (intro SAFE_nat(1)) simp
    with Cons.IH [of "k + (length e + 1)"] Cons.prems show ?case by (simp add: ac_simps)
  qed simp
  from this [of 0] assms show ?thesis by (simp add: checked_total_def)
qed

lemma split_block_nat:
  assumes "n < 2 ^ 32" "k < 2 ^ 32"
  shows "split_block n (of_nat k) = Some (of_nat (16 * n + k))"
proof -
  have "SAFE_MUL_SIZE 8 (of_nat n) = Some (of_nat (8 * n))"
    using SAFE_nat(2) [of 8 n] assms(1) by simp
  moreover have "SAFE_ADD_SIZE (of_nat (8 * n)) (of_nat (8 * n)) = Some (of_nat (8 * n + 8 * n))"
    using assms(1) by (intro SAFE_nat(1)) simp
  moreover have "SAFE_ADD_SIZE (of_nat (8 * n + 8 * n)) (of_nat k) = Some (of_nat (8 * n + 8 * n + k))"
    using assms by (intro SAFE_nat(1)) simp
  ultimately show ?thesis unfolding split_block_def by simp
qed

text \<open>The caller's block is granted for a list that is not empty and not too large.\<close>

lemma split_granted:
  assumes "(\<Sum>e \<leftarrow> els. length e + 1) \<le> n" "16 * length els + n \<le> 268435456" "els \<noteq> []" "ok"
  shows "\<exists>k. split_block (length els) (plain_total els) = Some k \<and> checked_total els = Some (plain_total els) \<and> alloc_given ok k"
proof -
  let ?t = "\<Sum>e \<leftarrow> els. length e + 1"
  have "split_block (length els) (plain_total els) = Some (of_nat (16 * length els + ?t))"
    unfolding plain_total_nat using assms(1,2) by (intro split_block_nat) simp_all
  moreover have "alloc_given ok (of_nat (16 * length els + ?t))"
    using assms by (intro alloc_given_nat) auto
  moreover have "checked_total els = Some (plain_total els)"
    unfolding plain_total_nat using assms(1,2) by (intro checked_total_nat) simp
  ultimately show ?thesis by blast
qed

lemma split_hit_out:
  "split_hit env want tag els = Inr out \<Longrightarrow> out = deliver want tag els"
  by (auto simp: split_hit_def split: if_splits option.splits)

lemma split_copy_out:
  assumes "Eagle_SplitList a b z = Inr els"
  shows "split_copy env want tag (length z) els = Inr out \<Longrightarrow> out = deliver want tag els"
  using SplitList_capped [OF assms] by (auto simp: split_copy_def Let_def split: if_splits option.splits)

lemma split_succeeds:
  assumes "Eagle_SplitList True True z = Inr els" "copy_ok env" "length els \<le> TH8_MAX_LIST_ELEMENTS"
    and "16 * length els + (length z + 1) \<le> 268435456"
  shows "els \<noteq> [] \<Longrightarrow> split_hit env want tag els = Inr (deliver want tag els)"
    and "split_copy env want tag (length z) els = Inr (deliver want tag els)"
  using split_granted [OF SplitList_fits [OF assms(1)] assms(4), of True] assms(2,3) SplitList_capped [OF assms(1)]
  by (auto simp: split_hit_def split_copy_def Let_def)

lemma split_lookup_coherent:
  assumes "cache_all s list_coherent c" "split_lookup s env want z c = (c1, hit)"
  shows "cache_all s list_coherent c1 \<and> (\<forall>els. hit = Some els \<longrightarrow> Eagle_SplitList True True z = Inr els \<and> els \<noteq> [])"
proof (cases "no_cache want")
  case False
  obtain c2 r where f: "Th8_FindInCache s (find_al env) TH8_CACHE_LIST z c = (c2, r)" by fastforce
  show ?thesis
  proof (cases r)
    case (Some p)
    from find_list(2) [OF assms(1) f Some] find_list(1) [OF assms(1) f] show ?thesis
      using assms(2) f Some False by (auto simp: split_lookup_def list_coherent_def)
  qed (use assms(2) f False find_list(1) [OF assms(1) f] in \<open>simp add: split_lookup_def\<close>)
qed (use assms in \<open>simp add: split_lookup_def\<close>)

lemma Th8_SplitList_cached:
  assumes coh: "cache_all s list_coherent c" and want: "want_count want \<or> \<not> want_elems want \<or> no_cache want"
    and n: "n = resolve_len zList nList" and z: "z = bytes_of zList n" and run: "Th8_SplitList s env want zList nList c = (r, c')"
  shows "r = Inr out \<Longrightarrow> \<exists>els. Eagle_SplitList True True z = Inr els \<and> out = deliver want (n AND TH8_TAG_BITS) els"
    and "cache_all s list_coherent c'"
    and "Eagle_SplitList True True z = Inr els \<Longrightarrow> copy_ok env \<Longrightarrow> arrays_ok env = (True, True) \<Longrightarrow>
      length els \<le> TH8_MAX_LIST_ELEMENTS \<Longrightarrow> 16 * length els + (length z + 1) \<le> 268435456 \<Longrightarrow>
      r = Inr (deliver want (n AND TH8_TAG_BITS) els)"
proof -
  let ?tag = "n AND TH8_TAG_BITS"
  have "(\<forall>out. r = Inr out \<longrightarrow> (\<exists>els. Eagle_SplitList True True z = Inr els \<and> out = deliver want ?tag els)) \<and>
    cache_all s list_coherent c' \<and>
    (\<forall>els. Eagle_SplitList True True z = Inr els \<and> copy_ok env \<and> arrays_ok env = (True, True) \<and>
      length els \<le> TH8_MAX_LIST_ELEMENTS \<and> 16 * length els + (length z + 1) \<le> 268435456 \<longrightarrow>
      r = Inr (deliver want ?tag els))"
  proof (cases "TH8_LEN n = 0")
    case True
    then have "z = []" by (simp add: z bytes_of_def)
    with True run coh show ?thesis by (auto simp: Th8_SplitList_def SplitList_Nil n [symmetric])
  next
    case False
    obtain c1 hit where l: "split_lookup s env want z c = (c1, hit)" by fastforce
    note lc = split_lookup_coherent [OF coh l]
    show ?thesis
    proof (cases hit)
      case (Some els)
      with False run l have "r = split_hit env want ?tag els" "c' = c1"
        by (auto simp: Th8_SplitList_def Let_def n [symmetric] z [symmetric])
      with lc Some split_succeeds(1) [of z els env want ?tag] show ?thesis by (auto dest: split_hit_out)
    next
      case None
      note run' = run [unfolded Th8_SplitList_def Let_def n [symmetric] z [symmetric], simplified False l None if_False prod.case option.case]
      show ?thesis
      proof (cases "Eagle_SplitList (fst (arrays_ok env)) (snd (arrays_ok env)) z")
        case (Inl e)
        with run' lc show ?thesis by auto
      next
        case (Inr els)
        have "cache_all s list_coherent (split_store s env want z els c1)"
          using lc SplitList_granted [OF Inr] want by (intro split_store_coherent) auto
        with run' Inr lc SplitList_capped [OF Inr] SplitList_granted [OF Inr] split_succeeds(2) [of z els env want ?tag]
        show ?thesis by (auto dest: split_copy_out [OF Inr] split: sum.splits)
      qed
    qed
  qed
  then show "r = Inr out \<Longrightarrow> \<exists>els. Eagle_SplitList True True z = Inr els \<and> out = deliver want (n AND TH8_TAG_BITS) els"
    "cache_all s list_coherent c'"
    "Eagle_SplitList True True z = Inr els \<Longrightarrow> copy_ok env \<Longrightarrow> arrays_ok env = (True, True) \<Longrightarrow>
      length els \<le> TH8_MAX_LIST_ELEMENTS \<Longrightarrow> 16 * length els + (length z + 1) \<le> 268435456 \<Longrightarrow>
      r = Inr (deliver want (n AND TH8_TAG_BITS) els)" by blast+
qed

abbreviation split_ok :: split_env where
  "split_ok \<equiv> \<lparr>find_al = al_all, store_al = al_all, arrays_ok = (True, True), message_ok = True,
                copy_ok = True, keep_ok = True\<rparr>"

abbreviation want_all :: split_want where
  "want_all \<equiv> \<lparr>want_elems = True, want_lengths = True, want_count = True, no_cache = False\<rparr>"

section \<open>Theorems\<close>

text \<open>
  Appending elements one by one to an empty list with \<open>Th8_ListAppend\<close>, when it succeeds, gives a text that splits into
  exactly those elements, whose length is the true length and whose tags are the union of the elements' tags. It
  succeeds when every allocation is granted and twice the bytes of the elements, plus three for each, are within the default limit.
\<close>

theorem list_append_builds:
  assumes "\<forall>e \<in> set es. sized e \<and> length (fst e) \<le> 104857600"
  shows "(join_ok env \<and> append_all env es ([], 0) st = (TH8_OK, (l, n), st') \<and> 9 * length l + 17 \<le> LIBRARY_MAXIMUM_SIZE_T \<longrightarrow>
      Eagle_SplitList True True l = Inr (map fst es) \<and> TH8_LEN n = of_nat (length l) \<and>
      n AND TH8_TAG_BITS = all_tags es) \<and>
    (nResultLimit (limits st) = 0 \<and> (\<Sum>e \<leftarrow> es. 2 * length (fst e) + 3) \<le> 104857600 \<longrightarrow>
      (\<exists>v. append_all append_ok es ([], 0) st = (TH8_OK, v, st)))"
proof (intro conjI impI; (elim conjE)?)
  have start: "([], 0) = (tl (spaced []), tagged (length (tl (spaced []))) 0)" by (simp add: spaced_def tagged_def)
  show "\<exists>v. append_all append_ok es ([], 0) st = (TH8_OK, v, st)"
    if "nResultLimit (limits st) = 0" "(\<Sum>e \<leftarrow> es. 2 * length (fst e) + 3) \<le> 104857600"
    unfolding start using assms that by (intro append_all_succeeds [of "[]"]) (simp_all add: spaced_def)
  assume run: "append_all env es ([], 0) st = (TH8_OK, (l, n), st')" and ok: "join_ok env"
    and small: "9 * length l + 17 \<le> LIBRARY_MAXIMUM_SIZE_T"
  obtain ws where ws: "list_all2 written (map fst es) ws" "length (tl (spaced ws)) < 2 ^ 28"
    "(l, n) = (tl (spaced ws), tagged (length (tl (spaced ws))) (all_tags es))"
    using append_all_ok [OF run [unfolded start], of "[]"] assms ok by (auto simp: all_tags_def spaced_def)
  have tags: "all_tags es AND TH8_TAG_BITS = all_tags es"
  proof -
    have "fold (\<lambda>e t. t OR (snd e AND TH8_TAG_BITS)) es t AND TH8_TAG_BITS = fold (\<lambda>e t. t OR (snd e AND TH8_TAG_BITS)) es t"
      if "t AND TH8_TAG_BITS = t" for t
      using that by (induction es arbitrary: t) (auto dest: tag_or)
    from this [of 0] show ?thesis by (simp add: all_tags_def)
  qed
  show "Eagle_SplitList True True l = Inr (map fst es)"
    using split_written [OF ws(1)] ws(3) small space_runs_length [of l] by (simp add: Eagle_SplitList_def)
  show "TH8_LEN n = of_nat (length l)" "n AND TH8_TAG_BITS = all_tags es"
    using tagged_parts [OF ws(2) tags] ws(3) by auto
qed

theorem list_append_builds_witness:
  "\<exists>l n. append_all append_ok [(''a b'', 3), (''x'', 0x10000001)] ([], 0) \<lparr>limits = interp_init, buildFailed = False, oversize = 0\<rparr> =
       (TH8_OK, (l, n), \<lparr>limits = interp_init, buildFailed = False, oversize = 0\<rparr>) \<and>
     Eagle_SplitList True True l = Inr [''a b'', ''x''] \<and> n AND TH8_TAG_BITS = 0x10000000"
proof -
  let ?es = "[(''a b'', 3), (''x'', 0x10000001)] :: (string \<times> size_t) list"
    and ?st = "\<lparr>limits = interp_init, buildFailed = False, oversize = 0\<rparr>"
  have es: "\<forall>e \<in> set ?es. sized e \<and> length (fst e) \<le> 104857600" by (simp add: sized_def TH8_LEN_def)
  have run: "append_all append_ok ?es ([], 0) ?st = (TH8_OK, (''{a b} x'', 0x10000007), ?st)"
    by (simp add: Th8_ListAppend_def STR_APPEND_def Th8_StringAppend_def th8CheckResultSize_def bytes_of_def TH8_LEN_def resolve_len_def
        alloc_given_def interp_init_def Eagle_JoinList_def EagleScanCountedElement_def EagleConvertCountedElement_def
        convert_char_def Let_def)
  show ?thesis
    using list_append_builds [OF es, where env = append_ok and st = ?st and st' = ?st and l = "''{a b} x''" and n = "0x10000007"] run
    by (simp add: all_tags_def)
qed

text \<open>
  C22: The cache does not change what a split returns, for a caller that asks for the count, or not for the elements,
  or forbids caching. From a cache whose splits are all those of their texts (the empty cache is one), a successful
  \<open>Th8_SplitList\<close> delivers the count, elements and lengths of a parse of the text, each length with the tags of the
  list; it keeps the cache so; and with enough memory it succeeds whenever the text parses, up to a million
  elements. A length of \<open>TH8_NOLEN\<close> stands for the bytes before the terminator, without tags.
\<close>

theorem list_split_cached:
  assumes "cache_all s list_coherent c" and "want_count want \<or> \<not> want_elems want \<or> no_cache want"
    and n: "n = resolve_len zList nList" and run: "Th8_SplitList s env want zList nList c = (r, c')"
  shows "(\<forall>out. r = Inr out \<longrightarrow>
       (\<exists>els. Eagle_SplitList True True (bytes_of zList n) = Inr els \<and> out = deliver want (n AND TH8_TAG_BITS) els)) \<and>
     (\<forall>els. Eagle_SplitList True True (bytes_of zList n) = Inr els \<and> copy_ok env \<and> arrays_ok env = (True, True) \<and>
        length els \<le> TH8_MAX_LIST_ELEMENTS \<and> 16 * length els + (length (bytes_of zList n) + 1) \<le> 268435456 \<longrightarrow>
        r = Inr (deliver want (n AND TH8_TAG_BITS) els)) \<and>
     cache_all s list_coherent c' \<and> cache_all s list_coherent None"
  using Th8_SplitList_cached [OF assms(1,2) n refl run] by (auto simp: cache_all_def)

lemma split_a_b: "Eagle_SplitList True True ''a b'' = Inr [''a'', ''b'']"
  using split_join [of "[''a'', ''b'']"]
  by (simp add: Eagle_SplitList_def EagleScanCountedElement_def EagleConvertCountedElement_def convert_char_def
      th8_spilornis_isspace_def)

theorem list_split_cached_witness:
  "\<exists>c. Th8_SplitList seed_init split_ok want_all ''a b'' 0x10000003 None =
     (Inr \<lparr>pnCount = Some 2, pazElem = Some [''a'', ''b''], panElem = Some [0x10000001, 0x10000001]\<rparr>, c)"
proof -
  obtain r c where run: "Th8_SplitList seed_init split_ok want_all ''a b'' 0x10000003 None = (r, c)" by fastforce
  have n: "(0x10000003 :: size_t) = resolve_len ''a b'' 0x10000003" by (simp add: resolve_len_def)
  have b: "bytes_of ''a b'' 0x10000003 = ''a b''" by (simp add: bytes_of_def TH8_LEN_def)
  have "cache_all seed_init list_coherent None" by (simp add: cache_all_def)
  moreover have "want_count want_all \<or> \<not> want_elems want_all \<or> no_cache want_all" by simp
  ultimately have "r = Inr (deliver want_all (0x10000003 AND TH8_TAG_BITS) [''a'', ''b''])"
    using list_split_cached [OF _ _ n run, THEN conjunct2, THEN conjunct1, rule_format, of "[''a'', ''b'']"] split_a_b b
    by simp
  with run show ?thesis by (simp add: deliver_def)
qed

text \<open>
  C23: A caller that asks for the elements but not for their count makes the next split of the same text wrong: the
  code takes the missing count for zero and stores an empty list, so that a later call reports no elements for
  a text that has some.
\<close>

theorem split_without_count_poisons:
  assumes "Eagle_SplitList True True z = Inr els" "els \<noteq> []" "length els \<le> TH8_MAX_LIST_ELEMENTS"
    and "16 * length els + (length z + 1) \<le> 268435456" "length z < 2 ^ 28"
  shows "fst (Th8_SplitList s split_ok \<lparr>want_elems = False, want_lengths = False, want_count = True, no_cache = False\<rparr>
           z (of_nat (length z))
           (snd (Th8_SplitList s split_ok (want_all\<lparr>want_count := False\<rparr>) z (of_nat (length z)) None))) =
         Inr \<lparr>pnCount = Some 0, pazElem = None, panElem = None\<rparr>"
proof -
  let ?n = "of_nat (length z) :: size_t" and ?w = "want_all\<lparr>want_count := False\<rparr>" and ?k = "cache_key TH8_CACHE_LIST z"
  let ?P = "\<lambda>e :: cache_entry. True"
  have b: "bytes_of z ?n = z" using assms(5) by (rule bytes_of_text)
  have nl: "resolve_len z ?n = ?n" using assms(5) by simp
  have "z \<noteq> []" using assms(1,2) by (auto simp: SplitList_Nil)
  then have n: "TH8_LEN ?n \<noteq> 0"
    using tagged_parts(1) [OF assms(5), of 0] unat_of_nat_small [OF assms(5)]
    by (auto simp: tagged_def)
  obtain c1 r1 where f1: "Th8_FindInCache s al_all TH8_CACHE_LIST z None = (c1, r1)" by fastforce
  have all0: "cache_all s ?P None" by (simp add: cache_all_def)
  have r1: "r1 = Some ?k" using FindInCache_ok [OF all0, of TH8_CACHE_LIST z] f1 by simp
  note res1 = FindInCache_result [OF all0 TrueI f1]
  have at1: "cache_at s c1 ?k = Some (fresh_entry TH8_CACHE_LIST z)"
    using res1 r1 by (auto simp: cache_at_def)
  have all1: "cache_all s ?P c1" using res1 by blast
  obtain c2 r2 where f2: "Th8_FindInCache s al_all TH8_CACHE_LIST z c1 = (c2, r2)" by fastforce
  have r2: "r2 = Some ?k" using FindInCache_ok [OF all1, of TH8_CACHE_LIST z] f2 by simp
  note res2 = FindInCache_result [OF all1 TrueI f2]
  have at2: "cache_at s c2 ?k = Some (fresh_entry TH8_CACHE_LIST z)"
    using res2 r2 at1 fresh_matches by fastforce
  have all2: "cache_all s ?P c2" using res2 by blast
  define c3 where "c3 = cache_store s c2 ?k (SplitRep [])"
  have copy: "split_copy split_ok ?w (?n AND TH8_TAG_BITS) (length z) els = Inr (deliver ?w (?n AND TH8_TAG_BITS) els)"
    using split_succeeds(2) [OF assms(1) _ assms(3,4)] by simp
  have first: "snd (Th8_SplitList s split_ok ?w z ?n None) = c3"
    using n nl b f1 r1 at1 assms(1,2) SplitList_capped [OF assms(1)] f2 r2 at2 copy
    by (simp add: Th8_SplitList_def split_lookup_def split_store_def dest_split_def fresh_entry_def c3_def Let_def)
  define e where "e = fresh_entry TH8_CACHE_LIST z\<lparr>ce_value := (ce_value (fresh_entry TH8_CACHE_LIST z))\<lparr>u_rep := SplitRep []\<rparr>\<rparr>"
  have at3: "cache_at s c3 ?k = Some e"
    using at_store [OF all2 at2, of "SplitRep []" ?k] by (simp add: c3_def e_def)
  have all3: "cache_all s ?P c3" unfolding c3_def by (rule store_all [OF all2]) simp
  obtain c4 r4 where f4: "Th8_FindInCache s al_all TH8_CACHE_LIST z c3 = (c4, r4)" by fastforce
  have r4: "r4 = Some ?k" using FindInCache_ok [OF all3, of TH8_CACHE_LIST z] f4 by simp
  have "entry_matches e TH8_CACHE_LIST z" by (simp add: e_def entry_matches_def fresh_entry_def)
  then have at4: "cache_at s c4 ?k = Some e"
    using FindInCache_result [OF all3 TrueI f4] r4 at3 by blast
  show ?thesis
    unfolding first using n nl b f4 r4 at4
    by (simp add: Th8_SplitList_def split_lookup_def dest_split_def e_def split_hit_def deliver_def Let_def)
qed

theorem split_without_count_poisons_witness:
  "fst (Th8_SplitList seed_init split_ok \<lparr>want_elems = False, want_lengths = False, want_count = True, no_cache = False\<rparr>
      ''a b'' 3 (snd (Th8_SplitList seed_init split_ok (want_all\<lparr>want_count := False\<rparr>) ''a b'' 3 None))) =
    Inr \<lparr>pnCount = Some 0, pazElem = None, panElem = None\<rparr>"
  using split_without_count_poisons [OF split_a_b, of seed_init] by simp

text \<open>
  When the joined text cannot be allocated, \<open>Th8_ListAppend\<close> puts the element in braces without looking at
  it. The call succeeds, and an element with unbalanced braces becomes several elements of the list.
\<close>

lemma list_append_fallback_breaks:
  "Th8_ListAppend (append_ok\<lparr>join_ok := False\<rparr>) ([], 0) ''x} y {z'' 7 \<lparr>limits = interp_init, buildFailed = False, oversize = 0\<rparr> =
     (TH8_OK, (''{x} y {z}'', 9), \<lparr>limits = interp_init, buildFailed = False, oversize = 0\<rparr>) \<and>
   Eagle_SplitList True True ''{x} y {z}'' = Inr [''x'', ''y'', ''z'']"
proof
  show "Th8_ListAppend (append_ok\<lparr>join_ok := False\<rparr>) ([], 0) ''x} y {z'' 7 \<lparr>limits = interp_init, buildFailed = False, oversize = 0\<rparr> =
     (TH8_OK, (''{x} y {z}'', 9), \<lparr>limits = interp_init, buildFailed = False, oversize = 0\<rparr>)"
    by (simp add: Th8_ListAppend_def STR_APPEND_def Th8_StringAppend_def th8CheckResultSize_def bytes_of_def TH8_LEN_def resolve_len_def
        alloc_given_def interp_init_def Eagle_JoinList_def Let_def)
  show "Eagle_SplitList True True ''{x} y {z}'' = Inr [''x'', ''y'', ''z'']"
    by (simp add: Eagle_SplitList_def split_loop.simps EagleFindElement_def th8_spilornis_isspace_def find_loop.simps)
qed

text \<open>
  Appending to a list that ends in a backslash merges its last element with the new one: the text \<open>a\<close> and
  a backslash is a list of one element, and so is the result of appending \<open>b\<close>, which is \<open>a b\<close>.
\<close>

lemma list_append_after_backslash:
  "Eagle_SplitList True True (''a'' @ [BSL]) = Inr [''a'' @ [BSL]] \<and>
   Th8_ListAppend append_ok (''a'' @ [BSL], 2) ''b'' 1 \<lparr>limits = interp_init, buildFailed = False, oversize = 0\<rparr> =
     (TH8_OK, (''a'' @ [BSL] @ '' b'', 4), \<lparr>limits = interp_init, buildFailed = False, oversize = 0\<rparr>) \<and>
   Eagle_SplitList True True (''a'' @ [BSL] @ '' b'') = Inr [''a b'']"
proof (intro conjI)
  show "Th8_ListAppend append_ok (''a'' @ [BSL], 2) ''b'' 1 \<lparr>limits = interp_init, buildFailed = False, oversize = 0\<rparr> =
     (TH8_OK, (''a'' @ [BSL] @ '' b'', 4), \<lparr>limits = interp_init, buildFailed = False, oversize = 0\<rparr>)"
    by (simp add: Th8_ListAppend_def STR_APPEND_def Th8_StringAppend_def th8CheckResultSize_def bytes_of_def TH8_LEN_def resolve_len_def
        alloc_given_def interp_init_def Eagle_JoinList_def EagleScanCountedElement_def EagleConvertCountedElement_def
        convert_char_def Let_def)
qed (simp_all add: Eagle_SplitList_def split_loop.simps EagleFindElement_def th8_spilornis_isspace_def find_loop.simps
      ucs_bytes_def ucs_def char_of_def bit_0)

end
