(* ===== verification/Th8_Expr.thy ===== *)
theory Th8_Expr
  imports Th8_Prelude
begin

text \<open>
  The expression tree of \<open>src/src/th8_expr.c\<close>: the operator table, the tree builder
  \<open>th8ExprMakeTree\<close> and the iterative \<open>th8ExprFree\<close>.

  \<^item> A \<open>Th8_ExprNode *\<close> is an \<open>enode\<close>: \<open>ENil\<close> is the null pointer and \<open>ENode\<close> a node with its address,
    so that freeing can be counted. The builder only ever moves a pointer (the slot it came from is
    set to null), hence no node is reachable twice and a tree is a faithful picture of the pointers.
  \<^item> The token array \<open>apToken\<close> is a list of slots. The in-place scans keep their positions: a consumed
    slot becomes \<open>ENil\<close> and the list keeps its length.
  \<^item> \<open>Th8_Ready\<close> is the argument \<open>ready\<close>, a function on the rest of the interpreter state.
  \<^item> The addresses that \<open>th8ExprFree\<close> hands to \<open>Th8_Free\<close> are returned, in the order of the calls.

  The lemmas show the contract that all five phases share (no token lost, no slot ill formed), that a
  built tree is well formed, that every node is freed exactly once, and that the binary levels compute
  the tree of the precedence numbers with every level grouped from the left, which is the documented tree unless
  the sequence chains \<open>**\<close>.
\<close>

section \<open>Operators\<close>

abbreviation (input) TH8_OP_UNARY_MINUS :: int where "TH8_OP_UNARY_MINUS \<equiv> 2"
abbreviation (input) TH8_OP_UNARY_PLUS :: int where "TH8_OP_UNARY_PLUS \<equiv> 3"
abbreviation (input) TH8_OP_BITWISE_NOT :: int where "TH8_OP_BITWISE_NOT \<equiv> 4"
abbreviation (input) TH8_OP_LOGICAL_NOT :: int where "TH8_OP_LOGICAL_NOT \<equiv> 5"
abbreviation (input) TH8_OP_MULTIPLY :: int where "TH8_OP_MULTIPLY \<equiv> 6"
abbreviation (input) TH8_OP_DIVIDE :: int where "TH8_OP_DIVIDE \<equiv> 7"
abbreviation (input) TH8_OP_MODULUS :: int where "TH8_OP_MODULUS \<equiv> 8"
abbreviation (input) TH8_OP_ADD :: int where "TH8_OP_ADD \<equiv> 9"
abbreviation (input) TH8_OP_SUBTRACT :: int where "TH8_OP_SUBTRACT \<equiv> 10"
abbreviation (input) TH8_OP_LEFT_SHIFT :: int where "TH8_OP_LEFT_SHIFT \<equiv> 11"
abbreviation (input) TH8_OP_RIGHT_SHIFT :: int where "TH8_OP_RIGHT_SHIFT \<equiv> 12"
abbreviation (input) TH8_OP_LT :: int where "TH8_OP_LT \<equiv> 13"
abbreviation (input) TH8_OP_GT :: int where "TH8_OP_GT \<equiv> 14"
abbreviation (input) TH8_OP_LE :: int where "TH8_OP_LE \<equiv> 15"
abbreviation (input) TH8_OP_GE :: int where "TH8_OP_GE \<equiv> 16"
abbreviation (input) TH8_OP_EQ :: int where "TH8_OP_EQ \<equiv> 17"
abbreviation (input) TH8_OP_NE :: int where "TH8_OP_NE \<equiv> 18"
abbreviation (input) TH8_OP_SEQ :: int where "TH8_OP_SEQ \<equiv> 19"
abbreviation (input) TH8_OP_SNE :: int where "TH8_OP_SNE \<equiv> 20"
abbreviation (input) TH8_OP_BITWISE_AND :: int where "TH8_OP_BITWISE_AND \<equiv> 21"
abbreviation (input) TH8_OP_BITWISE_XOR :: int where "TH8_OP_BITWISE_XOR \<equiv> 22"
abbreviation (input) TH8_OP_BITWISE_OR :: int where "TH8_OP_BITWISE_OR \<equiv> 24"
abbreviation (input) TH8_OP_LOGICAL_AND :: int where "TH8_OP_LOGICAL_AND \<equiv> 25"
abbreviation (input) TH8_OP_LOGICAL_OR :: int where "TH8_OP_LOGICAL_OR \<equiv> 26"
abbreviation (input) TH8_OP_OPEN_BRACKET :: int where "TH8_OP_OPEN_BRACKET \<equiv> 27"
abbreviation (input) TH8_OP_CLOSE_BRACKET :: int where "TH8_OP_CLOSE_BRACKET \<equiv> 28"
abbreviation (input) TH8_OP_EXPONENT :: int where "TH8_OP_EXPONENT \<equiv> 29"
abbreviation (input) TH8_OP_IN :: int where "TH8_OP_IN \<equiv> 30"
abbreviation (input) TH8_OP_NI :: int where "TH8_OP_NI \<equiv> 31"
abbreviation (input) TH8_OP_TERNARY_Q :: int where "TH8_OP_TERNARY_Q \<equiv> 32"
abbreviation (input) TH8_OP_TERNARY_C :: int where "TH8_OP_TERNARY_C \<equiv> 33"
abbreviation (input) TH8_OP_VAR_ASSIGN :: int where "TH8_OP_VAR_ASSIGN \<equiv> 34"

abbreviation (input) TH8_ARG_NONE :: int where "TH8_ARG_NONE \<equiv> 0"
abbreviation (input) TH8_ARG_INTEGER :: int where "TH8_ARG_INTEGER \<equiv> 1"
abbreviation (input) TH8_ARG_NUMBER :: int where "TH8_ARG_NUMBER \<equiv> 2"
abbreviation (input) TH8_ARG_STRING :: int where "TH8_ARG_STRING \<equiv> 3"

abbreviation (input) TH8_EXPR_VAR_ASSIGN :: int where "TH8_EXPR_VAR_ASSIGN \<equiv> 2"
abbreviation TH8_MX_EXPR_DEPTH :: nat where "TH8_MX_EXPR_DEPTH \<equiv> 1000"

text \<open>\<open>nOp\<close> is the length of \<open>zOp\<close>.\<close>

record expr_op =
  zOp :: string
  eOp :: int
  iPrecedence :: int
  eArgType :: int
  nReqFlag :: int

abbreviation mk_op :: "string \<Rightarrow> int \<Rightarrow> int \<Rightarrow> int \<Rightarrow> int \<Rightarrow> expr_op" where
  "mk_op z e p t f \<equiv> \<lparr>zOp = z, eOp = e, iPrecedence = p, eArgType = t, nReqFlag = f\<rparr>"

definition th8Operators :: "expr_op list" where
  "th8Operators =
    [mk_op ''('' TH8_OP_OPEN_BRACKET (-1) TH8_ARG_NONE 0,
     mk_op '')'' TH8_OP_CLOSE_BRACKET (-1) TH8_ARG_NONE 0,
     mk_op ''-'' TH8_OP_UNARY_MINUS 1 TH8_ARG_NUMBER 0,
     mk_op ''+'' TH8_OP_UNARY_PLUS 1 TH8_ARG_NUMBER 0,
     mk_op ''~'' TH8_OP_BITWISE_NOT 1 TH8_ARG_INTEGER 0,
     mk_op ''!'' TH8_OP_LOGICAL_NOT 1 TH8_ARG_INTEGER 0,
     mk_op ''**'' TH8_OP_EXPONENT 2 TH8_ARG_NUMBER 0,
     mk_op ''<<'' TH8_OP_LEFT_SHIFT 5 TH8_ARG_INTEGER 0,
     mk_op ''>>'' TH8_OP_RIGHT_SHIFT 5 TH8_ARG_INTEGER 0,
     mk_op ''<='' TH8_OP_LE 6 TH8_ARG_NUMBER 0,
     mk_op ''>='' TH8_OP_GE 6 TH8_ARG_NUMBER 0,
     mk_op ''=='' TH8_OP_EQ 7 TH8_ARG_NUMBER 0,
     mk_op ''!='' TH8_OP_NE 7 TH8_ARG_NUMBER 0,
     mk_op ''eq'' TH8_OP_SEQ 8 TH8_ARG_STRING 0,
     mk_op ''ne'' TH8_OP_SNE 8 TH8_ARG_STRING 0,
     mk_op ''in'' TH8_OP_IN 8 TH8_ARG_STRING 0,
     mk_op ''ni'' TH8_OP_NI 8 TH8_ARG_STRING 0,
     mk_op ''&&'' TH8_OP_LOGICAL_AND 12 TH8_ARG_NUMBER 0,
     mk_op ''||'' TH8_OP_LOGICAL_OR 13 TH8_ARG_NUMBER 0,
     mk_op '':='' TH8_OP_VAR_ASSIGN 15 TH8_ARG_STRING TH8_EXPR_VAR_ASSIGN,
     mk_op ''*'' TH8_OP_MULTIPLY 3 TH8_ARG_NUMBER 0,
     mk_op ''/'' TH8_OP_DIVIDE 3 TH8_ARG_NUMBER 0,
     mk_op ''%'' TH8_OP_MODULUS 3 TH8_ARG_INTEGER 0,
     mk_op ''+'' TH8_OP_ADD 4 TH8_ARG_NUMBER 0,
     mk_op ''-'' TH8_OP_SUBTRACT 4 TH8_ARG_NUMBER 0,
     mk_op ''<'' TH8_OP_LT 6 TH8_ARG_NUMBER 0,
     mk_op ''>'' TH8_OP_GT 6 TH8_ARG_NUMBER 0,
     mk_op ''&'' TH8_OP_BITWISE_AND 9 TH8_ARG_INTEGER 0,
     mk_op ''^'' TH8_OP_BITWISE_XOR 10 TH8_ARG_INTEGER 0,
     mk_op ''|'' TH8_OP_BITWISE_OR 11 TH8_ARG_INTEGER 0,
     mk_op ''?'' TH8_OP_TERNARY_Q 14 TH8_ARG_NUMBER 0,
     mk_op '':'' TH8_OP_TERNARY_C 14 TH8_ARG_NUMBER 0]"

section \<open>Nodes\<close>

datatype enode =
    ENil
  | ENode (eaddr: nat) (pOp: "expr_op option") (zValue: string) (pLeft: enode) (pRight: enode)
where
  "pLeft ENil = ENil"
| "pRight ENil = ENil"
| "pOp ENil = None"

definition has_op :: "int \<Rightarrow> enode \<Rightarrow> bool" where
  "has_op e t = (case pOp t of None \<Rightarrow> False | Some p \<Rightarrow> eOp p = e)"

definition TH8_ISTERM :: "enode \<Rightarrow> bool" where
  "TH8_ISTERM t = (t \<noteq> ENil \<and> (pOp t = None \<or> pLeft t \<noteq> ENil))"

fun bind_kids :: "enode \<Rightarrow> enode \<Rightarrow> enode \<Rightarrow> enode" where
  "bind_kids (ENode a p z _ _) l r = ENode a p z l r"
| "bind_kids ENil l r = ENil"

text \<open>
  The interpreter fields that the expression code reads: the result with its tag bits (\<open>nResult\<close> is the length of
  \<open>xresult\<close> with \<open>xtag\<close>), the nesting counter and the two modes. \<open>xrest\<close> is everything else.
\<close>

record 'i expr_interp =
  xresult :: string
  xtag :: size_t
  nExprDepth :: nat
  bOverflowCheck :: bool
  bBigint :: bool
  xrest :: 'i

definition set_result :: "string \<Rightarrow> 'i expr_interp \<Rightarrow> 'i expr_interp" where
  "set_result z st = st\<lparr>xresult := z, xtag := 0\<rparr>"

type_synonym 'i xready = "'i \<Rightarrow> int \<times> string \<times> 'i"

text \<open>\<open>Th8_Ready\<close> leaves its message in the result only when it reports a failure.\<close>

definition expr_poll :: "'i xready \<Rightarrow> 'i expr_interp \<Rightarrow> int \<times> 'i expr_interp" where
  "expr_poll ready st =
     (case ready (xrest st) of
        (rc, msg, r) \<Rightarrow> (rc, (if rc \<noteq> TH8_OK then set_result msg st else st)\<lparr>xrest := r\<rparr>))"

section \<open>Freeing a tree\<close>

text \<open>
  A node with a left child is rotated to the right; a node without one is freed and the loop goes on with
  its right child. The rotation shortens the left spine and the free removes a node.
\<close>

fun esize :: "enode \<Rightarrow> nat" where
  "esize ENil = 0"
| "esize (ENode _ _ _ l r) = 2 * esize l + esize r + 1"

function th8ExprFree :: "enode \<Rightarrow> nat list" where
  "th8ExprFree ENil = []"
| "th8ExprFree (ENode a p z (ENode a' p' z' l' r') r) = th8ExprFree (ENode a' p' z' l' (ENode a p z r' r))"
| "th8ExprFree (ENode a p z ENil r) = a # th8ExprFree r"
  by pat_completeness auto
termination th8ExprFree
  by (relation "measure esize") auto

section \<open>The tree builder\<close>

text \<open>Phase 1: the bracket that closes the one before \<open>ts\<close>, as an offset into \<open>ts\<close>.\<close>

fun close_offset :: "nat \<Rightarrow> enode list \<Rightarrow> nat option" where
  "close_offset n [] = None"
| "close_offset n (t # ts) =
     (let n = (if has_op TH8_OP_OPEN_BRACKET t then n + 1 else n);
          n = (if has_op TH8_OP_CLOSE_BRACKET t then n - 1 else n)
      in if n = 0 then Some 0 else map_option Suc (close_offset n ts))"

lemma close_offset_less: "close_offset n ts = Some k \<Longrightarrow> k < length ts"
  by (induction n ts arbitrary: k rule: close_offset.induct)
     (auto simp: Let_def split: if_splits)

text \<open>
  \<open>build\<close> is the recursive call on the slots between two brackets. On success its first slot, the root,
  moves to the slot of the opening bracket; both bracket nodes are freed, the closing one first.
\<close>

function expr_parens ::
  "(enode list \<Rightarrow> 's \<Rightarrow> int \<times> enode list \<times> nat list \<times> 's) \<Rightarrow>
   enode list \<Rightarrow> 's \<Rightarrow> int \<times> enode list \<times> nat list \<times> 's" where
  "expr_parens build [] st = (TH8_OK, [], [], st)"
| "expr_parens build (t # ts) st =
     (if \<not> has_op TH8_OP_OPEN_BRACKET t then
        (case expr_parens build ts st of (rc, ts', fr, st') \<Rightarrow> (rc, t # ts', fr, st'))
      else
        (case close_offset 1 ts of
           None \<Rightarrow> (TH8_ERROR, t # ts, [], st)
         | Some k \<Rightarrow>
             if k = 0 then (TH8_ERROR, t # ts, [], st)
             else
               (case build (take k ts) st of
                  (rc, sub, fr, st') \<Rightarrow>
                    if rc \<noteq> TH8_OK then (TH8_ERROR, t # sub @ drop k ts, fr, st')
                    else
                      (case expr_parens build (drop (Suc k) ts) st' of
                         (rc', rest, fr', st'') \<Rightarrow>
                           (rc', hd sub # ENil # tl sub @ ENil # rest,
                            fr @ th8ExprFree (ts ! k) @ th8ExprFree t @ fr', st'')))))"
  by pat_completeness auto
termination expr_parens
  by (relation "measure (\<lambda>(_, ts, _). length ts)") auto

text \<open>Phase 2, from the right end: the operand is the slot next to the operator.\<close>

definition wants_unary :: "enode \<Rightarrow> bool" where
  "wants_unary t = (case pOp t of None \<Rightarrow> False | Some p \<Rightarrow> iPrecedence p = 1 \<and> pLeft t = ENil)"

fun expr_unary :: "enode list \<Rightarrow> int \<times> enode list" where
  "expr_unary [] = (TH8_OK, [])"
| "expr_unary (t # ts) =
     (case expr_unary ts of
        (rc, ts') \<Rightarrow>
          if rc \<noteq> TH8_OK then (TH8_ERROR, t # ts')
          else if wants_unary t then
            (case ts' of
               [] \<Rightarrow> (TH8_ERROR, t # ts')
             | u # us \<Rightarrow>
                 if \<not> TH8_ISTERM u then (TH8_ERROR, t # ts')
                 else (TH8_OK, bind_kids t u (pRight t) # ENil # us))
          else (TH8_OK, t # ts'))"

text \<open>The nearest slot in use, and the slots with it emptied: the skip-nulls loops of phases 3 to 5.\<close>

fun pick :: "enode list \<Rightarrow> (enode \<times> enode list) option" where
  "pick [] = None"
| "pick (t # ts) =
     (if t = ENil then map_option (\<lambda>(u, us). (u, t # us)) (pick ts) else Some (t, ENil # ts))"

lemma pick_length: "pick ts = Some (u, us) \<Longrightarrow> length us = length ts"
  by (induction ts arbitrary: us) (auto split: if_splits)

definition pick_term :: "enode list \<Rightarrow> (enode \<times> enode list) option" where
  "pick_term ts = (case pick ts of None \<Rightarrow> None | Some (u, us) \<Rightarrow> if TH8_ISTERM u then Some (u, us) else None)"

lemma pick_term_Some: "pick_term ts = Some (u, us) \<longleftrightarrow> pick ts = Some (u, us) \<and> TH8_ISTERM u"
  by (auto simp: pick_term_def split: option.splits if_splits)

lemma pick_term_length: "Some (u, us) = pick_term ts \<Longrightarrow> length us = length ts"
  by (metis pick_length pick_term_Some)

text \<open>
  Phase 3, one level, from the left: \<open>ls\<close> holds the slots already passed, nearest first. A selected
  operator takes its neighbours and stays in its slot.
\<close>

definition wants_binary :: "int \<Rightarrow> enode \<Rightarrow> bool" where
  "wants_binary p t = (case pOp t of None \<Rightarrow> False | Some q \<Rightarrow> iPrecedence q = p \<and> pLeft t = ENil)"

function expr_level :: "int \<Rightarrow> enode list \<Rightarrow> enode list \<Rightarrow> int \<times> enode list" where
  "expr_level p ls [] = (TH8_OK, rev ls)"
| "expr_level p ls (t # ts) =
     (if \<not> wants_binary p t then expr_level p (t # ls) ts
      else
        (case (pick_term ls, pick_term ts) of
           (Some (l, ls'), Some (r, ts')) \<Rightarrow> expr_level p (bind_kids t l r # ls') ts'
         | _ \<Rightarrow> (TH8_ERROR, rev ls @ t # ts)))"
  by pat_completeness auto
termination expr_level
  by (relation "measure (\<lambda>(_, _, ts). length ts)") (auto dest: pick_term_length)

definition then_phase ::
  "(enode list \<Rightarrow> int \<times> enode list) \<Rightarrow> (enode list \<Rightarrow> int \<times> enode list) \<Rightarrow> enode list \<Rightarrow> int \<times> enode list" where
  "then_phase f g ts = (case f ts of (rc, ts') \<Rightarrow> if rc \<noteq> TH8_OK then (TH8_ERROR, ts') else g ts')"

fun expr_levels :: "int list \<Rightarrow> enode list \<Rightarrow> int \<times> enode list" where
  "expr_levels [] ts = (TH8_OK, ts)"
| "expr_levels (p # ps) ts = then_phase (expr_level p []) (expr_levels ps) ts"

text \<open>Phase 4, from the left: condition, true branch, \<open>:\<close> and false branch are four consecutive slots in use.\<close>

definition wants_op :: "int \<Rightarrow> enode \<Rightarrow> bool" where
  "wants_op e t = (has_op e t \<and> pLeft t = ENil)"

definition pick_branches :: "enode list \<Rightarrow> (enode \<times> enode \<times> enode \<times> enode list) option" where
  "pick_branches ts =
     (case pick_term ts of
        None \<Rightarrow> None
      | Some (x, ts1) \<Rightarrow>
          (case pick ts1 of
             None \<Rightarrow> None
           | Some (c, ts2) \<Rightarrow>
               if \<not> has_op TH8_OP_TERNARY_C c then None
               else map_option (\<lambda>(y, ts3). (x, c, y, ts3)) (pick_term ts2)))"

lemma pick_branches_Some:
  "pick_branches ts = Some (x, c, y, us) \<longleftrightarrow>
   (\<exists>ts1 ts2. pick_term ts = Some (x, ts1) \<and> pick ts1 = Some (c, ts2) \<and> has_op TH8_OP_TERNARY_C c \<and>
      pick_term ts2 = Some (y, us))"
  by (auto simp: pick_branches_def split: option.splits if_splits)

lemma pick_branches_length: "Some (x, c, y, us) = pick_branches ts \<Longrightarrow> length us = length ts"
  by (metis pick_branches_Some pick_length pick_term_length)

function expr_ternary :: "enode list \<Rightarrow> enode list \<Rightarrow> int \<times> enode list" where
  "expr_ternary ls [] = (TH8_OK, rev ls)"
| "expr_ternary ls (t # ts) =
     (if \<not> wants_op TH8_OP_TERNARY_Q t then expr_ternary (t # ls) ts
      else
        (case (pick_term ls, pick_branches ts) of
           (Some (l, ls'), Some (x, c, y, ts')) \<Rightarrow>
             expr_ternary (bind_kids t l (bind_kids c x y) # ls') ts'
         | _ \<Rightarrow> (TH8_ERROR, rev ls @ t # ts)))"
  by pat_completeness auto
termination expr_ternary
  by (relation "measure (\<lambda>(_, ts). length ts)") (auto dest: pick_branches_length)

text \<open>Phase 5, from the right: \<open>ls\<close> holds the slots still to scan, nearest first.\<close>

function expr_assign :: "enode list \<Rightarrow> enode list \<Rightarrow> int \<times> enode list" where
  "expr_assign [] ts = (TH8_OK, ts)"
| "expr_assign (t # ls) ts =
     (if \<not> wants_op TH8_OP_VAR_ASSIGN t then expr_assign ls (t # ts)
      else
        (case (pick_term ls, pick_term ts) of
           (Some (l, ls'), Some (r, ts')) \<Rightarrow> expr_assign ls' (bind_kids t l r # ts')
         | _ \<Rightarrow> (TH8_ERROR, rev ls @ t # ts)))"
  by pat_completeness auto
termination expr_assign
  by (relation "measure (\<lambda>(ls, _). length ls)") (auto dest: pick_term_length)

text \<open>The first slot in use moves to the front.\<close>

definition expr_compact :: "enode list \<Rightarrow> enode list" where
  "expr_compact ts = (case pick ts of None \<Rightarrow> ts | Some (t, us) \<Rightarrow> t # tl us)"

definition expr_phases :: "enode list \<Rightarrow> int \<times> enode list" where
  "expr_phases =
     then_phase expr_unary
      (then_phase (expr_levels [2..13])
        (then_phase (expr_ternary [])
          (then_phase (\<lambda>ts. expr_assign (rev ts) [])
            (\<lambda>ts. (TH8_OK, expr_compact ts)))))"

text \<open>\<open>n\<close> counts the nesting levels still allowed: \<open>TH8_MX_EXPR_DEPTH + 1 - depth\<close>.\<close>

primrec make_tree ::
  "'i xready \<Rightarrow> nat \<Rightarrow> enode list \<Rightarrow> 'i expr_interp \<Rightarrow> int \<times> enode list \<times> nat list \<times> 'i expr_interp" where
  "make_tree ready 0 = (\<lambda>ts st. (TH8_ERROR, ts, [], set_result ''expression nested too deeply'' st))"
| "make_tree ready (Suc n) = (\<lambda>ts st.
     case expr_poll ready st of
       (rc, st1) \<Rightarrow>
         if rc \<noteq> TH8_OK then (TH8_ERROR, ts, [], st1)
         else if ts = [] then (TH8_ERROR, ts, [], st1)
         else
           (case expr_parens (make_tree ready n) ts st1 of
              (rc, ts1, fr, st2) \<Rightarrow>
                if rc \<noteq> TH8_OK then (TH8_ERROR, ts1, fr, st2)
                else (case expr_phases ts1 of (rc, ts2) \<Rightarrow> (rc, ts2, fr, st2))))"

definition th8ExprMakeTree ::
  "'i xready \<Rightarrow> enode list \<Rightarrow> nat \<Rightarrow> 'i expr_interp \<Rightarrow> int \<times> enode list \<times> nat list \<times> 'i expr_interp" where
  "th8ExprMakeTree ready ts depth = make_tree ready (TH8_MX_EXPR_DEPTH + 1 - depth) ts"

section \<open>The contract of the phases\<close>

text \<open>
  The tokens below a node in the order of the source: a unary operator stands before its operand, any other
  operator between its operands.
\<close>

definition tok :: "enode \<Rightarrow> nat \<times> expr_op option \<times> string" where
  "tok t = (eaddr t, pOp t, zValue t)"

definition is_unary :: "expr_op option \<Rightarrow> bool" where
  "is_unary p = (case p of None \<Rightarrow> False | Some q \<Rightarrow> iPrecedence q = 1)"

fun flat :: "enode \<Rightarrow> (nat \<times> expr_op option \<times> string) list" where
  "flat ENil = []"
| "flat (ENode a p z l r) =
     (if is_unary p then (a, p, z) # flat l @ flat r else flat l @ (a, p, z) # flat r)"

definition flats :: "enode list \<Rightarrow> (nat \<times> expr_op option \<times> string) list" where
  "flats ts = concat (map flat ts)"

lemma flats_simps [simp]:
  "flats [] = []" "flats (t # ts) = flat t @ flats ts" "flats (ts @ us) = flats ts @ flats us"
  by (simp_all add: flats_def)

text \<open>A complete term, and an operator still without operands.\<close>

fun wf_term :: "enode \<Rightarrow> bool" where
  "wf_term ENil = False"
| "wf_term (ENode a None z l r) = (l = ENil \<and> r = ENil)"
| "wf_term (ENode a (Some q) z l r) =
     (q \<in> set th8Operators \<and>
      (if iPrecedence q = 1 then wf_term l \<and> r = ENil
       else if 2 \<le> iPrecedence q \<and> iPrecedence q \<le> 13 \<or> eOp q = TH8_OP_VAR_ASSIGN then wf_term l \<and> wf_term r
       else if eOp q = TH8_OP_TERNARY_Q then
         wf_term l \<and>
         (case r of ENil \<Rightarrow> False
          | ENode _ c _ x y \<Rightarrow>
              (case c of None \<Rightarrow> False | Some c \<Rightarrow> c \<in> set th8Operators \<and> eOp c = TH8_OP_TERNARY_C) \<and>
              wf_term x \<and> wf_term y)
       else False))"

definition bare_op :: "enode \<Rightarrow> bool" where
  "bare_op t = (\<exists>a q z. t = ENode a (Some q) z ENil ENil \<and> q \<in> set th8Operators)"

definition slot_ok :: "enode \<Rightarrow> bool" where
  "slot_ok t = (t = ENil \<or> wf_term t \<or> bare_op t)"

lemma wf_term_pLeft: "wf_term t \<Longrightarrow> TH8_ISTERM t"
  by (cases t rule: wf_term.cases) (auto simp: TH8_ISTERM_def split: if_splits)

lemma term_slot_wf: "slot_ok t \<Longrightarrow> TH8_ISTERM t \<longleftrightarrow> wf_term t"
  by (auto simp: slot_ok_def bare_op_def TH8_ISTERM_def dest: wf_term_pLeft)

lemma wants_bare:
  assumes "slot_ok t" "pOp t = Some q" "pLeft t = ENil"
  shows "\<exists>a z. t = ENode a (Some q) z ENil ENil \<and> q \<in> set th8Operators"
  using assms wf_term_pLeft [of t] by (auto simp: slot_ok_def bare_op_def TH8_ISTERM_def)

text \<open>What the table says about the operators the phases select.\<close>

lemma op_precedence:
  assumes "q \<in> set th8Operators"
  shows "eOp q = TH8_OP_TERNARY_Q \<Longrightarrow> iPrecedence q = 14" "eOp q = TH8_OP_TERNARY_C \<Longrightarrow> iPrecedence q = 14"
    "eOp q = TH8_OP_VAR_ASSIGN \<Longrightarrow> iPrecedence q = 15"
  using assms by (auto simp: th8Operators_def)

lemma pick_flats: "pick ts = Some (u, us) \<Longrightarrow> flats ts = flat u @ flats us"
  by (induction ts arbitrary: us) (auto split: if_splits)

lemma pick_flats_rev: "pick ts = Some (u, us) \<Longrightarrow> flats (rev ts) = flats (rev us) @ flat u"
  by (induction ts arbitrary: us) (auto split: if_splits)

lemma pick_ok:
  assumes "list_all slot_ok ts" "pick ts = Some (u, us)"
  shows "slot_ok u" "list_all slot_ok us" "u \<noteq> ENil"
  using assms by (induction ts arbitrary: us) (auto simp: slot_ok_def split: if_splits)

text \<open>
  Every phase keeps the tokens in their order, keeps each slot complete or untouched, and keeps the array's
  length, whether it succeeds or gives up half-way.
\<close>

definition keeps_slots :: "enode list \<Rightarrow> enode list \<Rightarrow> bool" where
  "keeps_slots ts us \<longleftrightarrow> list_all slot_ok us \<and> flats us = flats ts \<and> length us = length ts"

locale slot_phase =
  fixes phase :: "enode list \<Rightarrow> int \<times> enode list"
  assumes keeps: "list_all slot_ok ts \<Longrightarrow> phase ts = (rc, us) \<Longrightarrow> keeps_slots ts us"

locale two_phases = first: slot_phase f + second: slot_phase g
  for f g :: "enode list \<Rightarrow> int \<times> enode list"
begin

lemma then_keeps: "slot_phase (then_phase f g)"
proof
  fix ts rc us
  assume ok: "list_all slot_ok ts" and run: "then_phase f g ts = (rc, us)"
  obtain rc1 ts1 where f: "f ts = (rc1, ts1)" by fastforce
  have one: "keeps_slots ts ts1" using first.keeps [OF ok f] .
  show "keeps_slots ts us"
  proof (cases "rc1 = TH8_OK")
    case True
    then have g: "g ts1 = (rc, us)" using run f by (simp add: then_phase_def)
    have "keeps_slots ts1 us" using second.keeps [OF _ g] one by (simp add: keeps_slots_def)
    then show ?thesis using one by (simp add: keeps_slots_def)
  next
    case False
    then show ?thesis using run f one by (simp add: then_phase_def)
  qed
qed

end

lemma bind_kids_ok:
  assumes "slot_ok t" "pOp t = Some q" "pLeft t = ENil" "wf_term l"
  shows "iPrecedence q = 1 \<Longrightarrow> slot_ok (bind_kids t l (pRight t)) \<and> flat (bind_kids t l (pRight t)) = flat t @ flat l"
    "2 \<le> iPrecedence q \<and> iPrecedence q \<le> 13 \<or> eOp q = TH8_OP_VAR_ASSIGN \<Longrightarrow> wf_term r \<Longrightarrow>
       slot_ok (bind_kids t l r) \<and> flat (bind_kids t l r) = flat l @ flat t @ flat r"
  using wants_bare [OF assms(1-3)] assms op_precedence (3) [of q]
  by (auto simp: slot_ok_def is_unary_def)

lemma bind_branches_ok:
  assumes "slot_ok t" "wants_op TH8_OP_TERNARY_Q t" "wf_term l"
    and "slot_ok c" "has_op TH8_OP_TERNARY_C c" "wf_term x" "wf_term y"
  shows "slot_ok (bind_kids t l (bind_kids c x y)) \<and>
    flat (bind_kids t l (bind_kids c x y)) = flat l @ flat t @ flat x @ flat c @ flat y"
proof -
  obtain q where q: "pOp t = Some q" "eOp q = TH8_OP_TERNARY_Q" "pLeft t = ENil"
    using assms(2) by (auto simp: wants_op_def has_op_def split: option.splits)
  obtain e where e: "pOp c = Some e" "eOp e = TH8_OP_TERNARY_C"
    using assms(5) by (auto simp: has_op_def split: option.splits)
  have "\<not> wf_term c"
    using e op_precedence (2) [of e] by (cases c rule: wf_term.cases) auto
  then have "\<exists>a z. c = ENode a (Some e) z ENil ENil \<and> e \<in> set th8Operators"
    using assms(4) e by (auto simp: slot_ok_def bare_op_def)
  then show ?thesis
    using wants_bare [OF assms(1) q(1,3)] q e assms op_precedence (1) [of q] op_precedence (2) [of e]
    by (auto simp: slot_ok_def is_unary_def)
qed

interpretation unary: slot_phase expr_unary
proof
  fix ts rc us
  assume "list_all slot_ok ts" "expr_unary ts = (rc, us)"
  then show "keeps_slots ts us"
  proof (induction ts arbitrary: rc us)
    case Nil
    then show ?case by (simp add: keeps_slots_def)
  next
    case (Cons t ts)
    obtain rc1 ts1 where run: "expr_unary ts = (rc1, ts1)" by fastforce
    have ih: "keeps_slots ts ts1" using Cons.IH [OF _ run] Cons.prems by simp
    show ?case
    proof (cases "rc1 = TH8_OK \<and> wants_unary t \<and> ts1 \<noteq> [] \<and> TH8_ISTERM (hd ts1)")
      case True
      then obtain u vs q where "ts1 = u # vs" "pOp t = Some q" "iPrecedence q = 1" "pLeft t = ENil"
        by (cases ts1) (auto simp: wants_unary_def split: option.splits)
      then show ?thesis
        using True ih Cons.prems run bind_kids_ok (1) [of t q u] term_slot_wf [of u]
        by (auto simp: keeps_slots_def slot_ok_def)
    next
      case False
      then have "us = t # ts1" using Cons.prems run by (auto split: if_splits list.splits)
      then show ?thesis using ih Cons.prems by (simp add: keeps_slots_def)
    qed
  qed
qed

lemma pick_term_ok:
  assumes "list_all slot_ok ts" "pick_term ts = Some (u, us)"
  shows "wf_term u" "list_all slot_ok us" "flats ts = flat u @ flats us" "flats (rev ts) = flats (rev us) @ flat u"
    "length us = length ts"
  using assms pick_ok [of ts u us] pick_flats [of ts u us] pick_flats_rev [of ts u us] pick_length [of ts u us]
    term_slot_wf [of u]
  by (auto simp: pick_term_Some)

lemma expr_level_keeps:
  assumes "2 \<le> p" "p \<le> 13" "list_all slot_ok ls" "list_all slot_ok ts" "expr_level p ls ts = (rc, us)"
  shows "keeps_slots (rev ls @ ts) us"
  using assms
proof (induction p ls ts rule: expr_level.induct)
  case (1 p ls)
  then show ?case by (auto simp: keeps_slots_def)
next
  case (2 p ls t ts)
  show ?case
  proof (cases "wants_binary p t")
    case False
    then show ?thesis using 2 by simp
  next
    case wants: True
    show ?thesis
    proof (cases "pick_term ls = None \<or> pick_term ts = None")
      case True
      then show ?thesis using 2 wants by (auto simp: keeps_slots_def split: option.splits)
    next
      case False
      then obtain l ls' r ts' where picks: "pick_term ls = Some (l, ls')" "pick_term ts = Some (r, ts')" by auto
      note L = pick_term_ok [OF 2(5) picks(1)] and R = pick_term_ok [OF _ picks(2)]
      obtain q where q: "pOp t = Some q" "iPrecedence q = p" "pLeft t = ENil"
        using wants by (auto simp: wants_binary_def split: option.splits)
      have new: "slot_ok (bind_kids t l r) \<and> flat (bind_kids t l r) = flat l @ flat t @ flat r"
        using bind_kids_ok (2) [of t q l r] q 2(3,4,6) L(1) R(1) by simp
      have "keeps_slots (rev (bind_kids t l r # ls') @ ts') us"
        using 2(2) [OF _ _ picks(1) _ picks(2)] 2 wants picks new L R by simp
      then show ?thesis using new L R 2(6) by (simp add: keeps_slots_def)
    qed
  qed
qed

lemma expr_levels_keeps: "\<forall>p \<in> set ps. 2 \<le> p \<and> p \<le> 13 \<Longrightarrow> slot_phase (expr_levels ps)"
proof (induction ps)
  case Nil
  show ?case by unfold_locales (auto simp: keeps_slots_def)
next
  case (Cons p ps)
  have "slot_phase (expr_level p [])"
    using Cons.prems expr_level_keeps [of p "[]"] by unfold_locales simp
  then have "slot_phase (then_phase (expr_level p []) (expr_levels ps))"
    using Cons by (intro two_phases.then_keeps two_phases.intro) auto
  then show ?case by (simp add: slot_phase_def)
qed

interpretation levels: slot_phase "expr_levels [2..13]"
  by (rule expr_levels_keeps) simp

lemma expr_ternary_keeps:
  assumes "list_all slot_ok ls" "list_all slot_ok ts" "expr_ternary ls ts = (rc, us)"
  shows "keeps_slots (rev ls @ ts) us"
  using assms
proof (induction ls ts rule: expr_ternary.induct)
  case (1 ls)
  then show ?case by (auto simp: keeps_slots_def)
next
  case (2 ls t ts)
  show ?case
  proof (cases "wants_op TH8_OP_TERNARY_Q t")
    case False
    then show ?thesis using 2 by simp
  next
    case wants: True
    show ?thesis
    proof (cases "pick_term ls = None \<or> pick_branches ts = None")
      case True
      then show ?thesis using 2 wants by (auto simp: keeps_slots_def split: option.splits)
    next
      case False
      then obtain l ls' x c y ts' where picks: "pick_term ls = Some (l, ls')" "pick_branches ts = Some (x, c, y, ts')"
        by auto
      then obtain ts1 ts2 where R: "pick_term ts = Some (x, ts1)" "pick ts1 = Some (c, ts2)"
        "has_op TH8_OP_TERNARY_C c" "pick_term ts2 = Some (y, ts')"
        by (auto simp: pick_branches_Some)
      have ok: "list_all slot_ok ts" using 2 by simp
      note L = pick_term_ok [OF 2(3) picks(1)]
      note X = pick_term_ok [OF ok R(1)]
      note C = pick_ok [OF X(2) R(2)] pick_flats [OF R(2)] pick_length [OF R(2)]
      note Y = pick_term_ok [OF C(2) R(4)]
      let ?t = "bind_kids t l (bind_kids c x y)"
      have new: "slot_ok ?t \<and> flat ?t = flat l @ flat t @ flat x @ flat c @ flat y"
        using bind_branches_ok [of t l c x y] 2(4) wants L(1) C(1) R(3) X(1) Y(1) by simp
      have "keeps_slots (rev (?t # ls') @ ts') us"
        using 2(2) [OF _ _ picks(1) _ picks(2)] 2 wants picks new L Y by simp
      then show ?thesis using new L X C Y by (simp add: keeps_slots_def)
    qed
  qed
qed

interpretation ternary: slot_phase "expr_ternary []"
  using expr_ternary_keeps [of "[]"] by unfold_locales simp

lemma expr_assign_keeps:
  assumes "list_all slot_ok ls" "list_all slot_ok ts" "expr_assign ls ts = (rc, us)"
  shows "keeps_slots (rev ls @ ts) us"
  using assms
proof (induction ls ts rule: expr_assign.induct)
  case (1 ts)
  then show ?case by (auto simp: keeps_slots_def)
next
  case (2 t ls ts)
  show ?case
  proof (cases "wants_op TH8_OP_VAR_ASSIGN t")
    case False
    then show ?thesis using 2 by simp
  next
    case wants: True
    show ?thesis
    proof (cases "pick_term ls = None \<or> pick_term ts = None")
      case True
      then show ?thesis using 2 wants by (auto simp: keeps_slots_def split: option.splits)
    next
      case False
      then obtain l ls' r ts' where picks: "pick_term ls = Some (l, ls')" "pick_term ts = Some (r, ts')" by auto
      note L = pick_term_ok [OF _ picks(1)] and R = pick_term_ok [OF 2(4) picks(2)]
      obtain q where q: "pOp t = Some q" "eOp q = TH8_OP_VAR_ASSIGN" "pLeft t = ENil"
        using wants by (auto simp: wants_op_def has_op_def split: option.splits)
      have new: "slot_ok (bind_kids t l r) \<and> flat (bind_kids t l r) = flat l @ flat t @ flat r"
        using bind_kids_ok (2) [of t q l r] q 2(3) L(1) R(1) by simp
      have "keeps_slots (rev ls' @ bind_kids t l r # ts') us"
        using 2(2) [OF _ _ picks(1) _ picks(2)] 2 wants picks new L R by simp
      then show ?thesis using new L R 2(3) by (simp add: keeps_slots_def)
    qed
  qed
qed

interpretation assign: slot_phase "\<lambda>ts. expr_assign (rev ts) []"
  using expr_assign_keeps [of "rev ts" "[]" for ts] by unfold_locales fastforce

interpretation compact: slot_phase "\<lambda>ts. (TH8_OK, expr_compact ts)"
proof
  fix ts rc us
  assume ok: "list_all slot_ok ts" and run: "(TH8_OK, expr_compact ts) = (rc, us)"
  show "keeps_slots ts us"
  proof (cases "pick ts")
    case None
    then show ?thesis using ok run by (simp add: expr_compact_def keeps_slots_def)
  next
    case (Some tu)
    then obtain t vs where pick: "pick ts = Some (t, vs)" by fastforce
    then have "vs \<noteq> [] \<and> hd vs = ENil" by (cases ts) (auto split: if_splits)
    then obtain ws where "vs = ENil # ws" by (cases vs) auto
    then show ?thesis
      using pick_ok [OF ok pick] pick_flats [OF pick] pick_length [OF pick] pick run
      by (auto simp: expr_compact_def keeps_slots_def)
  qed
qed

interpretation phases: slot_phase expr_phases
  unfolding expr_phases_def
  by (intro two_phases.then_keeps two_phases.intro unary.slot_phase_axioms levels.slot_phase_axioms
      ternary.slot_phase_axioms assign.slot_phase_axioms compact.slot_phase_axioms)

section \<open>The contract of the builder\<close>

text \<open>A token as the parser leaves it: a literal or an operator of the table, without children.\<close>

definition raw_token :: "enode \<Rightarrow> bool" where
  "raw_token t = (t \<noteq> ENil \<and> pLeft t = ENil \<and> pRight t = ENil \<and>
     (case pOp t of None \<Rightarrow> True | Some q \<Rightarrow> q \<in> set th8Operators))"

definition is_paren :: "nat \<times> expr_op option \<times> string \<Rightarrow> bool" where
  "is_paren k = (case fst (snd k) of None \<Rightarrow> False
     | Some q \<Rightarrow> eOp q = TH8_OP_OPEN_BRACKET \<or> eOp q = TH8_OP_CLOSE_BRACKET)"

text \<open>
  The builder keeps every token but the brackets, in order; each node is either still below some slot or
  was freed, never both; and on success the first slot is in use.
\<close>

definition built :: "int \<Rightarrow> enode list \<Rightarrow> enode list \<Rightarrow> nat list \<Rightarrow> bool" where
  "built rc ts us fr \<longleftrightarrow>
     list_all slot_ok us \<and> length us = length ts \<and>
     filter (\<lambda>k. \<not> is_paren k) (flats us) = filter (\<lambda>k. \<not> is_paren k) (flats ts) \<and>
     mset (map fst (flats us)) + mset fr = mset (map fst (flats ts)) \<and>
     (rc = TH8_OK \<and> ts \<noteq> [] \<longrightarrow> flats us \<noteq> [])"

lemma raw_token_slot: "raw_token t \<Longrightarrow> slot_ok t"
  by (cases t) (auto simp: raw_token_def slot_ok_def bare_op_def split: option.splits)

lemma raw_tokens_slots: "list_all raw_token ts \<Longrightarrow> list_all slot_ok ts"
  by (auto simp: list_all_iff raw_token_slot)

lemma flat_raw [simp]: "raw_token t \<Longrightarrow> flat t = [tok t]"
  by (cases t) (auto simp: raw_token_def tok_def)

lemma free_raw [simp]: "raw_token t \<Longrightarrow> th8ExprFree t = [eaddr t]"
  by (cases t) (auto simp: raw_token_def)

lemma flats_raw: "list_all raw_token ts \<Longrightarrow> flats ts = map tok ts"
  by (induction ts) auto

lemma paren_tok: "raw_token t \<Longrightarrow> is_paren (tok t) \<longleftrightarrow> has_op TH8_OP_OPEN_BRACKET t \<or> has_op TH8_OP_CLOSE_BRACKET t"
  by (auto simp: is_paren_def tok_def has_op_def split: option.splits)

lemma close_offset_is: "close_offset n ts = Some k \<Longrightarrow> 0 < n \<Longrightarrow> has_op TH8_OP_CLOSE_BRACKET (ts ! k)"
  by (induction n ts arbitrary: k rule: close_offset.induct) (auto simp: Let_def split: if_splits)

lemma close_offset_split:
  assumes "close_offset 1 ts = Some k" "list_all raw_token ts"
  shows "ts = take k ts @ ts ! k # drop (Suc k) ts" "has_op TH8_OP_CLOSE_BRACKET (ts ! k)" "raw_token (ts ! k)"
    "list_all raw_token (take k ts)" "list_all raw_token (drop (Suc k) ts)"
proof -
  have "k < length ts" by (rule close_offset_less [OF assms(1)])
  then show "ts = take k ts @ ts ! k # drop (Suc k) ts" "raw_token (ts ! k)"
    using assms(2) by (auto simp: id_take_nth_drop list_all_length)
  show "has_op TH8_OP_CLOSE_BRACKET (ts ! k)" using close_offset_is [OF assms(1)] by simp
  show "list_all raw_token (take k ts)" "list_all raw_token (drop (Suc k) ts)"
    using assms(2) by (auto simp: list_all_iff dest: in_set_takeD in_set_dropD)
qed

lemma slot_ok_Nil [simp]: "slot_ok ENil"
  by (simp add: slot_ok_def)

text \<open>The step that replaces a bracketed group by its tree.\<close>

lemma built_group:
  assumes sub: "built TH8_OK mid sub fr" and rest: "built rc rs us fr'"
    and t: "raw_token t" "has_op TH8_OP_OPEN_BRACKET t" and c: "raw_token c" "has_op TH8_OP_CLOSE_BRACKET c"
    and "mid \<noteq> []"
  shows "built rc (t # mid @ c # rs) (hd sub # ENil # tl sub @ ENil # us) (fr @ [eaddr c] @ [eaddr t] @ fr')"
proof -
  obtain u vs where u: "sub = u # vs" using sub assms(7) by (cases sub) (auto simp: built_def)
  have par: "is_paren (tok t)" "is_paren (tok c)" using t c by (simp_all add: paren_tok)
  have fst: "fst (tok t) = eaddr t" "fst (tok c) = eaddr c" by (simp_all add: tok_def)
  have ms: "mset (map fst (flats mid)) = mset (map fst (flats (u # vs))) + mset fr"
    "mset (map fst (flats rs)) = mset (map fst (flats us)) + mset fr'"
    using sub rest u by (simp_all add: built_def)
  have "mset (map fst (flats (u # ENil # vs @ ENil # us))) + mset (fr @ [eaddr c] @ [eaddr t] @ fr') =
      mset (map fst (flats (t # mid @ c # rs)))"
    using ms t(1) c(1) by (simp add: fst)
  then show ?thesis
    using sub rest u par t(1) c(1) assms(7) by (auto simp: built_def)
qed

lemma built_error:
  assumes "built rc mid sub fr" "list_all raw_token rs" "raw_token t"
  shows "built TH8_ERROR (t # mid @ rs) (t # sub @ rs) fr"
proof -
  have "mset (map fst (flats mid)) = mset (map fst (flats sub)) + mset fr"
    using assms by (simp add: built_def)
  then have "mset (map fst (flats (t # sub @ rs))) + mset fr = mset (map fst (flats (t # mid @ rs)))"
    by simp
  then show ?thesis
    using assms raw_token_slot raw_tokens_slots by (auto simp: built_def)
qed

lemma expr_parens_built:
  assumes "\<And>us st rc vs fr st'. list_all raw_token us \<Longrightarrow> build us st = (rc, vs, fr, st') \<Longrightarrow> built rc us vs fr"
    and "list_all raw_token ts" "expr_parens build ts st = (rc, us, fr, st')"
  shows "built rc ts us fr"
  using assms
proof (induction build ts st arbitrary: rc us fr st' rule: expr_parens.induct)
  case (1 build st)
  then show ?case by (simp add: built_def)
next
  case (2 build t ts st)
  have raw: "raw_token t" "list_all raw_token ts" using 2(4) by simp_all
  have keep: "built TH8_ERROR (t # ts) (t # ts) []" using 2(4) raw_token_slot raw_tokens_slots by (simp add: built_def)
  show ?case
  proof (cases "has_op TH8_OP_OPEN_BRACKET t")
    case False
    obtain rc1 ts1 fr1 st1 where run: "expr_parens build ts st = (rc1, ts1, fr1, st1)" using prod_cases4 by blast
    have "built rc1 ts ts1 fr1" using 2(1) [OF False _ raw(2) run] 2(3) by simp
    then show ?thesis using 2(5) False run raw raw_token_slot by (auto simp: built_def)
  next
    case open_t: True
    show ?thesis
    proof (cases "close_offset 1 ts = None \<or> close_offset 1 ts = Some 0")
      case True
      then show ?thesis using 2(5) open_t keep by auto
    next
      case False
      then obtain k where k: "close_offset 1 ts = Some k" "k \<noteq> 0" by auto
      note split = close_offset_split [OF k(1) raw(2)]
      obtain rc1 sub fr1 st1 where run: "build (take k ts) st = (rc1, sub, fr1, st1)" using prod_cases4 by blast
      have less: "k < length ts" by (rule close_offset_less [OF k(1)])
      have sub: "built rc1 (take k ts) sub fr1" using 2(3) [OF split(4) run] .
      show ?thesis
      proof (cases "rc1 = TH8_OK")
        case False
        have "built TH8_ERROR (t # take k ts @ drop k ts) (t # sub @ drop k ts) fr1"
          using raw(2) by (intro built_error [OF sub _ raw(1)]) (auto simp: list_all_iff dest: in_set_dropD)
        moreover have "us = t # sub @ drop k ts" "fr = fr1" "rc = TH8_ERROR" using 2(5) open_t k run False by auto
        ultimately show ?thesis by simp
      next
        case True
        obtain rc2 rest fr2 st2 where rec: "expr_parens build (drop (Suc k) ts) st1 = (rc2, rest, fr2, st2)"
          using prod_cases4 by blast
        have "built rc2 (drop (Suc k) ts) rest fr2"
          using 2(2) [OF _ k(1,2) run [symmetric] refl refl _ 2(3) split(5) rec] open_t True by simp
        then have "built rc2 (t # take k ts @ ts ! k # drop (Suc k) ts)
            (hd sub # ENil # tl sub @ ENil # rest) (fr1 @ [eaddr (ts ! k)] @ [eaddr t] @ fr2)"
          using sub True raw(1) open_t split k less by (intro built_group) auto
        then show ?thesis using 2(5) open_t k run True rec split(1,3) raw(1) by auto
      qed
    qed
  qed
qed

lemma keeps_built:
  assumes "built TH8_OK ts us fr" "keeps_slots us vs"
  shows "built rc ts vs fr"
  using assms by (simp add: built_def keeps_slots_def)

lemma make_tree_built:
  assumes "list_all raw_token ts" "make_tree ready n ts st = (rc, us, fr, st')"
  shows "built rc ts us fr"
  using assms
proof (induction n arbitrary: ts st rc us fr st')
  case 0
  then show ?case using raw_tokens_slots by (auto simp: built_def)
next
  case (Suc n)
  have keep: "built TH8_ERROR ts ts []" using Suc.prems raw_tokens_slots by (simp add: built_def)
  obtain rc0 st0 where ready: "expr_poll ready st = (rc0, st0)" by fastforce
  obtain rc1 ts1 fr1 st1 where run: "expr_parens (make_tree ready n) ts st0 = (rc1, ts1, fr1, st1)"
    using prod_cases4 by blast
  have parens: "built rc1 ts ts1 fr1" 
    by (rule expr_parens_built [OF _ Suc.prems(1) run]) (rule Suc.IH)
  obtain rc2 ts2 where ph: "expr_phases ts1 = (rc2, ts2)" by fastforce
  have kept: "keeps_slots ts1 ts2" using phases.keeps [OF _ ph] parens by (simp add: built_def)
  consider "rc0 \<noteq> TH8_OK \<or> ts = []" | "rc0 = TH8_OK" "ts \<noteq> []" "rc1 \<noteq> TH8_OK" | "rc0 = TH8_OK" "ts \<noteq> []" "rc1 = TH8_OK"
    by blast
  then show ?case
  proof cases
    case 1
    then show ?thesis using Suc.prems keep ready by (auto split: if_splits)
  next
    case 2
    then show ?thesis using Suc.prems ready run parens by (auto simp: built_def)
  next
    case 3
    then show ?thesis using Suc.prems ready run ph parens keeps_built [OF _ kept] by auto
  qed
qed

lemma pick_None: "pick ts = None \<Longrightarrow> flats ts = []"
  by (induction ts) (auto split: if_splits)

lemma compact_root: "flats ts \<noteq> [] \<Longrightarrow> expr_compact ts \<noteq> [] \<and> hd (expr_compact ts) \<noteq> ENil"
proof -
  assume "flats ts \<noteq> []"
  then obtain t us where pick: "pick ts = Some (t, us)" using pick_None by (cases "pick ts") auto
  then have "t \<noteq> ENil" by (induction ts arbitrary: us) (auto split: if_splits)
  then show ?thesis using pick by (simp add: expr_compact_def)
qed

text \<open>The last phase cannot fail, and the other four can only return \<open>TH8_OK\<close> or \<open>TH8_ERROR\<close>.\<close>

lemma then_phase_OK: "then_phase f g ts = (TH8_OK, us) \<longleftrightarrow> (\<exists>vs. f ts = (TH8_OK, vs) \<and> g vs = (TH8_OK, us))"
  by (auto simp: then_phase_def split: prod.splits if_splits)

lemma phases_root:
  assumes "list_all slot_ok ts" "flats ts \<noteq> []" "expr_phases ts = (TH8_OK, us)"
  shows "us \<noteq> [] \<and> hd us \<noteq> ENil"
proof -
  obtain ts1 ts2 ts3 ts4 where run: "expr_unary ts = (TH8_OK, ts1)" "expr_levels [2..13] ts1 = (TH8_OK, ts2)"
    "expr_ternary [] ts2 = (TH8_OK, ts3)" "expr_assign (rev ts3) [] = (TH8_OK, ts4)" "us = expr_compact ts4"
    using assms(3) by (auto simp: expr_phases_def then_phase_OK)
  note k = unary.keeps [OF assms(1) run(1)]
  note k2 = levels.keeps [OF _ run(2)] and k3 = ternary.keeps [OF _ run(3)] and k4 = assign.keeps [OF _ run(4)]
  have "flats ts4 \<noteq> []" using assms(2) k k2 k3 k4 by (auto simp: keeps_slots_def)
  then show ?thesis using compact_root run(5) by simp
qed

lemma make_tree_root:
  assumes "list_all raw_token ts" "make_tree ready n ts st = (TH8_OK, us, fr, st')"
  shows "us \<noteq> [] \<and> hd us \<noteq> ENil"
proof -
  obtain m where m: "n = Suc m" using assms(2) by (cases n) auto
  obtain st1 ts1 st2 where run: "ts \<noteq> []" "expr_parens (make_tree ready m) ts st1 = (TH8_OK, ts1, fr, st2)"
    "expr_phases ts1 = (TH8_OK, us)"
    using assms(2) unfolding m by (auto split: prod.splits if_splits)
  have "built TH8_OK ts ts1 fr" 
    by (rule expr_parens_built [OF _ assms(1) run(2)]) (rule make_tree_built)
  then show ?thesis using phases_root [OF _ _ run(3)] run(1) by (auto simp: built_def)
qed

text \<open>The rotations visit every node once, so a freed tree gives back exactly its own nodes.\<close>

lemma free_nodes: "mset (th8ExprFree t) = mset (map fst (flat t))"
  by (induction t rule: th8ExprFree.induct) auto

section \<open>Operators left without operands\<close>

text \<open>
  A phase that succeeds leaves no operator it selects without operands, and no phase makes a bound operator
  bare again: the only bare operators at the end are brackets and stray colons.
\<close>

definition bare_from :: "enode list \<Rightarrow> (enode \<Rightarrow> bool) \<Rightarrow> enode list \<Rightarrow> bool" where
  "bare_from ts sel us \<longleftrightarrow> (\<forall>t \<in> set us. bare_op t \<longrightarrow> t \<in> set ts \<and> \<not> sel t)"

lemma bare_from_trans: "bare_from ts P us \<Longrightarrow> bare_from us Q vs \<Longrightarrow> bare_from ts (\<lambda>t. P t \<or> Q t) vs"
  by (auto simp: bare_from_def)

lemma bind_not_bare: "l \<noteq> ENil \<Longrightarrow> \<not> bare_op (bind_kids t l r)"
  by (cases t) (auto simp: bare_op_def)

lemma pick_sub: "pick ts = Some (u, us) \<Longrightarrow> set us \<subseteq> insert ENil (set ts)"
  by (induction ts arbitrary: us) (auto split: if_splits)

lemma Nil_not_bare [simp]: "\<not> bare_op ENil"
  by (simp add: bare_op_def)

lemma pick_term_sub: "pick_term ts = Some (u, us) \<Longrightarrow> u \<noteq> ENil \<and> set us \<subseteq> insert ENil (set ts)"
  by (auto simp: pick_term_Some TH8_ISTERM_def dest: pick_sub)

lemma pick_branches_sub: "pick_branches ts = Some (x, c, y, us) \<Longrightarrow> set us \<subseteq> insert ENil (set ts)"
  unfolding pick_branches_Some using pick_sub pick_term_sub by blast

lemma unary_bare: "expr_unary ts = (TH8_OK, us) \<Longrightarrow> bare_from ts wants_unary us"
proof (induction ts arbitrary: us)
  case Nil
  then show ?case by (simp add: bare_from_def)
next
  case (Cons t ts)
  obtain ts1 where run: "expr_unary ts = (TH8_OK, ts1)" using Cons.prems by (auto split: prod.splits if_splits)
  have ih: "bare_from ts wants_unary ts1" by (rule Cons.IH [OF run])
  show ?case
  proof (cases "wants_unary t")
    case True
    then obtain u vs where "ts1 = u # vs" "TH8_ISTERM u" "us = bind_kids t u (pRight t) # ENil # vs"
      using Cons.prems run by (auto split: list.splits if_splits)
    then show ?thesis using ih bind_not_bare [of u t] by (auto simp: bare_from_def TH8_ISTERM_def)
  next
    case False
    then show ?thesis using Cons.prems run ih by (auto simp: bare_from_def)
  qed
qed

lemma level_bare:
  assumes "expr_level p ls ts = (TH8_OK, us)" "\<forall>t \<in> set ls. bare_op t \<longrightarrow> \<not> wants_binary p t"
  shows "bare_from (rev ls @ ts) (wants_binary p) us"
  using assms
proof (induction p ls ts arbitrary: us rule: expr_level.induct)
  case (1 p ls)
  then show ?case by (auto simp: bare_from_def)
next
  case (2 p ls t ts)
  show ?case
  proof (cases "wants_binary p t")
    case False
    then show ?thesis using 2(1) [OF False, of us] 2(3,4) by (auto simp: bare_from_def)
  next
    case True
    then obtain l ls' r ts' where picks: "pick_term ls = Some (l, ls')" "pick_term ts = Some (r, ts')"
      "expr_level p (bind_kids t l r # ls') ts' = (TH8_OK, us)"
      using 2(3) by (auto split: option.splits)
    note sub = pick_term_sub [OF picks(1)] pick_term_sub [OF picks(2)]
    have "\<forall>u \<in> set (bind_kids t l r # ls'). bare_op u \<longrightarrow> \<not> wants_binary p u"
      using sub 2(4) bind_not_bare [of l t r] by auto
    then have "bare_from (rev (bind_kids t l r # ls') @ ts') (wants_binary p) us"
      using 2(2) [OF _ refl picks(1) refl picks(2) refl picks(3)] True by simp
    then show ?thesis using sub bind_not_bare [of l t r] by (fastforce simp: bare_from_def)
  qed
qed

lemma levels_bare:
  "expr_levels ps ts = (TH8_OK, us) \<Longrightarrow> bare_from ts (\<lambda>t. \<exists>p \<in> set ps. wants_binary p t) us"
proof (induction ps arbitrary: ts)
  case Nil
  then show ?case by (simp add: bare_from_def)
next
  case (Cons p ps)
  then obtain vs where "expr_level p [] ts = (TH8_OK, vs)" "expr_levels ps vs = (TH8_OK, us)"
    by (auto simp: then_phase_OK)
  then show ?case using level_bare [of p "[]" ts vs] Cons.IH [of vs] by (auto simp: bare_from_def)
qed

lemma ternary_bare:
  assumes "expr_ternary ls ts = (TH8_OK, us)" "\<forall>t \<in> set ls. bare_op t \<longrightarrow> \<not> wants_op TH8_OP_TERNARY_Q t"
  shows "bare_from (rev ls @ ts) (wants_op TH8_OP_TERNARY_Q) us"
  using assms
proof (induction ls ts arbitrary: us rule: expr_ternary.induct)
  case (1 ls)
  then show ?case by (auto simp: bare_from_def)
next
  case (2 ls t ts)
  show ?case
  proof (cases "wants_op TH8_OP_TERNARY_Q t")
    case False
    then show ?thesis using 2(1) [OF False, of us] 2(3,4) by (auto simp: bare_from_def)
  next
    case True
    then obtain l ls' x c y ts' where picks: "pick_term ls = Some (l, ls')" "pick_branches ts = Some (x, c, y, ts')"
      "expr_ternary (bind_kids t l (bind_kids c x y) # ls') ts' = (TH8_OK, us)"
      using 2(3) by (auto split: option.splits)
    let ?t = "bind_kids t l (bind_kids c x y)"
    note sub = pick_term_sub [OF picks(1)] pick_branches_sub [OF picks(2)]
    have "\<forall>u \<in> set (?t # ls'). bare_op u \<longrightarrow> \<not> wants_op TH8_OP_TERNARY_Q u"
      using sub 2(4) bind_not_bare [of l t "bind_kids c x y"] by auto
    then have "bare_from (rev (?t # ls') @ ts') (wants_op TH8_OP_TERNARY_Q) us"
      using 2(2) [OF _ refl picks(1) refl picks(2) refl refl refl picks(3)] True by simp
    then show ?thesis using sub bind_not_bare [of l t "bind_kids c x y"] by (fastforce simp: bare_from_def)
  qed
qed

lemma assign_bare:
  assumes "expr_assign ls ts = (TH8_OK, us)" "\<forall>t \<in> set ts. bare_op t \<longrightarrow> \<not> wants_op TH8_OP_VAR_ASSIGN t"
  shows "bare_from (rev ls @ ts) (wants_op TH8_OP_VAR_ASSIGN) us"
  using assms
proof (induction ls ts arbitrary: us rule: expr_assign.induct)
  case (1 ts)
  then show ?case by (auto simp: bare_from_def)
next
  case (2 t ls ts)
  show ?case
  proof (cases "wants_op TH8_OP_VAR_ASSIGN t")
    case False
    then show ?thesis using 2(1) [OF False, of us] 2(3,4) by (auto simp: bare_from_def)
  next
    case True
    then obtain l ls' r ts' where picks: "pick_term ls = Some (l, ls')" "pick_term ts = Some (r, ts')"
      "expr_assign ls' (bind_kids t l r # ts') = (TH8_OK, us)"
      using 2(3) by (auto split: option.splits)
    note sub = pick_term_sub [OF picks(1)] pick_term_sub [OF picks(2)]
    have "\<forall>u \<in> set (bind_kids t l r # ts'). bare_op u \<longrightarrow> \<not> wants_op TH8_OP_VAR_ASSIGN u"
      using sub 2(4) bind_not_bare [of l t r] by auto
    then have "bare_from (rev ls' @ bind_kids t l r # ts') (wants_op TH8_OP_VAR_ASSIGN) us"
      using 2(2) [OF _ refl picks(1) refl picks(2) refl picks(3)] True by simp
    then show ?thesis using sub bind_not_bare [of l t r] by (fastforce simp: bare_from_def)
  qed
qed

lemma compact_sub: "set (expr_compact ts) \<subseteq> insert ENil (set ts)"
proof (cases "pick ts")
  case None
  then show ?thesis by (auto simp: expr_compact_def)
next
  case (Some tu)
  then obtain t us where pick: "pick ts = Some (t, us)" by fastforce
  then have "t \<in> set ts" by (induction ts arbitrary: us) (auto split: if_splits)
  then show ?thesis using pick pick_sub [OF pick] by (cases us) (auto simp: expr_compact_def)
qed

lemma bare_leftover:
  assumes "bare_op t" "\<not> wants_unary t" "\<forall>p \<in> {2..13}. \<not> wants_binary p t"
    "\<not> wants_op TH8_OP_TERNARY_Q t" "\<not> wants_op TH8_OP_VAR_ASSIGN t"
  shows "has_op TH8_OP_OPEN_BRACKET t \<or> has_op TH8_OP_CLOSE_BRACKET t \<or> has_op TH8_OP_TERNARY_C t"
proof -
  obtain a q z where t: "t = ENode a (Some q) z ENil ENil" "q \<in> set th8Operators"
    using assms(1) by (auto simp: bare_op_def)
  have "iPrecedence q \<noteq> 1" "iPrecedence q \<notin> {2..13}" "eOp q \<noteq> TH8_OP_TERNARY_Q" "eOp q \<noteq> TH8_OP_VAR_ASSIGN"
    using assms t by (auto simp: wants_unary_def wants_binary_def wants_op_def has_op_def)
  then show ?thesis using t by (auto simp: has_op_def th8Operators_def)
qed

lemma phases_leftover:
  assumes "expr_phases ts = (TH8_OK, us)" "t \<in> set us" "bare_op t"
  shows "has_op TH8_OP_OPEN_BRACKET t \<or> has_op TH8_OP_CLOSE_BRACKET t \<or> has_op TH8_OP_TERNARY_C t"
proof -
  obtain ts1 ts2 ts3 ts4 where run: "expr_unary ts = (TH8_OK, ts1)" "expr_levels [2..13] ts1 = (TH8_OK, ts2)"
    "expr_ternary [] ts2 = (TH8_OK, ts3)" "expr_assign (rev ts3) [] = (TH8_OK, ts4)" "us = expr_compact ts4"
    using assms(1) by (auto simp: expr_phases_def then_phase_OK simp del: expr_levels.simps)
  have t4: "t \<in> set ts4" using assms(2,3) compact_sub [of ts4] run(5) by auto
  have t3: "t \<in> set ts3" "\<not> wants_op TH8_OP_VAR_ASSIGN t"
    using assign_bare [OF run(4)] t4 assms(3) by (auto simp: bare_from_def)
  have t2: "t \<in> set ts2" "\<not> wants_op TH8_OP_TERNARY_Q t"
    using ternary_bare [OF run(3)] t3 assms(3) by (auto simp: bare_from_def)
  have t1: "t \<in> set ts1" "\<forall>p \<in> {2..13}. \<not> wants_binary p t"
    using levels_bare [OF run(2), unfolded set_upto bare_from_def] t2 assms(3) by blast+
  have "\<not> wants_unary t" using unary_bare [OF run(1)] t1 assms(3) by (auto simp: bare_from_def)
  then show ?thesis using bare_leftover [OF assms(3)] t1 t2 t3 by blast
qed

lemma make_tree_leftover:
  assumes "make_tree ready n ts st = (TH8_OK, us, fr, st')" "t \<in> set us" "bare_op t"
  shows "has_op TH8_OP_OPEN_BRACKET t \<or> has_op TH8_OP_CLOSE_BRACKET t \<or> has_op TH8_OP_TERNARY_C t"
  using assms phases_leftover by (cases n) (auto split: prod.splits if_splits)

section \<open>Precedence\<close>

text \<open>
  The grouping that the scans of the builder produce, for operands, unary operators and the binary levels: a node's
  left operand binds at least as tightly as the node and its right operand more tightly. A tree with
  this shape is determined by its tokens.
\<close>

definition top_prec :: "enode \<Rightarrow> int" where
  "top_prec t = (case pOp t of None \<Rightarrow> 0 | Some q \<Rightarrow> iPrecedence q)"

fun grouped :: "enode \<Rightarrow> bool" where
  "grouped ENil = False"
| "grouped (ENode a None z l r) = (l = ENil \<and> r = ENil)"
| "grouped (ENode a (Some q) z l r) =
     (if iPrecedence q = 1 then grouped l \<and> top_prec l \<le> 1 \<and> r = ENil
      else 2 \<le> iPrecedence q \<and> iPrecedence q \<le> 13 \<and>
        grouped l \<and> top_prec l \<le> iPrecedence q \<and> grouped r \<and> top_prec r < iPrecedence q)"

definition tok_prec :: "nat \<times> expr_op option \<times> string \<Rightarrow> int" where
  "tok_prec k = (case fst (snd k) of None \<Rightarrow> 0 | Some q \<Rightarrow> iPrecedence q)"

lemma tok_prec_simps [simp]: "tok_prec (a, None, z) = 0" "tok_prec (a, Some q, z) = iPrecedence q"
  by (simp_all add: tok_prec_def)

lemma top_prec_simps [simp]: "top_prec (ENode a None z l r) = 0" "top_prec (ENode a (Some q) z l r) = iPrecedence q"
  by (simp_all add: top_prec_def)

lemma is_unary_simps [simp]: "is_unary None = False" "is_unary (Some q) = (iPrecedence q = 1)"
  by (simp_all add: is_unary_def)

text \<open>No token below a grouped node has a larger precedence number than the node.\<close>

lemma grouped_bound: "grouped t \<Longrightarrow> k \<in> set (flat t) \<Longrightarrow> tok_prec k \<le> top_prec t"
proof (induction t rule: grouped.induct)
  case (3 a q z l r)
  then show ?case by (cases "iPrecedence q = 1") fastforce+
qed auto

lemma grouped_top: "grouped t \<Longrightarrow> 0 \<le> top_prec t"
  by (cases t rule: grouped.cases) (auto split: if_splits)

text \<open>
  The grouping that the comments of \<open>th8_expr.c\<close>, \<open>docs/public/th8.1\<close> and the language standard describe differs on
  one level: \<open>**\<close>, of precedence 2, groups from the right.
\<close>

fun documented :: "enode \<Rightarrow> bool" where
  "documented ENil = False"
| "documented (ENode a None z l r) = (l = ENil \<and> r = ENil)"
| "documented (ENode a (Some q) z l r) =
     (if iPrecedence q = 1 then documented l \<and> top_prec l \<le> 1 \<and> r = ENil
      else if iPrecedence q = 2 then documented l \<and> top_prec l < 2 \<and> documented r \<and> top_prec r \<le> 2
      else 2 < iPrecedence q \<and> iPrecedence q \<le> 13 \<and>
        documented l \<and> top_prec l \<le> iPrecedence q \<and> documented r \<and> top_prec r < iPrecedence q)"

text \<open>Two \<open>**\<close> with no looser operator between them; \<open>seen\<close> says that the first has been met.\<close>

fun power_chain :: "bool \<Rightarrow> (nat \<times> expr_op option \<times> string) list \<Rightarrow> bool" where
  "power_chain seen [] = False"
| "power_chain seen (k # ks) =
     (if tok_prec k = 2 then seen \<or> power_chain True ks else power_chain (seen \<and> tok_prec k < 2) ks)"

lemma power_chain_tight: "\<forall>k \<in> set ks. tok_prec k < 2 \<Longrightarrow> \<not> power_chain seen ks"
  by (induction ks arbitrary: seen) auto

lemma power_chain_loose:
  "2 < tok_prec k \<Longrightarrow> power_chain seen (xs @ k # ys) \<longleftrightarrow> power_chain seen xs \<or> power_chain False ys"
  by (induction xs arbitrary: seen) auto

lemma power_chain_power:
  assumes "tok_prec k = 2" "\<forall>m \<in> set ys. tok_prec m < 2"
  shows "\<forall>m \<in> set xs. tok_prec m \<le> 2 \<Longrightarrow>
    power_chain seen (xs @ k # ys) \<longleftrightarrow> seen \<or> (\<exists>m \<in> set xs. tok_prec m = 2)"
proof (induction xs arbitrary: seen)
  case Nil
  then show ?case using assms power_chain_tight by simp
qed (use assms in auto)

lemma documented_iff: "grouped t \<Longrightarrow> documented t \<longleftrightarrow> \<not> power_chain False (flat t)"
proof (induction t rule: grouped.induct)
  case (3 a q z l r)
  have l: "grouped l" "\<forall>k \<in> set (flat l). tok_prec k \<le> top_prec l"
    using "3.prems" grouped_bound by (auto split: if_splits)
  have r: "grouped r" "\<forall>k \<in> set (flat r). tok_prec k \<le> top_prec r" if "iPrecedence q \<noteq> 1"
    using "3.prems" that grouped_bound by (auto split: if_splits)
  have top: "\<exists>k \<in> set (flat l). tok_prec k = top_prec l" using l(1) by (cases l rule: grouped.cases) auto
  consider "iPrecedence q = 1" | "iPrecedence q = 2" | "2 < iPrecedence q" using "3.prems" by (force split: if_splits)
  then show ?case
  proof cases
    case 1
    then have "\<forall>k \<in> set (flat l). tok_prec k < 2" using l(2) "3.prems" by fastforce
    then show ?thesis using 1 "3.prems" "3.IH" power_chain_tight by auto
  next
    case 2
    then have tight: "\<forall>k \<in> set (flat r). tok_prec k < 2" "\<forall>k \<in> set (flat l). tok_prec k \<le> 2"
      using l(2) r(2) "3.prems" by fastforce+
    have "power_chain False (flat (ENode a (Some q) z l r)) \<longleftrightarrow> (\<exists>m \<in> set (flat l). tok_prec m = 2)"
      using power_chain_power [of "(a, Some q, z)" "flat r" "flat l" False] tight 2 by simp
    also have "\<dots> \<longleftrightarrow> top_prec l = 2" using l(2) top 2 "3.prems" by fastforce
    finally show ?thesis
      using 2 "3.prems" "3.IH" tight power_chain_tight [of "flat r" False] power_chain_tight [of "flat l" False] l(2)
      by fastforce
  next
    case 3
    then show ?thesis
      using "3.prems" "3.IH" power_chain_loose [of "(a, Some q, z)" False "flat l" "flat r"] by auto
  qed
qed auto

lemma split_at_max:
  assumes "xs @ x # ys = xs' @ x' # ys'"
    and "\<forall>k \<in> set xs. f k \<le> f x" "\<forall>k \<in> set ys. f k < f x"
    and "\<forall>k \<in> set xs'. f k \<le> f x'" "\<forall>k \<in> set ys'. f k < (f x' :: int)"
  shows "xs = xs' \<and> x = x' \<and> ys = ys'"
  using assms by (fastforce simp: append_eq_append_conv2 append_eq_Cons_conv Cons_eq_append_conv)

lemma grouped_unique:
  assumes "grouped t" "grouped t'" "flat t = flat t'"
  shows "t = t'"
  using assms
proof (induction t arbitrary: t' rule: grouped.induct)
  case 1
  then show ?case by simp
next
  case (2 a z l r)
  then show ?case
    by (cases t' rule: grouped.cases) (auto simp: append_eq_Cons_conv Cons_eq_append_conv dest: grouped_bound split: if_splits)
next
  case (3 a q z l r)
  let ?x = "(a, Some q, z)"
  have x: "?x \<in> set (flat t')" using "3.prems"(3) [symmetric] by simp
  have max: "tok_prec k \<le> iPrecedence q" if "k \<in> set (flat t')" for k
    using grouped_bound [OF "3.prems"(1)] that "3.prems"(3) by simp
  show ?case
  proof (cases t' rule: grouped.cases)
    case 1
    then show ?thesis using "3.prems"(2) by simp
  next
    case (2 a' z' l' r')
    then show ?thesis using "3.prems"(2) x by simp
  next
    case (3 a' q' z' l' r')
    let ?x' = "(a', Some q', z')"
    have top: "iPrecedence q = iPrecedence q'"
      using grouped_bound [OF \<open>grouped t'\<close> x] max [of ?x'] 3 by simp
    show ?thesis
    proof (cases "iPrecedence q = 1")
      case True
      then show ?thesis using "3.IH"(1) "3.prems" 3 top by auto
    next
      case False
      have "flat l @ ?x # flat r = flat l' @ ?x' # flat r'" using "3.prems"(3) 3 False top by simp
      moreover have "\<forall>k \<in> set (flat l). tok_prec k \<le> tok_prec ?x" "\<forall>k \<in> set (flat r). tok_prec k < tok_prec ?x"
        "\<forall>k \<in> set (flat l'). tok_prec k \<le> tok_prec ?x'" "\<forall>k \<in> set (flat r'). tok_prec k < tok_prec ?x'"
        using "3.prems"(1,2) 3 False top by (fastforce dest: grouped_bound)+
      ultimately have "flat l = flat l' \<and> ?x = ?x' \<and> flat r = flat r'" by (rule split_at_max)
      then show ?thesis using "3.IH"(2,3) "3.prems" 3 False top by auto
    qed
  qed
qed

text \<open>
  One binary level on the slots in use, without the holes: operands and operators alternate, and a
  selected operator joins its neighbours. This is the reference the in-place scan is compared with.
\<close>

definition used :: "enode list \<Rightarrow> enode list" where
  "used ts = filter (\<lambda>t. t \<noteq> ENil) ts"

definition binop :: "enode \<Rightarrow> bool" where
  "binop t = (bare_op t \<and> 2 \<le> top_prec t \<and> top_prec t \<le> 13)"

fun alternating :: "bool \<Rightarrow> enode list \<Rightarrow> bool" where
  "alternating True [] = False"
| "alternating True (t # ts) = (wf_term t \<and> alternating False ts)"
| "alternating False [] = True"
| "alternating False (t # ts) = (binop t \<and> alternating True ts)"

fun reduce :: "int \<Rightarrow> enode list \<Rightarrow> enode list" where
  "reduce p (t # b # u # ts) =
     (if top_prec b = p then reduce p (bind_kids b t u # ts) else t # b # reduce p (u # ts))"
| "reduce p ts = ts"

lemma used_simps [simp]:
  "used [] = []" "used (t # ts) = (if t = ENil then used ts else t # used ts)" "used (ts @ us) = used ts @ used us"
  "used (rev ts) = rev (used ts)"
  by (simp_all add: used_def rev_filter)

lemma pick_used: "used ts = u # us \<Longrightarrow> \<exists>vs. pick ts = Some (u, vs) \<and> used vs = us"
  by (induction ts) (auto split: if_splits)

lemma binop_not_term: "binop t \<Longrightarrow> \<not> TH8_ISTERM t"
  by (auto simp: binop_def bare_op_def TH8_ISTERM_def)

lemma not_term_not_Nil: "wf_term t \<Longrightarrow> t \<noteq> ENil" "binop t \<Longrightarrow> t \<noteq> ENil"
  by (auto simp: binop_def bare_op_def)

lemma wants_binop: "binop t \<Longrightarrow> wants_binary p t \<longleftrightarrow> top_prec t = p"
  by (auto simp: binop_def bare_op_def wants_binary_def)

lemma term_not_wants: "wf_term t \<Longrightarrow> \<not> wants_binary p t"
  by (auto simp: wants_binary_def TH8_ISTERM_def dest!: wf_term_pLeft split: option.splits)

lemma wf_bind_binop: "binop b \<Longrightarrow> wf_term l \<Longrightarrow> wf_term r \<Longrightarrow> wf_term (bind_kids b l r)"
  by (auto simp: binop_def bare_op_def)

text \<open>Has the scan just passed an operand?\<close>

definition at_term :: "enode list \<Rightarrow> bool" where
  "at_term ls = (case used ls of [] \<Rightarrow> False | l # _ \<Rightarrow> wf_term l)"

lemma at_term_simps [simp]:
  "at_term (ENil # ls) = at_term ls" "t \<noteq> ENil \<Longrightarrow> at_term (t # ls) = wf_term t"
  by (simp_all add: at_term_def)

definition reduced :: "int \<Rightarrow> enode list \<Rightarrow> enode list \<Rightarrow> enode list" where
  "reduced p ls ts =
     (if at_term ls then rev (tl (used ls)) @ reduce p (hd (used ls) # used ts) else rev (used ls) @ reduce p (used ts))"

lemma expr_level_reduces:
  assumes "alternating (\<not> at_term ls) (used ts)"
  shows "\<exists>us. expr_level p ls ts = (TH8_OK, us) \<and> used us = reduced p ls ts"
  using assms
proof (induction p ls ts rule: expr_level.induct)
  case (1 p ls)
  then have "at_term ls" by (cases "at_term ls") auto
  then show ?case by (auto simp: reduced_def at_term_def split: list.splits)
next
  case (2 p ls t ts)
  consider "t = ENil" | "t \<noteq> ENil" "at_term ls" | "t \<noteq> ENil" "\<not> at_term ls" by blast
  then show ?case
  proof cases
    case 1
    then have "\<not> wants_binary p t" by (simp add: wants_binary_def)
    moreover have "reduced p (t # ls) ts = reduced p ls (t # ts)" using 1 by (simp add: reduced_def)
    ultimately show ?thesis using 2 1 by simp
  next
    case 3
    then have t: "wf_term t" "alternating False (used ts)" using 2(3) by auto
    have "reduced p (t # ls) ts = reduced p ls (t # ts)" using 3 t by (simp add: reduced_def)
    then show ?thesis using 2(1) 3 t term_not_wants by simp
  next
    case at: 2
    then obtain l ls0 where l: "used ls = l # ls0" "wf_term l" by (auto simp: at_term_def split: list.splits)
    have t: "binop t" "alternating True (used ts)" using 2(3) at by auto
    then obtain u us0 where u: "used ts = u # us0" "wf_term u" "alternating False us0"
      by (cases "used ts") auto
    have nwf: "\<not> wf_term t" using t(1) binop_not_term wf_term_pLeft by blast
    show ?thesis
    proof (cases "top_prec t = p")
      case False
      have "reduced p (t # ls) ts = reduced p ls (t # ts)"
        using False at l u nwf by (simp add: reduced_def)
      then show ?thesis using 2(1) False at t nwf wants_binop by simp
    next
      case True
      obtain ls' ts' where pick: "pick ls = Some (l, ls')" "used ls' = ls0" "pick ts = Some (u, ts')" "used ts' = us0"
        using pick_used [OF l(1)] pick_used [OF u(1)] by auto
      have picks: "pick_term ls = Some (l, ls')" "pick_term ts = Some (u, ts')"
        using pick l u wf_term_pLeft by (simp_all add: pick_term_Some)
      have new: "wf_term (bind_kids t l u)" by (rule wf_bind_binop [OF t(1) l(2) u(2)])
      then have "reduced p (bind_kids t l u # ls') ts' = reduced p ls (t # ts)"
        using True at l u pick not_term_not_Nil [of "bind_kids t l u"] by (simp add: reduced_def)
      moreover have "\<exists>us. expr_level p (bind_kids t l u # ls') ts' = (TH8_OK, us) \<and> used us = reduced p (bind_kids t l u # ls') ts'"
        using 2(2) [OF _ _ picks(1) _ picks(2)] picks True t wants_binop new u pick not_term_not_Nil [of "bind_kids t l u"]
        by simp
      ultimately show ?thesis using picks True t wants_binop by simp
    qed
  qed
qed

text \<open>
  Before level \<open>p\<close> every operand is grouped below \<open>p\<close> and every operator left is at \<open>p\<close> or above; the level
  lifts both bounds by one. Only the operand on the left of the scan may already be at \<open>p\<close>.
\<close>

definition operand_below :: "int \<Rightarrow> enode \<Rightarrow> bool" where
  "operand_below p t = (wf_term t \<longrightarrow> grouped t \<and> top_prec t < p)"

definition operator_from :: "int \<Rightarrow> enode \<Rightarrow> bool" where
  "operator_from p t = (binop t \<longrightarrow> p \<le> top_prec t)"

lemma bind_binop_grouped:
  assumes "binop b" "grouped l" "top_prec l \<le> top_prec b" "grouped r" "top_prec r < top_prec b"
  shows "grouped (bind_kids b l r)" "top_prec (bind_kids b l r) = top_prec b"
  using assms by (auto simp: binop_def bare_op_def)

lemma reduce_level:
  assumes "alternating True (t # ts)" "grouped t" "top_prec t \<le> p"
    and "list_all (operand_below p) ts" "list_all (operator_from p) ts"
  shows "alternating True (reduce p (t # ts)) \<and> list_all (operand_below (p + 1)) (reduce p (t # ts)) \<and>
    list_all (operator_from (p + 1)) (reduce p (t # ts))"
  using assms
proof (induction p "t # ts" arbitrary: t ts rule: reduce.induct)
  case (1 p t b u ts)
  have b: "binop b" "\<not> wf_term b" using 1(3) binop_not_term wf_term_pLeft by auto
  have u: "wf_term u" "grouped u" "top_prec u < p" "alternating False ts"
    using 1(3,6) by (auto simp: operand_below_def)
  show ?case
  proof (cases "top_prec b = p")
    case True
    have "alternating True (bind_kids b t u # ts)" using wf_bind_binop [OF b(1) _ u(1)] 1(3) u by simp
    then show ?thesis using 1(1) [OF True] bind_binop_grouped [OF b(1)] True 1 u by simp
  next
    case False
    have "p + 1 \<le> top_prec b" using False 1(7) b by (simp add: operator_from_def)
    moreover have "\<not> binop t" using 1(3) binop_not_term wf_term_pLeft by auto
    ultimately show ?thesis
      using 1(2) [OF False] False 1 u b by (auto simp: operand_below_def operator_from_def)
  qed
qed (auto simp: operand_below_def operator_from_def binop_not_term dest: wf_term_pLeft)

text \<open>All the levels together leave one operand.\<close>

lemma expr_levels_reduce:
  assumes "alternating True (used ts)" "list_all (operand_below p) (used ts)" "list_all (operator_from p) (used ts)"
  shows "\<exists>us. expr_levels [p..q] ts = (TH8_OK, us) \<and> alternating True (used us) \<and>
    list_all (operand_below (max p (q + 1))) (used us) \<and> list_all (operator_from (max p (q + 1))) (used us)"
  using assms
proof (induction "nat (q + 1 - p)" arbitrary: p ts)
  case 0
  then show ?case by (simp add: max_def)
next
  case (Suc n)
  then have split: "[p..q] = p # [p + 1..q]" "n = nat (q + 1 - (p + 1))" by (auto simp: upto_rec1)
  have top: "max (p + 1) (q + 1) = max p (q + 1)" using Suc.hyps(2) by simp
  obtain us where us: "expr_level p [] ts = (TH8_OK, us)" "used us = reduce p (used ts)"
    using expr_level_reduces [of "[]" ts p] Suc.prems(1) by (auto simp: at_term_def reduced_def)
  obtain t ts0 where t: "used ts = t # ts0" using Suc.prems(1) by (cases "used ts") auto
  have "alternating True (used us) \<and> list_all (operand_below (p + 1)) (used us) \<and> list_all (operator_from (p + 1)) (used us)"
    using reduce_level [of t ts0 p] Suc.prems t us(2) by (auto simp: operand_below_def)
  then show ?case
    using Suc.hyps(1) [OF split(2), of us] us(1) split(1) top by (auto simp: then_phase_def)
qed

lemma alternating_single:
  assumes "alternating True ts" "list_all (operator_from 14) ts"
  shows "\<exists>t. ts = [t] \<and> wf_term t"
  using assms by (cases ts rule: remdups_adj.cases) (auto simp: operator_from_def binop_def)

text \<open>
  A plain expression: operands, each under any number of unary operators, separated by binary
  operators.
\<close>

fun operand_tokens :: "bool \<Rightarrow> enode list \<Rightarrow> bool" where
  "operand_tokens True [] = False"
| "operand_tokens True (t # ts) =
     (raw_token t \<and> (if pOp t = None then operand_tokens False ts else top_prec t = 1 \<and> operand_tokens True ts))"
| "operand_tokens False [] = True"
| "operand_tokens False (t # ts) = (raw_token t \<and> binop t \<and> operand_tokens True ts)"

lemma plain_raw: "operand_tokens b ts \<Longrightarrow> list_all raw_token ts"
  by (induction b ts rule: operand_tokens.induct) (auto split: if_splits)

lemma raw_cases:
  assumes "raw_token t"
  obtains a z where "t = ENode a None z ENil ENil"
  | a q z where "t = ENode a (Some q) z ENil ENil" "q \<in> set th8Operators"
  using assms by (cases t) (auto simp: raw_token_def split: option.splits)

lemma expr_unary_alternates:
  assumes "operand_tokens b ts"
  shows "\<exists>us. expr_unary ts = (TH8_OK, us) \<and> alternating b (used us) \<and> list_all (operand_below 2) (used us) \<and>
    (b \<longrightarrow> us \<noteq> [] \<and> TH8_ISTERM (hd us))"
  using assms
proof (induction b ts rule: operand_tokens.induct)
  case (2 t ts)
  have raw: "raw_token t" using 2(3) by simp
  show ?case
  proof (cases "pOp t = None")
    case True
    then have "wf_term t" "\<not> wants_unary t" "operand_below 2 t" "t \<noteq> ENil"
      using raw by (auto elim!: raw_cases simp: wants_unary_def operand_below_def)
    then show ?thesis using 2(1) 2(3) True wf_term_pLeft by auto
  next
    case False
    then obtain us where us: "expr_unary ts = (TH8_OK, us)" "alternating True (used us)"
      "list_all (operand_below 2) (used us)" "us \<noteq> []" "TH8_ISTERM (hd us)"
      using 2(2,3) by auto
    then obtain u vs where u: "us = u # vs" "TH8_ISTERM u" "u \<noteq> ENil" by (cases us) (auto simp: TH8_ISTERM_def)
    obtain a q z where t: "t = ENode a (Some q) z ENil ENil" "q \<in> set th8Operators" "iPrecedence q = 1"
      using raw False 2(3) by (auto elim!: raw_cases)
    have "wf_term u" "grouped u" "top_prec u < 2" using us u by (auto simp: operand_below_def)
    then show ?thesis using us u t
      by (auto simp: wants_unary_def operand_below_def list_all_iff TH8_ISTERM_def)
  qed
next
  case (4 t ts)
  then obtain us where us: "expr_unary ts = (TH8_OK, us)" "alternating True (used us)"
    "list_all (operand_below 2) (used us)" by auto
  have "binop t" "\<not> wants_unary t" "\<not> wf_term t" "t \<noteq> ENil"
    using 4(2) binop_not_term wf_term_pLeft not_term_not_Nil
    by (auto simp: wants_unary_def binop_def bare_op_def)
  then show ?case using us by (auto simp: operand_below_def list_all_iff)
qed auto

lemma operators_from_2: "list_all (operator_from 2) ts"
  by (simp add: list_all_iff operator_from_def binop_def)

lemma expr_parens_none: "\<forall>t \<in> set ts. \<not> has_op TH8_OP_OPEN_BRACKET t \<Longrightarrow> expr_parens build ts st = (TH8_OK, ts, [], st)"
  by (induction ts) auto

lemma expr_ternary_none: "\<forall>t \<in> set ts. \<not> wants_op TH8_OP_TERNARY_Q t \<Longrightarrow> expr_ternary ls ts = (TH8_OK, rev ls @ ts)"
  by (induction ts arbitrary: ls) auto

lemma expr_assign_none: "\<forall>t \<in> set ls. \<not> wants_op TH8_OP_VAR_ASSIGN t \<Longrightarrow> expr_assign ls ts = (TH8_OK, rev ls @ ts)"
  by (induction ls arbitrary: ts) auto

lemma plain_no_paren:
  assumes "operand_tokens b ts"
  shows "\<forall>t \<in> set ts. \<not> has_op TH8_OP_OPEN_BRACKET t"
proof -
  have "\<not> has_op TH8_OP_OPEN_BRACKET t" if "raw_token t" "pOp t = None \<or> 1 \<le> top_prec t" for t
    using that by (auto elim!: raw_cases simp: has_op_def th8Operators_def)
  then show ?thesis
    using assms by (induction b ts rule: operand_tokens.induct) (auto simp: binop_def split: if_splits)
qed

lemma compact_single:
  assumes "used us = [t]"
  shows "expr_compact us = t # replicate (length us - 1) ENil"
proof -
  obtain vs where vs: "pick us = Some (t, vs)" "used vs = []" using pick_used [OF assms] by auto
  then have "vs = replicate (length us) ENil"
    using pick_length [OF vs(1)] by (intro replicate_eqI) (auto simp: used_def filter_empty_conv)
  then show ?thesis using vs(1) assms by (cases us) (auto simp: expr_compact_def)
qed

lemma single_tree_unwanted:
  assumes "used us = [t]" "wf_term t" "u \<in> set us"
  shows "\<not> wants_op e u"
proof (cases "u = ENil")
  case True
  then show ?thesis by (simp add: wants_op_def has_op_def)
next
  case False
  then have "u \<in> set (used us)" using assms(3) by (simp add: used_def)
  then show ?thesis
    using assms wf_term_pLeft [of t] by (auto simp: wants_op_def has_op_def TH8_ISTERM_def split: option.splits)
qed

lemma plain_phases:
  assumes "operand_tokens True ts"
  shows "\<exists>t. expr_phases ts = (TH8_OK, t # replicate (length ts - 1) ENil) \<and> flat t = map tok ts \<and> grouped t"
proof -
  obtain us where us: "expr_unary ts = (TH8_OK, us)" "alternating True (used us)" "list_all (operand_below 2) (used us)"
    using expr_unary_alternates [OF assms] by auto
  obtain vs where vs: "expr_levels [2..13] us = (TH8_OK, vs)" "alternating True (used vs)"
    "list_all (operand_below 14) (used vs)" "list_all (operator_from 14) (used vs)"
    using expr_levels_reduce [OF us(2,3) operators_from_2, of 13] by auto
  obtain t where t: "used vs = [t]" "wf_term t" using alternating_single [OF vs(2,4)] by auto
  have later: "expr_ternary [] vs = (TH8_OK, vs)" "expr_assign (rev vs) [] = (TH8_OK, vs)"
    using single_tree_unwanted [OF t] expr_ternary_none [of vs "[]"] expr_assign_none [of "rev vs" "[]"] by simp_all
  have run: "expr_phases ts = (TH8_OK, expr_compact vs)"
    using us(1) vs(1) later
    by (simp add: expr_phases_def then_phase_OK del: expr_levels.simps)
  have kept: "keeps_slots ts (expr_compact vs)"
    using phases.keeps [OF _ run] raw_tokens_slots [OF plain_raw [OF assms]] .
  have len: "length vs = length ts"
    using levels.keeps [OF _ vs(1)] unary.keeps [OF _ us(1)] raw_tokens_slots [OF plain_raw [OF assms]]
    by (simp add: keeps_slots_def)
  have "flats (t # replicate (length ts - 1) ENil) = flat t" by (simp add: flats_def)
  then have "flat t = map tok ts"
    using kept compact_single [OF t(1)] len flats_raw [OF plain_raw [OF assms]] by (simp add: keeps_slots_def)
  then show ?thesis using run compact_single [OF t(1)] len t vs(3) by (simp add: operand_below_def)
qed

section \<open>Properties\<close>

text \<open>
  C27: the tree builder is well typed. Whatever tokens the parser delivers, when \<open>th8ExprMakeTree\<close>
  succeeds its first slot is a node, every slot is empty, a complete term (a literal without children, a
  unary operator with one operand, a binary operator or assignment with two, a \<open>?\<close> whose right child is a
  \<open>:\<close> with two branches) or a bracket or \<open>:\<close> that took no operand, and reading the slots from left to right
  gives back the tokens of the source in their order without the brackets.
\<close>

theorem expr_tree_typed:
  assumes "list_all raw_token ts" "th8ExprMakeTree ready ts depth st = (TH8_OK, us, fr, st')"
  shows "us \<noteq> [] \<and> hd us \<noteq> ENil \<and> length us = length ts \<and> 
    (\<forall>t \<in> set us. t = ENil \<or> wf_term t \<or>
       bare_op t \<and> (has_op TH8_OP_OPEN_BRACKET t \<or> has_op TH8_OP_CLOSE_BRACKET t \<or> has_op TH8_OP_TERNARY_C t)) \<and>
    filter (\<lambda>k. \<not> is_paren k) (flats us) = filter (\<lambda>k. \<not> is_paren k) (map tok ts)"
  using make_tree_root [OF assms [unfolded th8ExprMakeTree_def]]
    make_tree_built [OF assms [unfolded th8ExprMakeTree_def]] flats_raw [OF assms(1)]
    make_tree_leftover [OF assms(2) [unfolded th8ExprMakeTree_def]]
  by (auto simp: built_def list_all_iff slot_ok_def)

text \<open>Tokens for concrete runs: operands, operators by name, numbered from the left.\<close>

definition op_token :: "int \<Rightarrow> expr_op option" where
  "op_token e = List.find (\<lambda>q. eOp q = e) th8Operators"

definition lit :: "nat \<Rightarrow> string \<Rightarrow> enode" where
  "lit a z = ENode a None z ENil ENil"

definition opr :: "nat \<Rightarrow> int \<Rightarrow> enode" where
  "opr a e = ENode a (op_token e) [] ENil ENil"

definition steady :: "'i xready" where
  "steady i = (TH8_OK, [], i)"

definition fresh_expr :: "unit expr_interp" where
  "fresh_expr = \<lparr>xresult = [], xtag = 0, nExprDepth = 0, bOverflowCheck = True, bBigint = False, xrest = ()\<rparr>"

text \<open>The tokens of \<open>2 * (3 + 4)\<close>.\<close>

definition sample_tokens :: "enode list" where
  "sample_tokens = [lit 0 ''2'', opr 1 TH8_OP_MULTIPLY, opr 2 TH8_OP_OPEN_BRACKET, lit 3 ''3'', opr 4 TH8_OP_ADD,
     lit 5 ''4'', opr 6 TH8_OP_CLOSE_BRACKET]"

lemma sample_raw: "list_all raw_token sample_tokens"
  by (simp add: sample_tokens_def lit_def opr_def op_token_def raw_token_def th8Operators_def)

lemma sample_run:
  "th8ExprMakeTree steady sample_tokens 999 fresh_expr =
     (TH8_OK,
      [ENode 1 (op_token TH8_OP_MULTIPLY) [] (lit 0 ''2'')
         (ENode 4 (op_token TH8_OP_ADD) [] (lit 3 ''3'') (lit 5 ''4'')), ENil, ENil, ENil, ENil, ENil, ENil],
      [6, 2], fresh_expr)"
  by code_simp

theorem expr_tree_typed_witness:
  "list_all raw_token sample_tokens \<and>
   (\<exists>us fr. th8ExprMakeTree steady sample_tokens 999 fresh_expr = (TH8_OK, us, fr, fresh_expr) \<and>
      hd us \<noteq> ENil \<and> length us = 7)"
  using expr_tree_typed [OF sample_raw sample_run] sample_raw sample_run by auto

text \<open>
  C25: a plain sequence of operands, unary operators and binary operators is always accepted within the
  nesting limit, and the tree is the one in which every binary level groups from the left: it is the only tree with
  these tokens in which a left operand binds at least as tightly as its operator and a right operand more tightly.
  That is the tree of the operator table and the manual exactly when the sequence does not chain \<open>**\<close>, which they
  say groups from the right; the code scans that level like the others.
\<close>

theorem expr_precedence:
  assumes "operand_tokens True ts" "depth \<le> TH8_MX_EXPR_DEPTH" "expr_poll ready st = (TH8_OK, st')"
  shows "\<exists>t. th8ExprMakeTree ready ts depth st = (TH8_OK, t # replicate (length ts - 1) ENil, [], st') \<and>
    grouped t \<and> flat t = map tok ts \<and> (\<forall>t'. grouped t' \<and> flat t' = map tok ts \<longrightarrow> t' = t) \<and>
    (documented t \<longleftrightarrow> \<not> power_chain False (map tok ts))"
proof -
  have n: "TH8_MX_EXPR_DEPTH + 1 - depth = Suc (TH8_MX_EXPR_DEPTH - depth)" using assms(2) by simp
  have "ts \<noteq> []" using assms(1) by auto
  moreover obtain t where "expr_phases ts = (TH8_OK, t # replicate (length ts - 1) ENil)" "flat t = map tok ts" "grouped t"
    using plain_phases [OF assms(1)] by blast
  ultimately have "th8ExprMakeTree ready ts depth st = (TH8_OK, t # replicate (length ts - 1) ENil, [], st')"
    "grouped t" "flat t = map tok ts"
    using assms(3)
    by (simp_all only: th8ExprMakeTree_def n) (simp add: expr_parens_none [OF plain_no_paren [OF assms(1)]])
  then show ?thesis using grouped_unique documented_iff by metis
qed

text \<open>The tokens of \<open>- 2 ** 3 ** 2 + 1\<close>.\<close>

definition power_tokens :: "enode list" where
  "power_tokens = [opr 0 TH8_OP_UNARY_MINUS, lit 1 ''2'', opr 2 TH8_OP_EXPONENT, lit 3 ''3'', opr 4 TH8_OP_EXPONENT,
     lit 5 ''2'', opr 6 TH8_OP_ADD, lit 7 ''1'']"

lemma power_plain: "operand_tokens True power_tokens"
  by (simp add: power_tokens_def lit_def opr_def op_token_def raw_token_def th8Operators_def binop_def bare_op_def)

lemma expr_poll_steady: "expr_poll steady st = (TH8_OK, st)"
  by (simp add: expr_poll_def steady_def)

theorem expr_precedence_witness:
  "operand_tokens True power_tokens \<and>
   (\<exists>t. th8ExprMakeTree steady power_tokens 1000 fresh_expr = (TH8_OK, t # replicate (length power_tokens - 1) ENil, [], fresh_expr) \<and>
      grouped t \<and> \<not> documented t)"
proof -
  have "power_chain False (map tok power_tokens)"
    by (simp add: power_tokens_def lit_def opr_def op_token_def tok_def th8Operators_def)
  then obtain t where "th8ExprMakeTree steady power_tokens 1000 fresh_expr =
      (TH8_OK, t # replicate (length power_tokens - 1) ENil, [], fresh_expr)" "grouped t" "\<not> documented t"
    using expr_precedence [OF power_plain order_refl expr_poll_steady, of fresh_expr] by blast
  then show ?thesis using power_plain by blast
qed

section \<open>Where the builder and its description part\<close>

text \<open>\<open>2 ** 3 ** 2\<close> is \<open>(2 ** 3) ** 2\<close>: the level of \<open>**\<close> is scanned like all others.\<close>

lemma exponent_groups_left:
  "th8ExprMakeTree steady
     [lit 0 ''2'', opr 1 TH8_OP_EXPONENT, lit 2 ''3'', opr 3 TH8_OP_EXPONENT, lit 4 ''2''] 1000 fresh_expr =
   (TH8_OK, ENode 3 (op_token TH8_OP_EXPONENT) []
      (ENode 1 (op_token TH8_OP_EXPONENT) [] (lit 0 ''2'') (lit 2 ''3'')) (lit 4 ''2'') # replicate 4 ENil, [], fresh_expr)"
  by code_simp

text \<open>\<open>a ? b : c ? d : e\<close> is \<open>(a ? b : c) ? d : e\<close>, and a \<open>?\<close> in the true branch is a syntax error.\<close>

lemma ternary_groups_left:
  "th8ExprMakeTree steady
     [lit 0 ''a'', opr 1 TH8_OP_TERNARY_Q, lit 2 ''b'', opr 3 TH8_OP_TERNARY_C, lit 4 ''c'',
      opr 5 TH8_OP_TERNARY_Q, lit 6 ''d'', opr 7 TH8_OP_TERNARY_C, lit 8 ''e''] 1000 fresh_expr =
   (TH8_OK, ENode 5 (op_token TH8_OP_TERNARY_Q) []
      (ENode 1 (op_token TH8_OP_TERNARY_Q) [] (lit 0 ''a'')
         (ENode 3 (op_token TH8_OP_TERNARY_C) [] (lit 2 ''b'') (lit 4 ''c'')))
      (ENode 7 (op_token TH8_OP_TERNARY_C) [] (lit 6 ''d'') (lit 8 ''e'')) # replicate 8 ENil, [], fresh_expr)"
  "fst (th8ExprMakeTree steady
     [lit 0 ''a'', opr 1 TH8_OP_TERNARY_Q, lit 2 ''b'', opr 3 TH8_OP_TERNARY_Q, lit 4 ''c'',
      opr 5 TH8_OP_TERNARY_C, lit 6 ''d'', opr 7 TH8_OP_TERNARY_C, lit 8 ''e''] 1000 fresh_expr) = TH8_ERROR"
  by code_simp+

text \<open>Slots that no operator consumed are not an error: \<open>1 2\<close> has the tree of \<open>1\<close>, and \<open>)\<close> alone is accepted.\<close>

lemma leftover_tokens_accepted:
  "th8ExprMakeTree steady [lit 0 ''1'', lit 1 ''2''] 1000 fresh_expr = (TH8_OK, [lit 0 ''1'', lit 1 ''2''], [], fresh_expr)"
  "th8ExprMakeTree steady [opr 0 TH8_OP_CLOSE_BRACKET] 1000 fresh_expr =
     (TH8_OK, [opr 0 TH8_OP_CLOSE_BRACKET], [], fresh_expr)"
  by code_simp+

end
