(* ===== verification/Th8_ExprInt.thy ===== *)
theory Th8_ExprInt
  imports Th8_Expr "HOL-Library.Signed_Division"
begin

text \<open>
  The integer operators of \<open>th8ExprEvalNode\<close> (\<open>src/src/th8_expr.c\<close>): the switch over \<open>TH8_OP_*\<close> on two
  \<open>th8_int64_t\<close> operands.

  \<^item> An operand is an \<^typ>\<open>int\<close> between \<open>-2^63\<close> and \<open>2^63 - 1\<close>. C's division and remainder truncate, as
    \<open>sdiv\<close> and \<open>smod\<close> do.
  \<^item> \<open>wrap64\<close> is two's complement wrap-around. Apart from the left shift, which shifts an unsigned number, the code
    reaches an operation that wraps only when \<open>bOverflowCheck\<close> is off; C leaves that undefined, and the documentation of
    \<open>Th8_SetOverflowCheck\<close> promises wrap-around.
  \<^item> The outcome says whether the code stores an integer, reports an overflow (which the bigint build promotes)
    or a division by zero, hands the shift to the bigint code, has no case for the operator, or executes
    the division \<open>INT64_MIN / -1\<close>, which traps.

  The theorem: with overflow checking on, every operator but the shifts and a negative power returns the mathematical
  result when it fits in 64 bits and reports the overflow exactly when it does not. The shifts use the low six bits
  of their count and the left shift drops the bits above 64 without a report, checked or not; a negative power is 0.
\<close>

section \<open>The switch\<close>

abbreviation I64_MAX :: int where "I64_MAX \<equiv> 2 ^ 63 - 1"
abbreviation I64_MIN :: int where "I64_MIN \<equiv> - (2 ^ 63)"

definition in64 :: "int \<Rightarrow> bool" where
  "in64 x = (I64_MIN \<le> x \<and> x \<le> I64_MAX)"

definition wrap64 :: "int \<Rightarrow> int" where
  "wrap64 x = sint (word_of_int x :: 64 word)"

datatype int_out = IVal int | IOverflow | IDivZero | IBig | ITrap | INoCase

text \<open>The guard of a product, in the order of the four sign cases.\<close>

definition mul_overflows :: "bool \<Rightarrow> int \<Rightarrow> int \<Rightarrow> bool" where
  "mul_overflows check iLeft iRight =
     (check \<and> iRight \<noteq> 0 \<and>
      (iLeft > 0 \<and> iRight > 0 \<and> iLeft > I64_MAX sdiv iRight \<or>
       iLeft < 0 \<and> iRight < 0 \<and> iLeft < I64_MAX sdiv iRight \<or>
       iLeft > 0 \<and> iRight < 0 \<and> iRight < I64_MIN sdiv iLeft \<or>
       iLeft < 0 \<and> iRight > 0 \<and> iLeft < I64_MIN sdiv iRight))"

definition square_overflows :: "bool \<Rightarrow> int \<Rightarrow> bool" where
  "square_overflows check base =
     (check \<and> base \<noteq> 0 \<and> base \<noteq> 1 \<and> base \<noteq> -1 \<and>
      (base > 0 \<and> base > I64_MAX sdiv base \<or> base < 0 \<and> base < I64_MAX sdiv base))"

text \<open>Exponentiation by squaring; \<open>None\<close> is the overflow flag.\<close>

function exp_loop :: "bool \<Rightarrow> int \<Rightarrow> int \<Rightarrow> int \<Rightarrow> int option" where
  "exp_loop check base exp result =
     (if exp \<le> 0 then Some result
      else if odd exp \<and> mul_overflows check result base then None
      else
        (let result = (if odd exp then wrap64 (result * base) else result)
         in if exp > 1 \<and> square_overflows check base then None
            else exp_loop check (if exp > 1 then wrap64 (base * base) else base) (exp div 2) result))"
  by pat_completeness auto
termination exp_loop
  by (relation "measure (\<lambda>(_, _, exp, _). nat exp)") auto

declare exp_loop.simps [simp del]

definition floor_div :: "int \<Rightarrow> int \<Rightarrow> int" where
  "floor_div iLeft iRight =
     (let iRes = iLeft sdiv iRight
      in if iLeft XOR iRight < 0 \<and> wrap64 (iRes * iRight) \<noteq> iLeft then wrap64 (iRes - 1) else iRes)"

definition floor_mod :: "int \<Rightarrow> int \<Rightarrow> int" where
  "floor_mod iLeft iRight =
     (if iLeft = I64_MIN \<and> iRight = -1 then 0
      else
        (let iRes = iLeft smod iRight
         in if iRes \<noteq> 0 \<and> iRes XOR iRight < 0 then wrap64 (iRes + iRight) else iRes))"

abbreviation truth :: "bool \<Rightarrow> int" where
  "truth b \<equiv> of_bool b"

definition int_op :: "bool \<Rightarrow> bool \<Rightarrow> int \<Rightarrow> int \<Rightarrow> int \<Rightarrow> int_out" where
  "int_op check big e iLeft iRight =
     (if e = TH8_OP_MULTIPLY then
        (if mul_overflows check iLeft iRight then IOverflow else IVal (wrap64 (iLeft * iRight)))
      else if e = TH8_OP_DIVIDE then
        (if iRight = 0 then IDivZero
         else if check \<and> iLeft = I64_MIN \<and> iRight = -1 then IOverflow
         else if iLeft = I64_MIN \<and> iRight = -1 then ITrap
         else IVal (floor_div iLeft iRight))
      else if e = TH8_OP_MODULUS then
        (if iRight = 0 then IDivZero else IVal (floor_mod iLeft iRight))
      else if e = TH8_OP_ADD then
        (if check \<and> (iRight > 0 \<and> iLeft > I64_MAX - iRight \<or> iRight < 0 \<and> iLeft < I64_MIN - iRight) then IOverflow
         else IVal (wrap64 (iLeft + iRight)))
      else if e = TH8_OP_SUBTRACT then
        (if check \<and> (iRight < 0 \<and> iLeft > I64_MAX + iRight \<or> iRight > 0 \<and> iLeft < I64_MIN + iRight) then IOverflow
         else IVal (wrap64 (iLeft - iRight)))
      else if e = TH8_OP_LEFT_SHIFT then
        (if big \<and> (iRight > 63 \<or> iRight < 0) then IBig
         else IVal (wrap64 (push_bit (nat (iRight AND 0x3f)) (iLeft mod 2 ^ 64))))
      else if e = TH8_OP_RIGHT_SHIFT then IVal (drop_bit (nat (iRight AND 0x3f)) iLeft)
      else if e = TH8_OP_LT then IVal (truth (iLeft < iRight))
      else if e = TH8_OP_GT then IVal (truth (iLeft > iRight))
      else if e = TH8_OP_LE then IVal (truth (iLeft \<le> iRight))
      else if e = TH8_OP_GE then IVal (truth (iLeft \<ge> iRight))
      else if e = TH8_OP_EQ then IVal (truth (iLeft = iRight))
      else if e = TH8_OP_NE then IVal (truth (iLeft \<noteq> iRight))
      else if e = TH8_OP_BITWISE_AND then IVal (iLeft AND iRight)
      else if e = TH8_OP_BITWISE_XOR then IVal (iLeft XOR iRight)
      else if e = TH8_OP_BITWISE_OR then IVal (iLeft OR iRight)
      else if e = TH8_OP_LOGICAL_AND then IVal (truth (iLeft \<noteq> 0) AND truth (iRight \<noteq> 0))
      else if e = TH8_OP_LOGICAL_OR then IVal (truth (iLeft \<noteq> 0) OR truth (iRight \<noteq> 0))
      else if e = TH8_OP_UNARY_MINUS then
        (if check \<and> iLeft = I64_MIN then IOverflow else IVal (wrap64 (- iLeft)))
      else if e = TH8_OP_UNARY_PLUS then IVal iLeft
      else if e = TH8_OP_BITWISE_NOT then IVal (NOT iLeft)
      else if e = TH8_OP_LOGICAL_NOT then IVal (truth (iLeft = 0))
      else if e = TH8_OP_EXPONENT then
        (if iRight < 0 then IVal 0
         else (case exp_loop check iLeft iRight 1 of None \<Rightarrow> IOverflow | Some r \<Rightarrow> IVal r))
      else INoCase)"

section \<open>The reference\<close>

text \<open>A mathematical result that must fit.\<close>

definition fits :: "int \<Rightarrow> int_out" where
  "fits v = (if in64 v then IVal v else IOverflow)"

text \<open>The mathematical result of an operator that has one: not of a shift, nor of a negative power.\<close>

definition int_spec :: "int \<Rightarrow> int \<Rightarrow> int \<Rightarrow> int_out" where
  "int_spec e a b =
     (if e = TH8_OP_MULTIPLY then fits (a * b)
      else if e = TH8_OP_DIVIDE then (if b = 0 then IDivZero else fits (a div b))
      else if e = TH8_OP_MODULUS then (if b = 0 then IDivZero else IVal (a mod b))
      else if e = TH8_OP_ADD then fits (a + b)
      else if e = TH8_OP_SUBTRACT then fits (a - b)
      else if e = TH8_OP_LT then IVal (truth (a < b))
      else if e = TH8_OP_GT then IVal (truth (b < a))
      else if e = TH8_OP_LE then IVal (truth (a \<le> b))
      else if e = TH8_OP_GE then IVal (truth (b \<le> a))
      else if e = TH8_OP_EQ then IVal (truth (a = b))
      else if e = TH8_OP_NE then IVal (truth (a \<noteq> b))
      else if e = TH8_OP_BITWISE_AND then IVal (a AND b)
      else if e = TH8_OP_BITWISE_XOR then IVal (a XOR b)
      else if e = TH8_OP_BITWISE_OR then IVal (a OR b)
      else if e = TH8_OP_LOGICAL_AND then IVal (truth (a \<noteq> 0 \<and> b \<noteq> 0))
      else if e = TH8_OP_LOGICAL_OR then IVal (truth (a \<noteq> 0 \<or> b \<noteq> 0))
      else if e = TH8_OP_UNARY_MINUS then fits (- a)
      else if e = TH8_OP_UNARY_PLUS then IVal a
      else if e = TH8_OP_BITWISE_NOT then IVal (- a - 1)
      else if e = TH8_OP_LOGICAL_NOT then IVal (truth (a = 0))
      else if e = TH8_OP_EXPONENT then fits (a ^ nat b)
      else INoCase)"

lemma wrap64_id [simp]: "in64 x \<Longrightarrow> wrap64 x = x"
  unfolding wrap64_def in64_def by (simp add: signed_of_int signed_take_bit_int_eq_self)

lemma wrap64_range: "in64 (wrap64 x)"
  unfolding wrap64_def in64_def using sint_ge [of "word_of_int x :: 64 word"] sint_lt [of "word_of_int x :: 64 word"]
  by simp

lemma wrap64_mod [simp]: "wrap64 (x mod 2 ^ 64 * 2 ^ k) = wrap64 (x * 2 ^ k)"
proof -
  have "(word_of_int (x mod 2 ^ 64 * 2 ^ k) :: 64 word) = word_of_int (x * 2 ^ k)"
    by (rule word_of_int_eq_iff [THEN iffD2]) (simp add: take_bit_eq_mod mod_mult_left_eq)
  then show ?thesis by (simp add: wrap64_def)
qed

section \<open>Products, quotients and powers\<close>

lemma sdiv_cases:
  "(0::int) \<le> a \<Longrightarrow> 0 < b \<Longrightarrow> a sdiv b = a div b"
  "(0::int) \<le> a \<Longrightarrow> b < 0 \<Longrightarrow> a sdiv b = - (a div - b)"
  "(a::int) < 0 \<Longrightarrow> 0 < b \<Longrightarrow> a sdiv b = - (- a div b)"
  "(a::int) < 0 \<Longrightarrow> b < 0 \<Longrightarrow> a sdiv b = - a div - b"
  by (simp_all add: signed_divide_int_def sgn_if)

text \<open>Each of the four sign cases compares a factor with a quotient; on positive numbers that is exact.\<close>

lemma factor_exceeds: "(0::int) < b \<Longrightarrow> n div b < a \<longleftrightarrow> n < a * b"
proof -
  assume b: "0 < b"
  have "a \<le> n div b" if "a * b \<le> n" using zdiv_mono1 [OF that b] b by simp
  moreover have "a * b \<le> n" if "a \<le> n div b"
  proof -
    have "a * b \<le> n div b * b" using that b by simp
    also have "\<dots> \<le> n" using b by (simp add: minus_mod_eq_div_mult [symmetric])
    finally show ?thesis .
  qed
  ultimately show ?thesis by (meson not_le)
qed

lemma mul_overflows_exact: "mul_overflows True a b \<longleftrightarrow> \<not> in64 (a * b)"
proof -
  consider "a = 0 \<or> b = 0" | "0 < a" "0 < b" | "a < 0" "b < 0" | "0 < a" "b < 0" | "a < 0" "0 < b"
    by linarith
  then show ?thesis
  proof cases
    case 1
    then show ?thesis by (auto simp: mul_overflows_def in64_def)
  next
    case 2
    have "in64 (a * b) \<longleftrightarrow> a * b \<le> I64_MAX" using mult_pos_pos [OF 2] unfolding in64_def by linarith
    then show ?thesis using factor_exceeds [of b I64_MAX a] 2
      by (auto simp: mul_overflows_def sdiv_cases not_le)
  next
    case 3
    then show ?thesis using factor_exceeds [of "- b" I64_MAX "- a"] mult_neg_neg [OF 3]
      by (auto simp: mul_overflows_def in64_def sdiv_cases not_le less_minus_iff)
  next
    case 4
    then show ?thesis using factor_exceeds [of a "- I64_MIN" "- b"] mult_pos_neg [OF 4]
      by (auto simp: mul_overflows_def in64_def sdiv_cases not_le less_minus_iff mult.commute)
  next
    case 5
    then show ?thesis using factor_exceeds [of b "- I64_MIN" "- a"] mult_neg_pos [OF 5]
      by (auto simp: mul_overflows_def in64_def sdiv_cases not_le less_minus_iff)
  qed
qed

lemma square_overflows_exact: "square_overflows True b \<longleftrightarrow> \<not> in64 (b * b)"
proof (cases "b = 0 \<or> b = 1 \<or> b = -1")
  case True
  then show ?thesis by (auto simp: square_overflows_def in64_def)
next
  case False
  then have "square_overflows True b = mul_overflows True b b"
    by (auto simp: square_overflows_def mul_overflows_def)
  then show ?thesis by (simp add: mul_overflows_exact)
qed

text \<open>The quotient and the remainder with C's operators, adjusted, are the ones rounded down.\<close>

lemma smod_zero: "(a::int) smod b = 0 \<longleftrightarrow> b dvd a"
  by (auto simp: smod_int_alt_def sgn_0_0 dvd_eq_mod_eq_0 [symmetric])

lemma sdiv_mult_range: "in64 a \<Longrightarrow> in64 (a sdiv b * b)"
proof -
  assume a: "in64 a"
  have "a sdiv b * b = sgn a * (\<bar>a\<bar> - \<bar>a\<bar> mod \<bar>b\<bar>)"
    by (simp add: minus_smod_eq_sdiv_mult [symmetric] smod_int_alt_def right_diff_distrib sgn_mult_abs)
  moreover have "0 \<le> \<bar>a\<bar> mod \<bar>b\<bar>" "\<bar>a\<bar> mod \<bar>b\<bar> \<le> \<bar>a\<bar>"
    by (cases "b = 0") (simp_all add: zmod_le_nonneg_dividend)
  ultimately show ?thesis using a by (auto simp: in64_def sgn_if)
qed

lemma floor_div_exact:
  assumes "in64 a" "in64 b" "b \<noteq> 0" "\<not> (a = I64_MIN \<and> b = -1)"
  shows "in64 (a div b)" "floor_div a b = a div b"
proof -
  show range: "in64 (a div b)"
  proof (cases "a = I64_MIN")
    case True
    consider "1 \<le> b" | "b \<le> -2" using assms(3,4) True by fastforce
    then show ?thesis
    proof cases
      case 1
      then show ?thesis using True zdiv_mono2_neg [of a 1 b] div_neg_pos_less0 [of a b] by (simp add: in64_def)
    next
      case 2
      have "- a div - b \<le> - a div 2" by (rule zdiv_mono2) (use 2 True in auto)
      moreover have "0 \<le> - a div - b" using 2 True by (simp only: div_int_pos_iff) simp
      ultimately have "0 \<le> a div b \<and> a div b \<le> - a div 2" by (simp only: div_minus_minus)
      then show ?thesis using True by (simp add: in64_def)
    qed
  next
    case False
    then have "- I64_MAX \<le> a \<and> a \<le> I64_MAX" using assms by (auto simp: in64_def)
    then show ?thesis using sdiv_int_range [of a b] by (auto simp: in64_def divide_int_eq_signed_divide_int)
  qed
  have sign: "a XOR b < 0 \<longleftrightarrow> sgn a \<noteq> sgn b" if "\<not> b dvd a"
    using that assms(3) by (auto simp: sgn_if split: if_splits)
  have exact: "wrap64 (a sdiv b * b) \<noteq> a \<longleftrightarrow> \<not> b dvd a"
    using sdiv_mult_range [OF assms(1), of b] smod_zero [of a b] by (simp add: minus_smod_eq_sdiv_mult [symmetric])
  show "floor_div a b = a div b"
    using sign exact assms(3) range
    by (auto simp: floor_div_def Let_def divide_int_eq_signed_divide_int)
qed

lemma mod_range: "in64 b \<Longrightarrow> b \<noteq> 0 \<Longrightarrow> in64 (a mod b)"
proof (cases "0 < b")
  case True
  assume "in64 b"
  then show ?thesis using pos_mod_bound [OF True, of a] pos_mod_sign [OF True, of a]
    unfolding in64_def by linarith
next
  case False
  assume b: "in64 b" "b \<noteq> 0"
  then have "b < 0" using False by simp
  from neg_mod_bound [OF this, of a] neg_mod_sign [OF this, of a] show ?thesis
    using b unfolding in64_def by linarith
qed

lemma floor_mod_exact:
  assumes "in64 a" "in64 b" "b \<noteq> 0"
  shows "floor_mod a b = a mod b"
proof -
  have sign: "a smod b XOR b < 0 \<longleftrightarrow> sgn a \<noteq> sgn b" if "a smod b \<noteq> 0"
  proof -
    have "\<bar>a\<bar> mod \<bar>b\<bar> > 0" using that assms(3) by (simp add: smod_int_alt_def less_le)
    then have "a smod b < 0 \<longleftrightarrow> a < 0" using that by (auto simp: smod_int_alt_def sgn_if split: if_splits)
    then show ?thesis using that assms(3) by (auto simp: sgn_if split: if_splits)
  qed
  have "a mod b = 0" if "a = I64_MIN \<and> b = -1" using that by simp
  then show ?thesis
    using sign smod_zero [of a b] mod_range [OF assms(2,3), of a] by (auto simp: floor_mod_def Let_def modulo_int_eq_signed_modulo_int split: if_splits)
qed

text \<open>A product that does not fit cannot be brought back by a positive factor, nor a square by any factor.\<close>

lemma grows_out:
  assumes "\<not> in64 x" "1 \<le> y"
  shows "\<not> in64 (x * y)"
proof (cases "0 \<le> x")
  case True
  then have "x * 1 \<le> x * y" using assms(2) by (intro mult_left_mono) auto
  then show ?thesis using assms(1) True unfolding in64_def by linarith
next
  case False
  then have "x * y \<le> x * 1" using assms(2) by (intro mult_left_mono_neg) auto
  then show ?thesis using assms(1) False unfolding in64_def by linarith
qed

lemma square_not_limit: "(b::int) * b \<noteq> 2 ^ 63"
proof (cases "\<bar>b\<bar> \<le> 3037000499")
  case True
  then have "\<bar>b\<bar> * \<bar>b\<bar> \<le> 3037000499 * 3037000499" by (intro mult_mono) auto
  then show ?thesis by (simp only: abs_mult_self_eq) simp
next
  case False
  then have "3037000500 * 3037000500 \<le> \<bar>b\<bar> * \<bar>b\<bar>" by (intro mult_mono) auto
  then show ?thesis by (simp only: abs_mult_self_eq) simp
qed

lemma square_out:
  assumes "\<not> in64 (b * b)" "y \<noteq> 0"
  shows "\<not> in64 (b * b * y)"
proof (cases "0 < y")
  case True
  then show ?thesis using grows_out [OF assms(1)] by simp
next
  case False
  have "0 \<le> b * b" by simp
  then have "2 ^ 63 < b * b" using assms(1) square_not_limit [of b] unfolding in64_def by linarith
  then have "\<not> in64 (- (b * b))" by (simp add: in64_def)
  then have "\<not> in64 (- (b * b) * - y)" using False assms(2) by (intro grows_out) auto
  then show ?thesis by simp
qed

lemma power_split: "0 < e \<Longrightarrow> (b::int) ^ nat e = (if odd e then b else 1) * (b * b) ^ nat (e div 2)"
proof -
  assume "0 < e"
  show ?thesis
  proof (cases "odd e")
    case True
    then obtain k where k: "e = 2 * k + 1" by (elim oddE)
    then have "nat e = Suc (2 * nat k)" using \<open>0 < e\<close> by simp
    then show ?thesis using k True by (simp add: power_mult power2_eq_square)
  next
    case False
    then obtain k where k: "e = 2 * k" by (auto elim: evenE)
    then have "nat e = 2 * nat k" using \<open>0 < e\<close> by simp
    then show ?thesis using k False by (simp add: power_mult power2_eq_square)
  qed
qed

lemma exp_loop_exact:
  assumes "in64 base" "in64 result" "0 \<le> e" "result \<noteq> 0 \<or> base = 0"
  shows "exp_loop True base e result = (if in64 (result * base ^ nat e) then Some (result * base ^ nat e) else None)"
  using assms
proof (induction True base e result rule: exp_loop.induct)
  case (1 base e result)
  let ?r = "if odd e then result * base else result"
  let ?v = "result * base ^ nat e"
  show ?case
  proof (cases "0 < e")
    case False
    then show ?thesis using 1 by (subst exp_loop.simps) simp
  next
    case e: True
    have v: "?v = ?r * (base * base) ^ nat (e div 2)" using power_split [OF e] by (simp add: mult_ac)
    show ?thesis
    proof (cases "odd e \<and> \<not> in64 (result * base)")
      case True
      have "base \<noteq> 0" using True by (auto simp: in64_def)
      then have "0 < base * base" by (simp add: less_le)
      then have "1 \<le> (base * base) ^ nat (e div 2)" by (simp add: int_one_le_iff_zero_less)
      then have "\<not> in64 ?v" unfolding v using True grows_out by simp
      then show ?thesis using e True by (subst exp_loop.simps) (simp add: mul_overflows_exact)
    next
      case fits: False
      then have r: "in64 ?r" using 1(3) by auto
      show ?thesis
      proof (cases "1 < e \<and> \<not> in64 (base * base)")
        case True
        then have "base \<noteq> 0" by (auto simp: in64_def)
        then have "?r * (base * base) ^ (nat (e div 2) - 1) \<noteq> 0" using 1(5) by simp
        then have "\<not> in64 (base * base * (?r * (base * base) ^ (nat (e div 2) - 1)))"
          using square_out True by blast
        moreover have "(base * base) ^ nat (e div 2) = base * base * (base * base) ^ (nat (e div 2) - 1)"
          using True by (intro power_eq_if [THEN trans]) auto
        ultimately have "\<not> in64 ?v" unfolding v by (simp add: mult_ac)
        then show ?thesis using e True fits by (subst exp_loop.simps) (auto simp: mul_overflows_exact square_overflows_exact Let_def)
      next
        case small: False
        let ?b = "if 1 < e then wrap64 (base * base) else base"
        have b: "?b ^ nat (e div 2) = (base * base) ^ nat (e div 2)" using small e by (cases "1 < e") auto
        have w: "(if odd e then wrap64 (result * base) else result) = ?r" using fits by auto
        have guards: "\<not> (odd e \<and> mul_overflows True result base)" "\<not> (1 < e \<and> square_overflows True base)"
          using fits small by (auto simp: mul_overflows_exact square_overflows_exact)
        have next_ok: "in64 ?b" "?r \<noteq> 0 \<or> ?b = 0" using small e 1(2,5) by (auto simp: wrap64_range)
        have "exp_loop True ?b (e div 2) ?r =
            (if in64 (?r * ?b ^ nat (e div 2)) then Some (?r * ?b ^ nat (e div 2)) else None)"
          using 1(1) [OF _ guards(1) w [symmetric] guards(2) next_ok(1) r _ next_ok(2)] e by simp
        moreover have "exp_loop True base e result = exp_loop True ?b (e div 2) ?r"
          using e guards by (subst exp_loop.simps) (simp only: w Let_def if_False not_le [symmetric] simp_thms)
        ultimately show ?thesis unfolding v b by (simp only:)
      qed
    qed
  qed
qed

section \<open>The switch against the reference\<close>

lemma mask_63: "(b::int) AND 0x3f = b mod 64"
proof -
  have "b AND 0x3f = take_bit 6 b" by (simp add: take_bit_eq_mask mask_eq_exp_minus_1)
  then show ?thesis by (simp add: take_bit_eq_mod)
qed

text \<open>One equation per guarded branch of the switch.\<close>

lemma switch_branches:
  "(if mul_overflows True a b then IOverflow else IVal (wrap64 (a * b))) = fits (a * b)"
  "drop_bit (nat (b AND 0x3f)) a = a div 2 ^ nat (b mod 64)"
  "truth (a \<noteq> 0) AND truth (b \<noteq> 0) = truth (a \<noteq> 0 \<and> b \<noteq> 0)"
  "truth (a \<noteq> 0) OR truth (b \<noteq> 0) = truth (a \<noteq> 0 \<or> b \<noteq> 0)"
  "NOT a = - a - 1"
  by (auto simp: fits_def mul_overflows_exact mask_63 push_bit_eq_mult drop_bit_eq_div not_int_def)

lemma switch_shift: "wrap64 (push_bit (nat (b AND 0x3f)) (a mod 2 ^ 64)) = wrap64 (a * 2 ^ nat (b mod 64))"
  by (simp only: mask_63 push_bit_eq_mult wrap64_mod)

lemma switch_branches_in64:
  assumes "in64 a" "in64 b"
  shows "(if b = 0 then IDivZero
      else if True \<and> a = I64_MIN \<and> b = -1 then IOverflow
      else if a = I64_MIN \<and> b = -1 then ITrap
      else IVal (floor_div a b)) = (if b = 0 then IDivZero else fits (a div b))"
    "(if b = 0 then IDivZero else IVal (floor_mod a b)) = (if b = 0 then IDivZero else IVal (a mod b))"
    "(if True \<and> (b > 0 \<and> a > I64_MAX - b \<or> b < 0 \<and> a < I64_MIN - b) then IOverflow else IVal (wrap64 (a + b))) = fits (a + b)"
    "(if True \<and> (b < 0 \<and> a > I64_MAX + b \<or> b > 0 \<and> a < I64_MIN + b) then IOverflow else IVal (wrap64 (a - b))) = fits (a - b)"
    "(if True \<and> a = I64_MIN then IOverflow else IVal (wrap64 (- a))) = fits (- a)"
    "(if b < 0 then IVal 0 else (case exp_loop True a b 1 of None \<Rightarrow> IOverflow | Some r \<Rightarrow> IVal r)) =
      (if b < 0 then IVal 0 else fits (a ^ nat b))"
proof -
  show "(if b = 0 then IDivZero
      else if True \<and> a = I64_MIN \<and> b = -1 then IOverflow
      else if a = I64_MIN \<and> b = -1 then ITrap
      else IVal (floor_div a b)) = (if b = 0 then IDivZero else fits (a div b))"
    using floor_div_exact [OF assms] by (cases "a = I64_MIN \<and> b = -1") (auto simp: fits_def in64_def)
  show "(if b = 0 then IDivZero else IVal (floor_mod a b)) = (if b = 0 then IDivZero else IVal (a mod b))"
    using floor_mod_exact [OF assms] by simp
  show "(if True \<and> (b > 0 \<and> a > I64_MAX - b \<or> b < 0 \<and> a < I64_MIN - b) then IOverflow else IVal (wrap64 (a + b))) = fits (a + b)"
    "(if True \<and> (b < 0 \<and> a > I64_MAX + b \<or> b > 0 \<and> a < I64_MIN + b) then IOverflow else IVal (wrap64 (a - b))) = fits (a - b)"
    "(if True \<and> a = I64_MIN then IOverflow else IVal (wrap64 (- a))) = fits (- a)"
    using assms by (auto simp: fits_def in64_def)
  show "(if b < 0 then IVal 0 else (case exp_loop True a b 1 of None \<Rightarrow> IOverflow | Some r \<Rightarrow> IVal r)) =
      (if b < 0 then IVal 0 else fits (a ^ nat b))"
    using exp_loop_exact [of a 1 b] assms by (auto simp: fits_def in64_def)
qed

lemma in64_bits: "in64 x \<longleftrightarrow> (\<forall>n. bit x n \<longleftrightarrow> bit x (min n 63))"
proof -
  have "in64 x \<longleftrightarrow> signed_take_bit 63 x = x" by (auto simp: in64_def signed_take_bit_int_eq_self_iff)
  then show ?thesis by (auto simp: bit_eq_iff bit_signed_take_bit_iff min.commute)
qed

lemma in64_bitwise:
  assumes "in64 a" "in64 b"
  shows "in64 (a AND b)" "in64 (a XOR b)" "in64 (a OR b)" "in64 (- a - 1)" "in64 (a div 2 ^ k)"
proof -
  show "in64 (a AND b)" "in64 (a XOR b)" "in64 (a OR b)"
    using assms unfolding in64_bits bit_and_iff bit_or_iff bit_xor_iff by blast+
  show "in64 (- a - 1)" using assms by (simp add: in64_def)
  have "bit a (k + n) \<longleftrightarrow> bit a (k + min n 63)" for n
  proof -
    have "min (k + n) 63 = min (k + min n 63) 63" by simp
    then show ?thesis using assms(1) unfolding in64_bits by metis
  qed
  then have "in64 (drop_bit k a)" unfolding in64_bits bit_drop_bit_eq comp_def by blast
  then show "in64 (a div 2 ^ k)" by (simp add: drop_bit_eq_div)
qed

lemma in64_truth [simp]: "in64 (truth p)" "in64 0" "in64 1"
  by (auto simp: in64_def)

lemma switch_shifts:
  "int_op True False TH8_OP_LEFT_SHIFT a b = IVal (wrap64 (a * 2 ^ nat (b mod 64)))"
  "int_op True False TH8_OP_RIGHT_SHIFT a b = IVal (a div 2 ^ nat (b mod 64))"
  unfolding int_op_def switch_shift switch_branches(2) by simp_all

lemma switch_exact:
  assumes "in64 a" "in64 b" "e \<noteq> TH8_OP_LEFT_SHIFT" "e \<noteq> TH8_OP_RIGHT_SHIFT" "e = TH8_OP_EXPONENT \<Longrightarrow> 0 \<le> b"
  shows "int_op True False e a b = int_spec e a b"
  unfolding int_op_def int_spec_def switch_branches switch_shift switch_branches_in64 [OF assms(1,2)] using assms(3-5) by auto

text \<open>
  C26: integer arithmetic in expressions is exact, the left shift apart. With overflow checking on, the code that the
  evaluator runs for an operator on two 64-bit operands, other than a shift or a negative power, returns the
  mathematical result (quotient and remainder rounded towards minus infinity, powers by squaring) when it fits in
  64 bits, and otherwise reports an overflow. A shift takes its count modulo 64: a right shift rounds towards minus
  infinity, and a left shift wraps around and reports nothing, so that 1 shifted by 63 is \<open>INT64_MIN\<close>. A negative
  power is 0. No operator traps, and every result fits in 64 bits.
\<close>

theorem expr_int_exact:
  assumes "in64 a" "in64 b"
  shows "(e \<notin> {TH8_OP_LEFT_SHIFT, TH8_OP_RIGHT_SHIFT} \<and> (e = TH8_OP_EXPONENT \<longrightarrow> 0 \<le> b) \<longrightarrow>
        int_op True False e a b = int_spec e a b) \<and>
      int_op True False TH8_OP_LEFT_SHIFT a b = IVal (wrap64 (a * 2 ^ nat (b mod 64))) \<and>
      int_op True False TH8_OP_RIGHT_SHIFT a b = IVal (a div 2 ^ nat (b mod 64)) \<and>
      (b < 0 \<longrightarrow> int_op True False TH8_OP_EXPONENT a b = IVal 0) \<and>
      int_op True False e a b \<noteq> ITrap \<and> (\<forall>v. int_op True False e a b = IVal v \<longrightarrow> in64 v)"
proof -
  have neg: "b < 0 \<Longrightarrow> int_op True False TH8_OP_EXPONENT a b = IVal 0" by (simp add: int_op_def)
  have "int_spec e a b \<noteq> ITrap \<and> (\<forall>v. int_spec e a b = IVal v \<longrightarrow> in64 v)"
    using assms in64_bitwise [OF assms] mod_range [OF assms(2)] by (auto simp: int_spec_def fits_def split: if_splits)
  moreover have "in64 (a div 2 ^ k)" for k using in64_bitwise [OF assms] by simp
  ultimately have "int_op True False e a b \<noteq> ITrap \<and> (\<forall>v. int_op True False e a b = IVal v \<longrightarrow> in64 v)"
    using switch_exact [OF assms, of e] switch_shifts [of a b] neg wrap64_range
    by (cases "e = TH8_OP_LEFT_SHIFT"; cases "e = TH8_OP_RIGHT_SHIFT"; cases "e = TH8_OP_EXPONENT \<and> b < 0") auto
  then show ?thesis using switch_exact [OF assms, of e] switch_shifts [of a b] neg by simp
qed

theorem expr_int_exact_witness:
  "in64 3037000500 \<and> int_op True False TH8_OP_MULTIPLY 3037000500 3037000500 = IOverflow \<and>
   int_op True False TH8_OP_EXPONENT (-2) 63 = IVal I64_MIN \<and> int_op True False TH8_OP_DIVIDE (-7) 2 = IVal (-4) \<and>
   int_op True False TH8_OP_LEFT_SHIFT 2 63 = IVal 0 \<and> int_op True False TH8_OP_EXPONENT 2 (-7) = IVal 0"
proof -
  have r: "in64 3037000500" "in64 (-2)" "in64 63" "in64 (-7)" "in64 2" by (simp_all add: in64_def)
  show ?thesis
    using expr_int_exact [OF r(1) r(1), of TH8_OP_MULTIPLY] expr_int_exact [OF r(2,3), of TH8_OP_EXPONENT]
      expr_int_exact [OF r(4,5), of TH8_OP_DIVIDE] expr_int_exact [OF r(5,3), of 0] expr_int_exact [OF r(5,4), of 0] r(1)
    by (simp add: int_spec_def fits_def in64_def wrap64_def)
qed

text \<open>Without the check the division that C cannot represent is executed.\<close>

lemma unchecked_division_traps: "int_op False False TH8_OP_DIVIDE I64_MIN (-1) = ITrap"
  by (simp add: int_op_def)

end
