(* ===== verification/Th8_ExprEval.thy ===== *)
theory Th8_ExprEval
  imports Th8_ExprInt Th8_Numbers
begin

text \<open>
  The expression evaluator (\<open>src/src/th8_expr.c\<close>: \<open>th8ExprEval\<close>, \<open>th8ExprEvalNode\<close>, \<open>th8ExprEvalOne\<close>,
  \<open>th8ExprFindTopComma\<close>, \<open>Th8_Expr\<close>) on the trees of the builder.

  \<^item> The result of a call is a return code and the interpreter state, whose \<open>xresult\<close> is the interpreter's
    result; \<open>None\<close> as a code is undefined behaviour, a null node dereferenced or a division that traps.
  \<^item> \<open>expr_env\<close> holds what the evaluator calls: \<open>Th8_Ready\<close>, \<open>th8SubstWord\<close>, \<open>Th8_SetVar\<close> and \<open>Th8_SplitList\<close>
    act on the rest of the interpreter, the bigint operations on strings, and C's \<open>double\<close> is a type
    argument with its operations. Integers and booleans are parsed as in \<open>Th8_Numbers\<close>, whose theorems show
    that the conversion cache does not change what they return. That these calls act on the rest of the
    interpreter means that they leave the nesting counter and the two modes as they were: a nested expression
    restores the counter, and only the host switches the modes (\<open>Th8_SetOverflowCheck\<close>, \<open>Th8_EnableBigint\<close>).
  \<^item> After an error the result holds the message prefix.
  \<^item> The result carries the tag bits of its length (\<open>xtag\<close>). The operators mask them when they take an operand, and
    an assignment keeps them; the scan of a literal, the final normalisation and the test for the nesting message
    compare the tagged length, and are modelled so.

  The lemmas: evaluating what the builder returned never touches a null node and keeps the nesting counter
  balanced on every path, the lazy operators leave the operand they do not need alone, and one expression
  frees each of its nodes exactly once.
\<close>

section \<open>The environment\<close>

record ('i, 'd) expr_env =
  xReady :: "'i xready"
  xSubst :: "string \<Rightarrow> 'i \<Rightarrow> int \<times> (string \<times> size_t) \<times> 'i"
  xSetVar :: "string \<Rightarrow> string \<times> size_t \<Rightarrow> 'i \<Rightarrow> int \<times> string \<times> 'i"
  xSplit :: "string \<Rightarrow> 'i \<Rightarrow> string list res \<times> 'i"
  xIsBig :: "string \<Rightarrow> bool"
  xBigUnary :: "int \<Rightarrow> string \<Rightarrow> string res"
  xBigArith :: "int \<Rightarrow> string \<Rightarrow> string \<Rightarrow> string res"
  dParse :: "string \<Rightarrow> 'd res"
  dPrint :: "'d \<Rightarrow> string"
  dMul :: "'d \<Rightarrow> 'd \<Rightarrow> 'd"
  dDiv :: "'d \<Rightarrow> 'd \<Rightarrow> 'd"
  dAdd :: "'d \<Rightarrow> 'd \<Rightarrow> 'd"
  dSub :: "'d \<Rightarrow> 'd \<Rightarrow> 'd"
  dNeg :: "'d \<Rightarrow> 'd"
  dLt :: "'d \<Rightarrow> 'd \<Rightarrow> bool"
  dLe :: "'d \<Rightarrow> 'd \<Rightarrow> bool"
  dEq :: "'d \<Rightarrow> 'd \<Rightarrow> bool"
  dZero :: 'd
  dOne :: 'd
  dInt :: "'d \<Rightarrow> int"

type_synonym 'i xout = "int option \<times> 'i expr_interp"

definition finish :: "string res \<Rightarrow> 'i expr_interp \<Rightarrow> 'i xout" where
  "finish r st = (case r of Inr z \<Rightarrow> (Some TH8_OK, set_result z st) | Inl m \<Rightarrow> (Some TH8_ERROR, set_result m st))"

text \<open>
  \<open>th8TakeResultInternal\<close> after a successful evaluation: the result moves out of the interpreter with its tags, which
  all operators but the assignment then mask.
\<close>

definition then_tagged :: "'i xout \<Rightarrow> (string \<times> size_t \<Rightarrow> 'i expr_interp \<Rightarrow> 'i xout) \<Rightarrow> 'i xout" where
  "then_tagged out k =
     (case out of (rc, st) \<Rightarrow> if rc = Some TH8_OK then k (xresult st, xtag st) (set_result [] st) else (rc, st))"

definition then_value :: "'i xout \<Rightarrow> (string \<Rightarrow> 'i expr_interp \<Rightarrow> 'i xout) \<Rightarrow> 'i xout" where
  "then_value out k = then_tagged out (\<lambda>v. k (fst v))"

section \<open>Operators on values\<close>

definition bool_text :: "bool \<Rightarrow> string" where
  "bool_text b = (if b then ''1'' else ''0'')"

definition to_bool :: "('i, 'd) expr_env \<Rightarrow> string \<Rightarrow> bool res" where
  "to_bool env z =
     (case parse_bool (xIsBig env) (\<lambda>z. case dParse env z of Inl _ \<Rightarrow> None | Inr d \<Rightarrow> Some (\<not> dEq env d (dZero env))) z of
        Inl m \<Rightarrow> Inl m | Inr (v, _) \<Rightarrow> Inr (v \<noteq> 0))"

fun double_pow :: "('i, 'd) expr_env \<Rightarrow> nat \<Rightarrow> 'd \<Rightarrow> 'd \<Rightarrow> 'd" where
  "double_pow env 0 b result = result"
| "double_pow env (Suc n) b result = double_pow env n b (dMul env result b)"

definition double_op :: "('i, 'd) expr_env \<Rightarrow> int \<Rightarrow> 'd \<Rightarrow> 'd \<Rightarrow> string res" where
  "double_op env e fLeft fRight =
     (if e = TH8_OP_MULTIPLY then Inr (dPrint env (dMul env fLeft fRight))
      else if e = TH8_OP_DIVIDE then
        (if dEq env fRight (dZero env) then Inl ''divide by zero'' else Inr (dPrint env (dDiv env fLeft fRight)))
      else if e = TH8_OP_ADD then Inr (dPrint env (dAdd env fLeft fRight))
      else if e = TH8_OP_SUBTRACT then Inr (dPrint env (dSub env fLeft fRight))
      else if e = TH8_OP_LT then Inr (bool_text (dLt env fLeft fRight))
      else if e = TH8_OP_GT then Inr (bool_text (dLt env fRight fLeft))
      else if e = TH8_OP_LE then Inr (bool_text (dLe env fLeft fRight))
      else if e = TH8_OP_GE then Inr (bool_text (dLe env fRight fLeft))
      else if e = TH8_OP_EQ then Inr (bool_text (dEq env fLeft fRight))
      else if e = TH8_OP_NE then Inr (bool_text (\<not> dEq env fLeft fRight))
      else if e = TH8_OP_UNARY_MINUS then Inr (dPrint env (dNeg env fLeft))
      else if e = TH8_OP_UNARY_PLUS then Inr (dPrint env fLeft)
      else if e = TH8_OP_EXPONENT then
        (if dLt env fRight (dZero env) then
           Inr (dPrint env (dDiv env (dOne env)
             (double_pow env (nat (dInt env (dNeg env fRight))) fLeft (dOne env))))
         else Inr (dPrint env (double_pow env (nat (dInt env fRight)) fLeft (dOne env))))
      else Inl (''expected integer, got: '' @ [DQ]))"

text \<open>Operands: an absent right operand is a null pointer, which the conversions of the code skip.\<close>

definition wide_of :: "string option \<Rightarrow> int option" where
  "wide_of z = (case z of None \<Rightarrow> Some 0
     | Some z \<Rightarrow> (case parse_wide z of Inl _ \<Rightarrow> None | Inr (v, _) \<Rightarrow> Some v))"

definition double_of :: "('i, 'd) expr_env \<Rightarrow> string option \<Rightarrow> 'd res" where
  "double_of env z = (case z of None \<Rightarrow> Inr (dZero env) | Some z \<Rightarrow> dParse env z)"

definition is_big :: "('i, 'd) expr_env \<Rightarrow> string option \<Rightarrow> bool" where
  "is_big env z = (case z of None \<Rightarrow> False | Some z \<Rightarrow> xIsBig env z)"

definition text_of :: "string option \<Rightarrow> string" where
  "text_of z = (case z of None \<Rightarrow> [] | Some z \<Rightarrow> z)"

definition unary_code :: "int \<Rightarrow> bool" where
  "unary_code e = (e = TH8_OP_UNARY_MINUS \<or> e = TH8_OP_UNARY_PLUS \<or> e = TH8_OP_BITWISE_NOT \<or> e = TH8_OP_LOGICAL_NOT)"

definition big_op :: "('i, 'd) expr_env \<Rightarrow> int \<Rightarrow> string option \<Rightarrow> string option \<Rightarrow> string res" where
  "big_op env e zLeft zRight =
     (if unary_code e then xBigUnary env e (text_of zLeft) else xBigArith env e (text_of zLeft) (text_of zRight))"

text \<open>The coercion: a bigint operand, two integers, a result already computed on doubles, or an error.\<close>

datatype coerced = CBig | CInts int int | CDone "string res"

definition coerce_number :: "('i, 'd) expr_env \<Rightarrow> bool \<Rightarrow> int \<Rightarrow> string option \<Rightarrow> string option \<Rightarrow> coerced" where
  "coerce_number env big e zLeft zRight =
     (case (wide_of zLeft, wide_of zRight) of
        (Some iLeft, Some iRight) \<Rightarrow> CInts iLeft iRight
      | _ \<Rightarrow>
          if big \<and> (zLeft = None \<or> is_big env zLeft \<or> wide_of zLeft \<noteq> None) \<and>
             (zRight = None \<or> is_big env zRight \<or> wide_of zRight \<noteq> None) then CBig
          else
            (case double_of env zLeft of
               Inl m \<Rightarrow> CDone (Inl m)
             | Inr fLeft \<Rightarrow>
                 (case double_of env zRight of
                    Inl m \<Rightarrow> CDone (Inl m)
                  | Inr fRight \<Rightarrow> CDone (double_op env e fLeft fRight))))"

definition coerce_integer :: "('i, 'd) expr_env \<Rightarrow> bool \<Rightarrow> int \<Rightarrow> string option \<Rightarrow> string option \<Rightarrow> coerced" where
  "coerce_integer env big e zLeft zRight =
     (if big \<and> (is_big env zLeft \<or> is_big env zRight) then CBig
      else
        (let left = (case parse_wide (text_of zLeft) of
               Inr (v, _) \<Rightarrow> Inr v
             | Inl m \<Rightarrow>
                 if e = TH8_OP_LOGICAL_NOT then
                   (case to_bool env (text_of zLeft) of Inl m' \<Rightarrow> Inl m' | Inr b \<Rightarrow> Inr (of_bool b))
                 else Inl m)
         in case left of
              Inl m \<Rightarrow> CDone (Inl m)
            | Inr iLeft \<Rightarrow>
                (case zRight of
                   None \<Rightarrow> CInts iLeft 0
                 | Some z \<Rightarrow> (case parse_wide z of Inl m \<Rightarrow> CDone (Inl m) | Inr (iRight, _) \<Rightarrow> CInts iLeft iRight))))"

definition integer_stage ::
  "('i, 'd) expr_env \<Rightarrow> int \<Rightarrow> string option \<Rightarrow> string option \<Rightarrow> coerced \<Rightarrow> 'i expr_interp \<Rightarrow> 'i xout" where
  "integer_stage env e zLeft zRight c st =
     (case c of
        CDone r \<Rightarrow> finish r st
      | CBig \<Rightarrow> finish (big_op env e zLeft zRight) st
      | CInts iLeft iRight \<Rightarrow>
          if bBigint st \<and> (is_big env zLeft \<or> is_big env zRight) then finish (big_op env e zLeft zRight) st
          else
            (case int_op (bOverflowCheck st) (bBigint st) e iLeft iRight of
               IVal v \<Rightarrow> (Some TH8_OK, set_result (Th8_SetResultWideInt (word_of_int v)) st)
             | IOverflow \<Rightarrow> finish (if bBigint st then big_op env e zLeft zRight else Inl ''integer overflow'') st
             | IDivZero \<Rightarrow> finish (Inl ''divide by zero'') st
             | IBig \<Rightarrow> finish (big_op env e zLeft zRight) st
             | ITrap \<Rightarrow> (None, st)
             | INoCase \<Rightarrow> (Some TH8_ERROR, st)))"

definition string_stage ::
  "('i, 'd) expr_env \<Rightarrow> int \<Rightarrow> string option \<Rightarrow> string option \<Rightarrow> 'i expr_interp \<Rightarrow> 'i xout" where
  "string_stage env e zLeft zRight st =
     (if e = TH8_OP_SEQ \<or> e = TH8_OP_SNE then
        (let iEqual = (text_of zLeft = text_of zRight)
         in finish (Inr (bool_text (if e = TH8_OP_SEQ then iEqual else \<not> iEqual))) st)
      else if e = TH8_OP_IN \<or> e = TH8_OP_NI then
        (case xSplit env (text_of zRight) (xrest st) of
           (r, i) \<Rightarrow>
             finish (map_sum id (\<lambda>els. bool_text (if e = TH8_OP_IN then text_of zLeft \<in> set els
               else text_of zLeft \<notin> set els)) r) (st\<lparr>xrest := i\<rparr>))
      else (Some TH8_ERROR, st))"

definition apply_op :: "('i, 'd) expr_env \<Rightarrow> expr_op \<Rightarrow> string option \<Rightarrow> string option \<Rightarrow> 'i expr_interp \<Rightarrow> 'i xout" where
  "apply_op env q zLeft zRight st =
     (if eArgType q = TH8_ARG_NUMBER then
        integer_stage env (eOp q) zLeft zRight (coerce_number env (bBigint st) (eOp q) zLeft zRight) st
      else if eArgType q = TH8_ARG_INTEGER then
        integer_stage env (eOp q) zLeft zRight (coerce_integer env (bBigint st) (eOp q) zLeft zRight) st
      else if eArgType q = TH8_ARG_STRING then string_stage env (eOp q) zLeft zRight st
      else (Some TH8_OK, st))"

section \<open>The evaluator\<close>

text \<open>\<open>th8ExprEval\<close>: the counter is raised around the node evaluator, never past the limit.\<close>

definition th8ExprEval :: "('i expr_interp \<Rightarrow> 'i xout) \<Rightarrow> 'i expr_interp \<Rightarrow> 'i xout" where
  "th8ExprEval evalNode st =
     (if nExprDepth st \<ge> TH8_MX_EXPR_DEPTH then (Some TH8_ERROR, set_result ''expression nested too deeply'' st)
      else
        (case evalNode (st\<lparr>nExprDepth := nExprDepth st + 1\<rparr>) of
           (rc, st') \<Rightarrow> (rc, st'\<lparr>nExprDepth := nExprDepth st' - 1\<rparr>)))"

text \<open>
  A literal is substituted; an exponent form is printed again through \<open>double\<close>. The scan for an exponent form runs
  over the tagged length. With a tag it goes on to the terminator of the result, which is no digit and ends it, so
  that a tagged exponent form stays as it is.
\<close>

definition scanned :: "string \<Rightarrow> size_t \<Rightarrow> string" where
  "scanned z t = (if t = 0 then z else z @ [NUL])"

definition exponent_form :: "string \<Rightarrow> bool" where
  "exponent_form z =
     ((\<exists>c \<in> set z. c = CHR ''e'' \<or> c = CHR ''E'') \<and>
      (\<forall>c \<in> set z. c = CHR ''e'' \<or> c = CHR ''E'' \<or> c2i (CHR ''0'') \<le> c2i c \<and> c2i c \<le> c2i (CHR ''9'') \<or>
         c = CHR ''.'' \<or> c = CHR ''+'' \<or> c = CHR ''-''))"

definition eval_literal :: "('i, 'd) expr_env \<Rightarrow> string \<Rightarrow> 'i expr_interp \<Rightarrow> 'i xout" where
  "eval_literal env z st =
     (case xSubst env z (xrest st) of
        (rc, (res, t), i) \<Rightarrow>
          (let st = st\<lparr>xrest := i, xresult := res, xtag := t\<rparr>
           in (Some rc,
               if rc = TH8_OK \<and> exponent_form (scanned res t)
               then (case dParse env res of Inl _ \<Rightarrow> st | Inr d \<Rightarrow> set_result (dPrint env d) st) else st)))"

definition assign_value :: "('i, 'd) expr_env \<Rightarrow> string \<Rightarrow> string \<times> size_t \<Rightarrow> 'i expr_interp \<Rightarrow> 'i xout" where
  "assign_value env zVarName zRhs st =
     (case xSetVar env zVarName zRhs (xrest st) of
        (rc, msg, i) \<Rightarrow>
          if rc \<noteq> TH8_OK then (Some rc, (set_result msg st)\<lparr>xrest := i\<rparr>)
          else (Some TH8_OK, st\<lparr>xrest := i, xresult := fst zRhs, xtag := snd zRhs\<rparr>))"

definition logical_value :: "('i, 'd) expr_env \<Rightarrow> string \<Rightarrow> 'i expr_interp \<Rightarrow> 'i xout" where
  "logical_value env z st = finish (map_sum id bool_text (to_bool env z)) st"

text \<open>An operand that is present is evaluated, an absent one is a null string.\<close>

definition then_operand ::
  "enode \<Rightarrow> ('i expr_interp \<Rightarrow> 'i xout) \<Rightarrow> 'i expr_interp \<Rightarrow> (string option \<Rightarrow> 'i expr_interp \<Rightarrow> 'i xout) \<Rightarrow> 'i xout" where
  "then_operand t ev st k = (if t = ENil then k None st else then_value (ev st) (\<lambda>z. k (Some z)))"

fun th8ExprEvalNode :: "('i, 'd) expr_env \<Rightarrow> enode \<Rightarrow> 'i expr_interp \<Rightarrow> 'i xout" where
  "th8ExprEvalNode env ENil st0 =
     (case expr_poll (xReady env) st0 of (rc, st) \<Rightarrow> if rc \<noteq> TH8_OK then (Some TH8_ERROR, st) else (None, st))"
| "th8ExprEvalNode env (ENode a None z l r) st0 =
     (case expr_poll (xReady env) st0 of (rc, st) \<Rightarrow> if rc \<noteq> TH8_OK then (Some TH8_ERROR, st) else eval_literal env z st)"
| "th8ExprEvalNode env (ENode a (Some q) z l r) st0 =
     (case expr_poll (xReady env) st0 of
        (rc, st) \<Rightarrow>
          if rc \<noteq> TH8_OK then (Some TH8_ERROR, st)
          else if eOp q = TH8_OP_TERNARY_Q then
            then_value (th8ExprEval (\<lambda>s. th8ExprEvalNode env l s) st) (\<lambda>zCond st.
              case parse_wide zCond of
                Inl m \<Rightarrow> (Some TH8_ERROR, set_result m st)
              | Inr (iCond, _) \<Rightarrow>
                  (case r of
                     ENode _ (Some c) _ x y \<Rightarrow>
                       if eOp c \<noteq> TH8_OP_TERNARY_C then
                         (Some TH8_ERROR, set_result ''syntax error in ternary expression'' st)
                       else if iCond \<noteq> 0 then th8ExprEval (\<lambda>s. th8ExprEvalNode env x s) st
                       else th8ExprEval (\<lambda>s. th8ExprEvalNode env y s) st
                   | _ \<Rightarrow> (Some TH8_ERROR, set_result ''syntax error in ternary expression'' st)))
          else if eOp q = TH8_OP_VAR_ASSIGN then
            (if l = ENil \<or> r = ENil then (Some TH8_ERROR, set_result ''syntax error in := expression'' st)
             else
               then_value (th8ExprEval (\<lambda>s. th8ExprEvalNode env l s) st) (\<lambda>zVarName st.
               then_tagged (th8ExprEval (\<lambda>s. th8ExprEvalNode env r s) st) (\<lambda>zRhs st.
               assign_value env zVarName zRhs st)))
          else if eOp q = TH8_OP_LOGICAL_AND \<or> eOp q = TH8_OP_LOGICAL_OR then
            then_value (th8ExprEval (\<lambda>s. th8ExprEvalNode env l s) st) (\<lambda>zL st.
              case to_bool env zL of
                Inl m \<Rightarrow> (Some TH8_ERROR, set_result m st)
              | Inr bLeft \<Rightarrow>
                  if eOp q = TH8_OP_LOGICAL_AND \<and> \<not> bLeft then (Some TH8_OK, set_result ''0'' st)
                  else if eOp q \<noteq> TH8_OP_LOGICAL_AND \<and> bLeft then (Some TH8_OK, set_result ''1'' st)
                  else then_value (th8ExprEval (\<lambda>s. th8ExprEvalNode env r s) st) (logical_value env))
          else
            then_operand l (th8ExprEval (\<lambda>s. th8ExprEvalNode env l s)) st (\<lambda>zLeft st.
            then_operand r (th8ExprEval (\<lambda>s. th8ExprEvalNode env r s)) st (\<lambda>zRight st.
            apply_op env q zLeft zRight st)))"

abbreviation expr_eval :: "('i, 'd) expr_env \<Rightarrow> enode \<Rightarrow> 'i expr_interp \<Rightarrow> 'i xout" where
  "expr_eval env t \<equiv> th8ExprEval (th8ExprEvalNode env t)"

section \<open>One expression\<close>

text \<open>The length that is compared with two is the tagged one.\<close>

definition non_decimal :: "string \<Rightarrow> size_t \<Rightarrow> bool" where
  "non_decimal z t =
     (case z of
        d # c # cs \<Rightarrow>
          d = CHR ''0'' \<and>
          (let octal = c2i (CHR ''0'') \<le> c2i c \<and> c2i c \<le> c2i (CHR ''7'')
           in if cs = [] \<and> t = 0 then octal else octal \<or> c \<in> set ''xXoObB'')
      | _ \<Rightarrow> False)"

definition normalise :: "'i xout \<Rightarrow> 'i xout" where
  "normalise out =
     (case out of (rc, st) \<Rightarrow>
        if rc = Some TH8_OK \<and> non_decimal (xresult st) (xtag st) then
          (case parse_wide (xresult st) of
             Inl _ \<Rightarrow> (rc, st) | Inr (w, _) \<Rightarrow> (rc, set_result (Th8_SetResultWideInt (word_of_int w)) st))
        else (rc, st))"

text \<open>
  \<open>parsed\<close> is what \<open>th8ExprParse\<close> left: its return code and the token array. The addresses freed come back
  with the outcome; the array is freed slot by slot on every path.
\<close>

definition th8ExprEvalOne ::
  "('i, 'd) expr_env \<Rightarrow> int option \<times> enode list \<Rightarrow> 'i expr_interp \<Rightarrow> 'i xout \<times> nat list" where
  "th8ExprEvalOne env parsed st =
     (case parsed of (rc, ts) \<Rightarrow>
        if rc \<noteq> Some TH8_OK then ((rc, st), concat (map th8ExprFree ts))
        else if ts = [] then ((Some TH8_ERROR, set_result (''syntax error in expression: '' @ [DQ]) st), [])
        else
          (case th8ExprMakeTree (xReady env) ts 0 st of
             (rc, us, fr, st') \<Rightarrow>
               (if rc \<noteq> TH8_OK then
                  (Some rc, if xresult st' = ''expression nested too deeply'' \<and> xtag st' = 0 then st'
                     else set_result (''syntax error in expression: '' @ [DQ]) st')
                else normalise (expr_eval env (hd us) st'),
                fr @ concat (map th8ExprFree us))))"

section \<open>Top-level commas\<close>

text \<open>The scan keeps three depths (parentheses, brackets, braces) and a quote flag; it returns the comma's offset.\<close>

type_synonym comma_scope = "nat \<times> nat \<times> nat \<times> bool"

fun comma_step :: "comma_scope \<Rightarrow> char \<Rightarrow> comma_scope" where
  "comma_step (paren, bracket, brace, True) c =
     (if c = DQ \<and> bracket = 0 then (paren, bracket, brace, False)
      else if c = CHR ''['' then (paren, bracket + 1, brace, True)
      else if c = CHR '']'' then (paren, bracket - 1, brace, True)
      else (paren, bracket, brace, True))"
| "comma_step (paren, bracket, brace, False) c =
     (if c = DQ then (paren, bracket, brace, True)
      else if c = CHR ''('' then (paren + 1, bracket, brace, False)
      else if c = CHR '')'' then (paren - 1, bracket, brace, False)
      else if c = CHR ''['' then (paren, bracket + 1, brace, False)
      else if c = CHR '']'' then (paren, bracket - 1, brace, False)
      else if c = CHR ''{'' then (paren, bracket, brace + 1, False)
      else if c = CHR ''}'' then (paren, bracket, brace - 1, False)
      else (paren, bracket, brace, False))"

function find_comma :: "comma_scope \<Rightarrow> string \<Rightarrow> nat option" where
  "find_comma s [] = None"
| "find_comma s (c # cs) =
     (if c = BSL \<and> cs \<noteq> [] then map_option (\<lambda>n. n + 2) (find_comma s (tl cs))
      else if c = CHR '','' \<and> s = (0, 0, 0, False) then Some 0
      else map_option Suc (find_comma (comma_step s c) cs))"
  by pat_completeness auto
termination find_comma
  by (relation "measure (\<lambda>(_, cs). length cs)") auto

definition th8ExprFindTopComma :: "string \<Rightarrow> nat option" where
  "th8ExprFindTopComma z = find_comma (0, 0, 0, False) z"

lemma find_comma_at: "find_comma s z = Some n \<Longrightarrow> n < length z \<and> z ! n = CHR '',''"
proof (induction s z arbitrary: n rule: find_comma.induct)
  case (2 s c cs)
  then show ?case by (cases cs) (auto split: if_splits)
qed simp

text \<open>
  \<open>evalOne\<close> is the evaluation of one piece of the text. Each piece but the last is evaluated for its effects, and
  the first failure ends the sequence. \<open>Th8_Expr\<close> resolves \<open>TH8_NOLEN\<close> and refuses a text whose length carries the
  taint bit, which \<open>Th8_ReportTaint\<close> tests again.
\<close>

function comma_sequence :: "(string \<Rightarrow> 's \<Rightarrow> int option \<times> 's) \<Rightarrow> string \<Rightarrow> 's \<Rightarrow> int option \<times> 's" where
  "comma_sequence evalOne z st =
     (case th8ExprFindTopComma z of
        None \<Rightarrow> evalOne z st
      | Some n \<Rightarrow>
          (case evalOne (take n z) st of
             (rc, st') \<Rightarrow> if rc \<noteq> Some TH8_OK then (rc, st') else comma_sequence evalOne (drop (n + 1) z) st'))"
  by pat_completeness auto
termination comma_sequence
  by (relation "measure (\<lambda>(_, z, _). length z)") (auto simp: th8ExprFindTopComma_def dest: find_comma_at)

declare comma_sequence.simps [simp del]

abbreviation TH8_TAINT_BIT :: size_t where "TH8_TAINT_BIT \<equiv> 0x10000000"

definition Th8_ReportTaint :: "size_t \<Rightarrow> 'i expr_interp \<Rightarrow> bool \<times> 'i expr_interp" where
  "Th8_ReportTaint nStr st =
     (if nStr AND TH8_TAINT_BIT \<noteq> 0 then (True, set_result ''tainted value in context:'' st) else (False, st))"

definition Th8_Expr ::
  "bool \<Rightarrow> (string \<Rightarrow> 'i expr_interp \<Rightarrow> 'i xout) \<Rightarrow> string \<Rightarrow> size_t \<Rightarrow> 'i expr_interp \<Rightarrow> 'i xout" where
  "Th8_Expr topComma evalOne zExpr nExpr st =
     (let nExpr = resolve_len zExpr nExpr;
          (refused, st) = (if nExpr AND TH8_TAINT_BIT \<noteq> 0 then Th8_ReportTaint nExpr st else (False, st))
      in if refused then (Some TH8_ERROR, st)
         else if topComma then comma_sequence evalOne (bytes_of zExpr nExpr) st
         else evalOne (bytes_of zExpr nExpr) st)"

section \<open>Safety\<close>

text \<open>
  What the evaluator keeps of the interpreter: the nesting counter and the two modes. An outcome is sound when it
  is defined and keeps them.
\<close>

definition same_modes :: "'i expr_interp \<Rightarrow> 'i expr_interp \<Rightarrow> bool" where
  "same_modes st st' \<longleftrightarrow> nExprDepth st' = nExprDepth st \<and> bOverflowCheck st' = bOverflowCheck st \<and> bBigint st' = bBigint st"

definition sound :: "'i expr_interp \<Rightarrow> 'i xout \<Rightarrow> bool" where
  "sound st out \<longleftrightarrow> fst out \<noteq> None \<and> same_modes st (snd out)"

lemma same_modes_refl [simp]: "same_modes st st"
  by (simp add: same_modes_def)

lemma same_modes_set [simp]:
  "same_modes st (set_result z st') = same_modes st st'" "same_modes (set_result z st) st' = same_modes st st'"
  "same_modes st (st'\<lparr>xrest := i\<rparr>) = same_modes st st'"
  "same_modes st (st'\<lparr>xresult := z\<rparr>) = same_modes st st'" "same_modes st (st'\<lparr>xtag := t\<rparr>) = same_modes st st'"
  by (simp_all add: same_modes_def set_result_def)

lemma same_modes_trans: "same_modes st st' \<Longrightarrow> same_modes st' st'' \<Longrightarrow> same_modes st st''"
  by (simp add: same_modes_def)

lemma sound_trans: "same_modes st st' \<Longrightarrow> sound st' out \<Longrightarrow> sound st out"
  by (auto simp: sound_def intro: same_modes_trans)

lemma sound_pair [simp]: "sound st (Some rc, st') = same_modes st st'"
  by (simp add: sound_def)

lemma sound_finish [simp]: "sound st (finish r st') = same_modes st st'"
  by (simp add: finish_def sum.case_eq_if)

lemma sound_then_tagged:
  assumes "sound st out" "\<And>v st'. same_modes st st' \<Longrightarrow> sound st' (k v st')"
  shows "sound st (then_tagged out k)"
proof -
  obtain rc st' where out: "out = (Some rc, st')" "same_modes st st'"
    using assms(1) by (cases out) (auto simp: sound_def)
  have "sound (set_result [] st') (k (xresult st', xtag st') (set_result [] st'))" using assms(2) out(2) by simp
  then show ?thesis using out by (auto simp: then_tagged_def sound_def intro: same_modes_trans)
qed

lemma sound_then_value:
  "sound st out \<Longrightarrow> (\<And>z st'. same_modes st st' \<Longrightarrow> sound st' (k z st')) \<Longrightarrow> sound st (then_value out k)"
  unfolding then_value_def by (rule sound_then_tagged)

lemma sound_then_operand:
  assumes "t \<noteq> ENil \<Longrightarrow> sound st (ev st)" "\<And>z st'. same_modes st st' \<Longrightarrow> sound st' (k z st')"
  shows "sound st (then_operand t ev st k)"
  using assms by (auto simp: then_operand_def intro: sound_then_value)

lemma sound_eval:
  assumes "\<And>s. bOverflowCheck s = bOverflowCheck st \<Longrightarrow> sound s (ev s)"
  shows "sound st (th8ExprEval ev st)"
proof (cases "nExprDepth st \<ge> TH8_MX_EXPR_DEPTH")
  case False
  have "sound (st\<lparr>nExprDepth := nExprDepth st + 1\<rparr>) (ev (st\<lparr>nExprDepth := nExprDepth st + 1\<rparr>))"
    by (rule assms) simp
  then show ?thesis using False by (auto simp: th8ExprEval_def sound_def same_modes_def split: prod.splits)
qed (simp add: th8ExprEval_def)

lemma if_neqI: "(c \<Longrightarrow> x \<noteq> t) \<Longrightarrow> (\<not> c \<Longrightarrow> y \<noteq> t) \<Longrightarrow> (if c then x else y) \<noteq> t"
  by simp

lemma int_op_defined [simp]: "int_op True big e a b \<noteq> ITrap"
  unfolding int_op_def by (intro if_neqI) (auto split: option.splits)

lemma sound_integer_stage: "bOverflowCheck st \<Longrightarrow> sound st (integer_stage env e zLeft zRight c st)"
  by (auto simp: integer_stage_def split: coerced.splits int_out.splits)

lemma sound_apply: "bOverflowCheck st \<Longrightarrow> sound st (apply_op env q zLeft zRight st)"
  by (auto simp: apply_op_def string_stage_def Let_def sound_integer_stage split: prod.splits)

lemma sound_assign: "sound st (assign_value env zVarName zRhs st)"
  by (simp add: assign_value_def split: prod.splits)

lemma expr_poll_modes: "expr_poll ready st = (rc, st') \<Longrightarrow> same_modes st st'"
  by (auto simp: expr_poll_def same_modes_def set_result_def split: prod.splits if_splits)

lemma wf_term_ops:
  assumes "wf_term (ENode a (Some q) z l r)"
  shows "wf_term l"
    "eOp q = TH8_OP_TERNARY_Q \<Longrightarrow> \<exists>b c w x y. r = ENode b (Some c) w x y \<and> eOp c = TH8_OP_TERNARY_C \<and> wf_term x \<and> wf_term y"
    "eOp q \<noteq> TH8_OP_TERNARY_Q \<Longrightarrow> r \<noteq> ENil \<Longrightarrow> wf_term r"
    "eOp q = TH8_OP_LOGICAL_AND \<or> eOp q = TH8_OP_LOGICAL_OR \<Longrightarrow> wf_term r"
proof -
  have q: "q \<in> set th8Operators" using assms by simp
  then have prec: "eOp q = TH8_OP_TERNARY_Q \<Longrightarrow> iPrecedence q = 14"
    "eOp q = TH8_OP_LOGICAL_AND \<or> eOp q = TH8_OP_LOGICAL_OR \<Longrightarrow> iPrecedence q \<in> {12, 13}"
    by (auto simp: th8Operators_def)
  show "wf_term l" using assms by (auto split: if_splits)
  show "\<exists>b c w x y. r = ENode b (Some c) w x y \<and> eOp c = TH8_OP_TERNARY_C \<and> wf_term x \<and> wf_term y"
    if "eOp q = TH8_OP_TERNARY_Q"
    using assms that prec(1) by (auto split: if_splits enode.splits option.splits)
  show "wf_term r" if "eOp q \<noteq> TH8_OP_TERNARY_Q" "r \<noteq> ENil"
    using assms that by (auto split: if_splits)
  show "wf_term r" if "eOp q = TH8_OP_LOGICAL_AND \<or> eOp q = TH8_OP_LOGICAL_OR"
    using assms that prec(2) by (auto split: if_splits)
qed

lemma eval_node_sound: "wf_term t \<Longrightarrow> bOverflowCheck st \<Longrightarrow> sound st (th8ExprEvalNode env t st)"
proof (induction t arbitrary: st rule: measure_induct_rule [of size])
  case (less t)
  obtain rc st1 where ready: "expr_poll (xReady env) st = (rc, st1)" by fastforce
  have modes: "same_modes st st1" by (rule expr_poll_modes [OF ready])
  then have check: "bOverflowCheck st1" using less.prems by (simp add: same_modes_def)
  have sub: "sound s (expr_eval env u s)" if "size u < size t" "wf_term u" "bOverflowCheck s" for u and s
    using that by (intro sound_eval less.IH) auto
  show ?case
  proof (cases t)
    case ENil
    then show ?thesis using less.prems by simp
  next
    case node: (ENode a p z l r)
    show ?thesis
    proof (cases "rc = TH8_OK")
      case False
      then show ?thesis using node ready modes by (cases p) simp_all
    next
      case ok: True
      have "sound st1 (th8ExprEvalNode env t st)"
      proof (cases p)
        case None
        then show ?thesis using node ok ready by (simp add: eval_literal_def Let_def split: prod.splits sum.splits)
      next
        case (Some q)
        note kids = wf_term_ops [of a q z l r]
        have wf: "wf_term (ENode a (Some q) z l r)" using less.prems(1) unfolding node Some .
        have left: "sound s (expr_eval env l s)" if "same_modes st1 s" for s
          using kids(1) [OF wf] that check node by (intro sub) (auto simp: same_modes_def)
        have right: "sound s (expr_eval env r s)" if "same_modes st1 s" "wf_term r" for s
          using that check node by (intro sub) (auto simp: same_modes_def)
        consider "eOp q = TH8_OP_TERNARY_Q" | "eOp q = TH8_OP_VAR_ASSIGN" | "eOp q = TH8_OP_LOGICAL_AND \<or> eOp q = TH8_OP_LOGICAL_OR"
          | "eOp q \<notin> {TH8_OP_TERNARY_Q, TH8_OP_VAR_ASSIGN, TH8_OP_LOGICAL_AND, TH8_OP_LOGICAL_OR}" by blast
        then show ?thesis
        proof cases
          case 1
          then obtain b c w x y where r: "r = ENode b (Some c) w x y" "eOp c = TH8_OP_TERNARY_C" "wf_term x" "wf_term y"
            using kids(2) [OF wf] by blast
          have "sound s (expr_eval env x s)" "sound s (expr_eval env y s)" if "same_modes st1 s" for s
            using that r check node by (auto intro!: sub simp: same_modes_def)
          then show ?thesis
            using 1 node Some ok ready r left by (auto intro!: sound_then_value split: sum.splits)
        next
          case 2
          then have "wf_term r" if "r \<noteq> ENil" using kids(3) [OF wf] that by simp
          then show ?thesis
            using 2 node Some ok ready left right
            by (auto intro!: sound_then_value sound_then_tagged sound_assign)
        next
          case 3
          then have "wf_term r" using kids(4) [OF wf] by simp
          then show ?thesis
            using 3 node Some ok ready left right
            by (auto intro!: sound_then_value simp: logical_value_def split: sum.splits)
        next
          case 4
          then have "wf_term r" if "r \<noteq> ENil" using kids(3) [OF wf] that by simp
          then show ?thesis
            using 4 node Some ok ready left right check
            by (auto intro!: sound_then_operand sound_apply simp: same_modes_def)
        qed
      qed
      then show ?thesis by (rule sound_trans [OF modes])
    qed
  qed
qed

lemma parens_modes:
  assumes "\<And>us s rc vs fr s'. build us s = (rc, vs, fr, s') \<Longrightarrow> same_modes s s'"
    and "expr_parens build ts st = (rc, us, fr, st')"
  shows "same_modes st st'"
  using assms
proof (induction build ts st arbitrary: rc us fr st' rule: expr_parens.induct)
  case (2 build t ts st)
  show ?case
  proof (cases "has_op TH8_OP_OPEN_BRACKET t")
    case False
    then show ?thesis using 2(1) [OF False 2(3)] 2(4) by (auto split: prod.splits)
  next
    case True
    show ?thesis
    proof (cases "close_offset 1 ts = None \<or> close_offset 1 ts = Some 0")
      case False
      then obtain k where k: "close_offset 1 ts = Some k" "k \<noteq> 0" by auto
      obtain rc1 sub fr1 s1 where run: "build (take k ts) st = (rc1, sub, fr1, s1)" using prod_cases4 by blast
      have one: "same_modes st s1" by (rule 2(3) [OF run])
      obtain rc2 rest fr2 s2 where rec: "expr_parens build (drop (Suc k) ts) s1 = (rc2, rest, fr2, s2)"
        using prod_cases4 by blast
      have "same_modes s1 s2" if "rc1 = TH8_OK"
        using 2(2) [OF _ k run [symmetric] refl refl _ 2(3) rec] True that by simp
      then show ?thesis using 2(4) True k run rec one same_modes_trans by (auto split: if_splits)
    qed (use 2(4) True in auto)
  qed
qed simp

lemma make_tree_modes: "make_tree ready n ts st = (rc, us, fr, st') \<Longrightarrow> same_modes st st'"
proof (induction n arbitrary: ts st rc us fr st')
  case (Suc n)
  obtain rc0 s0 where ready: "expr_poll ready st = (rc0, s0)" by fastforce
  obtain rc1 ts1 fr1 s1 where run: "expr_parens (make_tree ready n) ts s0 = (rc1, ts1, fr1, s1)"
    using prod_cases4 by blast
  have "same_modes s0 s1" by (rule parens_modes [OF _ run]) (rule Suc.IH)
  then show ?case
    using Suc.prems ready run expr_poll_modes [OF ready] same_modes_trans by (auto split: if_splits prod.splits)
qed auto

text \<open>A root that took no operands is a bracket or a colon, which the evaluator handles without a child.\<close>

lemma eval_bare_sound:
  assumes "bare_op t" "has_op TH8_OP_OPEN_BRACKET t \<or> has_op TH8_OP_CLOSE_BRACKET t \<or> has_op TH8_OP_TERNARY_C t"
    and "bOverflowCheck st"
  shows "sound st (th8ExprEvalNode env t st)"
proof -
  obtain a q z where t: "t = ENode a (Some q) z ENil ENil" using assms(1) by (auto simp: bare_op_def)
  obtain rc st1 where ready: "expr_poll (xReady env) st = (rc, st1)" by fastforce
  have modes: "same_modes st st1" by (rule expr_poll_modes [OF ready])
  then have "sound st (apply_op env q None None st1)"
    using assms(3) by (intro sound_trans [OF modes] sound_apply) (simp add: same_modes_def)
  then show ?thesis using t assms(2) ready modes by (auto simp: has_op_def then_operand_def)
qed

lemma root_sound:
  assumes "list_all raw_token ts" "make_tree ready n ts st = (TH8_OK, us, fr, st')" "bOverflowCheck s"
  shows "sound s (expr_eval env (hd us) s)"
proof -
  have root: "hd us \<in> set us" "hd us \<noteq> ENil" using make_tree_root [OF assms(1,2)] by auto
  then have "slot_ok (hd us)" using make_tree_built [OF assms(1,2)] by (auto simp: built_def list_all_iff)
  then have "sound s' (th8ExprEvalNode env (hd us) s')" if "bOverflowCheck s'" for s'
    using that root make_tree_leftover [OF assms(2) root(1)]
    by (auto simp: slot_ok_def intro: eval_node_sound eval_bare_sound)
  then show ?thesis using assms(3) by (intro sound_eval) simp
qed

lemma sound_normalise: "sound st out \<Longrightarrow> sound st (normalise out)"
  by (cases out) (auto simp: normalise_def sound_def split: sum.splits)

lemma freed_slots: "mset (concat (map th8ExprFree us)) = mset (map fst (flats us))"
  by (induction us) (simp_all add: free_nodes)

text \<open>
  An environment for concrete runs: operands are literal, variables can be set, the list operand has one element,
  and there are neither bigints nor doubles.
\<close>

definition plain_env :: "(unit, unit) expr_env" where
  "plain_env = \<lparr>xReady = steady, xSubst = (\<lambda>z i. (TH8_OK, (z, 0), i)), xSetVar = (\<lambda>n v i. (TH8_OK, [], i)),
     xSplit = (\<lambda>z i. (Inr [z], i)), xIsBig = (\<lambda>z. False), xBigUnary = (\<lambda>e z. Inl []), xBigArith = (\<lambda>e y z. Inl []),
     dParse = (\<lambda>z. Inl ''expected floating-point number''), dPrint = (\<lambda>d. []), dMul = (\<lambda>x y. ()), dDiv = (\<lambda>x y. ()),
     dAdd = (\<lambda>x y. ()), dSub = (\<lambda>x y. ()), dNeg = (\<lambda>x. ()), dLt = (\<lambda>x y. False), dLe = (\<lambda>x y. True),
     dEq = (\<lambda>x y. True), dZero = (), dOne = (), dInt = (\<lambda>x. 0)\<rparr>"

lemma sample_result: "th8ExprEvalOne plain_env (Some TH8_OK, sample_tokens) fresh_expr =
    ((Some TH8_OK, fresh_expr\<lparr>xresult := ''14''\<rparr>), [6, 2, 0, 1, 3, 4, 5])"
  by code_simp

section \<open>One expression is safe\<close>

text \<open>
  For any token array the parser can deliver, the outcome is a return code and the counter and the modes are
  kept, on every path.
\<close>

lemma one_sound:
  assumes "list_all raw_token ts" "bOverflowCheck st" "rc \<noteq> None"
  shows "sound st (fst (th8ExprEvalOne env (rc, ts) st))"
proof -
  obtain rc1 us fr st1 where run: "th8ExprMakeTree (xReady env) ts 0 st = (rc1, us, fr, st1)"
    using prod_cases4 by blast
  have modes: "same_modes st st1" using make_tree_modes run by (auto simp: th8ExprMakeTree_def)
  have "sound st1 (expr_eval env (hd us) st1)" if "rc1 = TH8_OK"
    using that run assms modes by (intro root_sound [OF assms(1)]) (auto simp: th8ExprMakeTree_def same_modes_def)
  then have "sound st (normalise (expr_eval env (hd us) st1))" if "rc1 = TH8_OK"
    using that by (intro sound_trans [OF modes] sound_normalise)
  then show ?thesis using run modes assms(3) by (auto simp: th8ExprEvalOne_def sound_def)
qed

text \<open>The brackets freed by the builder and the nodes freed at the end are the tokens, each one time.\<close>

lemma one_frees:
  assumes "list_all raw_token ts"
  shows "mset (snd (th8ExprEvalOne env (rc, ts) st)) = mset (map eaddr ts)"
proof -
  obtain rc1 us fr st1 where run: "th8ExprMakeTree (xReady env) ts 0 st = (rc1, us, fr, st1)"
    using prod_cases4 by blast
  have toks: "mset (map fst (flats ts)) = mset (map eaddr ts)"
    by (simp add: flats_raw [OF assms] tok_def comp_def)
  have "mset (map fst (flats us)) + mset fr = mset (map fst (flats ts))"
    using make_tree_built [OF assms run [unfolded th8ExprMakeTree_def]] by (simp add: built_def)
  then have "mset (fr @ concat (map th8ExprFree us)) = mset (map eaddr ts)"
    by (simp only: mset_append freed_slots toks add.commute)
  then show ?thesis
    using run freed_slots [of ts] toks by (simp add: th8ExprEvalOne_def)
qed

section \<open>Lazy operators\<close>

text \<open>The operand that the left one decides about is not looked at: the outcome does not mention it.\<close>

lemma lazy_operators:
  assumes "expr_poll (xReady env) st = (TH8_OK, st1)" "expr_eval env l st1 = (Some TH8_OK, st2)"
  shows "eOp q = TH8_OP_LOGICAL_AND \<Longrightarrow> to_bool env (xresult st2) = Inr False \<Longrightarrow>
      th8ExprEvalNode env (ENode a (Some q) z l r) st = (Some TH8_OK, set_result ''0'' st2)"
    and "eOp q = TH8_OP_LOGICAL_OR \<Longrightarrow> to_bool env (xresult st2) = Inr True \<Longrightarrow>
      th8ExprEvalNode env (ENode a (Some q) z l r) st = (Some TH8_OK, set_result ''1'' st2)"
    and "eOp q = TH8_OP_TERNARY_Q \<Longrightarrow> eOp c = TH8_OP_TERNARY_C \<Longrightarrow> parse_wide (xresult st2) = Inr (v, sto) \<Longrightarrow>
      th8ExprEvalNode env (ENode a (Some q) z l (ENode b (Some c) w x y)) st =
        expr_eval env (if v \<noteq> 0 then x else y) (set_result [] st2)"
  using assms by (simp_all add: then_value_def then_tagged_def set_result_def)

section \<open>Comma sequences\<close>

text \<open>The pieces of a text at its top-level commas; joined with commas they are the text again.\<close>

function comma_pieces :: "string \<Rightarrow> string list" where
  "comma_pieces z =
     (case th8ExprFindTopComma z of None \<Rightarrow> [z] | Some n \<Rightarrow> take n z # comma_pieces (drop (n + 1) z))"
  by pat_completeness auto
termination comma_pieces
  by (relation "measure length") (auto simp: th8ExprFindTopComma_def dest: find_comma_at)

declare comma_pieces.simps [simp del]

fun run_pieces :: "(string \<Rightarrow> 's \<Rightarrow> int option \<times> 's) \<Rightarrow> string list \<Rightarrow> 's \<Rightarrow> int option \<times> 's" where
  "run_pieces evalOne [] st = (Some TH8_OK, st)"
| "run_pieces evalOne [z] st = evalOne z st"
| "run_pieces evalOne (z # zs) st =
     (case evalOne z st of (rc, st') \<Rightarrow> if rc \<noteq> Some TH8_OK then (rc, st') else run_pieces evalOne zs st')"

fun join_commas :: "string list \<Rightarrow> string" where
  "join_commas [] = []"
| "join_commas [z] = z"
| "join_commas (z # zs) = z @ CHR '','' # join_commas zs"

lemma comma_pieces_nonempty [simp]: "comma_pieces z \<noteq> []"
  by (subst comma_pieces.simps) (simp split: option.split)

lemma join_comma_pieces: "join_commas (comma_pieces z) = z"
proof (induction z rule: comma_pieces.induct)
  case (1 z)
  show ?case
  proof (cases "th8ExprFindTopComma z")
    case None
    then show ?thesis by (subst comma_pieces.simps) simp
  next
    case (Some n)
    then have n: "n < length z" "z ! n = CHR '',''" using find_comma_at by (auto simp: th8ExprFindTopComma_def)
    obtain y ys where rest: "comma_pieces (drop (n + 1) z) = y # ys" by (cases "comma_pieces (drop (n + 1) z)") auto
    have "z = take n z @ CHR '','' # drop (n + 1) z" using n id_take_nth_drop [of n z] by simp
    then show ?thesis using 1 [OF Some] Some rest by (subst comma_pieces.simps) simp
  qed
qed

lemma comma_sequence_runs: "comma_sequence evalOne z st = run_pieces evalOne (comma_pieces z) st"
proof (induction evalOne z st rule: comma_sequence.induct)
  case (1 evalOne z st)
  show ?case
  proof (cases "th8ExprFindTopComma z")
    case None
    then show ?thesis by (subst comma_sequence.simps, subst comma_pieces.simps) simp
  next
    case (Some n)
    obtain y ys where rest: "comma_pieces (drop (n + 1) z) = y # ys" by (cases "comma_pieces (drop (n + 1) z)") auto
    then show ?thesis
      using 1 [OF Some] Some
      by (subst comma_sequence.simps, subst comma_pieces.simps) (auto split: prod.splits)
  qed
qed

section \<open>Tagged results\<close>

text \<open>
  An exponent form with a tag, such as the value of a tainted variable, is not printed again: \<open>1e3\<close> stays \<open>1e3\<close>,
  where the same text without a tag becomes \<open>1000.0\<close>.
\<close>

lemma tagged_literal_kept:
  "xSubst env z (xrest st) = (rc, (res, t), i) \<Longrightarrow> t \<noteq> 0 \<Longrightarrow>
     eval_literal env z st = (Some rc, st\<lparr>xrest := i, xresult := res, xtag := t\<rparr>)"
  by (simp add: eval_literal_def Let_def scanned_def exponent_form_def c2i_def)

section \<open>Accepted although malformed\<close>

text \<open>\<open>1 2\<close> evaluates to \<open>1\<close>; a lone closing bracket succeeds and leaves the earlier result of the interpreter.\<close>

lemma malformed_accepted:
  "fst (th8ExprEvalOne plain_env (Some TH8_OK, [lit 0 ''1'', lit 1 ''2'']) fresh_expr) =
     (Some TH8_OK, fresh_expr\<lparr>xresult := ''1''\<rparr>)"
  "fst (th8ExprEvalOne plain_env (Some TH8_OK, [opr 0 TH8_OP_CLOSE_BRACKET]) (fresh_expr\<lparr>xresult := ''old''\<rparr>)) =
     (Some TH8_OK, fresh_expr\<lparr>xresult := ''old''\<rparr>)"
  by code_simp+

text \<open>\<open>2 ** 3 ** 2\<close> is 64.\<close>

lemma exponent_value:
  "fst (th8ExprEvalOne plain_env
     (Some TH8_OK, [lit 0 ''2'', opr 1 TH8_OP_EXPONENT, lit 2 ''3'', opr 3 TH8_OP_EXPONENT, lit 4 ''2'']) fresh_expr) =
   (Some TH8_OK, fresh_expr\<lparr>xresult := ''64''\<rparr>)"
  by code_simp

end
