(* ===== verification/Th8_ExprParse.thy ===== *)
theory Th8_ExprParse
  imports Th8_ExprEval Th8_Tokenizer
begin

text \<open>
  The expression tokenizer \<open>th8ExprParse\<close> (\<open>src/src/th8_expr.c\<close>) and its composition with the tree builder and
  the evaluator.

  \<^item> The text still to read is a string; a branch returns how many bytes its token takes.
  \<^item> Variable and command operands are delimited by \<open>th8NextVarName\<close> and \<open>th8NextCommand\<close> of \<open>Th8_Tokenizer\<close>.
  \<^item> A math function is called while the text is read. \<open>pExpr\<close> is \<open>Th8_Expr\<close> on an argument, whose text is part of
    the text being read; \<open>expr_text\<close> closes the recursion. \<open>pFind\<close> is the registry of math functions, whose callbacks
    get the arguments with their tags.
  \<^item> \<open>pAlloc k\<close> says whether the allocations for the \<open>k\<close>-th token succeed: the node, its text, the longer array.
    The address of a node is the number of its token.

  The theorems: the tokenizer terminates, delivers only tokens of the shape the tree builder expects with
  distinct addresses, and so the whole pipeline from text to result, with the expressions nested in the arguments of
  math functions, inherits the safety of its parts.
\<close>

section \<open>Pieces of the text\<close>

abbreviation spc :: "char \<Rightarrow> bool" where "spc c \<equiv> th8IsSpace (c2i c)"
abbreviation alnum :: "char \<Rightarrow> bool" where "alnum c \<equiv> th8IsAlnum (c2i c)"

text \<open>White space and continued lines between tokens.\<close>

function skip_blank :: "string \<Rightarrow> string" where
  "skip_blank [] = []"
| "skip_blank (c # cs) =
     (if spc c then skip_blank cs
      else if c = BSL \<and> cs \<noteq> [] \<and> (hd cs = NL \<or> hd cs = CR) then
        skip_blank (dropWhile (\<lambda>c. c = CHR '' '' \<or> c = TAB) (tl cs))
      else c # cs)"
  by pat_completeness auto
termination skip_blank
proof (relation "measure length")
  fix c cs
  assume "c = BSL \<and> cs \<noteq> [] \<and> (hd cs = NL \<or> hd cs = CR)"
  then have "length (dropWhile (\<lambda>c. c = CHR '' '' \<or> c = TAB) (tl cs)) < length (c # cs)"
    using length_dropWhile_le [of "\<lambda>c. c = CHR '' '' \<or> c = TAB" "tl cs"] by (cases cs) auto
  then show "(dropWhile (\<lambda>c. c = CHR '' '' \<or> c = TAB) (tl cs), c # cs) \<in> measure length" by simp
qed auto

lemma skip_blank_length: "length (skip_blank z) \<le> length z"
proof (induction z rule: skip_blank.induct)
  case (2 c cs)
  have "length (dropWhile P (tl cs)) \<le> length cs" for P
    using length_dropWhile_le [of P "tl cs"] by simp
  then show ?case using 2 by (auto intro: order_trans le_SucI)
qed simp

text \<open>Bytes of a decimal or real literal; \<open>prev\<close> is the byte before, none at the start.\<close>

fun number_len :: "char option \<Rightarrow> string \<Rightarrow> nat" where
  "number_len prev [] = 0"
| "number_len prev (c # cs) =
     (if th8IsDigit (c2i c) \<or> c = CHR ''.'' \<or> c = CHR ''e'' \<or> c = CHR ''E'' \<or>
         (c = CHR ''+'' \<or> c = CHR ''-'') \<and> (prev = Some (CHR ''e'') \<or> prev = Some (CHR ''E''))
      then Suc (number_len (Some c) cs) else 0)"

text \<open>Bytes after the opening quote up to and with the closing one, or to the end.\<close>

fun quote_len :: "string \<Rightarrow> nat" where
  "quote_len [] = 0"
| "quote_len [c] = 1"
| "quote_len (c # d # cs) =
     (if c = DQ then 1 else if c = BSL then 2 + quote_len cs else Suc (quote_len (d # cs)))"

text \<open>The first row of the table that the text starts with and that fits the token before.\<close>

fun match_op :: "int \<Rightarrow> bool \<Rightarrow> string \<Rightarrow> expr_op list \<Rightarrow> expr_op option" where
  "match_op features prevIsTerm z [] = None"
| "match_op features prevIsTerm z (q # qs) =
     (let nOp = length (zOp q) in
      if nReqFlag q \<noteq> 0 \<and> features AND nReqFlag q \<noteq> nReqFlag q then match_op features prevIsTerm z qs
      else if take nOp z \<noteq> zOp q then match_op features prevIsTerm z qs
      else if th8IsAlpha (c2i (hd (zOp q))) \<and> nOp < length z \<and> alnum (z ! nOp) then match_op features prevIsTerm z qs
      else if iPrecedence q = 1 \<and> prevIsTerm then match_op features prevIsTerm z qs
      else Some q)"

text \<open>The parenthesis that closes an argument list, and the comma that splits it.\<close>

fun args_len :: "nat \<Rightarrow> string \<Rightarrow> nat option" where
  "args_len nParen [] = None"
| "args_len nParen (c # cs) =
     (let nParen = (if c = CHR ''('' then nParen + 1 else if c = CHR '')'' then nParen - 1 else nParen)
      in if nParen = 0 then Some 0 else map_option Suc (args_len nParen cs))"

fun arg_comma :: "int \<Rightarrow> string \<Rightarrow> nat option" where
  "arg_comma depth [] = None"
| "arg_comma depth (c # cs) =
     (if c = CHR ''('' then map_option Suc (arg_comma (depth + 1) cs)
      else if c = CHR '')'' then map_option Suc (arg_comma (depth - 1) cs)
      else if c = CHR '','' \<and> depth = 0 then Some 0
      else map_option Suc (arg_comma depth cs))"

section \<open>One token\<close>

record 'i parse_env =
  pReady :: "'i xready"
  pFeatures :: int
  pGrow :: "nat \<Rightarrow> bool"
  pAlloc :: "nat \<Rightarrow> bool \<times> bool \<times> bool"
  pExpr :: "string \<Rightarrow> 'i expr_interp \<Rightarrow> 'i xout"
  pFind :: "string \<Rightarrow> ((string \<times> size_t) option \<Rightarrow> (string \<times> size_t) option \<Rightarrow> 'i expr_interp \<Rightarrow> int \<times> 'i expr_interp) option"
  pIsBig :: "string \<Rightarrow> bool"
  pDouble :: "string \<Rightarrow> bool option"

definition th8ExprEvalFunc ::
  "'i parse_env \<Rightarrow> string \<Rightarrow> (string \<times> size_t) option \<Rightarrow> (string \<times> size_t) option \<Rightarrow> 'i expr_interp \<Rightarrow> 'i xout" where
  "th8ExprEvalFunc env zFunc zArg1 zArg2 st =
     (case pFind env zFunc of
        Some xProc \<Rightarrow> (case xProc zArg1 zArg2 st of (rc, st') \<Rightarrow> (Some rc, st'))
      | None \<Rightarrow> (Some TH8_ERROR, set_result (''unknown math function '' @ [DQ]) st))"

text \<open>
  The arguments are evaluated in order and taken out of the result, then the function is called; its value is left in
  the result.
\<close>

definition call_function ::
  "'i parse_env \<Rightarrow> string \<Rightarrow> string \<Rightarrow> 'i expr_interp \<Rightarrow> 'i xout" where
  "call_function env name args st =
     (let comma = arg_comma 0 args;
          second = (\<lambda>zArg1 st.
            case comma of
              None \<Rightarrow> th8ExprEvalFunc env name zArg1 None st
            | Some k \<Rightarrow> then_tagged (pExpr env (drop (k + 1) args) st) (\<lambda>zArg2. th8ExprEvalFunc env name zArg1 (Some zArg2)))
      in if args = [] then second None st
         else then_tagged (pExpr env (case comma of None \<Rightarrow> args | Some k \<Rightarrow> take k args) st) (\<lambda>zArg1. second (Some zArg1)))"

datatype 'i tokout =
    TFail "int option" "'i expr_interp"
  | TToken nat "expr_op option" string "'i expr_interp"

abbreviation oom :: "'i expr_interp \<Rightarrow> 'i tokout" where
  "oom st \<equiv> TFail (Some TH8_ERROR) (set_result ''out of memory'' st)"

text \<open>A literal of the first \<open>n\<close> bytes, when its text can be allocated.\<close>

definition literal_token :: "bool \<Rightarrow> nat \<Rightarrow> string \<Rightarrow> 'i expr_interp \<Rightarrow> 'i tokout" where
  "literal_token ok n z st = (if ok then TToken n None (take n z) st else oom st)"

definition is_number_word :: "'i parse_env \<Rightarrow> string \<Rightarrow> bool" where
  "is_number_word env z =
     (case parse_bool (pIsBig env) (pDouble env) z of Inr _ \<Rightarrow> True | Inl _ \<Rightarrow> pDouble env z \<noteq> None)"

text \<open>
  The value of a function is copied with its tagged length: with a tag that is more than \<open>TH8_MX_ALLOC\<close>, which
  the allocator refuses.
\<close>

definition word_token :: "'i parse_env \<Rightarrow> bool \<Rightarrow> string \<Rightarrow> 'i expr_interp \<Rightarrow> 'i tokout" where
  "word_token env ok z st =
     (let nId = length (takeWhile alnum z) in
      if nId = 0 then TFail (Some TH8_ERROR) (set_result (''syntax error in expression: '' @ [DQ]) st)
      else if nId < length z \<and> z ! nId = CHR ''('' then
        (case args_len 1 (drop (nId + 1) z) of
           None \<Rightarrow> TFail (Some TH8_ERROR) (set_result (''unmatched ( in expression: '' @ [DQ]) st)
         | Some k \<Rightarrow>
             (case call_function env (take nId z) (take k (drop (nId + 1) z)) st of (rc, st') \<Rightarrow>
                if rc \<noteq> Some TH8_OK then TFail rc st'
                else if ok \<and> xtag st' = 0 then TToken (nId + 1 + k + 1) None (xresult st') st' else oom st'))
      else if \<not> is_number_word env (take nId z) then
        TFail (Some TH8_ERROR) (set_result (''invalid bareword '' @ [DQ]) st)
      else literal_token ok nId z st)"

definition next_token :: "'i parse_env \<Rightarrow> bool \<Rightarrow> bool \<Rightarrow> string \<Rightarrow> 'i expr_interp \<Rightarrow> 'i tokout" where
  "next_token env ok prevIsTerm z st =
     (let c = hd z in
      if c = CHR ''0'' \<and> 1 < length z \<and> z ! 1 \<in> set ''xXoObB'' then
        literal_token ok (2 + length (takeWhile alnum (drop 2 z))) z st
      else if th8IsDigit (c2i c) \<or> c = CHR ''.'' then literal_token ok (number_len None z) z st
      else if c = CHR ''$'' then
        (case th8NextVarName z of None \<Rightarrow> TFail (Some TH8_ERROR) st | Some n \<Rightarrow> literal_token ok n z st)
      else if c = CHR ''{'' \<or> c = CHR ''['' then
        (case th8NextCommand (pGrow env) z of
           Inl m \<Rightarrow> TFail (Some TH8_ERROR) (set_result m st) | Inr n \<Rightarrow> literal_token ok n z st)
      else if c = DQ then literal_token ok (1 + quote_len (tl z)) z st
      else
        (case match_op (pFeatures env) prevIsTerm z th8Operators of
           Some q \<Rightarrow> TToken (length (zOp q)) (Some q) [] st
         | None \<Rightarrow> word_token env ok z st))"

section \<open>The loop\<close>

definition prev_is_term :: "enode list \<Rightarrow> bool" where
  "prev_is_term acc =
     (case acc of [] \<Rightarrow> False
      | t # _ \<Rightarrow> pOp t = None \<or> pLeft t \<noteq> ENil \<or> has_op TH8_OP_CLOSE_BRACKET t)"

definition grow_tokens :: "bool \<Rightarrow> nat \<Rightarrow> int \<Rightarrow> int res" where
  "grow_tokens ok nToken nAlloc =
     (if int nToken < nAlloc then Inr nAlloc
      else if nAlloc > 0x3fffffff then Inl ''expression too complex''
      else if \<not> ok then Inl ''out of memory''
      else Inr (nAlloc * 2 + 16))"

text \<open>Every token takes at least one byte, so the loop ends.\<close>

lemma match_op_row: "match_op f t z qs = Some q \<Longrightarrow> q \<in> set qs"
  by (induction f t z qs rule: match_op.induct) (auto simp: Let_def split: if_splits)

lemma operator_text: "q \<in> set th8Operators \<Longrightarrow> zOp q \<noteq> []"
  by (auto simp: th8Operators_def)

lemma literal_token_len: "literal_token ok n z st = TToken m p v st' \<Longrightarrow> m = n \<and> p = None"
  by (auto simp: literal_token_def split: if_splits)

lemma word_token_len: "word_token env ok z st = TToken n p v st' \<Longrightarrow> 1 \<le> n \<and> p = None"
  by (auto simp: word_token_def Let_def Suc_le_eq dest!: literal_token_len split: if_splits option.splits prod.splits)

lemma next_token_len:
  assumes "next_token env ok t z st = TToken n p v st'" "z \<noteq> []"
  shows "1 \<le> n \<and> (p = None \<or> (\<exists>q \<in> set th8Operators. p = Some q))"
proof -
  obtain c cs where z: "z = c # cs" using assms(2) by (cases z) auto
  have num: "1 \<le> number_len None z" if "th8IsDigit (c2i c) \<or> c = CHR ''.''" using that z by auto
  have var: "1 \<le> m" if "th8NextVarName z = Some m" for m using th8NextVarName_bounds [OF that assms(2)] by simp
  have cmd: "1 \<le> m" if "th8NextCommand g z = Inr m" for g m using th8NextCommand_bounds [OF that] by simp
  have opr: "q \<in> set th8Operators \<and> 1 \<le> length (zOp q)" if "match_op f t z th8Operators = Some q" for f q
    using match_op_row [OF that] operator_text [of q] by (simp add: Suc_le_eq)
  show ?thesis
    using assms(1) z num var cmd opr
    by (auto simp: next_token_def Let_def dest!: literal_token_len dest: word_token_len split: if_splits option.splits sum.splits)
qed

lemma next_token_less:
  assumes "next_token env ok t (skip_blank z) st = TToken n p v st'" "skip_blank z \<noteq> []"
  shows "length (skip_blank z) - n < length z"
  using next_token_len [OF assms] assms(2) skip_blank_length [of z]
  by (cases "skip_blank z") auto

function parse_loop ::
  "'i parse_env \<Rightarrow> string \<Rightarrow> enode list \<Rightarrow> int \<Rightarrow> 'i expr_interp \<Rightarrow> int option \<times> enode list \<times> 'i expr_interp" where
  "parse_loop env z acc nAlloc st =
     (if z = [] then (Some TH8_OK, rev acc, st)
      else
        (case expr_poll (pReady env) st of (rc, st1) \<Rightarrow>
           if rc \<noteq> TH8_OK then (Some TH8_ERROR, rev acc, st1)
           else if skip_blank z = [] then (Some TH8_OK, rev acc, st1)
           else
             (case pAlloc env (length acc) of (nodeOk, textOk, arrayOk) \<Rightarrow>
                if \<not> nodeOk then (Some TH8_ERROR, rev acc, set_result ''out of memory'' st1)
                else
                  (case next_token env textOk (prev_is_term acc) (skip_blank z) st1 of
                     TFail rc st2 \<Rightarrow> (rc, rev acc, st2)
                   | TToken n p v st2 \<Rightarrow>
                       (case grow_tokens arrayOk (length acc) nAlloc of
                          Inl m \<Rightarrow> (Some TH8_ERROR, rev acc, set_result m st2)
                        | Inr nAlloc' \<Rightarrow>
                            parse_loop env (drop n (skip_blank z)) (ENode (length acc) p v ENil ENil # acc) nAlloc' st2)))))"
  by pat_completeness auto
termination parse_loop
  by (relation "measure (\<lambda>(_, z, _). length z)")
     (auto simp: next_token_less)

declare parse_loop.simps [simp del]

definition th8ExprParse :: "'i parse_env \<Rightarrow> string \<Rightarrow> 'i expr_interp \<Rightarrow> int option \<times> enode list \<times> 'i expr_interp" where
  "th8ExprParse env zExpr st = parse_loop env zExpr [] 0 st"

section \<open>What the tokenizer delivers\<close>

text \<open>The loop invariant rule: what holds of the tokens so far and the state is kept by each of its steps.\<close>

fun tok_state :: "'i tokout \<Rightarrow> 'i expr_interp" where
  "tok_state (TFail rc st) = st"
| "tok_state (TToken n p v st) = st"

fun tok_code :: "'i tokout \<Rightarrow> int option" where
  "tok_code (TFail rc st) = rc"
| "tok_code (TToken n p v st) = Some TH8_OK"

lemma parse_loop_invariant:
  assumes "parse_loop env z acc nAlloc st = (rc, ts, st')" "P acc st" "length z \<le> m"
    and poll: "\<And>acc st rc st1. P acc st \<Longrightarrow> expr_poll (pReady env) st = (rc, st1) \<Longrightarrow> P acc st1"
    and message: "\<And>acc st m. P acc st \<Longrightarrow> P acc (set_result m st)"
    and state: "\<And>acc st ok t z. P acc st \<Longrightarrow> z \<noteq> [] \<Longrightarrow> length z \<le> m \<Longrightarrow>
      P acc (tok_state (next_token env ok t z st)) \<and> C (tok_code (next_token env ok t z st))"
    and codes: "C (Some TH8_OK)" "C (Some TH8_ERROR)"
    and token: "\<And>acc st ok t z n p v st2. P acc st2 \<Longrightarrow> z \<noteq> [] \<Longrightarrow> next_token env ok t z st = TToken n p v st2 \<Longrightarrow>
      P (ENode (length acc) p v ENil ENil # acc) st2"
  shows "P (rev ts) st' \<and> C rc"
  using assms(1-3)
proof (induction "length z" arbitrary: z acc nAlloc st rule: less_induct)
  case less
  note run = less.prems(1) [unfolded parse_loop.simps [of env z]]
  obtain rc1 st1 where ready: "expr_poll (pReady env) st = (rc1, st1)" by fastforce
  have p1: "P acc st1" by (rule poll [OF less.prems(2) ready])
  obtain nodeOk textOk arrayOk where alloc: "pAlloc env (length acc) = (nodeOk, textOk, arrayOk)" using prod_cases3 by blast
  show ?case
  proof (cases "z = [] \<or> rc1 \<noteq> TH8_OK \<or> skip_blank z = [] \<or> \<not> nodeOk")
    case True
    then show ?thesis using run ready alloc p1 message less.prems(2) codes by (auto split: if_splits)
  next
    case go: False
    have fits: "skip_blank z \<noteq> []" "length (skip_blank z) \<le> m"
      using go less.prems(3) skip_blank_length [of z] by auto
    note here = state [OF p1 fits, of textOk "prev_is_term acc"]
    show ?thesis
    proof (cases "next_token env textOk (prev_is_term acc) (skip_blank z) st1")
      case (TFail rc2 st2)
      have "P acc st2 \<and> C rc2" using here TFail by simp
      then show ?thesis using run ready alloc go TFail by auto
    next
      case tok: (TToken n p v st2)
      have p2: "P acc st2" using here tok by simp
      show ?thesis
      proof (cases "grow_tokens arrayOk (length acc) nAlloc")
        case (Inl m)
        then show ?thesis using run ready alloc go tok message [OF p2] codes by auto
      next
        case (Inr nAlloc')
        then have "parse_loop env (drop n (skip_blank z)) (ENode (length acc) p v ENil ENil # acc) nAlloc' st2 = (rc, ts, st')"
          using run ready alloc go tok by simp
        then show ?thesis
          using less.hyps [of "drop n (skip_blank z)"] token [OF p2 _ tok] next_token_less [OF tok] go fits(2) by auto
      qed
    qed
  qed
qed

text \<open>The tokens are untouched nodes of the table's operators and literals, numbered from the left.\<close>

lemma parse_tokens:
  assumes "th8ExprParse env z st = (rc, ts, st')"
  shows "list_all raw_token ts" "map eaddr ts = [0..<length ts]"
proof -
  have "list_all raw_token (rev ts) \<and> map eaddr (rev (rev ts)) = [0..<length (rev ts)]"
    by (rule conjunct1 [OF parse_loop_invariant [where C = "\<lambda>rc. True" and
          P = "\<lambda>acc st. list_all raw_token acc \<and> map eaddr (rev acc) = [0..<length acc]",
          OF assms [unfolded th8ExprParse_def]]])
       (auto simp: raw_token_def dest!: next_token_len)
  then show "list_all raw_token ts" "map eaddr ts = [0..<length ts]" by simp_all
qed

text \<open>
  The tokenizer is sound when the registered functions keep the modes and every expression shorter than the text
  is: the arguments of a function are shorter than the text that calls it.
\<close>

definition functions_keep_modes :: "'i parse_env \<Rightarrow> bool" where
  "functions_keep_modes env \<longleftrightarrow> (\<forall>f xProc x y st. pFind env f = Some xProc \<longrightarrow> same_modes st (snd (xProc x y st)))"

definition args_sound :: "'i parse_env \<Rightarrow> nat \<Rightarrow> bool" where
  "args_sound env m \<longleftrightarrow> (\<forall>y st. length y < m \<longrightarrow> bOverflowCheck st \<longrightarrow> sound st (pExpr env y st))"

lemma same_modes_check: "same_modes st st' \<Longrightarrow> bOverflowCheck st \<Longrightarrow> bOverflowCheck st'"
  by (simp add: same_modes_def)

lemma function_sound:
  assumes "functions_keep_modes env"
  shows "sound st (th8ExprEvalFunc env name x y st)"
proof (cases "pFind env name")
  case (Some xProc)
  then have "same_modes st (snd (xProc x y st))" using assms unfolding functions_keep_modes_def by blast
  then show ?thesis using Some by (simp add: th8ExprEvalFunc_def case_prod_unfold)
qed (simp add: th8ExprEvalFunc_def)

lemma call_function_sound:
  assumes "functions_keep_modes env" "args_sound env m" "length args < m" "bOverflowCheck st"
  shows "sound st (call_function env name args st)"
proof -
  have arg: "sound s (pExpr env (take k args) s)" "sound s (pExpr env (drop k args) s)" "sound s (pExpr env args s)"
    if "same_modes st s" for k s
    using assms(2-4) same_modes_check [OF that] by (simp_all add: args_sound_def)
  show ?thesis
    by (auto simp: call_function_def Let_def split: option.splits
        intro!: sound_then_tagged arg function_sound [OF assms(1)])
qed

lemma next_token_sound:
  assumes "functions_keep_modes env" "args_sound env m" "length z \<le> m" "z \<noteq> []" "bOverflowCheck st"
  shows "sound st (tok_code (next_token env ok t z st), tok_state (next_token env ok t z st))"
proof -
  have lit: "sound st (tok_code (literal_token ok n z st), tok_state (literal_token ok n z st))" for n z
    by (simp add: literal_token_def)
  have "length (take k (drop (Suc n) z)) < m" for k n using assms(3,4) by (cases z) auto
  note call = call_function_sound [OF assms(1,2) this assms(5)]
  have made: "fst (call_function env f (take k (drop (Suc n) z)) st) \<noteq> None \<and>
      same_modes st (snd (call_function env f (take k (drop (Suc n) z)) st))" for f k n
    using call by (simp add: sound_def)
  have "sound st (tok_code (word_token env ok z st), tok_state (word_token env ok z st))"
    unfolding word_token_def Let_def case_prod_unfold Suc_eq_plus1 [symmetric]
    by (auto simp: lit made call split: option.split)
  then show ?thesis by (auto simp: next_token_def Let_def lit split: option.splits sum.splits)
qed

lemma parse_sound:
  assumes "th8ExprParse env z st = (rc, ts, st')" "functions_keep_modes env" "args_sound env (length z)" "bOverflowCheck st"
  shows "sound st (rc, st')"
proof -
  have "same_modes st st' \<and> rc \<noteq> None"
    by (rule parse_loop_invariant [where C = "\<lambda>rc. rc \<noteq> None" and P = "\<lambda>acc s. same_modes st s",
          OF assms(1) [unfolded th8ExprParse_def] _ order_refl])
       (use next_token_sound [OF assms(2,3)] same_modes_check [OF _ assms(4)]
         in \<open>auto simp: sound_def intro: same_modes_trans expr_poll_modes\<close>)
  then show ?thesis by (simp add: sound_def)
qed

section \<open>From text to result\<close>

text \<open>The three stages of \<open>th8ExprEvalOne\<close> on a text.\<close>

definition eval_text :: "('i, 'd) expr_env \<Rightarrow> 'i parse_env \<Rightarrow> string \<Rightarrow> 'i expr_interp \<Rightarrow> 'i xout \<times> nat list" where
  "eval_text env penv z st =
     (case th8ExprParse penv z st of (rc, ts, st1) \<Rightarrow> th8ExprEvalOne env (rc, ts) st1)"

text \<open>
  \<open>Th8_Expr\<close> over them, with calls of itself for the arguments of math functions. \<open>k\<close> bounds the nesting of those calls;
  to run out of it counts as not returning. An argument is shorter than the text, so that one more than the length
  of the text is enough.
\<close>

abbreviation TH8_EXPR_TOP_COMMA :: int where "TH8_EXPR_TOP_COMMA \<equiv> 1"

primrec expr_nested :: "nat \<Rightarrow> ('i, 'd) expr_env \<Rightarrow> 'i parse_env \<Rightarrow> string \<Rightarrow> size_t \<Rightarrow> 'i expr_interp \<Rightarrow> 'i xout" where
  "expr_nested 0 env penv z n st = (None, st)"
| "expr_nested (Suc k) env penv z n st =
     Th8_Expr (pFeatures penv AND TH8_EXPR_TOP_COMMA \<noteq> 0)
       (\<lambda>z st. fst (eval_text env (penv\<lparr>pExpr := \<lambda>y. expr_nested k env penv y (of_nat (length y))\<rparr>) z st)) z n st"

definition expr_text :: "('i, 'd) expr_env \<Rightarrow> 'i parse_env \<Rightarrow> string \<Rightarrow> size_t \<Rightarrow> 'i expr_interp \<Rightarrow> 'i xout" where
  "expr_text env penv z n st = expr_nested (Suc (length z)) env penv z n st"

text \<open>What a text means depends on its nested expressions only, and so not on the bound.\<close>

lemma parse_loop_cong:
  assumes "\<And>y s. length y < length z \<Longrightarrow> f y s = g y s"
  shows "parse_loop (env\<lparr>pExpr := f\<rparr>) z acc nAlloc st = parse_loop (env\<lparr>pExpr := g\<rparr>) z acc nAlloc st"
  using assms
proof (induction "length z" arbitrary: z acc nAlloc st rule: less_induct)
  case less
  have call: "call_function (env\<lparr>pExpr := f\<rparr>) name args s = call_function (env\<lparr>pExpr := g\<rparr>) name args s"
    if "length args < length z" for name args s
  proof -
    have "f (drop k args) s = g (drop k args) s" "f (take k args) s = g (take k args) s" "f args s = g args s" "f [] s = g [] s" for k s
      using that by (auto intro!: less.prems)
    moreover have "th8ExprEvalFunc (env\<lparr>pExpr := f\<rparr>) = th8ExprEvalFunc (env\<lparr>pExpr := g\<rparr>)"
      by (intro ext) (simp add: th8ExprEvalFunc_def)
    ultimately show ?thesis
      by (cases "arg_comma 0 args") (simp_all add: call_function_def Let_def)
  qed
  have word: "word_token (env\<lparr>pExpr := f\<rparr>) ok y s = word_token (env\<lparr>pExpr := g\<rparr>) ok y s"
    if "y \<noteq> []" "length y \<le> length z" for ok y s
  proof -
    have "length (take k (drop (Suc n) y)) < length z" for k n using that by (cases y) auto
    note call [OF this]
    moreover have "is_number_word (env\<lparr>pExpr := f\<rparr>) = is_number_word (env\<lparr>pExpr := g\<rparr>)"
      by (intro ext) (simp add: is_number_word_def split: sum.split)
    ultimately show ?thesis
      unfolding word_token_def Let_def Suc_eq_plus1 [symmetric] by (simp cong: option.case_cong)
  qed
  have sel: "pGrow (env\<lparr>pExpr := h\<rparr>) = pGrow env" "pFeatures (env\<lparr>pExpr := h\<rparr>) = pFeatures env" for h by simp_all
  have tok: "next_token (env\<lparr>pExpr := f\<rparr>) ok t (skip_blank z) s = next_token (env\<lparr>pExpr := g\<rparr>) ok t (skip_blank z) s"
    if "skip_blank z \<noteq> []" for ok t s
    unfolding next_token_def word [OF that skip_blank_length] sel ..
  have rest: "parse_loop (env\<lparr>pExpr := f\<rparr>) (drop n (skip_blank z)) acc' nAlloc' s =
      parse_loop (env\<lparr>pExpr := g\<rparr>) (drop n (skip_blank z)) acc' nAlloc' s"
    if "next_token e ok t (skip_blank z) s' = TToken n p v s" "skip_blank z \<noteq> []" for e :: "'a parse_env" and ok t s' n p v s acc' nAlloc'
    using next_token_less [OF that] by (intro less.hyps less.prems) simp_all
  show ?case
    by (subst (1 2) parse_loop.simps)
       (auto simp: tok rest split: prod.split tokout.split sum.split)
qed

lemma comma_sequence_cong:
  assumes "\<And>y s. length y \<le> length z \<Longrightarrow> f y s = g y s"
  shows "comma_sequence f z st = comma_sequence g z st"
  using assms
proof (induction "length z" arbitrary: z st rule: less_induct)
  case less
  show ?case
  proof (cases "th8ExprFindTopComma z")
    case None
    then show ?thesis using less.prems by (subst (1 2) comma_sequence.simps) simp
  next
    case (Some n)
    then have n: "n < length z" using find_comma_at by (auto simp: th8ExprFindTopComma_def)
    have "comma_sequence f (drop (n + 1) z) s = comma_sequence g (drop (n + 1) z) s" for s
      using n by (intro less.hyps less.prems) simp_all
    then show ?thesis
      using Some less.prems [of "take n z"] by (subst (1 2) comma_sequence.simps) (simp split: prod.split)
  qed
qed

lemma bytes_of_length: "length (bytes_of z n) \<le> length z"
  by (simp add: bytes_of_def)

lemma Th8_Expr_cong:
  assumes "\<And>y s. length y \<le> length z \<Longrightarrow> f y s = g y s"
  shows "Th8_Expr topComma f z n st = Th8_Expr topComma g z n st"
proof -
  have one: "f y s = g y s" if "length y \<le> length (bytes_of z m)" for y m s
    using assms order_trans [OF that bytes_of_length] .
  have seq: "comma_sequence f (bytes_of z m) s = comma_sequence g (bytes_of z m) s" for m s
    by (rule comma_sequence_cong) (rule one)
  show ?thesis using one [OF order_refl] seq by (simp add: Th8_Expr_def Let_def case_prod_unfold)
qed

lemma expr_nested_enough:
  "length z < k \<Longrightarrow> length z < k' \<Longrightarrow> expr_nested k env penv z n st = expr_nested k' env penv z n st"
proof (induction k arbitrary: k' z n st)
  case (Suc k)
  then obtain l where l: "k' = Suc l" by (cases k') auto
  have "eval_text env (penv\<lparr>pExpr := \<lambda>y. expr_nested k env penv y (of_nat (length y))\<rparr>) y s =
      eval_text env (penv\<lparr>pExpr := \<lambda>y. expr_nested l env penv y (of_nat (length y))\<rparr>) y s" if "length y \<le> length z" for y s
    unfolding eval_text_def th8ExprParse_def using that Suc.prems l
    by (subst parse_loop_cong [where g = "\<lambda>y. expr_nested l env penv y (of_nat (length y))"]) (auto intro!: Suc.IH)
  then show ?case unfolding l expr_nested.simps by (intro Th8_Expr_cong) simp
qed simp

text \<open>The recursion of the code: the arguments of math functions are evaluated by \<open>Th8_Expr\<close> itself.\<close>

lemma expr_text_recursive:
  "expr_text env penv z n st =
     Th8_Expr (pFeatures penv AND TH8_EXPR_TOP_COMMA \<noteq> 0)
       (\<lambda>z st. fst (eval_text env (penv\<lparr>pExpr := \<lambda>y. expr_text env penv y (of_nat (length y))\<rparr>) z st)) z n st"
proof -
  have "eval_text env (penv\<lparr>pExpr := \<lambda>y. expr_nested (length z) env penv y (of_nat (length y))\<rparr>) y s =
      eval_text env (penv\<lparr>pExpr := \<lambda>y. expr_text env penv y (of_nat (length y))\<rparr>) y s" if "length y \<le> length z" for y s
    unfolding eval_text_def th8ExprParse_def expr_text_def using that
    by (subst parse_loop_cong [where g = "\<lambda>y. expr_nested (Suc (length y)) env penv y (of_nat (length y))"])
       (auto intro!: expr_nested_enough simp del: expr_nested.simps)
  then show ?thesis
    unfolding expr_text_def [of env penv z] expr_nested.simps by (intro Th8_Expr_cong) simp
qed

lemma eval_text_sound:
  assumes "functions_keep_modes penv" "args_sound penv (length z)" "bOverflowCheck st"
  shows "sound st (fst (eval_text env penv z st))"
proof -
  obtain rc ts st1 where parse: "th8ExprParse penv z st = (rc, ts, st1)" using prod_cases3 by blast
  have ok: "same_modes st st1" "rc \<noteq> None" using parse_sound [OF parse assms] by (auto simp: sound_def)
  then have "sound st1 (fst (th8ExprEvalOne env (rc, ts) st1))"
    using assms(3) same_modes_check by (intro one_sound parse_tokens(1) [OF parse])
  then show ?thesis using parse sound_trans [OF ok(1)] by (simp add: eval_text_def)
qed

lemma comma_sequence_sound:
  assumes "\<And>y st. length y \<le> length z \<Longrightarrow> bOverflowCheck st \<Longrightarrow> sound st (evalOne y st)"
  shows "bOverflowCheck st \<Longrightarrow> sound st (comma_sequence evalOne z st)"
  using assms
proof (induction "length z" arbitrary: z st rule: less_induct)
  case less
  show ?case
  proof (cases "th8ExprFindTopComma z")
    case None
    then show ?thesis using less.prems by (subst comma_sequence.simps) simp
  next
    case (Some n)
    then have n: "n < length z" using find_comma_at by (auto simp: th8ExprFindTopComma_def)
    obtain rc st1 where run: "evalOne (take n z) st = (rc, st1)" by fastforce
    then have first: "sound st (rc, st1)" using less.prems(2) [OF _ less.prems(1), of "take n z"] by simp
    then have modes: "same_modes st st1" by (simp add: sound_def)
    have "sound st1 (comma_sequence evalOne (drop (n + 1) z) st1)"
      using n less.prems same_modes_check [OF modes] by (intro less.hyps) auto
    then show ?thesis
      using Some run first sound_trans [OF modes] by (subst comma_sequence.simps) simp
  qed
qed

lemma Th8_Expr_sound:
  assumes "\<And>y st. length y \<le> length z \<Longrightarrow> bOverflowCheck st \<Longrightarrow> sound st (evalOne y st)" "bOverflowCheck st"
  shows "sound st (Th8_Expr topComma evalOne z n st)"
proof -
  have one: "sound s (evalOne y s)" if "length y \<le> length (bytes_of z m)" "bOverflowCheck s" for y m s
    using assms(1) order_trans [OF that(1) bytes_of_length] that(2) .
  show ?thesis
    using one [OF order_refl assms(2)] comma_sequence_sound [OF one assms(2)]
    by (simp add: Th8_Expr_def Th8_ReportTaint_def Let_def)
qed

lemma expr_nested_sound:
  assumes "functions_keep_modes penv"
  shows "length z < k \<Longrightarrow> bOverflowCheck st \<Longrightarrow> sound st (expr_nested k env penv z n st)"
proof (induction k arbitrary: z n st)
  case (Suc k)
  let ?penv = "penv\<lparr>pExpr := \<lambda>y. expr_nested k env penv y (of_nat (length y))\<rparr>"
  have "functions_keep_modes ?penv" using assms by (simp add: functions_keep_modes_def)
  moreover have "args_sound ?penv m" if "m \<le> k" for m using that Suc.IH by (simp add: args_sound_def)
  ultimately have "sound s (fst (eval_text env ?penv y s))" if "length y \<le> length z" "bOverflowCheck s" for y s
    using that Suc.prems(1) by (intro eval_text_sound) simp_all
  then show ?case using Suc.prems(2) by (simp add: Th8_Expr_sound)
qed simp

text \<open>
  An environment in which every allocation succeeds and the interpreter knows the math function \<open>abs\<close> on integers
  (\<open>src/src/th8_math.c\<close>).
\<close>

definition abs_function :: "(string \<times> size_t) option \<Rightarrow> (string \<times> size_t) option \<Rightarrow> 'i expr_interp \<Rightarrow> int \<times> 'i expr_interp" where
  "abs_function x y st =
     (case x of
        None \<Rightarrow> (TH8_ERROR, st)
      | Some v \<Rightarrow>
          (case parse_wide (fst v) of
             Inl m \<Rightarrow> (TH8_ERROR, set_result m st)
           | Inr (i, _) \<Rightarrow> (TH8_OK, set_result (Th8_SetResultWideInt (word_of_int \<bar>i\<bar>)) st)))"

definition plain_parse :: "unit parse_env" where
  "plain_parse = \<lparr>pReady = steady, pFeatures = 0, pGrow = (\<lambda>n. True), pAlloc = (\<lambda>n. (True, True, True)),
     pExpr = (\<lambda>z st. (None, st)),
     pFind = (\<lambda>f. if f = ''abs'' then Some abs_function else None),
     pIsBig = (\<lambda>z. False), pDouble = (\<lambda>z. None)\<rparr>"

lemma plain_parse_keeps: "functions_keep_modes plain_parse"
  by (auto simp: functions_keep_modes_def plain_parse_def abs_function_def split: option.splits sum.splits)

lemma sample_text:
  "expr_text plain_env plain_parse ''2*abs(3-abs(-10))'' 17 fresh_expr = (Some TH8_OK, fresh_expr\<lparr>xresult := ''14''\<rparr>)"
  by code_simp

section \<open>Properties\<close>

text \<open>A function whose value carries a tag makes the expression fail, as if memory had run out.\<close>

lemma tagged_value_refused:
  assumes "length f \<noteq> 0" "list_all alnum f" "args_len 1 (args @ CHR '')'' # rest) = Some (length args)"
    and "call_function env f args st = (Some TH8_OK, st')" "xtag st' \<noteq> 0"
  shows "word_token env ok (f @ CHR ''('' # args @ CHR '')'' # rest) st = oom st'"
proof -
  have "\<not> alnum (CHR ''('')" by code_simp
  then have "takeWhile alnum (f @ CHR ''('' # args @ CHR '')'' # rest) = f"
    using assms(2) by (simp add: takeWhile_append list_all_iff)
  then show ?thesis using assms by (simp add: word_token_def nth_append)
qed

text \<open>
  C24: with overflow checking on, evaluating an expression is safe. For every text and length, every environment and
  every pattern of allocation failures, \<open>Th8_Expr\<close>, with the expressions nested in the arguments of math functions,
  ends with a return code: tokenizer, tree builder and evaluator never dereference a missing operand and never divide
  \<open>INT64_MIN\<close> by \<open>-1\<close>, with or without top-level commas; and the nesting counter and the modes of the interpreter
  are what they were, on success and on every error path. The callbacks of the registered math functions are
  required to keep them too. (With checking off a division can trap: \<open>unchecked_division_traps\<close>.)
\<close>

theorem expr_text_safe:
  assumes "functions_keep_modes penv" "bOverflowCheck st"
  shows "\<exists>code st'. expr_text env penv z n st = (Some code, st') \<and> nExprDepth st' = nExprDepth st \<and>
    bOverflowCheck st' = bOverflowCheck st \<and> bBigint st' = bBigint st"
proof -
  have "sound st (expr_text env penv z n st)"
    unfolding expr_text_def by (rule expr_nested_sound [OF assms(1) lessI assms(2)])
  then show ?thesis
    by (cases "expr_text env penv z n st") (auto simp: sound_def same_modes_def)
qed

theorem expr_text_safe_witness:
  "functions_keep_modes plain_parse \<and> bOverflowCheck fresh_expr \<and>
   (\<exists>code st'. expr_text plain_env plain_parse ''2*abs(3-abs(-10))'' 17 fresh_expr = (Some code, st') \<and>
      nExprDepth st' = 0 \<and> xresult st' = ''14'')"
proof -
  have check: "bOverflowCheck fresh_expr" "nExprDepth fresh_expr = 0" by (simp_all add: fresh_expr_def)
  from expr_text_safe [OF plain_parse_keeps check(1), of plain_env "''2*abs(3-abs(-10))''" 17] obtain code st' where
    "expr_text plain_env plain_parse ''2*abs(3-abs(-10))'' 17 fresh_expr = (Some code, st')" "nExprDepth st' = 0"
    using check(2) by auto
  then show ?thesis using sample_text plain_parse_keeps check by auto
qed

text \<open>
  C28: every node of an expression is freed exactly once. Whether the tokenizer, the tree builder or the
  evaluator fails or all succeed, the nodes that \<open>th8ExprEvalOne\<close> frees (the brackets in the builder, the
  other nodes by the rotating \<open>th8ExprFree\<close> over the token array) are exactly the nodes the tokenizer put into
  the array, each one time.
\<close>

theorem expr_nodes_freed_once:
  "case th8ExprParse penv z st of (rc, ts, st1) \<Rightarrow>
     mset (snd (eval_text env penv z st)) = mset (map eaddr ts) \<and> distinct (map eaddr ts)"
proof -
  obtain rc ts st1 where parse: "th8ExprParse penv z st = (rc, ts, st1)" using prod_cases3 by blast
  have "mset (snd (th8ExprEvalOne env (rc, ts) st1)) = mset (map eaddr ts)"
    by (rule one_frees [OF parse_tokens(1) [OF parse]])
  moreover have "distinct (map eaddr ts)" by (simp add: parse_tokens(2) [OF parse])
  ultimately show ?thesis by (simp add: parse eval_text_def)
qed

text \<open>
  A math function runs while the text is read, before any operator decides whether its operand is needed: the
  failing call in \<open>0&&f()\<close> makes the expression fail.
\<close>

lemma math_call_not_lazy:
  "expr_text plain_env plain_parse ''0&&f()'' 6 fresh_expr =
     (Some TH8_ERROR, fresh_expr\<lparr>xresult := ''unknown math function '' @ [DQ]\<rparr>)"
  by code_simp

end
