(* ===== verification/Th8_Vars.thy ===== *)
theory Th8_Vars
  imports Th8_ListValues Th8_Hashing
begin

text \<open>
  Variables, call frames and namespace variables: \<open>src/src/th8_vars.c\<close>, the frame stack and the
  namespace lookup of \<open>src/src/th8_core.c\<close>.

  \<^item> A \<open>Th8_Variable\<close> is a cell of an explicit store; names (entries of a frame's, a namespace's or an
    array's hash table) hold its address, so that \<open>upvar\<close>, \<open>global\<close> and \<open>variable\<close> are real aliases.
    Addresses are never reused, which is the view in which a stale pointer is visible: reading through
    an address whose cell is gone is the outcome \<open>Dangling\<close>.
  \<^item> A hash table is the association list in creation order that the hash tables refine
    (\<open>hash_table_refines_dict\<close>), its operations the \<open>dict_step\<close> of that specification.
  \<^item> The outcomes of the allocations to come are part of the state (\<open>ram\<close>): an exhausted list means
    that memory does not run out.
  \<^item> \<open>Th8_ErrorMessage\<close> writes \<open>::errorInfo\<close> with \<open>Th8_SetVar\<close>, which reports its own errors through
    \<open>Th8_ErrorMessage\<close>: the two are mutually recursive, and the model takes the depth of C stack that
    is left as an argument. Running out of it is the outcome \<open>StackOverflow\<close>.
  \<^item> Calls into other components (cache, buffer pool, event signal) are recorded in a call log.
  \<^item> The counters \<open>nEpoch\<close>, \<open>nGeneration\<close> and \<open>iArrayHashGeneration\<close> count increments, and the functions that read them give
    the count as the 32-bit \<open>int\<close> it is in the code. The reference count \<open>nRef\<close> is unbounded: its \<open>int\<close> would take \<open>2 ^ 31\<close>
    names of one variable to overflow; \<open>nWait\<close>, which only \<open>vwait\<close> reads, is unbounded too. The encryption of secure variables
    (\<open>TH8_ENABLE_CRYPTOGRAPHY\<close>) is not part of this model.
\<close>

section \<open>State\<close>

datatype fault = Dangling | NullDeref | OverRead | SignedOverflow | StackOverflow

type_synonym 'a run = "fault + 'a"

fun andThen :: "'a run \<Rightarrow> ('a \<Rightarrow> 'b run) \<Rightarrow> 'b run" where
  "andThen (Inl f) k = Inl f"
| "andThen (Inr x) k = k x"

type_synonym vaddr = nat

type_synonym vtable = "(string \<times> vaddr option) list"

text \<open>A name: its bytes, and the tag bits (taint, sensitivity) of the length it is passed with.\<close>

type_synonym vname = "string \<times> size_t"

record Th8_Variable =
  nRef :: int
  bBorrowed :: bool
  nData :: size_t
  nAlloc :: nat
  vzData :: "string option"
  pHash :: "vtable option"
  nEpoch :: int
  nGeneration :: int
  nWait :: int

definition new_variable :: Th8_Variable where
  "new_variable = \<lparr>nRef = 1, bBorrowed = False, nData = 0, nAlloc = 0, vzData = None, pHash = None,
     nEpoch = 0, nGeneration = 0, nWait = 0\<rparr>"

text \<open>A frame has its own table; its caller is an older frame, by position in the stack.\<close>

record Th8_Frame =
  paVar :: vtable
  pCaller :: "nat option"

datatype call = RemoveFromCache string | SignalAllStates | SecureZero nat | BufferFree nat | DataFree

text \<open>
  Namespaces are kept with their path from the global namespace, which has the empty path; the path
  of a child extends that of its parent by one component, and its length is \<open>nDepth\<close>.
\<close>

record vstate =
  cells :: "vaddr \<Rightarrow> Th8_Variable option"
  nFresh :: vaddr
  frames :: "Th8_Frame list"
  curFrame :: nat
  namespaces :: "(string list \<times> vtable) list"
  pCurrentNs :: "string list"
  iArrayHashGeneration :: int
  paSystemVar :: "string list option"
  vzResult :: "string option"
  vnResult :: size_t
  ram :: "bool list"
  calls :: "call list"

abbreviation TH8_MX_NS_DEPTH :: nat where "TH8_MX_NS_DEPTH \<equiv> 1000"
abbreviation TH8_SENSITIVE_BIT :: size_t where "TH8_SENSITIVE_BIT \<equiv> 0x20000000"

primrec allocs :: "nat \<Rightarrow> vstate \<Rightarrow> bool \<times> vstate" where
  "allocs 0 st = (True, st)"
| "allocs (Suc n) st =
     (case ram st of
        [] \<Rightarrow> (True, st)
      | b # bs \<Rightarrow> if b then allocs n (st\<lparr>ram := bs\<rparr>) else (False, st\<lparr>ram := bs\<rparr>))"

definition note_calls :: "call list \<Rightarrow> vstate \<Rightarrow> vstate" where
  "note_calls cs st = st\<lparr>calls := calls st @ cs\<rparr>"

definition put_cell :: "vaddr \<Rightarrow> Th8_Variable \<Rightarrow> vstate \<Rightarrow> vstate" where
  "put_cell a v st = st\<lparr>cells := (cells st)(a := Some v)\<rparr>"

definition deref :: "vaddr \<Rightarrow> vstate \<Rightarrow> Th8_Variable run" where
  "deref a st = (case cells st a of None \<Rightarrow> Inl Dangling | Some v \<Rightarrow> Inr v)"

section \<open>Results\<close>

definition static_result :: "string \<Rightarrow> vstate \<Rightarrow> vstate" where
  "static_result z st = st\<lparr>vzResult := Some z, vnResult := of_nat (length z)\<rparr>"

definition Th8_SetResult :: "string option \<Rightarrow> size_t \<Rightarrow> vstate \<Rightarrow> int \<times> vstate" where
  "Th8_SetResult z n st =
     (let st = st\<lparr>vzResult := None, vnResult := 0\<rparr> in
      case z of
        None \<Rightarrow> (TH8_OK, st)
      | Some z \<Rightarrow>
          (let bytes = (if n = TH8_NOLEN then z else bytes_of z n);
               nRes = (if n = TH8_NOLEN then of_nat (length z) else TH8_LEN n OR (n AND TH8_TAG_BITS)) in
           case allocs 1 st of
             (False, st) \<Rightarrow> (TH8_ERROR, st)
           | (True, st) \<Rightarrow> (TH8_OK, st\<lparr>vzResult := Some bytes, vnResult := nRes\<rparr>)))"

text \<open>The text of a message, and the number of appends that build it.\<close>

definition message :: "string \<Rightarrow> string \<Rightarrow> string" where
  "message zPre z =
     (if zPre \<noteq> [] \<and> last zPre = DQ then zPre @ z @ [DQ]
      else if zPre \<noteq> [] \<and> last zPre = CHR '' '' then zPre @ z
      else zPre @ '' '' @ z)"

definition message_appends :: "string \<Rightarrow> nat" where
  "message_appends zPre = (if zPre \<noteq> [] \<and> last zPre = CHR '' '' then 2 else 3)"

type_synonym setter = "vname \<Rightarrow> string \<Rightarrow> size_t \<Rightarrow> vstate \<Rightarrow> (int \<times> vstate) run"

definition Th8_ErrorMessage :: "setter \<Rightarrow> string \<Rightarrow> vname \<Rightarrow> vstate \<Rightarrow> vstate run" where
  "Th8_ErrorMessage sv zPre name st =
     (let (z, nTag) = (if snd name AND TH8_SENSITIVE_BIT \<noteq> 0 then (''<sensitive value withheld>'', 0)
                       else (fst name, snd name AND TH8_TAG_BITS));
          zRes = message zPre z in
      andThen (sv (''::errorInfo'', 0) [] 0 st) (\<lambda>(rc, st).
        case allocs (message_appends zPre) st of
          (False, st) \<Rightarrow> Inr (static_result ''out of memory'' st)
        | (True, st) \<Rightarrow> Inr (snd (Th8_SetResult (Some zRes) (of_nat (length zRes) OR nTag) st))))"

section \<open>Names\<close>

definition th8AnalyzeVarName :: "string \<Rightarrow> string \<times> string option \<times> bool" where
  "th8AnalyzeVarName zVar =
     (let bGlobal = (length zVar > 2 \<and> take 2 zVar = ''::'');
          zOuter = (if bGlobal then drop 2 zVar else zVar) in
      if zOuter \<noteq> [] \<and> last zOuter = CHR '')'' \<and> CHR ''('' \<in> set zOuter then
        (takeWhile (\<lambda>c. c \<noteq> CHR ''('') zOuter,
         Some (butlast (tl (dropWhile (\<lambda>c. c \<noteq> CHR ''('') zOuter))), bGlobal)
      else (zOuter, None, bGlobal))"

definition sep_at :: "string \<Rightarrow> nat \<Rightarrow> bool" where
  "sep_at z i \<longleftrightarrow> z ! i = CHR '':'' \<and> z ! Suc i = CHR '':''"

definition has_sep :: "string \<Rightarrow> bool" where
  "has_sep z = list_ex (sep_at z) [0..<length z - 1]"

definition th8SplitQualName :: "string \<Rightarrow> string option \<times> string" where
  "th8SplitQualName zName =
     (case find (sep_at zName) (rev [0..<length zName - 1]) of
        None \<Rightarrow> (None, zName)
      | Some i \<Rightarrow>
          (let nLast = i - length (takeWhile (\<lambda>c. c = CHR '':'') (rev (take i zName)))
           in (Some (take nLast zName), drop (nLast + 2) zName)))"

section \<open>Frames and tables\<close>

fun frame_chain :: "Th8_Frame list \<Rightarrow> nat \<Rightarrow> nat list" where
  "frame_chain fs i =
     i # (case if i < length fs then pCaller (fs ! i) else None of
            None \<Rightarrow> []
          | Some j \<Rightarrow> if j < i then frame_chain fs j else [])"

declare frame_chain.simps [simp del]

definition frame_of :: "bool \<Rightarrow> vstate \<Rightarrow> nat" where
  "frame_of bGlobal st =
     (if bGlobal then last (frame_chain (frames st) (curFrame st)) else curFrame st)"

datatype place = FrameVars nat | NsVars "string list" | Elements vaddr

fun get_table :: "place \<Rightarrow> vstate \<Rightarrow> vtable run" where
  "get_table (FrameVars i) st = (if i < length (frames st) then Inr (paVar (frames st ! i)) else Inl Dangling)"
| "get_table (NsVars p) st = (case map_of (namespaces st) p of None \<Rightarrow> Inl Dangling | Some t \<Rightarrow> Inr t)"
| "get_table (Elements a) st =
     andThen (deref a st) (\<lambda>v. case pHash v of None \<Rightarrow> Inl NullDeref | Some t \<Rightarrow> Inr t)"

fun put_table :: "place \<Rightarrow> vtable \<Rightarrow> vstate \<Rightarrow> vstate" where
  "put_table (FrameVars i) t st = st\<lparr>frames := (frames st)[i := (frames st ! i)\<lparr>paVar := t\<rparr>]\<rparr>"
| "put_table (NsVars p) t st = st\<lparr>namespaces := map (\<lambda>(q, u). (q, if q = p then t else u)) (namespaces st)\<rparr>"
| "put_table (Elements a) t st =
     (case cells st a of None \<Rightarrow> st | Some v \<Rightarrow> put_cell a (v\<lparr>pHash := Some t\<rparr>) st)"

text \<open>
  The lookup that \<open>th8FindValue\<close> makes in a frame, in a namespace and in an array: \<open>Th8_HashFind\<close>
  with the create flag, and a new variable for an entry without one. A failed allocation of the
  variable leaves the new entry in the table, without data.
\<close>

definition find_or_create :: "place \<Rightarrow> string \<Rightarrow> bool \<Rightarrow> vstate \<Rightarrow> (vaddr option \<times> vstate) run" where
  "find_or_create pl k bCreate st =
     andThen (get_table pl st) (\<lambda>t.
       case map_of t k of
         Some (Some a) \<Rightarrow> Inr (Some a, st)
       | found \<Rightarrow>
           if \<not> bCreate then Inr (None, st)
           else
             (case (if found = None then allocs 2 st else (True, st)) of
                (False, st) \<Rightarrow> Inr (None, st)
              | (True, st) \<Rightarrow>
                  (let t = dict_step (Create k) t; st = put_table pl t st in
                   case allocs 1 st of
                     (False, st) \<Rightarrow> Inr (None, st)
                   | (True, st) \<Rightarrow>
                       (let a = nFresh st;
                            st = put_cell a new_variable (st\<lparr>nFresh := Suc a\<rparr>)
                        in Inr (Some a, put_table pl (dict_step (Assign k (Some a)) t) st)))))"

section \<open>Namespaces\<close>

fun ns_split :: "string \<Rightarrow> string \<times> string" where
  "ns_split (a # b # cs) =
     (if a = CHR '':'' \<and> b = CHR '':'' then ([], a # b # cs)
      else (let (p, q) = ns_split (b # cs) in (a # p, q)))"
| "ns_split cs = (cs, [])"

lemma ns_split_append: "ns_split z = (p, q) \<Longrightarrow> z = p @ q"
  by (induction z arbitrary: p q rule: ns_split.induct) (auto split: if_splits prod.splits)

function ns_walk :: "bool \<Rightarrow> string list \<Rightarrow> string \<Rightarrow> vstate \<Rightarrow> string list option \<times> vstate" where
  "ns_walk bCreate p z st =
     (if z = [] then (Some p, st)
      else
        (let comp = fst (ns_split z); rest = snd (ns_split z); q = p @ [comp] in
         if comp = [] then ns_walk bCreate p (drop 2 z) st
         else if q \<in> fst ` set (namespaces st) then ns_walk bCreate q (drop 2 rest) st
         else if \<not> bCreate then (None, st)
         else if length p \<ge> TH8_MX_NS_DEPTH then
           (None, static_result ''namespace nested too deeply'' st)
         else
           (case allocs 7 st of
              (False, st) \<Rightarrow> (None, st)
            | (True, st) \<Rightarrow> ns_walk bCreate q (drop 2 rest) (st\<lparr>namespaces := namespaces st @ [(q, [])]\<rparr>))))"
  by pat_completeness auto
termination ns_walk
proof (relation "measure (\<lambda>(_, _, z, _). length z)", goal_cases)
  case 1 show ?case by simp
next
  case (2 c p z st)
  then show ?case by (cases z) auto
next
  case (3 c p z st)
  then show ?case using ns_split_append [of z "fst (ns_split z)" "snd (ns_split z)"]
    by (simp add: neq_Nil_conv) (metis append_Cons diff_less_Suc le_less_trans length_Cons length_append trans_less_add2 less_Suc_eq_le diff_le_self le_add2)
next
  case (4 c p z st)
  then show ?case using ns_split_append [of z "fst (ns_split z)" "snd (ns_split z)"]
    by (simp add: neq_Nil_conv) (metis append_Cons diff_less_Suc le_less_trans length_Cons length_append trans_less_add2 less_Suc_eq_le diff_le_self le_add2)
qed

declare ns_walk.simps [simp del]

definition th8FindNamespaceEx :: "string \<Rightarrow> bool \<Rightarrow> vstate \<Rightarrow> string list option \<times> vstate" where
  "th8FindNamespaceEx zName bCreate st =
     (if zName = [] \<or> zName = ''::'' then (Some [], st)
      else
        (let (p, z) = (if take 2 zName = ''::'' then ([], drop 2 zName) else (pCurrentNs st, zName)) in
         case ns_walk bCreate p z st of
           (Some q, st') \<Rightarrow> (Some q, st')
         | (None, st') \<Rightarrow> (None, st'\<lparr>namespaces := namespaces st\<rparr>)))"

section \<open>Lookup\<close>

definition new_hash :: "vaddr \<Rightarrow> Th8_Variable \<Rightarrow> vstate \<Rightarrow> vstate" where
  "new_hash a v st =
     put_cell a (v\<lparr>pHash := Some [], nGeneration := iArrayHashGeneration st + 1\<rparr>)
       (st\<lparr>iArrayHashGeneration := iArrayHashGeneration st + 1\<rparr>)"

definition bump_epoch :: "vaddr \<Rightarrow> vstate \<Rightarrow> vstate run" where
  "bump_epoch a st = andThen (deref a st) (\<lambda>v. Inr (put_cell a (v\<lparr>nEpoch := nEpoch v + 1\<rparr>) st))"

text \<open>The outer variable, in a namespace's table or in a frame's.\<close>

definition find_outer :: "string \<Rightarrow> bool \<Rightarrow> bool \<Rightarrow> vstate \<Rightarrow> (vaddr option \<times> vstate) run" where
  "find_outer zOuter bGlobal bCreate st =
     (if bGlobal \<and> has_sep zOuter then
        (let (ns, zTail) = th8SplitQualName zOuter;
             zNsPath = (case ns of None \<Rightarrow> [] | Some z \<Rightarrow> z) in
         case allocs (if zNsPath = [] then 1 else 2) st of
           (False, st) \<Rightarrow> Inr (None, static_result ''out of memory'' st)
         | (True, st) \<Rightarrow>
             (case th8FindNamespaceEx (''::'' @ zNsPath) bCreate st of
                (None, st) \<Rightarrow> Inr (None, st)
              | (Some p, st) \<Rightarrow> find_or_create (NsVars p) zTail bCreate st))
      else find_or_create (FrameVars (frame_of bGlobal st)) zOuter bCreate st)"

definition find_element ::
  "setter \<Rightarrow> string \<Rightarrow> vaddr \<Rightarrow> string \<Rightarrow> bool \<Rightarrow> vstate \<Rightarrow> (vaddr option \<times> vstate) run" where
  "find_element sv zOuter a zInner bCreate st =
     andThen (deref a st) (\<lambda>v.
       let lookup = (\<lambda>st. andThen (find_or_create (Elements a) zInner bCreate st) (\<lambda>(r, st).
             if r \<noteq> None \<and> bCreate then andThen (bump_epoch a st) (\<lambda>st. Inr (r, st)) else Inr (r, st))) in
       if pHash v \<noteq> None then lookup st
       else if \<not> bCreate then Inr (None, st)
       else if vzData v \<noteq> None then
         andThen (Th8_ErrorMessage sv ''variable is a scalar:'' (zOuter, 0) st) (\<lambda>st. Inr (None, st))
       else
         (case allocs 1 st of
            (False, st) \<Rightarrow> Inr (None, st)
          | (True, st) \<Rightarrow> lookup (new_hash a v st)))"

definition th8FindValue :: "setter \<Rightarrow> string \<Rightarrow> bool \<Rightarrow> vstate \<Rightarrow> (vaddr option \<times> vstate) run" where
  "th8FindValue sv zVar bCreate st =
     (let (zOuter, zInner, bGlobal) = th8AnalyzeVarName zVar in
      andThen (find_outer zOuter bGlobal bCreate st) (\<lambda>(r, st).
        case (r, zInner) of
          (Some a, Some i) \<Rightarrow> find_element sv zOuter a i bCreate st
        | _ \<Rightarrow> Inr (r, st)))"

section \<open>Reading and writing\<close>

text \<open>What is released of the old value: secret bytes are zeroed first.\<close>

definition release_data :: "Th8_Variable \<Rightarrow> call list" where
  "release_data v =
     (if vzData v \<noteq> None \<and> nData v AND TH8_SENSITIVE_BIT \<noteq> 0
      then [SecureZero (if nAlloc v > 0 then nAlloc v else unat (TH8_LEN (nData v)) + 1)] else []) @
     (if bBorrowed v then (if nAlloc v > 0 then [BufferFree (nAlloc v)] else []) else [DataFree])"

definition write_scalar :: "vname \<Rightarrow> vaddr \<Rightarrow> Th8_Variable \<Rightarrow> string \<Rightarrow> size_t \<Rightarrow> vstate \<Rightarrow> int \<times> vstate" where
  "write_scalar name a v bytes nTag st =
     (let st = note_calls (RemoveFromCache (fst name) # release_data v) st;
          v = v\<lparr>bBorrowed := False, nAlloc := 0, nData := of_nat (length bytes) OR nTag\<rparr> in
      case allocs 1 st of
        (False, st) \<Rightarrow> (TH8_ERROR, static_result ''out of memory'' (put_cell a (v\<lparr>vzData := None\<rparr>) st))
      | (True, st) \<Rightarrow>
          (TH8_OK, note_calls [SignalAllStates]
             (put_cell a (v\<lparr>vzData := Some bytes, nWait := nWait v + 1\<rparr>) st)))"

primrec Th8_SetVar :: "nat \<Rightarrow> setter" where
  "Th8_SetVar 0 = (\<lambda>name zVal nVal st. Inl StackOverflow)"
| "Th8_SetVar (Suc depth) = (\<lambda>name zVal nVal st.
     andThen (th8FindValue (Th8_SetVar depth) (fst name) True st) (\<lambda>(r, st).
       case r of
         None \<Rightarrow> Inr (TH8_ERROR, st)
       | Some a \<Rightarrow>
           andThen (deref a st) (\<lambda>v.
             if pHash v \<noteq> None then
               andThen (Th8_ErrorMessage (Th8_SetVar depth) ''can't set variable (is array):'' name st)
                 (\<lambda>st. Inr (TH8_ERROR, st))
             else if nVal = TH8_NOLEN then Inr (write_scalar name a v zVal 0 st)
             else Inr (write_scalar name a v (bytes_of zVal nVal) (nVal AND TH8_TAG_BITS) st))))"

definition errorMessage :: "nat \<Rightarrow> string \<Rightarrow> vname \<Rightarrow> vstate \<Rightarrow> (int \<times> vstate) run" where
  "errorMessage depth zPre name st =
     andThen (Th8_ErrorMessage (Th8_SetVar depth) zPre name st) (\<lambda>st. Inr (TH8_ERROR, st))"

text \<open>The common part of the readers: the variable of a name that has a scalar value, or the message.\<close>

definition read_scalar ::
  "nat \<Rightarrow> vname \<Rightarrow> vstate \<Rightarrow> (Th8_Variable option \<times> vstate) run" where
  "read_scalar depth name st =
     andThen (th8FindValue (Th8_SetVar depth) (fst name) False st) (\<lambda>(r, st).
       case r of
         None \<Rightarrow>
           andThen (errorMessage depth (''no such variable: '' @ [DQ]) name st) (\<lambda>(rc, st). Inr (None, st))
       | Some a \<Rightarrow>
           andThen (deref a st) (\<lambda>v.
             if pHash v \<noteq> None \<and> vzData v = None then
               andThen (errorMessage depth (''variable is an array: '' @ [DQ]) name st) (\<lambda>(rc, st). Inr (None, st))
             else Inr (Some v, st)))"

definition Th8_GetVar :: "nat \<Rightarrow> vname \<Rightarrow> vstate \<Rightarrow> (int \<times> vstate) run" where
  "Th8_GetVar depth name st =
     andThen (read_scalar depth name st) (\<lambda>(r, st).
       case r of None \<Rightarrow> Inr (TH8_ERROR, st) | Some v \<Rightarrow> Inr (Th8_SetResult (vzData v) (nData v) st))"

definition th8GetVarValue :: "nat \<Rightarrow> vname \<Rightarrow> vstate \<Rightarrow> (int \<times> (string option \<times> size_t) option \<times> vstate) run" where
  "th8GetVarValue depth name st =
     andThen (read_scalar depth name st) (\<lambda>(r, st).
       case r of
         None \<Rightarrow> Inr (TH8_ERROR, None, st)
       | Some v \<Rightarrow> Inr (TH8_OK, Some (vzData v, nData v), st))"

text \<open>The writers that a variable with a borrowed buffer has.\<close>

definition th8SetVarLength :: "nat \<Rightarrow> vname \<Rightarrow> string \<Rightarrow> size_t \<Rightarrow> vstate \<Rightarrow> (int \<times> vstate) run" where
  "th8SetVarLength depth name zNewData nNewLen st =
     andThen (th8FindValue (Th8_SetVar depth) (fst name) False st) (\<lambda>(r, st).
       case r of
         None \<Rightarrow> Inr (TH8_ERROR, st)
       | Some a \<Rightarrow>
           andThen (deref a st) (\<lambda>v.
             if \<not> bBorrowed v then Inr (TH8_ERROR, st)
             else Inr (TH8_OK, note_calls [SignalAllStates]
               (put_cell a (v\<lparr>vzData := Some (bytes_of zNewData nNewLen), nData := TH8_LEN nNewLen,
                  nWait := nWait v + 1\<rparr>) st))))"

definition append_cell :: "vaddr \<Rightarrow> Th8_Variable \<Rightarrow> (string \<times> size_t) list \<Rightarrow> vstate \<Rightarrow> (int \<times> vstate) run" where
  "append_cell a v args st =
     (if \<not> bBorrowed v \<or> nAlloc v = 0 then Inr (TH8_ERROR, st)
      else
        (let nCur = unat (TH8_LEN (nData v));
             nTag = fold (\<lambda>(z, n) t. t OR (n AND TH8_TAG_BITS)) args (nData v AND TH8_TAG_BITS);
             nNeeded = nCur + sum_list (map (\<lambda>(z, n). unat (TH8_LEN n)) args) in
         if nNeeded \<ge> 2 ^ 64 \<or> nNeeded \<ge> nAlloc v then Inr (TH8_ERROR, st)
         else
           (case vzData v of
              None \<Rightarrow> Inl NullDeref
            | Some z \<Rightarrow>
                (let zNew = take nCur z @ concat (map (\<lambda>(z, n). bytes_of z n) args);
                     nNew = of_nat nNeeded OR nTag;
                     st = put_cell a (v\<lparr>vzData := Some zNew, nData := nNew\<rparr>) st
                 in Inr (TH8_OK, snd (Th8_SetResult (Some zNew) nNew st))))))"

definition th8AppendInPlace :: "nat \<Rightarrow> vname \<Rightarrow> (string \<times> size_t) list \<Rightarrow> vstate \<Rightarrow> (int \<times> vstate) run" where
  "th8AppendInPlace depth name args st =
     andThen (th8FindValue (Th8_SetVar depth) (fst name) False st) (\<lambda>(r, st).
       case r of
         None \<Rightarrow> Inr (TH8_ERROR, st)
       | Some a \<Rightarrow> andThen (deref a st) (\<lambda>v. append_cell a v args st))"

text \<open>The buffer that \<open>th8SetVarValue\<close> takes over: its bytes, the used length with tags, its capacity.\<close>

definition th8SetVarValue ::
  "nat \<Rightarrow> vname \<Rightarrow> (string \<times> size_t \<times> nat) option \<Rightarrow> vstate \<Rightarrow> (int \<times> vstate) run" where
  "th8SetVarValue depth name buffer st =
     (case buffer of
        None \<Rightarrow> Inr (TH8_ERROR, st)
      | Some (pBuf, nUsed, nCapacity) \<Rightarrow>
          andThen (th8FindValue (Th8_SetVar depth) (fst name) True st) (\<lambda>(r, st).
            case r of
              None \<Rightarrow> Inr (TH8_ERROR, st)
            | Some a \<Rightarrow>
                andThen (deref a st) (\<lambda>v.
                  if pHash v \<noteq> None then errorMessage depth ''can't set variable (is array):'' name st
                  else Inr (TH8_OK, note_calls (release_data v @ [SignalAllStates])
                    (put_cell a (v\<lparr>vzData := Some (bytes_of pBuf nUsed),
                       nData := TH8_LEN nUsed OR (nUsed AND TH8_TAG_BITS),
                       nAlloc := nCapacity, bBorrowed := True, nWait := nWait v + 1\<rparr>) st)))))"

section \<open>Release\<close>

text \<open>
  The recursion of \<open>th8FreeVariable\<close> through the elements of an array is bounded by the number of
  variables: every nested call starts at a variable whose count has just become zero.
\<close>

definition th8FreeVarEntry :: "(vaddr \<Rightarrow> vstate \<Rightarrow> vstate run) \<Rightarrow> string \<times> vaddr option \<Rightarrow> vstate \<Rightarrow> vstate run" where
  "th8FreeVarEntry fr e st = (case snd e of None \<Rightarrow> Inr st | Some a \<Rightarrow> fr a st)"

primrec free_entries :: "(vaddr \<Rightarrow> vstate \<Rightarrow> vstate run) \<Rightarrow> vtable \<Rightarrow> vstate \<Rightarrow> vstate run" where
  "free_entries fr [] st = Inr st"
| "free_entries fr (e # t) st = andThen (th8FreeVarEntry fr e st) (free_entries fr t)"

primrec th8FreeVariable :: "nat \<Rightarrow> vaddr \<Rightarrow> vstate \<Rightarrow> vstate run" where
  "th8FreeVariable 0 = (\<lambda>a st. Inl StackOverflow)"
| "th8FreeVariable (Suc n) = (\<lambda>a st.
     andThen (deref a st) (\<lambda>v.
       if nRef v \<le> 0 then Inr st
       else
         (let v = v\<lparr>nRef := nRef v - 1\<rparr>; st = put_cell a v st in
          if nRef v > 0 then Inr st
          else
            andThen (free_entries (th8FreeVariable n) (case pHash v of None \<Rightarrow> [] | Some t \<Rightarrow> t)
                       (note_calls (release_data v) st))
              (\<lambda>st. Inr (st\<lparr>cells := (cells st)(a := None)\<rparr>)))))"

abbreviation (input) free_var :: "vaddr \<Rightarrow> vstate \<Rightarrow> vstate run" where
  "free_var a st \<equiv> th8FreeVariable (Suc (nFresh st)) a st"

section \<open>Unset, tests and links\<close>

definition remove_entry :: "place \<Rightarrow> string \<Rightarrow> vstate \<Rightarrow> vstate run" where
  "remove_entry pl k st = andThen (get_table pl st) (\<lambda>t. Inr (put_table pl (dict_step (Remove k) t) st))"

definition bump_wait :: "vaddr \<Rightarrow> vstate \<Rightarrow> vstate run" where
  "bump_wait a st = andThen (deref a st) (\<lambda>v.
     Inr (note_calls [SignalAllStates] (put_cell a (v\<lparr>nWait := nWait v + 1\<rparr>) st)))"

primrec unlink_entries :: "vaddr \<Rightarrow> nat \<Rightarrow> vtable \<Rightarrow> vstate \<Rightarrow> vstate run" where
  "unlink_entries a p [] st = Inr st"
| "unlink_entries a p (e # t) st =
     (if snd e = Some a then
        andThen (free_var a st) (\<lambda>st. andThen (remove_entry (FrameVars p) (fst e) st) (unlink_entries a p t))
      else unlink_entries a p t st)"

primrec unlink_frames :: "vaddr \<Rightarrow> nat \<Rightarrow> nat list \<Rightarrow> vstate \<Rightarrow> vstate run" where
  "unlink_frames a iFrame [] st = Inr st"
| "unlink_frames a iFrame (p # ps) st =
     (if p = iFrame then unlink_frames a iFrame ps st
      else andThen (get_table (FrameVars p) st) (\<lambda>t.
             andThen (unlink_entries a p t st) (unlink_frames a iFrame ps)))"

definition unset_element :: "nat \<Rightarrow> vname \<Rightarrow> vaddr \<Rightarrow> string \<Rightarrow> vstate \<Rightarrow> (int \<times> vstate) run" where
  "unset_element depth name a zInner st =
     andThen (deref a st) (\<lambda>v.
       case pHash v of
         None \<Rightarrow> errorMessage depth ''no such variable:'' name st
       | Some t \<Rightarrow>
           (case map_of t zInner of
              None \<Rightarrow> errorMessage depth ''no such variable:'' name st
            | Some d \<Rightarrow>
                andThen (case d of None \<Rightarrow> Inr st | Some e \<Rightarrow> andThen (bump_wait e st) (\<lambda>st. free_var e st)) (\<lambda>st.
                andThen (remove_entry (Elements a) zInner st) (\<lambda>st.
                andThen (bump_epoch a st) (\<lambda>st. Inr (TH8_OK, st))))))"

definition unset_whole :: "nat \<Rightarrow> string \<Rightarrow> vaddr \<Rightarrow> vstate \<Rightarrow> (int \<times> vstate) run" where
  "unset_whole iFrame zOuter a st =
     andThen (deref a st) (\<lambda>v.
     andThen (if nRef v > 1 then unlink_frames a iFrame (frame_chain (frames st) (curFrame st)) st else Inr st) (\<lambda>st.
     andThen (bump_wait a (note_calls [RemoveFromCache zOuter] st)) (\<lambda>st.
     andThen (free_var a st) (\<lambda>st.
     andThen (remove_entry (FrameVars iFrame) zOuter st) (\<lambda>st. Inr (TH8_OK, st))))))"

definition Th8_UnsetVar :: "nat \<Rightarrow> vname \<Rightarrow> vstate \<Rightarrow> (int \<times> vstate) run" where
  "Th8_UnsetVar depth name st =
     (let (zOuter, zInner, bGlobal) = th8AnalyzeVarName (fst name); iFrame = frame_of bGlobal st in
      andThen (get_table (FrameVars iFrame) st) (\<lambda>t.
        case map_of t zOuter of
          Some (Some a) \<Rightarrow>
            (case zInner of
               Some i \<Rightarrow> unset_element depth name a i st
             | None \<Rightarrow> unset_whole iFrame zOuter a st)
        | _ \<Rightarrow> errorMessage depth ''no such variable:'' name st))"

definition Th8_ExistsVar :: "nat \<Rightarrow> vname \<Rightarrow> vstate \<Rightarrow> (bool \<times> vstate) run" where
  "Th8_ExistsVar depth name st =
     andThen (th8FindValue (Th8_SetVar depth) (fst name) False st) (\<lambda>(r, st).
       case r of
         None \<Rightarrow> Inr (False, snd (Th8_SetResult None 0 st))
       | Some a \<Rightarrow> andThen (deref a st) (\<lambda>v. Inr (vzData v \<noteq> None \<or> pHash v \<noteq> None, st)))"

text \<open>The lookup that the array accessors share: the frame's entry for the outer name.\<close>

definition frame_array :: "string \<Rightarrow> vstate \<Rightarrow> (string option \<times> Th8_Variable option) run" where
  "frame_array zVar st =
     (let (zOuter, zInner, bGlobal) = th8AnalyzeVarName zVar in
      andThen (get_table (FrameVars (frame_of bGlobal st)) st) (\<lambda>t.
        case map_of t zOuter of
          Some (Some a) \<Rightarrow> andThen (deref a st) (\<lambda>v. Inr (zInner, Some v))
        | _ \<Rightarrow> Inr (zInner, None)))"

definition Th8_ExistsArrayVar :: "string \<Rightarrow> vstate \<Rightarrow> bool run" where
  "Th8_ExistsArrayVar zVar st = andThen (frame_array zVar st) (\<lambda>(i, r).
     case r of None \<Rightarrow> Inr False | Some v \<Rightarrow> Inr (pHash v \<noteq> None))"

text \<open>
  The fields \<open>nEpoch\<close>, \<open>nGeneration\<close> and \<open>iArrayHashGeneration\<close> count the increments. The C fields are of type \<open>int\<close> and hold
  the count modulo \<open>2 ^ 32\<close>; that value is read only here, and nothing but a comparison for equality is done with it.
\<close>

definition th8GetArrayEpoch :: "string \<Rightarrow> vstate \<Rightarrow> int run" where
  "th8GetArrayEpoch zVar st = andThen (frame_array zVar st) (\<lambda>(i, r).
     case (i, r) of (None, Some v) \<Rightarrow> Inr (if pHash v = None then - 1 else wrap32 (nEpoch v)) | _ \<Rightarrow> Inr (- 1))"

definition th8GetArrayGeneration :: "string \<Rightarrow> vstate \<Rightarrow> int run" where
  "th8GetArrayGeneration zVar st = andThen (frame_array zVar st) (\<lambda>(i, r).
     case (i, r) of (None, Some v) \<Rightarrow> Inr (if pHash v = None then - 1 else wrap32 (nGeneration v)) | _ \<Rightarrow> Inr (- 1))"

definition th8GetArrayElementHash :: "string \<Rightarrow> vstate \<Rightarrow> vtable option run" where
  "th8GetArrayElementHash zVar st = andThen (frame_array zVar st) (\<lambda>(i, r).
     case (i, r) of (None, Some v) \<Rightarrow> Inr (pHash v) | _ \<Rightarrow> Inr None)"

text \<open>
  The target frame of a link: an absolute number is turned into a number of steps up the chain of
  callers; a number below zero steps makes none.
\<close>

definition link_target :: "int \<Rightarrow> vstate \<Rightarrow> nat option" where
  "link_target iFrame st =
     (let chain = frame_chain (frames st) (curFrame st);
          iFrame = (if iFrame \<ge> 0 then - (int (length chain) - 1 - iFrame) else iFrame);
          steps = nat (- iFrame)
      in if steps < length chain then Some (chain ! steps) else None)"

text \<open>
  The link itself. The local name is looked up with the length that the caller passes, and the hash table would take tag bits for a
  part of the length; so the length must have none. The commands mask it with \<open>TH8_LEN\<close> before the call, and the tail of a
  qualified name in \<open>variable\<close>, whose tagged length is not masked, runs out of bounds before it gets here
  (\<open>tainted_variable_scan\<close>).
\<close>

definition make_link :: "nat \<Rightarrow> vname \<Rightarrow> vaddr \<Rightarrow> vstate \<Rightarrow> (int \<times> vstate) run" where
  "make_link depth local a st =
     andThen (get_table (FrameVars (curFrame st)) st) (\<lambda>t.
       case map_of t (fst local) of
         Some (Some _) \<Rightarrow> errorMessage depth ''variable exists:'' local st
       | found \<Rightarrow>
           (case (if found = None then allocs 2 st else (True, st)) of
              (False, st) \<Rightarrow> andThen (deref a st) (\<lambda>v. Inl NullDeref)
            | (True, st) \<Rightarrow>
                andThen (deref a st) (\<lambda>v.
                  Inr (TH8_OK, put_table (FrameVars (curFrame st))
                    (dict_step (Assign (fst local) (Some a)) (dict_step (Create (fst local)) t))
                    (put_cell a (v\<lparr>nRef := nRef v + 1\<rparr>) st)))))"

definition Th8_LinkVar :: "nat \<Rightarrow> vname \<Rightarrow> int \<Rightarrow> vname \<Rightarrow> vstate \<Rightarrow> (int \<times> vstate) run" where
  "Th8_LinkVar depth local iFrame remote st =
     (case link_target iFrame st of
        None \<Rightarrow> errorMessage depth ''no such frame:'' local st
      | Some target \<Rightarrow>
          andThen (th8FindValue (Th8_SetVar depth) (fst remote) True (st\<lparr>curFrame := target\<rparr>)) (\<lambda>(r, st').
            let st = st'\<lparr>curFrame := curFrame st\<rparr> in
            case r of
              None \<Rightarrow> errorMessage depth ''no such variable:'' remote st
            | Some a \<Rightarrow> make_link depth local a st))"

section \<open>Frames\<close>

definition th8PushFrame :: "vstate \<Rightarrow> int \<times> vstate" where
  "th8PushFrame st =
     (case allocs 1 st of
        (False, st) \<Rightarrow> (TH8_ERROR, st)
      | (True, st) \<Rightarrow>
          (TH8_OK, st\<lparr>frames := frames st @
             [\<lparr>paVar = [], pCaller = (if frames st = [] then None else Some (curFrame st))\<rparr>],
             curFrame := length (frames st)\<rparr>))"

text \<open>
  The frame that is popped is the newest one: the evaluator restores the frame of a procedure or
  \<open>namespace eval\<close> before it pops it.
\<close>

definition th8PopFrame :: "vstate \<Rightarrow> vstate run" where
  "th8PopFrame st =
     (if Suc (curFrame st) \<noteq> length (frames st) then Inl Dangling
      else
        (let f = last (frames st) in
         andThen (free_entries (th8FreeVariable (Suc (nFresh st))) (paVar f) st) (\<lambda>st.
           Inr (st\<lparr>frames := butlast (frames st),
                  curFrame := (case pCaller f of None \<Rightarrow> 0 | Some j \<Rightarrow> j)\<rparr>))))"

section \<open>System variables\<close>

definition Th8_DeclareSystemVar :: "string \<Rightarrow> vstate \<Rightarrow> int \<times> vstate" where
  "Th8_DeclareSystemVar zName st =
     (case (case paSystemVar st of None \<Rightarrow> allocs 1 st | Some t \<Rightarrow> (True, st)) of
        (False, st) \<Rightarrow> (TH8_ERROR, st)
      | (True, st) \<Rightarrow>
          (let keys = (case paSystemVar st of None \<Rightarrow> [] | Some t \<Rightarrow> t) in
           case (if zName \<in> set keys then (True, st) else allocs 2 st) of
             (False, st) \<Rightarrow> (TH8_ERROR, st\<lparr>paSystemVar := Some keys\<rparr>)
           | (True, st) \<Rightarrow> (TH8_OK, st\<lparr>paSystemVar := Some (if zName \<in> set keys then keys else keys @ [zName])\<rparr>)))"

text \<open>
  The test for a system variable takes the length as it comes, with its tag bits: a name without a
  parenthesis is scanned, and hashed, for that many bytes.
\<close>

definition Th8_IsSystemVar :: "string \<times> size_t \<Rightarrow> vstate \<Rightarrow> bool run" where
  "Th8_IsSystemVar arg st =
     (case paSystemVar st of
        None \<Rightarrow> Inr False
      | Some keys \<Rightarrow>
          (let zName = fst arg; nName = (if snd arg = TH8_NOLEN then length zName else unat (snd arg)) in
           if CHR ''('' \<in> set (take nName zName) then Inr (takeWhile (\<lambda>c. c \<noteq> CHR ''('') zName \<in> set keys)
           else if length zName < nName then Inl OverRead
           else Inr (take nName zName \<in> set keys)))"

end
