(* ===== verification/Th8_VarsInv.thy ===== *)
theory Th8_VarsInv
  imports Th8_Vars
begin

text \<open>
  The invariant of the variable layer: every reference count is the number of names that hold the
  variable, no name is left to a released variable, arrays and scalars exclude each other, and the
  elements of an array are younger than the array. The operations keep it.
\<close>

section \<open>References\<close>

definition tab_refs :: "vtable \<Rightarrow> vaddr \<Rightarrow> nat" where
  "tab_refs t b = length (filter (\<lambda>e. snd e = Some b) t)"

definition elems :: "Th8_Variable \<Rightarrow> vtable" where
  "elems v = (case pHash v of None \<Rightarrow> [] | Some t \<Rightarrow> t)"

definition cell_refs :: "Th8_Variable option \<Rightarrow> vaddr \<Rightarrow> nat" where
  "cell_refs c b = (case c of None \<Rightarrow> 0 | Some v \<Rightarrow> if 0 < nRef v then tab_refs (elems v) b else 0)"

definition root_refs :: "vstate \<Rightarrow> vaddr \<Rightarrow> nat" where
  "root_refs st b =
     sum_list (map (\<lambda>f. tab_refs (paVar f) b) (frames st)) +
     sum_list (map (\<lambda>e. tab_refs (snd e) b) (namespaces st))"

definition heap_refs :: "vstate \<Rightarrow> vaddr \<Rightarrow> nat" where
  "heap_refs st b = (\<Sum>a < nFresh st. cell_refs (cells st a) b)"

definition ref_count :: "vstate \<Rightarrow> vaddr \<Rightarrow> int" where
  "ref_count st b = (case cells st b of None \<Rightarrow> 0 | Some v \<Rightarrow> nRef v)"

text \<open>The counts against the names that exist, up to references in transit.\<close>

definition balanced :: "vstate \<Rightarrow> (vaddr \<Rightarrow> int) \<Rightarrow> bool" where
  "balanced st d \<longleftrightarrow> (\<forall>b. ref_count st b = int (root_refs st b) + int (heap_refs st b) + d b)"

definition cell_ok :: "vaddr \<Rightarrow> Th8_Variable \<Rightarrow> bool" where
  "cell_ok a v \<longleftrightarrow>
     0 \<le> nRef v \<and> distinct (map fst (elems v)) \<and> (\<forall>e b. (e, Some b) \<in> set (elems v) \<longrightarrow> a < b) \<and>
     (pHash v \<noteq> None \<longrightarrow> vzData v = None) \<and> (bBorrowed v \<longrightarrow> vzData v \<noteq> None)"

definition heap_ok :: "vstate \<Rightarrow> bool" where
  "heap_ok st \<longleftrightarrow> (\<forall>a v. cells st a = Some v \<longrightarrow> a < nFresh st \<and> cell_ok a v)"

definition tables_ok :: "vstate \<Rightarrow> bool" where
  "tables_ok st \<longleftrightarrow>
     (\<forall>f \<in> set (frames st). distinct (map fst (paVar f))) \<and>
     (\<forall>i < length (frames st). case pCaller (frames st ! i) of None \<Rightarrow> i = 0 | Some j \<Rightarrow> j < i) \<and>
     distinct (map fst (namespaces st)) \<and> (\<forall>e \<in> set (namespaces st). distinct (map fst (snd e)))"

definition vars_inv :: "vstate \<Rightarrow> (vaddr \<Rightarrow> int) \<Rightarrow> bool" where
  "vars_inv st d \<longleftrightarrow>
     heap_ok st \<and> tables_ok st \<and> balanced st d \<and> (\<forall>a v. cells st a = Some v \<longrightarrow> 0 < nRef v)"

abbreviation vars_ok :: "vstate \<Rightarrow> bool" where
  "vars_ok st \<equiv> vars_inv st (\<lambda>_. 0)"

text \<open>A running interpreter: there is a current frame, and the global namespace exists.\<close>

definition active :: "vstate \<Rightarrow> bool" where
  "active st \<longleftrightarrow> curFrame st < length (frames st) \<and> [] \<in> fst ` set (namespaces st)"

lemma sum_cells_upd:
  assumes "a < (n :: nat)"
  shows "(\<Sum>x<n. cell_refs ((c(a := w)) x) b) + cell_refs (c a) b = (\<Sum>x<n. cell_refs (c x) b) + cell_refs w b"
proof -
  have "(\<Sum>x<n. cell_refs (c x) b) = cell_refs (c a) b + (\<Sum>x \<in> {..<n} - {a}. cell_refs (c x) b)" for c :: "vaddr \<Rightarrow> Th8_Variable option"
    using assms by (intro sum.remove) auto
  from this [of c] this [of "c(a := w)"]
  have "(\<Sum>x<n. cell_refs ((c(a := w)) x) b) = cell_refs w b + (\<Sum>x \<in> {..<n} - {a}. cell_refs ((c(a := w)) x) b)"
    by simp
  also have "(\<Sum>x \<in> {..<n} - {a}. cell_refs ((c(a := w)) x) b) = (\<Sum>x \<in> {..<n} - {a}. cell_refs (c x) b)"
    by (rule sum.cong) auto
  finally show ?thesis using \<open>(\<Sum>x<n. cell_refs (c x) b) = _\<close> by simp
qed

lemma heap_refs_upd:
  "a < nFresh st \<Longrightarrow>
   heap_refs (st\<lparr>cells := (cells st)(a := w)\<rparr>) b + cell_refs (cells st a) b = heap_refs st b + cell_refs w b"
  using sum_cells_upd [of a "nFresh st" "cells st" w b] by (simp add: heap_refs_def)

lemma refs_calls [simp]:
  "root_refs (note_calls cs st) b = root_refs st b" "heap_refs (note_calls cs st) b = heap_refs st b"
  "ref_count (note_calls cs st) b = ref_count st b" "cells (note_calls cs st) = cells st"
  "nFresh (note_calls cs st) = nFresh st" "frames (note_calls cs st) = frames st"
  "namespaces (note_calls cs st) = namespaces st" "curFrame (note_calls cs st) = curFrame st" "ram (note_calls cs st) = ram st"
  by (simp_all add: note_calls_def root_refs_def heap_refs_def ref_count_def)

lemma root_refs_cells [simp]: "root_refs (st\<lparr>cells := c\<rparr>) b = root_refs st b"
  by (simp add: root_refs_def)

lemma tab_refs_simps [simp]:
  "tab_refs [] b = 0"
  "tab_refs (e # t) b = (if snd e = Some b then Suc (tab_refs t b) else tab_refs t b)"
  "tab_refs (s @ t) b = tab_refs s b + tab_refs t b"
  by (simp_all add: tab_refs_def)

lemma tab_refs_pos: "(k, Some b) \<in> set t \<Longrightarrow> 0 < tab_refs t b"
  by (induction t) auto

lemma tab_refs_zero: "(\<forall>k. (k, Some b) \<notin> set t) \<Longrightarrow> tab_refs t b = 0"
  by (induction t) auto

lemma heap_ok_upd:
  "heap_ok st \<Longrightarrow> a < nFresh st \<Longrightarrow> cell_ok a v \<Longrightarrow> heap_ok (st\<lparr>cells := (cells st)(a := Some v)\<rparr>)"
  by (auto simp: heap_ok_def)

lemma heap_ok_calls [simp]: "heap_ok (note_calls cs st) = heap_ok st"
  by (simp add: heap_ok_def)

lemma balanced_calls [simp]: "balanced (note_calls cs st) d = balanced st d"
  by (simp add: balanced_def)

section \<open>Release\<close>

text \<open>What a release changes: cells disappear or lose references, and calls are logged.\<close>

definition rest_of where
  "rest_of st = (nFresh st, frames st, curFrame st, namespaces st, pCurrentNs st,
     iArrayHashGeneration st, paSystemVar st, vzResult st, vnResult st, ram st)"

lemma rest_of_simps [simp]:
  "rest_of (st\<lparr>cells := c\<rparr>) = rest_of st" "rest_of (note_calls cs st) = rest_of st"
  "rest_of (put_cell a v st) = rest_of st"
  by (simp_all add: rest_of_def note_calls_def put_cell_def)

lemma rest_ofD: "rest_of st' = rest_of st \<Longrightarrow> nFresh st' = nFresh st \<and> frames st' = frames st \<and>
    namespaces st' = namespaces st \<and> curFrame st' = curFrame st \<and> ram st' = ram st"
  by (simp add: rest_of_def)

definition thinner :: "Th8_Variable \<Rightarrow> Th8_Variable \<Rightarrow> bool" where
  "thinner v v' \<longleftrightarrow> v' = v \<or> 0 < nRef v' \<and> (\<exists>n. v' = v\<lparr>nRef := n\<rparr>)"

definition shrunk :: "vaddr \<Rightarrow> vstate \<Rightarrow> vstate \<Rightarrow> bool" where
  "shrunk m st st' \<longleftrightarrow>
     rest_of st' = rest_of st \<and> (\<forall>b < m. cells st' b = cells st b) \<and>
     (\<forall>b v'. cells st' b = Some v' \<longrightarrow> (\<exists>v. cells st b = Some v \<and> thinner v v'))"

lemma thinner_trans: "thinner u v \<Longrightarrow> thinner v w \<Longrightarrow> thinner u w"
  by (auto simp: thinner_def)

lemma shrunk_refl: "shrunk m st st"
  by (auto simp: shrunk_def thinner_def)

lemma shrunk_trans: "shrunk m st st' \<Longrightarrow> shrunk m st' st'' \<Longrightarrow> shrunk m st st''"
  unfolding shrunk_def
proof (elim conjE, intro conjI allI impI, goal_cases)
  case (3 b w)
  then obtain v where v: "cells st' b = Some v" "thinner v w" by blast
  with 3 obtain u where "cells st b = Some u" "thinner u v" by blast
  with v thinner_trans show ?case by blast
qed simp_all

lemma shrunk_mono: "shrunk m st st' \<Longrightarrow> m' \<le> m \<Longrightarrow> shrunk m' st st'"
  by (auto simp: shrunk_def)


lemma shrunk_rest: "shrunk m st st' \<Longrightarrow> nFresh st' = nFresh st \<and> frames st' = frames st \<and>
    namespaces st' = namespaces st \<and> curFrame st' = curFrame st \<and> ram st' = ram st"
  using rest_ofD by (auto simp: shrunk_def)

lemma cell_ok_nRef: "cell_ok a v \<Longrightarrow> 0 \<le> n \<Longrightarrow> cell_ok a (v\<lparr>nRef := n\<rparr>)"
  by (simp add: cell_ok_def elems_def)

lemma ref_count_upd: "ref_count (st\<lparr>cells := (cells st)(a := w)\<rparr>) b = (if b = a then (case w of None \<Rightarrow> 0 | Some v \<Rightarrow> nRef v) else ref_count st b)"
  by (simp add: ref_count_def)

text \<open>Dropping a reference that is not the last.\<close>

lemma balanced_drop:
  assumes bal: "balanced st d" and a: "cells st a = Some v" "a < nFresh st" and n: "0 < nRef v" "0 < n"
  shows "balanced (put_cell a (v\<lparr>nRef := n\<rparr>) st) (d(a := d a + (n - nRef v)))"
  unfolding balanced_def put_cell_def
proof
  fix b
  have "cell_refs (Some (v\<lparr>nRef := n\<rparr>)) b = cell_refs (Some v) b" using n by (simp add: cell_refs_def elems_def)
  with heap_refs_upd [OF a(2), of "Some (v\<lparr>nRef := n\<rparr>)" b] a(1)
  have "heap_refs (st\<lparr>cells := (cells st)(a := Some (v\<lparr>nRef := n\<rparr>))\<rparr>) b = heap_refs st b" by simp
  moreover have "ref_count st a = nRef v" using a(1) by (simp add: ref_count_def)
  ultimately show "ref_count (st\<lparr>cells := (cells st)(a := Some (v\<lparr>nRef := n\<rparr>))\<rparr>) b =
      int (root_refs (st\<lparr>cells := (cells st)(a := Some (v\<lparr>nRef := n\<rparr>))\<rparr>) b) +
      int (heap_refs (st\<lparr>cells := (cells st)(a := Some (v\<lparr>nRef := n\<rparr>))\<rparr>) b) + (d(a := d a + (n - nRef v))) b"
    using bal by (auto simp: ref_count_upd balanced_def)
qed

text \<open>Dropping the last one: the references that the elements hold are now in transit.\<close>

lemma balanced_last:
  assumes bal: "balanced st d" and a: "cells st a = Some v" "a < nFresh st" and n: "nRef v = 1"
  shows "balanced (put_cell a (v\<lparr>nRef := 0\<rparr>) st) (\<lambda>b. (d(a := d a - 1)) b + int (tab_refs (elems v) b))"
  unfolding balanced_def put_cell_def
proof
  fix b
  have "cell_refs (Some (v\<lparr>nRef := 0\<rparr>)) b = 0" "cell_refs (Some v) b = tab_refs (elems v) b" using n by (simp_all add: cell_refs_def)
  with heap_refs_upd [OF a(2), of "Some (v\<lparr>nRef := 0\<rparr>)" b] a(1)
  have "heap_refs (st\<lparr>cells := (cells st)(a := Some (v\<lparr>nRef := 0\<rparr>))\<rparr>) b + tab_refs (elems v) b = heap_refs st b" by simp
  moreover have "ref_count st a = 1" using a(1) n by (simp add: ref_count_def)
  ultimately show "ref_count (st\<lparr>cells := (cells st)(a := Some (v\<lparr>nRef := 0\<rparr>))\<rparr>) b =
      int (root_refs (st\<lparr>cells := (cells st)(a := Some (v\<lparr>nRef := 0\<rparr>))\<rparr>) b) +
      int (heap_refs (st\<lparr>cells := (cells st)(a := Some (v\<lparr>nRef := 0\<rparr>))\<rparr>) b) +
      ((d(a := d a - 1)) b + int (tab_refs (elems v) b))"
    using bal by (auto simp: ref_count_upd balanced_def)
qed

text \<open>Removing a cell whose count is zero.\<close>

lemma balanced_delete:
  assumes bal: "balanced st d" and a: "cells st a = Some v" "a < nFresh st" and n: "nRef v = 0"
  shows "balanced (st\<lparr>cells := (cells st)(a := None)\<rparr>) d"
  unfolding balanced_def
proof
  fix b
  have "cell_refs None b = 0" "cell_refs (Some v) b = 0" using n by (simp_all add: cell_refs_def)
  with heap_refs_upd [OF a(2), of None b] a(1)
  have "heap_refs (st\<lparr>cells := (cells st)(a := None)\<rparr>) b = heap_refs st b" by simp
  then show "ref_count (st\<lparr>cells := (cells st)(a := None)\<rparr>) b =
      int (root_refs (st\<lparr>cells := (cells st)(a := None)\<rparr>) b) + int (heap_refs (st\<lparr>cells := (cells st)(a := None)\<rparr>) b) + d b"
    using bal n a(1) by (auto simp: ref_count_upd balanced_def ref_count_def split: option.splits)
qed

text \<open>What a release needs of the state, and what it guarantees.\<close>

definition can_free :: "vaddr \<Rightarrow> vstate \<Rightarrow> (vaddr \<Rightarrow> int) \<Rightarrow> bool" where
  "can_free a st d \<longleftrightarrow> heap_ok st \<and> balanced st d \<and> 0 < ref_count st a \<and>
     (\<forall>b > a. 0 \<le> int (root_refs st b) + d b)"

definition freed :: "vaddr \<Rightarrow> vstate \<Rightarrow> (vaddr \<Rightarrow> int) \<Rightarrow> vstate \<Rightarrow> bool" where
  "freed m st d st' \<longleftrightarrow> heap_ok st' \<and> balanced st' d \<and> shrunk m st st'"

lemma shrunk_roots: "shrunk m st st' \<Longrightarrow> root_refs st' = root_refs st"
  using shrunk_rest by (simp add: root_refs_def fun_eq_iff)

lemma free_entries_ok:
  assumes fr: "\<And>x st d. m \<le> x \<Longrightarrow> nFresh st = N \<Longrightarrow> can_free x st d \<Longrightarrow> \<exists>st'. fr x st = Inr st' \<and> freed x st (d(x := d x - 1)) st'"
  shows "nFresh st = N \<Longrightarrow> heap_ok st \<Longrightarrow> balanced st d \<Longrightarrow> \<forall>k b. (k, Some b) \<in> set t \<longrightarrow> m \<le> b \<Longrightarrow>
    \<forall>b \<ge> m. int (tab_refs t b) \<le> int (root_refs st b) + d b \<Longrightarrow>
    \<exists>st'. free_entries fr t st = Inr st' \<and> freed m st (\<lambda>b. d b - int (tab_refs t b)) st'"
proof (induction t arbitrary: st d)
  case Nil
  then show ?case by (auto simp: freed_def shrunk_refl)
next
  case (Cons e t)
  obtain k o' where e: "e = (k, o')" by (cases e)
  show ?case
  proof (cases o')
    case None
    with Cons.IH [OF Cons.prems(1-3)] Cons.prems(4,5) e show ?thesis by (auto simp: th8FreeVarEntry_def)
  next
    case (Some x)
    have x: "m \<le> x" using Cons.prems(4) e Some by auto
    have "int (tab_refs (e # t) x) \<le> int (root_refs st x) + d x" using Cons.prems(5) x by blast
    then have "1 \<le> int (root_refs st x) + d x" using e Some by simp
    moreover have "ref_count st x = int (root_refs st x) + int (heap_refs st x) + d x"
      using Cons.prems(3) by (simp add: balanced_def)
    ultimately have "0 < ref_count st x" by linarith
    moreover have "0 \<le> int (root_refs st b) + d b" if "x < b" for b
      using Cons.prems(5) x that by (meson le_less_trans less_imp_le of_nat_0_le_iff order_trans)
    ultimately have "can_free x st d" using Cons.prems by (simp add: can_free_def)
    from fr [OF x Cons.prems(1) this] obtain st1 where st1: "fr x st = Inr st1" "freed x st (d(x := d x - 1)) st1" by blast
    then have ok: "heap_ok st1" "balanced st1 (d(x := d x - 1))" "shrunk x st st1" by (simp_all add: freed_def)
    then have "nFresh st1 = N" using Cons.prems(1) shrunk_rest by simp
    moreover have "\<forall>b \<ge> m. int (tab_refs t b) \<le> int (root_refs st1 b) + (d(x := d x - 1)) b"
      using Cons.prems(5) e Some shrunk_roots [OF ok(3)] by auto
    ultimately obtain st2 where st2: "free_entries fr t st1 = Inr st2"
        "freed m st1 (\<lambda>b. (d(x := d x - 1)) b - int (tab_refs t b)) st2"
      using Cons.IH [OF _ ok(1,2)] Cons.prems(4) by auto
    have "(\<lambda>b. (d(x := d x - 1)) b - int (tab_refs t b)) = (\<lambda>b. d b - int (tab_refs (e # t) b))"
      using e Some by auto
    with st1 st2 ok(3) x e Some show ?thesis
      using shrunk_trans [OF shrunk_mono [OF ok(3), of m]] by (auto simp: th8FreeVarEntry_def freed_def)
  qed
qed

lemma th8FreeVariable_ok:
  "nFresh st < n + a \<Longrightarrow> can_free a st d \<Longrightarrow>
   \<exists>st'. th8FreeVariable n a st = Inr st' \<and> freed a st (d(a := d a - 1)) st'"
proof (induction n arbitrary: a st d)
  case 0
  then show ?case by (auto simp: can_free_def ref_count_def heap_ok_def dest: less_asym split: option.splits)
next
  case (Suc n)
  then obtain v where v: "cells st a = Some v" "0 < nRef v"
    by (auto simp: can_free_def ref_count_def split: option.splits)
  have ok: "heap_ok st" "balanced st d" "\<forall>b > a. 0 \<le> int (root_refs st b) + d b" using Suc.prems(2) by (simp_all add: can_free_def)
  then have a: "a < nFresh st" "cell_ok a v" using v(1) by (auto simp: heap_ok_def)
  show ?case
  proof (cases "nRef v = 1")
    case False
    let ?s = "put_cell a (v\<lparr>nRef := nRef v - 1\<rparr>) st"
    have "heap_ok ?s" using heap_ok_upd [OF ok(1) a(1) cell_ok_nRef [OF a(2)]] v(2) by (simp add: put_cell_def)
    moreover have "balanced ?s (d(a := d a - 1))"
      using balanced_drop [OF ok(2) v(1) a(1) v(2), of "nRef v - 1"] v(2) False by simp
    moreover have "shrunk a st ?s" using v False by (auto simp: shrunk_def put_cell_def thinner_def rest_of_def)
    moreover have "th8FreeVariable (Suc n) a st = Inr ?s" using v False by (simp add: deref_def Let_def)
    ultimately show ?thesis unfolding freed_def by blast
  next
    case True
    let ?d = "\<lambda>b. (d(a := d a - 1)) b + int (tab_refs (elems v) b)"
    let ?s = "note_calls (release_data (v\<lparr>nRef := 0\<rparr>)) (put_cell a (v\<lparr>nRef := 0\<rparr>) st)"
    have s: "heap_ok ?s" "balanced ?s ?d" "nFresh ?s = nFresh st"
      using heap_ok_upd [OF ok(1) a(1) cell_ok_nRef [OF a(2), of 0]] balanced_last [OF ok(2) v(1) a(1) True]
      by (simp_all add: put_cell_def)
    have "\<exists>st'. free_entries (th8FreeVariable n) (elems v) ?s = Inr st' \<and>
        freed (Suc a) ?s (\<lambda>b. ?d b - int (tab_refs (elems v) b)) st'"
    proof (rule free_entries_ok [where N = "nFresh st"])
      show "\<exists>st'. th8FreeVariable n x s = Inr st' \<and> freed x s (d'(x := d' x - 1)) st'"
        if "Suc a \<le> x" "nFresh s = nFresh st" "can_free x s d'" for x s d'
        by (rule Suc.IH [OF _ that(3)]) (use that(1,2) Suc.prems(1) in simp)
      show "\<forall>k b. (k, Some b) \<in> set (elems v) \<longrightarrow> Suc a \<le> b" using a(2) unfolding cell_ok_def Suc_le_eq by blast
      show "\<forall>b \<ge> Suc a. int (tab_refs (elems v) b) \<le> int (root_refs ?s b) + ?d b" using ok(3) by (auto simp: put_cell_def)
    qed (use s in auto)
    moreover have "(\<lambda>b. ?d b - int (tab_refs (elems v) b)) = d(a := d a - 1)" by auto
    ultimately obtain st' where st': "free_entries (th8FreeVariable n) (elems v) ?s = Inr st'"
        "freed (Suc a) ?s (d(a := d a - 1)) st'" by metis
    have f: "heap_ok st'" "balanced st' (d(a := d a - 1))" "shrunk (Suc a) ?s st'"
      using st'(2) unfolding freed_def by blast+
    have "cells st' a = cells ?s a" using f(3) unfolding shrunk_def by blast
    then have cell: "cells st' a = Some (v\<lparr>nRef := 0\<rparr>)" by (simp add: put_cell_def)
    have fresh: "nFresh st' = nFresh st" using shrunk_rest [OF f(3)] s(3) by simp
    let ?t = "st'\<lparr>cells := (cells st')(a := None)\<rparr>"
    have "heap_ok ?t" using f(1) by (auto simp: heap_ok_def)
    moreover have "balanced ?t (d(a := d a - 1))" using a(1) fresh by (intro balanced_delete [OF f(2) cell]) simp_all
    moreover have "shrunk a st ?t" using f(3) by (auto simp: shrunk_def put_cell_def split: if_splits)
    moreover have "th8FreeVariable (Suc n) a st = Inr ?t"
      using st'(1) v True by (simp add: deref_def Let_def elems_def)
    ultimately show ?thesis unfolding freed_def by blast
  qed
qed

declare th8FreeVariable.simps [simp del]

lemma free_var_ok: "can_free a st d \<Longrightarrow> \<exists>st'. free_var a st = Inr st' \<and> freed a st (d(a := d a - 1)) st'"
  by (rule th8FreeVariable_ok) simp


section \<open>The invariant under updates\<close>

lemma vars_inv_cong:
  "cells st' = cells st \<Longrightarrow> nFresh st' = nFresh st \<Longrightarrow> frames st' = frames st \<Longrightarrow> namespaces st' = namespaces st \<Longrightarrow>
   vars_inv st' d = vars_inv st d"
  by (simp add: vars_inv_def heap_ok_def tables_ok_def balanced_def ref_count_def root_refs_def heap_refs_def)

lemma vars_inv_other [simp]:
  "vars_inv (st\<lparr>ram := x\<rparr>) d = vars_inv st d" "vars_inv (st\<lparr>vzResult := y\<rparr>) d = vars_inv st d"
  "vars_inv (st\<lparr>vnResult := n\<rparr>) d = vars_inv st d" "vars_inv (st\<lparr>curFrame := i\<rparr>) d = vars_inv st d"
  "vars_inv (st\<lparr>iArrayHashGeneration := g\<rparr>) d = vars_inv st d" "vars_inv (note_calls cs st) d = vars_inv st d"
  "vars_inv (static_result z st) d = vars_inv st d" "vars_inv (st\<lparr>paSystemVar := sv\<rparr>) d = vars_inv st d"
  by (rule vars_inv_cong; simp add: static_result_def)+

lemma vars_inv_cell: "vars_inv st d \<Longrightarrow> cells st a = Some v \<Longrightarrow> a < nFresh st \<and> cell_ok a v \<and> 0 < nRef v"
  by (auto simp: vars_inv_def heap_ok_def)

lemma tables_ok_cells [simp]: "tables_ok (st\<lparr>cells := c\<rparr>) = tables_ok st"
  by (simp add: tables_ok_def)

text \<open>A cell that keeps its elements: only the count matters.\<close>

lemma put_cell_inv:
  assumes inv: "vars_inv st d" and a: "cells st a = Some v" and v': "cell_ok a v'" "0 < nRef v'" "pHash v' = pHash v"
  shows "vars_inv (put_cell a v' st) (d(a := d a + (nRef v' - nRef v)))"
proof -
  have ok: "a < nFresh st" "0 < nRef v" "heap_ok st" "balanced st d" "tables_ok st"
    using inv vars_inv_cell [OF inv a] by (simp_all add: vars_inv_def)
  have "heap_ok (put_cell a v' st)" using heap_ok_upd [OF ok(3,1) v'(1)] by (simp add: put_cell_def)
  moreover have "balanced (put_cell a v' st) (d(a := d a + (nRef v' - nRef v)))"
    unfolding balanced_def
  proof
    fix b
    have "cell_refs (Some v') b = cell_refs (Some v) b" using v' ok(2) by (simp add: cell_refs_def elems_def)
    then have "heap_refs (put_cell a v' st) b = heap_refs st b"
      using heap_refs_upd [OF ok(1), of "Some v'" b] a by (simp add: put_cell_def)
    moreover have "ref_count st a = nRef v" using a by (simp add: ref_count_def)
    ultimately show "ref_count (put_cell a v' st) b = int (root_refs (put_cell a v' st) b) +
        int (heap_refs (put_cell a v' st) b) + (d(a := d a + (nRef v' - nRef v))) b"
      using ok(4) by (auto simp: put_cell_def ref_count_upd balanced_def)
  qed
  ultimately show ?thesis using inv v'(2) by (auto simp: vars_inv_def put_cell_def)
qed

lemma put_cell_ok:
  assumes "vars_inv st d" "cells st a = Some v" "nRef v' = nRef v" "pHash v' = pHash v"
    "pHash v' \<noteq> None \<longrightarrow> vzData v' = None" "bBorrowed v' \<longrightarrow> vzData v' \<noteq> None"
  shows "vars_inv (put_cell a v' st) d"
proof -
  have "cell_ok a v'" "0 < nRef v'"
    using vars_inv_cell [OF assms(1,2)] assms(3-) by (auto simp: cell_ok_def elems_def)
  from put_cell_inv [OF assms(1,2) this assms(4)] assms(3) show ?thesis by simp
qed

lemma sum_list_tab_upd:
  "distinct (map fst l) \<Longrightarrow> map_of l p = Some t0 \<Longrightarrow>
   sum_list (map (\<lambda>e. tab_refs (snd e) b) (map (\<lambda>(q, u). (q, if q = p then t else u)) l)) + tab_refs t0 b =
   sum_list (map (\<lambda>e. tab_refs (snd e) b) l) + tab_refs t b"
proof (induction l)
  case (Cons e l)
  have "map (\<lambda>(q, u). (q, if q = p then t else u)) l = l" if "p \<notin> fst ` set l"
    using that by (intro map_idI) (auto simp: image_iff split: prod.splits)
  with Cons show ?case by (cases e) (auto simp del: map_map split: if_splits)
qed simp

lemma root_refs_frame:
  "i < length (frames st) \<Longrightarrow>
   root_refs (put_table (FrameVars i) t st) b + tab_refs (paVar (frames st ! i)) b = root_refs st b + tab_refs t b"
proof -
  assume i: "i < length (frames st)"
  let ?xs = "map (\<lambda>f. tab_refs (paVar f) b) (frames st)"
  have "tab_refs (paVar (frames st ! i)) b \<le> sum_list ?xs" using i by (intro member_le_sum_list) auto
  moreover have "sum_list (?xs[i := tab_refs t b]) = sum_list ?xs + tab_refs t b - tab_refs (paVar (frames st ! i)) b"
    using i by (subst sum_list_update) auto
  ultimately show ?thesis by (simp add: root_refs_def map_update)
qed

text \<open>Replacing a table: the references that it holds more or less are in transit.\<close>

lemma put_table_inv:
  assumes inv: "vars_inv st d" and t0: "get_table pl st = Inr t0" and t: "distinct (map fst t)"
    and el: "\<And>a k b. pl = Elements a \<Longrightarrow> (k, Some b) \<in> set t \<Longrightarrow> a < b"
  shows "vars_inv (put_table pl t st) (\<lambda>b. d b + int (tab_refs t0 b) - int (tab_refs t b))"
proof (cases pl)
  case (FrameVars i)
  with t0 have i: "i < length (frames st)" "t0 = paVar (frames st ! i)" by (auto split: if_splits)
  have "tables_ok (put_table pl t st)"
    using inv t i(1) FrameVars by (auto simp: vars_inv_def tables_ok_def nth_list_update dest!: set_update_subset_insert [THEN subsetD])
  moreover have "balanced (put_table pl t st) (\<lambda>b. d b + int (tab_refs t0 b) - int (tab_refs t b))"
    unfolding balanced_def
  proof
    fix b
    show "ref_count (put_table pl t st) b = int (root_refs (put_table pl t st) b) + int (heap_refs (put_table pl t st) b) +
        (d b + int (tab_refs t0 b) - int (tab_refs t b))"
      using root_refs_frame [OF i(1), of t b] inv FrameVars i(2)
      by (simp add: vars_inv_def balanced_def ref_count_def heap_refs_def)
  qed
  ultimately show ?thesis using inv FrameVars by (simp add: vars_inv_def heap_ok_def)
next
  case (NsVars p)
  with t0 have p: "map_of (namespaces st) p = Some t0" by (auto split: option.splits)
  have ns: "distinct (map fst (namespaces st))" using inv by (simp add: vars_inv_def tables_ok_def)
  have keys: "map fst (map (\<lambda>(q, u). (q, if q = p then t else u)) (namespaces st)) = map fst (namespaces st)"
    by (simp add: comp_def case_prod_beta)
  have "tables_ok (put_table pl t st)"
    using inv t NsVars keys by (auto simp: vars_inv_def tables_ok_def simp del: map_map)
  moreover have "balanced (put_table pl t st) (\<lambda>b. d b + int (tab_refs t0 b) - int (tab_refs t b))"
    unfolding balanced_def
  proof
    fix b
    show "ref_count (put_table pl t st) b = int (root_refs (put_table pl t st) b) + int (heap_refs (put_table pl t st) b) +
        (d b + int (tab_refs t0 b) - int (tab_refs t b))"
      using sum_list_tab_upd [OF ns p, of b t] inv NsVars
      by (simp add: vars_inv_def balanced_def ref_count_def heap_refs_def root_refs_def)
  qed
  ultimately show ?thesis using inv NsVars by (simp add: vars_inv_def heap_ok_def)
next
  case (Elements a)
  with t0 obtain v where v: "cells st a = Some v" "pHash v = Some t0"
    by (auto simp: deref_def split: option.splits)
  let ?v = "v\<lparr>pHash := Some t\<rparr>"
  have a: "a < nFresh st" "cell_ok a v" "0 < nRef v" using vars_inv_cell [OF inv v(1)] by auto
  have pt: "put_table pl t st = st\<lparr>cells := (cells st)(a := Some ?v)\<rparr>" using Elements v by (simp add: put_cell_def)
  have "cell_ok a ?v" using a(2) v(2) t el [OF Elements] by (auto simp: cell_ok_def elems_def)
  then have "heap_ok (put_table pl t st)" using inv heap_ok_upd [OF _ a(1)] pt by (simp add: vars_inv_def)
  moreover have "balanced (put_table pl t st) (\<lambda>b. d b + int (tab_refs t0 b) - int (tab_refs t b))"
    unfolding balanced_def
  proof
    fix b
    have "cell_refs (Some ?v) b = tab_refs t b" "cell_refs (Some v) b = tab_refs t0 b"
      using a(3) v(2) by (simp_all add: cell_refs_def elems_def)
    moreover have "ref_count st a = nRef v" using v(1) by (simp add: ref_count_def)
    ultimately show "ref_count (put_table pl t st) b = int (root_refs (put_table pl t st) b) + int (heap_refs (put_table pl t st) b) +
        (d b + int (tab_refs t0 b) - int (tab_refs t b))"
      using heap_refs_upd [OF a(1), of "Some ?v" b] v(1) inv
      by (auto simp: pt ref_count_upd vars_inv_def balanced_def)
  qed
  ultimately show ?thesis using inv a(3) pt by (auto simp: vars_inv_def)
qed


section \<open>Tables\<close>

lemma keys_dict_step [simp]:
  "map fst (dict_step (Assign k d) t) = map fst t"
  "map fst (dict_step (Create k) t) = (if k \<in> fst ` set t then map fst t else map fst t @ [k])"
  "map fst (dict_step (Remove k) t) = filter (\<lambda>j. j \<noteq> k) (map fst t)"
  by (simp_all add: comp_def case_prod_unfold filter_map)

lemma distinct_dict_step: "distinct (map fst t) \<Longrightarrow> distinct (map fst (dict_step c t))"
  by (cases c) (simp_all del: dict_step.simps)

lemma tab_refs_Create [simp]: "tab_refs (dict_step (Create k) t) b = tab_refs t b"
  by simp

lemma map_of_dict_step:
  "map_of (dict_step (Create k) t) j = (if j = k \<and> map_of t k = None then Some None else map_of t j)"
  "map_of (dict_step (Assign k d) t) j = (if j = k \<and> map_of t k \<noteq> None then Some d else map_of t j)"
  "map_of (dict_step (Remove k) t) j = (if j = k then None else map_of t j)"
proof -
  show "map_of (dict_step (Create k) t) j = (if j = k \<and> map_of t k = None then Some None else map_of t j)"
    using map_of_eq_None_iff [of t k] by (cases "map_of t k") (auto simp: map_add_def split: option.splits)
  show "map_of (dict_step (Assign k d) t) j = (if j = k \<and> map_of t k \<noteq> None then Some d else map_of t j)"
    by (induction t) auto
  show "map_of (dict_step (Remove k) t) j = (if j = k then None else map_of t j)"
    by (induction t) auto
qed

lemma tab_refs_Assign_absent: "k \<notin> fst ` set t \<Longrightarrow> dict_step (Assign k d) t = t"
  by (induction t) auto

lemma tab_refs_Assign:
  "distinct (map fst t) \<Longrightarrow> map_of t k = Some None \<Longrightarrow>
   tab_refs (dict_step (Assign k (Some a)) t) b = tab_refs t b + (if b = a then 1 else 0)"
proof (induction t)
  case (Cons e t)
  then show ?case using tab_refs_Assign_absent [of k t "Some a"] by (cases e) (auto split: if_splits)
qed simp

lemma tab_refs_Remove:
  "distinct (map fst t) \<Longrightarrow> map_of t k = Some d \<Longrightarrow>
   tab_refs (dict_step (Remove k) t) b + (if d = Some b then 1 else 0) = tab_refs t b"
proof (induction t)
  case (Cons e t)
  have "filter (\<lambda>(k', _). k' \<noteq> k) t = t" if "k \<notin> fst ` set t" using that by (auto simp: filter_id_conv image_iff)
  with Cons show ?case by (cases e) (auto split: if_splits)
qed simp

lemma set_dict_step:
  "(j, Some b) \<in> set (dict_step (Create k) t) \<longleftrightarrow> (j, Some b) \<in> set t"
  "(j, Some b) \<in> set (dict_step (Remove k) t) \<Longrightarrow> (j, Some b) \<in> set t"
  "(j, Some b) \<in> set (dict_step (Assign k (Some a)) t) \<Longrightarrow> b = a \<or> (j, Some b) \<in> set t"
  by (auto split: if_splits)

declare dict_step.simps [simp del]

lemma get_put_table [simp]: "get_table pl st = Inr t0 \<Longrightarrow> get_table pl (put_table pl t st) = Inr t"
proof (cases pl)
  case (NsVars p)
  moreover have "map_of (map (\<lambda>(q, u). (q, if q = p then t else u)) l) p = Some t" if "map_of l p = Some t0" for l :: "(string list \<times> vtable) list"
    using that by (induction l) (auto split: if_splits)
  ultimately show "get_table pl st = Inr t0 \<Longrightarrow> ?thesis" by (auto split: option.splits)
qed (auto simp: deref_def put_cell_def split: if_splits option.splits)

lemma get_table_distinct: "vars_inv st d \<Longrightarrow> get_table pl st = Inr t \<Longrightarrow> distinct (map fst t)"
proof (cases pl)
  case (Elements a)
  then show "vars_inv st d \<Longrightarrow> get_table pl st = Inr t \<Longrightarrow> ?thesis"
    by (auto simp: deref_def elems_def dest!: vars_inv_cell simp: cell_ok_def split: option.splits)
qed (auto simp: vars_inv_def tables_ok_def split: if_splits option.splits dest!: map_of_SomeD)

lemma get_table_elements: "vars_inv st d \<Longrightarrow> get_table (Elements a) st = Inr t \<Longrightarrow> (k, Some b) \<in> set t \<Longrightarrow> a < b"
  by (auto simp: deref_def elems_def dest!: vars_inv_cell simp: cell_ok_def split: option.splits)

lemma get_table_ram [simp]:
  "get_table pl (st\<lparr>ram := x\<rparr>) = get_table pl st" "get_table pl (note_calls cs st) = get_table pl st"
  "get_table pl (st\<lparr>nFresh := n\<rparr>) = get_table pl st"
  by (cases pl; simp add: deref_def)+

lemma refs_le:
  assumes "get_table pl st = Inr t" "vars_inv st d"
  shows "tab_refs t b \<le> root_refs st b + heap_refs st b"
proof -
  have "vars_inv (put_table pl [] st) (\<lambda>b. d b + int (tab_refs t b) - int (tab_refs [] b))"
    using put_table_inv [OF assms(2,1), of "[]"] by simp
  then have "ref_count (put_table pl [] st) b = int (root_refs (put_table pl [] st) b) + int (heap_refs (put_table pl [] st) b) + (d b + int (tab_refs t b))"
    by (simp add: vars_inv_def balanced_def)
  moreover have "ref_count (put_table pl [] st) b = ref_count st b"
    by (cases pl) (auto simp: ref_count_def put_cell_def split: option.splits)
  moreover have "ref_count st b = int (root_refs st b) + int (heap_refs st b) + d b"
    using assms(2) by (simp add: vars_inv_def balanced_def)
  ultimately show ?thesis by linarith
qed

text \<open>Every name of a well-formed state holds a live variable.\<close>

lemma entry_live:
  assumes ok: "vars_ok st" and t: "get_table pl st = Inr t" "map_of t k = Some (Some a)"
  shows "\<exists>v. cells st a = Some v \<and> 0 < nRef v"
proof -
  have "0 < tab_refs t a" using t(2) by (auto intro!: tab_refs_pos dest: map_of_SomeD)
  moreover have "ref_count st a = int (root_refs st a) + int (heap_refs st a)"
    using ok by (simp add: vars_inv_def balanced_def)
  ultimately have "0 < ref_count st a" using refs_le [OF t(1) ok, of a] by linarith
  then show ?thesis by (auto simp: ref_count_def split: option.splits)
qed

lemma new_cell_inv:
  assumes ok: "vars_ok st"
  shows "vars_inv (put_cell (nFresh st) new_variable (st\<lparr>nFresh := Suc (nFresh st)\<rparr>)) (\<lambda>b. if b = nFresh st then 1 else 0)"
proof -
  let ?a = "nFresh st" and ?s = "put_cell (nFresh st) new_variable (st\<lparr>nFresh := Suc (nFresh st)\<rparr>)"
  have none: "cells st ?a = None" using ok by (cases "cells st ?a") (auto dest: vars_inv_cell)
  then have z: "root_refs st ?a = 0" "heap_refs st ?a = 0"
    using ok by (auto simp: vars_inv_def balanced_def ref_count_def dest: spec [where x = ?a])
  have h: "heap_refs ?s b = heap_refs st b" for b
  proof -
    have "heap_refs ?s b = (\<Sum>x < ?a. cell_refs (((cells st)(?a := Some new_variable)) x) b) + cell_refs (Some new_variable) b"
      by (simp add: heap_refs_def put_cell_def)
    also have "(\<Sum>x < ?a. cell_refs (((cells st)(?a := Some new_variable)) x) b) = heap_refs st b"
      unfolding heap_refs_def by (rule sum.cong) auto
    finally show ?thesis by (simp add: cell_refs_def elems_def new_variable_def)
  qed
  have r: "root_refs ?s b = root_refs st b" for b by (simp add: root_refs_def put_cell_def)
  have "balanced ?s (\<lambda>b. if b = ?a then 1 else 0)"
    unfolding balanced_def
  proof
    fix b
    have "ref_count ?s b = (if b = ?a then 1 else ref_count st b)"
      by (simp add: ref_count_def put_cell_def new_variable_def)
    then show "ref_count ?s b = int (root_refs ?s b) + int (heap_refs ?s b) + (if b = ?a then 1 else 0)"
      using ok z by (auto simp: h r vars_inv_def balanced_def)
  qed
  moreover have "cell_ok ?a new_variable" by (simp add: cell_ok_def new_variable_def elems_def)
  then have "heap_ok ?s" by (auto simp: heap_ok_def put_cell_def less_SucI dest!: vars_inv_cell [OF ok])
  moreover have "tables_ok ?s" using ok by (simp add: vars_inv_def tables_ok_def put_cell_def)
  ultimately show ?thesis using ok by (auto simp: vars_inv_def put_cell_def new_variable_def)
qed

end
