(* ===== verification/Th8_VarsOps.thy ===== *)
theory Th8_VarsOps
  imports Th8_VarsInv
begin

text \<open>
  Every operation of the variable layer keeps the invariant, whatever the allocator answers: it
  returns a well-formed state, or it runs out of C stack in the recursion between \<open>Th8_SetVar\<close>
  and \<open>Th8_ErrorMessage\<close>, and \<open>Th8_LinkVar\<close> alone dereferences a null pointer when memory runs out.
\<close>

section \<open>What an operation keeps\<close>

definition keeps :: "vstate \<Rightarrow> vstate \<Rightarrow> bool" where
  "keeps st st' \<longleftrightarrow>
     map pCaller (frames st') = map pCaller (frames st) \<and> curFrame st' = curFrame st \<and>
     fst ` set (namespaces st) \<subseteq> fst ` set (namespaces st') \<and> set (ram st') \<subseteq> set (ram st)"

lemma keeps_refl [simp]: "keeps st st"
  by (simp add: keeps_def)

lemma keeps_trans: "keeps st st' \<Longrightarrow> keeps st' st'' \<Longrightarrow> keeps st st''"
  by (simp add: keeps_def) (meson subset_trans)

lemma keeps_active: "keeps st st' \<Longrightarrow> active st \<Longrightarrow> active st'"
proof -
  assume k: "keeps st st'" and a: "active st"
  from k have "length (frames st') = length (frames st)" by (auto simp: keeps_def dest: map_eq_imp_length_eq)
  with k a show ?thesis by (simp add: keeps_def active_def subset_iff)
qed

lemma keeps_simps [simp]:
  "keeps st (note_calls cs st') = keeps st st'" "keeps st (put_cell a v st') = keeps st st'"
  "keeps st (static_result z st') = keeps st st'" "keeps st (st'\<lparr>vzResult := r, vnResult := n\<rparr>) = keeps st st'"
  "keeps st (st'\<lparr>nFresh := m\<rparr>) = keeps st st'" "keeps st (st'\<lparr>cells := c\<rparr>) = keeps st st'"
  "keeps st (st'\<lparr>iArrayHashGeneration := g\<rparr>) = keeps st st'"
  by (simp_all add: keeps_def note_calls_def put_cell_def static_result_def)

lemma keeps_put_table [simp]: "keeps st (put_table pl t st') = keeps st st'"
proof (cases pl)
  case (FrameVars i)
  have "(map pCaller fs)[i := pCaller (fs ! i)] = map pCaller fs" for fs :: "Th8_Frame list"
    by (cases "i < length fs") (simp_all add: list_update_same_conv list_update_beyond)
  with FrameVars show ?thesis by (simp add: keeps_def map_update)
next
  case (NsVars p)
  have "fst ` set (map (\<lambda>(q, u). (q, if q = p then t else u)) l) = fst ` set l" for l :: "(string list \<times> vtable) list"
    by force
  with NsVars show ?thesis by (simp add: keeps_def del: set_map)
qed (simp add: keeps_def put_cell_def split: option.splits)

lemma active_simps [simp]:
  "active (note_calls cs st) = active st" "active (put_cell a v st) = active st"
  "active (static_result z st) = active st" "active (st\<lparr>vzResult := r, vnResult := n\<rparr>) = active st"
  "active (st\<lparr>ram := bs\<rparr>) = active st" "active (st\<lparr>nFresh := m\<rparr>) = active st"
  by (simp_all add: active_def put_cell_def static_result_def)

text \<open>The outcome of a run: one of the given faults, or a well-formed state and a fact about the result.\<close>

definition runs :: "fault set \<Rightarrow> vstate \<Rightarrow> 'a run \<Rightarrow> ('a \<Rightarrow> vstate) \<Rightarrow> ('a \<Rightarrow> bool) \<Rightarrow> bool" where
  "runs F st m g Q \<longleftrightarrow>
     (case m of Inl f \<Rightarrow> f \<in> F | Inr x \<Rightarrow> vars_ok (g x) \<and> active (g x) \<and> keeps st (g x) \<and> Q x)"

lemma runs_Inr [simp]: "runs F st (Inr x) g Q \<longleftrightarrow> vars_ok (g x) \<and> active (g x) \<and> keeps st (g x) \<and> Q x"
  by (simp add: runs_def)

lemma runs_Inl [simp]: "runs F st (Inl f) g Q \<longleftrightarrow> f \<in> F"
  by (simp add: runs_def)

lemma andThen_assoc: "andThen (andThen m k) l = andThen m (\<lambda>x. andThen (k x) l)"
  by (cases m) auto

lemma runs_bind:
  assumes "runs F st m g Q"
    and "\<And>x. m = Inr x \<Longrightarrow> vars_ok (g x) \<Longrightarrow> active (g x) \<Longrightarrow> keeps st (g x) \<Longrightarrow> Q x \<Longrightarrow> runs F (g x) (k x) h R"
  shows "runs F st (andThen m k) h R"
proof (cases m)
  case (Inr x)
  with assms have "runs F (g x) (k x) h R" "keeps st (g x)" by auto
  with Inr show ?thesis by (cases "k x") (auto intro: keeps_trans)
qed (use assms in simp)

lemma runs_weaken: "runs F st m g Q \<Longrightarrow> F \<subseteq> F' \<Longrightarrow> (\<And>x. Q x \<Longrightarrow> Q' x) \<Longrightarrow> runs F' st m g Q'"
  by (cases m) auto

lemma runs_pure: "runs {} st m g Q \<Longrightarrow> runs F st m g Q"
  by (cases m) auto

lemma runs_from: "keeps st st' \<Longrightarrow> runs F st' m g Q \<Longrightarrow> runs F st m g Q"
  by (cases m) (auto intro: keeps_trans)

lemma allocs_ram: "allocs n st = (b, st') \<Longrightarrow> \<exists>bs. st' = st\<lparr>ram := bs\<rparr> \<and> set bs \<subseteq> set (ram st)"
proof (induction n arbitrary: st)
  case 0
  then have "st' = st\<lparr>ram := ram st\<rparr>" by simp
  then show ?case by blast
next
  case (Suc n)
  show ?case
  proof (cases "ram st")
    case Nil
    with Suc.prems have "st' = st\<lparr>ram := ram st\<rparr>" by simp
    then show ?thesis by blast
  next
    case (Cons x xs)
    then show ?thesis using Suc by (cases x) fastforce+
  qed
qed

lemma allocs_True: "\<forall>b \<in> set (ram st). b \<Longrightarrow> fst (allocs n st)"
  by (induction n arbitrary: st) (auto split: list.splits)

declare allocs.simps [simp del]

lemma allocs_cases:
  obtains b bs where "allocs n st = (b, st\<lparr>ram := bs\<rparr>)" "set bs \<subseteq> set (ram st)" "b \<or> (\<exists>x \<in> set (ram st). \<not> x)"
proof -
  obtain b st' where a: "allocs n st = (b, st')" by fastforce
  from allocs_ram [OF this] obtain bs where "st' = st\<lparr>ram := bs\<rparr>" "set bs \<subseteq> set (ram st)" by blast
  moreover have "b \<or> (\<exists>x \<in> set (ram st). \<not> x)" using allocs_True [of st n] a by auto
  ultimately show thesis using that a by blast
qed

lemma keeps_ram: "set bs \<subseteq> set (ram st) \<Longrightarrow> keeps st (st\<lparr>ram := bs\<rparr>)"
  by (simp add: keeps_def)

lemma runs_ram: "set bs \<subseteq> set (ram st) \<Longrightarrow> runs F (st\<lparr>ram := bs\<rparr>) m g Q \<Longrightarrow> runs F st m g Q"
  by (blast intro: runs_from keeps_ram)

section \<open>Frames and lookup\<close>

lemma frame_chain_cong: "map pCaller fs = map pCaller gs \<Longrightarrow> frame_chain fs i = frame_chain gs i"
proof (induction gs i rule: frame_chain.induct)
  case (1 gs i)
  have eq: "(if i < length fs then pCaller (fs ! i) else None) = (if i < length gs then pCaller (gs ! i) else None)"
    using 1(2) by (metis map_eq_imp_length_eq nth_map)
  show ?case unfolding frame_chain.simps [of fs i] frame_chain.simps [of gs i] eq
    using 1 by (simp split: option.splits)
qed

lemma frame_chain_le: "j \<in> set (frame_chain fs i) \<Longrightarrow> j \<le> i"
proof (induction fs i rule: frame_chain.induct)
  case (1 fs i)
  from 1(2) have "j = i \<or> (\<exists>k. (if i < length fs then pCaller (fs ! i) else None) = Some k \<and> k < i \<and> j \<in> set (frame_chain fs k))"
    by (subst (asm) frame_chain.simps) (auto split: option.splits if_splits)
  with 1(1) show ?case by fastforce
qed

lemma frame_chain_Nil [simp]: "frame_chain fs i \<noteq> []"
  by (simp add: frame_chain.simps)

lemma frame_of_less: "active st \<Longrightarrow> frame_of g st < length (frames st)"
  using frame_chain_le [of "last (frame_chain (frames st) (curFrame st))" "frames st" "curFrame st"]
  by (auto simp: frame_of_def active_def dest: le_less_trans)

lemma get_table_fresh:
  assumes "vars_inv st d" "get_table pl st = Inr t"
  shows "get_table pl (put_cell (nFresh st) v (st\<lparr>nFresh := n\<rparr>)) = Inr t"
proof (cases pl)
  case (Elements a)
  with assms have "a \<noteq> nFresh st" by (auto simp: deref_def split: option.splits dest: vars_inv_cell)
  with Elements assms(2) show ?thesis by (simp add: deref_def put_cell_def)
qed (use assms(2) in \<open>auto simp: put_cell_def split: if_splits\<close>)

lemma dom_put_table: "dom (cells (put_table pl t st)) = dom (cells st)"
  by (cases pl) (auto simp: put_cell_def split: option.splits if_splits)

lemma nFresh_put_table [simp]: "nFresh (put_table pl t st) = nFresh st"
  by (cases pl) (auto simp: put_cell_def split: option.splits)

lemma find_or_create_ok:
  assumes ok: "vars_ok st" "active st" and t: "get_table pl st = Inr t"
  shows "runs {} st (find_or_create pl k c st) snd
    (\<lambda>(r, st'). (\<forall>a. r = Some a \<longrightarrow> cells st' a \<noteq> None) \<and> dom (cells st) \<subseteq> dom (cells st') \<and> (\<not> c \<longrightarrow> st' = st))"
proof (cases "\<exists>a. map_of t k = Some (Some a)")
  case True
  then obtain a where a: "map_of t k = Some (Some a)" by blast
  with entry_live [OF ok(1) t a] ok t show ?thesis by (auto simp: find_or_create_def)
next
  case False
  then have nk: "map_of t k = None \<or> map_of t k = Some None" by (metis option.exhaust)
  show ?thesis
  proof (cases c)
    case False
    with nk ok t show ?thesis by (auto simp: find_or_create_def)
  next
    case True
    let ?t1 = "dict_step (Create k) t"
    obtain b bs where a1: "(if map_of t k = None then allocs 2 st else (True, st)) = (b, st\<lparr>ram := bs\<rparr>)" "set bs \<subseteq> set (ram st)"
    proof (cases "map_of t k = None")
      case True then show thesis by (rule_tac allocs_cases [of 2 st]) (auto intro: that)
    next
      case False
      then have "(if map_of t k = None then allocs 2 st else (True, st)) = (True, st\<lparr>ram := ram st\<rparr>)" by auto
      then show thesis using that by blast
    qed
    let ?s1 = "put_table pl ?t1 (st\<lparr>ram := bs\<rparr>)"
    obtain b' bs' where a2: "allocs 1 ?s1 = (b', ?s1\<lparr>ram := bs'\<rparr>)" "set bs' \<subseteq> set (ram ?s1)"
      by (rule allocs_cases [of 1 ?s1])
    have d1: "distinct (map fst ?t1)" using distinct_dict_step [OF get_table_distinct [OF ok(1) t]] .
    have "vars_inv ?s1 (\<lambda>b. 0 + int (tab_refs t b) - int (tab_refs ?t1 b))"
      by (rule put_table_inv) (use ok t d1 get_table_elements [OF ok(1)] in \<open>auto simp: set_dict_step\<close>)
    then have s1: "vars_ok ?s1" by simp
    have g1: "get_table pl ?s1 = Inr ?t1" using t by simp
    have k1: "keeps st ?s1" using keeps_ram [OF a1(2)] by simp
    let ?s2 = "?s1\<lparr>ram := bs'\<rparr>" and ?a = "nFresh (?s1\<lparr>ram := bs'\<rparr>)"
    have k2: "keeps st ?s2" using k1 keeps_ram [OF a2(2)] keeps_trans by blast
    let ?s3 = "put_cell ?a new_variable (?s2\<lparr>nFresh := Suc ?a\<rparr>)" and ?t2 = "dict_step (Assign k (Some ?a)) ?t1"
    have s3: "vars_inv ?s3 (\<lambda>b. if b = ?a then 1 else 0)" using new_cell_inv [of ?s2] s1 by simp
    have g3: "get_table pl ?s3 = Inr ?t1" using get_table_fresh [of ?s2] s1 g1 by simp
    have m1: "map_of ?t1 k = Some None" using nk by (auto simp: map_of_dict_step)
    have "vars_inv (put_table pl ?t2 ?s3) (\<lambda>b. (if b = ?a then 1 else 0) + int (tab_refs ?t1 b) - int (tab_refs ?t2 b))"
    proof (rule put_table_inv [OF s3 g3])
      show "distinct (map fst ?t2)" using distinct_dict_step [OF d1] .
      show "a < b" if "pl = Elements a" "(j, Some b) \<in> set ?t2" for a j b
        using set_dict_step(3) [OF that(2)]
      proof
        assume "b = ?a"
        then show ?thesis using g1 s1 that(1) by (auto simp: deref_def split: option.splits dest: vars_inv_cell)
      qed (use get_table_elements [OF s1] g1 that(1) in blast)
    qed
    moreover have "(\<lambda>b. (if b = ?a then 1 else 0) + int (tab_refs ?t1 b) - int (tab_refs ?t2 b)) = (\<lambda>_. 0)"
      using tab_refs_Assign [OF d1 m1, of ?a] by auto
    ultimately have s4: "vars_ok (put_table pl ?t2 ?s3)" by argo
    have dm: "dom (cells st) \<subseteq> dom (cells ?s2)" by (simp add: dom_put_table)
    have dm4: "dom (cells (put_table pl ?t2 ?s3)) = insert ?a (dom (cells st))"
      unfolding dom_put_table by (simp add: put_cell_def dom_put_table)
    have "find_or_create pl k c st = (if \<not> b then Inr (None, st\<lparr>ram := bs\<rparr>) else if \<not> b' then Inr (None, ?s2)
        else Inr (Some ?a, put_table pl ?t2 ?s3))"
      using t nk True a2(1) a1(1) by (auto simp: find_or_create_def Let_def simp del: One_nat_def)
    moreover have "active ?s2" "active (put_table pl ?t2 ?s3)"
      using keeps_active [OF k2 ok(2)] keeps_active [of ?s2 "put_table pl ?t2 ?s3"] by auto
    moreover have "cells (put_table pl ?t2 ?s3) ?a \<noteq> None" using dm4 by blast
    ultimately show ?thesis
      using ok s1 s4 k2 keeps_ram [OF a1(2)] True dm dm4 by auto
  qed
qed


section \<open>Namespaces\<close>

lemma new_ns_inv: "vars_inv st d \<Longrightarrow> q \<notin> fst ` set (namespaces st) \<Longrightarrow> vars_inv (st\<lparr>namespaces := namespaces st @ [(q, [])]\<rparr>) d"
  by (auto simp: vars_inv_def tables_ok_def heap_ok_def balanced_def ref_count_def root_refs_def heap_refs_def)

lemma static_result_sel [simp]:
  "cells (static_result z st) = cells st" "nFresh (static_result z st) = nFresh st" "frames (static_result z st) = frames st"
  "namespaces (static_result z st) = namespaces st" "curFrame (static_result z st) = curFrame st" "ram (static_result z st) = ram st"
  by (simp_all add: static_result_def)

lemma ns_walk_unfold: "ns_walk c p z st =
     (if z = [] then (Some p, st)
      else if fst (ns_split z) = [] then ns_walk c p (drop 2 z) st
      else if p @ [fst (ns_split z)] \<in> fst ` set (namespaces st) then ns_walk c (p @ [fst (ns_split z)]) (drop 2 (snd (ns_split z))) st
      else if \<not> c then (None, st)
      else if length p \<ge> TH8_MX_NS_DEPTH then (None, static_result ''namespace nested too deeply'' st)
      else case allocs 7 st of
              (False, st) \<Rightarrow> (None, st)
            | (True, st) \<Rightarrow> ns_walk c (p @ [fst (ns_split z)]) (drop 2 (snd (ns_split z)))
                (st\<lparr>namespaces := namespaces st @ [(p @ [fst (ns_split z)], [])]\<rparr>))"
  by (subst ns_walk.simps) (simp add: Let_def)

lemma ns_walk_ok:
  "vars_ok st \<Longrightarrow> p \<in> fst ` set (namespaces st) \<Longrightarrow> ns_walk c p z st = (r, st') \<Longrightarrow>
   vars_ok st' \<and> keeps st st' \<and> cells st' = cells st \<and> nFresh st' = nFresh st \<and> frames st' = frames st \<and>
   (\<forall>q. r = Some q \<longrightarrow> q \<in> fst ` set (namespaces st')) \<and> (\<not> c \<longrightarrow> st' = st)"
proof (induction c p z st rule: ns_walk.induct)
  case (1 c p z st)
  note IH = "1.IH" and ok = "1.prems"(1,2)
  let ?comp = "fst (ns_split z)" and ?rest = "snd (ns_split z)"
  let ?q = "p @ [?comp]"
  note eq = ns_walk_unfold [of c p z st]
  consider (nil) "z = []" | (skip) "z \<noteq> []" "?comp = []" | (old) "z \<noteq> []" "?comp \<noteq> []" "?q \<in> fst ` set (namespaces st)"
    | (fail) "z \<noteq> []" "?comp \<noteq> []" "?q \<notin> fst ` set (namespaces st)" "\<not> c \<or> length p \<ge> TH8_MX_NS_DEPTH"
    | (new) "z \<noteq> []" "?comp \<noteq> []" "?q \<notin> fst ` set (namespaces st)" "c" "\<not> length p \<ge> TH8_MX_NS_DEPTH" by blast
  then show ?case
  proof cases
    case nil with ok "1.prems"(3) eq show ?thesis by auto
  next
    case skip with IH(1) [OF _ refl refl refl] ok "1.prems"(3) eq show ?thesis by simp
  next
    case old with IH(2) [OF _ refl refl refl] ok "1.prems"(3) eq show ?thesis by simp
  next
    case fail with ok "1.prems"(3) eq show ?thesis by (auto split: if_splits)
  next
    case new
    obtain b bs where a: "allocs 7 st = (b, st\<lparr>ram := bs\<rparr>)" "set bs \<subseteq> set (ram st)" by (rule allocs_cases)
    let ?s = "st\<lparr>ram := bs, namespaces := namespaces st @ [(?q, [])]\<rparr>"
    show ?thesis
    proof (cases b)
      case False
      with a ok "1.prems"(3) eq new show ?thesis by (auto simp: keeps_ram)
    next
      case True
      have s: "vars_ok ?s" "keeps st ?s" using new_ns_inv [of "st\<lparr>ram := bs\<rparr>" _ ?q] ok(1) new(3) a(2) by (auto simp: keeps_def)
      have "ns_walk c ?q (drop 2 ?rest) ?s = (r, st')" using "1.prems"(3) eq new a(1) True by simp
      with IH(3) [OF new(1) refl refl refl new(2,3) _ _ a(1) [symmetric]] True new s(1)
      have "vars_ok st' \<and> keeps ?s st' \<and> cells st' = cells st \<and> nFresh st' = nFresh st \<and> frames st' = frames st \<and>
          (\<forall>q. r = Some q \<longrightarrow> q \<in> fst ` set (namespaces st'))" by simp
      with s(2) new(4) show ?thesis by (auto intro: keeps_trans)
    qed
  qed
qed

lemma th8FindNamespaceEx_ok:
  assumes ok: "vars_ok st" "active st" and r: "th8FindNamespaceEx (''::'' @ z) c st = (r, st')"
  shows "vars_ok st' \<and> keeps st st' \<and> cells st' = cells st \<and> (\<forall>q. r = Some q \<longrightarrow> q \<in> fst ` set (namespaces st')) \<and> (\<not> c \<longrightarrow> st' = st)"
proof (cases "z = []")
  case True
  with r ok show ?thesis by (auto simp: th8FindNamespaceEx_def active_def)
next
  case False
  obtain r1 s1 where w: "ns_walk c [] z st = (r1, s1)" by fastforce
  with r False have e: "r = r1" "st' = (if r1 = None then s1\<lparr>namespaces := namespaces st\<rparr> else s1)"
    by (auto simp: th8FindNamespaceEx_def split: option.splits)
  have n: "[] \<in> fst ` set (namespaces st)" using ok(2) by (simp add: active_def)
  note f = ns_walk_ok [OF ok(1) n w]
  show ?thesis
  proof (cases r1)
    case None
    have "vars_inv (s1\<lparr>namespaces := namespaces st\<rparr>) d = vars_inv st d" for d
      by (rule vars_inv_cong) (use f in auto)
    with None e f ok show ?thesis by (auto simp: keeps_def)
  qed (use e f in auto)
qed

lemma find_outer_ok:
  assumes ok: "vars_ok st" "active st"
  shows "runs {} st (find_outer z g c st) snd (\<lambda>(r, st'). (\<forall>a. r = Some a \<longrightarrow> cells st' a \<noteq> None))"
proof (cases "g \<and> has_sep z")
  case False
  have "get_table (FrameVars (frame_of g st)) st = Inr (paVar (frames st ! frame_of g st))"
    using frame_of_less [OF ok(2)] by simp
  from runs_weaken [OF find_or_create_ok [OF ok this, of z c]] have
    "runs {} st (find_or_create (FrameVars (frame_of g st)) z c st) snd (\<lambda>(r, st'). \<forall>a. r = Some a \<longrightarrow> cells st' a \<noteq> None)"
    by fastforce
  with False show ?thesis by (auto simp: find_outer_def)
next
  case True
  obtain ns tl where sp: "th8SplitQualName z = (ns, tl)" by fastforce
  let ?z = "case ns of None \<Rightarrow> [] | Some z \<Rightarrow> z"
  obtain b bs where a: "allocs (if ?z = [] then 1 else 2) st = (b, st\<lparr>ram := bs\<rparr>)" "set bs \<subseteq> set (ram st)" by (rule allocs_cases)
  show ?thesis
  proof (cases b)
    case False
    with True sp a ok keeps_ram [OF a(2)] show ?thesis by (simp add: find_outer_def Let_def)
  next
    case b: True
    let ?s = "st\<lparr>ram := bs\<rparr>"
    obtain r s1 where n: "th8FindNamespaceEx (''::'' @ ?z) c ?s = (r, s1)" by fastforce
    have s: "vars_ok ?s" "active ?s" using ok by simp_all
    note f = th8FindNamespaceEx_ok [OF s n]
    then have k: "keeps st s1" "active s1" using keeps_ram [OF a(2)] keeps_trans keeps_active ok(2) by blast+
    show ?thesis
    proof (cases r)
      case None
      with True sp a(1) b n f k show ?thesis by (simp add: find_outer_def Let_def)
    next
      case (Some q)
      then obtain t where "get_table (NsVars q) s1 = Inr t" using f map_of_eq_None_iff [of "namespaces s1" q] by (auto split: option.splits)
      from runs_weaken [OF find_or_create_ok [OF _ k(2) this, of tl c]] f
      have "runs {} s1 (find_or_create (NsVars q) tl c s1) snd (\<lambda>(r, st'). (\<forall>a. r = Some a \<longrightarrow> cells st' a \<noteq> None))"
        by fastforce
      with True sp a(1) b n Some runs_from [OF k(1)] show ?thesis by (simp add: find_outer_def Let_def)
    qed
  qed
qed


section \<open>The setter interface\<close>

text \<open>
  \<open>Th8_ErrorMessage\<close> and \<open>th8FindValue\<close> call back into \<open>Th8_SetVar\<close>. What they rely on is that the
  setter they call keeps the invariant; the lookup and the messages then keep it too.
\<close>

lemma Th8_SetResult_ok:
  assumes "vars_ok st" "active st"
  shows "vars_ok (snd (Th8_SetResult z n st)) \<and> active (snd (Th8_SetResult z n st)) \<and> keeps st (snd (Th8_SetResult z n st)) \<and>
    cells (snd (Th8_SetResult z n st)) = cells st"
proof (cases z)
  case None
  then show ?thesis using assms by (simp add: Th8_SetResult_def)
next
  case (Some y)
  let ?s = "st\<lparr>vzResult := None, vnResult := 0\<rparr>"
  obtain b bs where a: "allocs 1 ?s = (b, ?s\<lparr>ram := bs\<rparr>)" "set bs \<subseteq> set (ram ?s)" by (rule allocs_cases)
  then have "keeps st (st\<lparr>ram := bs\<rparr>)" by (simp add: keeps_ram)
  with a Some assms show ?thesis
    by (cases b) (auto simp: Th8_SetResult_def Let_def keeps_def active_def simp del: One_nat_def)
qed

lemma runs_deref:
  assumes "vars_ok st" "active st" "cells st a \<noteq> None"
    and "\<And>v. cells st a = Some v \<Longrightarrow> 0 < nRef v \<Longrightarrow> cell_ok a v \<Longrightarrow> runs F st (k v) g Q"
  shows "runs F st (andThen (deref a st) k) g Q"
  using assms vars_inv_cell [OF assms(1)] by (auto simp: deref_def)

lemma new_hash_ok:
  assumes ok: "vars_ok st" and v: "cells st a = Some v" and h: "pHash v = None" "vzData v = None"
  shows "vars_ok (new_hash a v st)"
proof -
  let ?n = "new_hash a v st"
  let ?v = "v\<lparr>pHash := Some [], nGeneration := iArrayHashGeneration st + 1\<rparr>"
  note c = vars_inv_cell [OF ok v]
  have "cell_ok a ?v" using c h by (simp add: cell_ok_def elems_def)
  then have hp: "heap_ok ?n" using ok c by (auto simp: new_hash_def put_cell_def vars_inv_def heap_ok_def)
  have "heap_refs ?n b = heap_refs st b" for b
    using heap_refs_upd [of a st "Some ?v" b] c v h
    by (simp add: new_hash_def put_cell_def cell_refs_def elems_def heap_refs_def)
  moreover have "ref_count ?n b = ref_count st b" "root_refs ?n b = root_refs st b" for b
    using v by (simp_all add: ref_count_def new_hash_def put_cell_def root_refs_def)
  ultimately have "balanced ?n (\<lambda>_. 0)" using ok by (simp add: vars_inv_def balanced_def)
  with hp show ?thesis using ok c by (auto simp: vars_inv_def tables_ok_def new_hash_def put_cell_def)
qed

locale var_setter =
  fixes sv :: setter
  assumes setter_ok: "vars_ok st \<Longrightarrow> active st \<Longrightarrow> runs {StackOverflow} st (sv name z n st) snd (\<lambda>_. True)"
begin

lemma message_ok:
  assumes ok: "vars_ok st" "active st"
  shows "runs {StackOverflow} st (Th8_ErrorMessage sv zPre name st) (\<lambda>s. s) (\<lambda>_. True)"
proof -
  have step: "runs {StackOverflow} s (case allocs (message_appends zPre) s of
          (False, st) \<Rightarrow> Inr (static_result ''out of memory'' st)
        | (True, st) \<Rightarrow> Inr (snd (Th8_SetResult (Some z) n st))) (\<lambda>s. s) (\<lambda>_. True)"
    if "vars_ok s" "active s" for s z n
  proof -
    obtain b bs where a: "allocs (message_appends zPre) s = (b, s\<lparr>ram := bs\<rparr>)" "set bs \<subseteq> set (ram s)" by (rule allocs_cases)
    have s: "vars_ok (s\<lparr>ram := bs\<rparr>)" "active (s\<lparr>ram := bs\<rparr>)" using that by simp_all
    from Th8_SetResult_ok [OF s, of "Some z" n] keeps_ram [OF a(2)] a that show ?thesis
      by (cases b) (auto intro: keeps_trans)
  qed
  obtain z t where e: "(if snd name AND TH8_SENSITIVE_BIT \<noteq> 0 then (''<sensitive value withheld>'', 0)
      else (fst name, snd name AND TH8_TAG_BITS)) = (z, t)" by fastforce
  show ?thesis unfolding Th8_ErrorMessage_def Let_def e prod.case
  proof (rule runs_bind [OF setter_ok [OF ok]], goal_cases)
    case (1 x)
    then show ?case using step [of "snd x" "message zPre z" "of_nat (length (message zPre z)) OR t"] by (cases x) simp
  qed
qed

lemma find_element_ok:
  assumes ok: "vars_ok st" "active st" and a: "cells st a \<noteq> None"
  shows "runs {StackOverflow} st (find_element sv zOuter a i c st) snd (\<lambda>(r, st'). \<forall>x. r = Some x \<longrightarrow> cells st' x \<noteq> None)"
proof -
  let ?Q = "\<lambda>(r, st'). \<forall>x. r = Some x \<longrightarrow> cells st' x \<noteq> None"
  let ?lookup = "\<lambda>s. andThen (find_or_create (Elements a) i c s) (\<lambda>(r, s).
     if r \<noteq> None \<and> c then andThen (bump_epoch a s) (\<lambda>s. Inr (r, s)) else Inr (r, s))"
  have look: "runs {StackOverflow} s (?lookup s) snd ?Q" if s: "vars_ok s" "active s" and t: "get_table (Elements a) s = Inr t" for s t
  proof (rule runs_bind [OF runs_pure [OF find_or_create_ok [OF s t]]], goal_cases)
    case (1 x)
    note 3 = 1
    obtain r s1 where x: "x = (r, s1)" by fastforce
    have "cells s a \<noteq> None" using t by (auto simp: deref_def split: option.splits)
    then have "cells s1 a \<noteq> None" using 3(5) x by auto
    then obtain v where v: "cells s1 a = Some v" by blast
    have s1: "vars_ok s1" "active s1" using 3(2,3) x by auto
    have "cell_ok a v" using vars_inv_cell [OF s1(1) v] by blast
    then have "vars_ok (put_cell a (v\<lparr>nEpoch := nEpoch v + 1\<rparr>) s1)" by (intro put_cell_ok [OF s1(1) v]) (auto simp: cell_ok_def)
    moreover have "cells (put_cell a (v\<lparr>nEpoch := nEpoch v + 1\<rparr>) s1) y \<noteq> None" if "r = Some y" for y
      using 3(5) x that by (auto simp: put_cell_def)
    ultimately show ?case using v s1 x 3(5) by (auto simp: bump_epoch_def deref_def)
  qed
  show ?thesis unfolding find_element_def Let_def
  proof (rule runs_deref [OF ok a])
    fix v assume v: "cells st a = Some v" "0 < nRef v" "cell_ok a v"
    obtain b bs where al: "allocs 1 st = (b, st\<lparr>ram := bs\<rparr>)" "set bs \<subseteq> set (ram st)" by (rule allocs_cases)
    let ?n = "new_hash a v (st\<lparr>ram := bs\<rparr>)"
    have new: "runs {StackOverflow} st (?lookup ?n) snd ?Q" if h: "pHash v = None" "vzData v = None"
    proof -
      have "vars_ok ?n" using new_hash_ok [of "st\<lparr>ram := bs\<rparr>" a v] ok(1) v(1) h by simp
      moreover have "get_table (Elements a) ?n = Inr []" by (simp add: deref_def new_hash_def put_cell_def)
      moreover have "keeps st ?n" using keeps_ram [OF al(2)] by (simp add: new_hash_def)
      ultimately show ?thesis using look keeps_active [OF _ ok(2)] runs_from by blast
    qed
    show "runs {StackOverflow} st
       (if pHash v \<noteq> None then ?lookup st
        else if \<not> c then Inr (None, st)
        else if vzData v \<noteq> None then andThen (Th8_ErrorMessage sv ''variable is a scalar:'' (zOuter, 0) st) (\<lambda>st. Inr (None, st))
        else case allocs 1 st of (False, st) \<Rightarrow> Inr (None, st) | (True, st) \<Rightarrow> ?lookup (new_hash a v st)) snd ?Q"
    proof (cases "pHash v")
      case (Some t)
      then have "get_table (Elements a) st = Inr t" using v(1) by (simp add: deref_def)
      from look [OF ok this] Some show ?thesis by simp
    next
      case None
      have "runs {StackOverflow} st (andThen (Th8_ErrorMessage sv ''variable is a scalar:'' (zOuter, 0) st) (\<lambda>st. Inr (None, st))) snd ?Q"
        by (rule runs_bind [OF message_ok [OF ok]]) simp
      with None new al ok keeps_ram [OF al(2)] show ?thesis by (cases b) (auto simp del: One_nat_def)
    qed
  qed
qed

lemma find_ok:
  assumes ok: "vars_ok st" "active st"
  shows "runs {StackOverflow} st (th8FindValue sv zVar c st) snd (\<lambda>(r, st'). \<forall>x. r = Some x \<longrightarrow> cells st' x \<noteq> None)"
proof -
  obtain o' i g where an: "th8AnalyzeVarName zVar = (o', i, g)" by (cases "th8AnalyzeVarName zVar") auto
  show ?thesis unfolding th8FindValue_def an Let_def prod.case
  proof (rule runs_bind [OF runs_pure [OF find_outer_ok [OF ok]]], goal_cases)
    case (1 x)
    then show ?case using find_element_ok [of "snd x" "the (fst x)" o' "the i" c]
      by (cases x; cases "fst x"; cases i) auto
  qed
qed

end


section \<open>Writing and reading\<close>

lemma put_scalar_ok:
  assumes "vars_ok st" "cells st a = Some v" "pHash v = None" "nRef v' = nRef v" "pHash v' = None" "bBorrowed v' \<longrightarrow> vzData v' \<noteq> None"
  shows "vars_ok (put_cell a v' st)"
  by (rule put_cell_ok [OF assms(1,2)]) (use assms(3-) in auto)

lemma write_scalar_ok:
  assumes ok: "vars_ok st" "active st" and v: "cells st a = Some v" "pHash v = None"
  shows "runs F st (Inr (write_scalar name a v z n st)) snd (\<lambda>_. True)"
proof -
  let ?s = "note_calls (RemoveFromCache (fst name) # release_data v) st"
  obtain b bs where al: "allocs 1 ?s = (b, ?s\<lparr>ram := bs\<rparr>)" "set bs \<subseteq> set (ram ?s)" by (rule allocs_cases)
  let ?t = "?s\<lparr>ram := bs\<rparr>"
  have t: "vars_ok ?t" "active ?t" "cells ?t a = Some v" "keeps st ?t" using ok v(1) al(2) by (auto simp: keeps_def)
  have p: "vars_ok (put_cell a (v\<lparr>bBorrowed := False, nAlloc := 0, nData := d, vzData := y, nWait := w\<rparr>) ?t)" for d y w
    by (rule put_scalar_ok [OF t(1,3)]) (use v(2) in auto)
  have "v\<lparr>bBorrowed := False, nAlloc := 0, nData := d, vzData := None\<rparr> =
      v\<lparr>bBorrowed := False, nAlloc := 0, nData := d, vzData := None, nWait := nWait v\<rparr>" for d by simp
  with p [where y = None and w = "nWait v"] p [where y = "Some z" and w = "nWait v + 1"] t al(1) show ?thesis
    by (cases b) (auto simp: write_scalar_def Let_def simp del: One_nat_def)
qed

lemma Th8_SetVar_setter: "var_setter (Th8_SetVar depth)"
proof (induction depth)
  case 0
  show ?case by unfold_locales simp
next
  case (Suc depth)
  show ?case
  proof
    fix st name z n
    assume ok: "vars_ok st" "active st"
    show "runs {StackOverflow} st (Th8_SetVar (Suc depth) name z n st) snd (\<lambda>_. True)"
      unfolding Th8_SetVar.simps
    proof (rule runs_bind [OF var_setter.find_ok [OF Suc ok]], goal_cases)
      case (1 x)
      obtain r s where x: "x = (r, s)" by fastforce
      have s: "vars_ok s" "active s" using 1 x by auto
      show ?case
      proof (cases r)
        case None then show ?thesis using s x by simp
      next
        case (Some a)
        then have a: "cells s a \<noteq> None" using 1(5) x by simp
        have m: "runs {StackOverflow} s (andThen (Th8_ErrorMessage (Th8_SetVar depth) p name s) (\<lambda>st. Inr (TH8_ERROR, st))) snd (\<lambda>_. True)" for p
          by (rule runs_bind [OF var_setter.message_ok [OF Suc s]]) simp
        show ?thesis unfolding x Some prod.case option.case snd_conv
          by (rule runs_deref [OF s a]) (auto simp: m simp del: runs_Inr intro: write_scalar_ok [OF s])
      qed
    qed
  qed
qed

interpretation setv: var_setter "Th8_SetVar depth" for depth
  by (rule Th8_SetVar_setter)

lemma errorMessage_ok:
  assumes ok: "vars_ok st" "active st"
  shows "runs {StackOverflow} st (errorMessage depth zPre name st) snd (\<lambda>_. True)"
  unfolding errorMessage_def by (rule runs_bind [OF setv.message_ok [OF ok]]) simp

lemma read_scalar_ok:
  assumes ok: "vars_ok st" "active st"
  shows "runs {StackOverflow} st (read_scalar depth name st) snd (\<lambda>_. True)"
  unfolding read_scalar_def
proof (rule runs_bind [OF setv.find_ok [OF ok]], goal_cases)
  case (1 x)
  obtain r s where x: "x = (r, s)" by fastforce
  have s: "vars_ok s" "active s" using 1 x by auto
  have m: "runs {StackOverflow} s (andThen (errorMessage depth p name s) (\<lambda>(rc, st). Inr (None, st))) snd (\<lambda>_. True)" for p
    by (rule runs_bind [OF errorMessage_ok [OF s]]) auto
  show ?case
  proof (cases r)
    case (Some a)
    then have a: "cells s a \<noteq> None" using 1(5) x by simp
    show ?thesis using x Some m s by (auto intro!: runs_deref [OF s a])
  qed (use x m in simp)
qed

lemma Th8_GetVar_ok:
  assumes ok: "vars_ok st" "active st"
  shows "runs {StackOverflow} st (Th8_GetVar depth name st) snd (\<lambda>_. True)"
  unfolding Th8_GetVar_def
  by (rule runs_bind [OF read_scalar_ok [OF ok]]) (auto simp: Th8_SetResult_ok split: option.splits)

lemma th8GetVarValue_ok:
  assumes ok: "vars_ok st" "active st"
  shows "runs {StackOverflow} st (th8GetVarValue depth name st) (\<lambda>(rc, v, s). s) (\<lambda>_. True)"
  unfolding th8GetVarValue_def
  by (rule runs_bind [OF read_scalar_ok [OF ok]]) (auto split: option.splits)

text \<open>An operation on the cell that a lookup finds.\<close>

lemma on_cell_ok:
  assumes ok: "vars_ok st" "active st"
    and k: "\<And>s a v. vars_ok s \<Longrightarrow> active s \<Longrightarrow> cells s a = Some v \<Longrightarrow> cell_ok a v \<Longrightarrow> runs {StackOverflow} s (k s a v) snd (\<lambda>_. True)"
  shows "runs {StackOverflow} st (andThen (th8FindValue (Th8_SetVar depth) z c st) (\<lambda>(r, s).
     case r of None \<Rightarrow> Inr (TH8_ERROR, s) | Some a \<Rightarrow> andThen (deref a s) (k s a))) snd (\<lambda>_. True)"
proof (rule runs_bind [OF setv.find_ok [OF ok]], goal_cases)
  case (1 x)
  obtain r s where x: "x = (r, s)" by fastforce
  then show ?case using 1 by (cases r) (auto intro!: runs_deref k)
qed

lemma th8SetVarLength_ok:
  assumes ok: "vars_ok st" "active st"
  shows "runs {StackOverflow} st (th8SetVarLength depth name z n st) snd (\<lambda>_. True)"
  unfolding th8SetVarLength_def
proof (rule on_cell_ok [OF ok, where k = "\<lambda>s a v. if \<not> bBorrowed v then Inr (TH8_ERROR, s) else Inr (TH8_OK, note_calls [SignalAllStates]
     (put_cell a (v\<lparr>vzData := Some (bytes_of z n), nData := TH8_LEN n, nWait := nWait v + 1\<rparr>) s))"])
  fix s a v assume s: "vars_ok s" "active s" "cells s a = Some v" "cell_ok a v"
  then show "runs {StackOverflow} s (if \<not> bBorrowed v then Inr (TH8_ERROR, s) else Inr (TH8_OK, note_calls [SignalAllStates]
     (put_cell a (v\<lparr>vzData := Some (bytes_of z n), nData := TH8_LEN n, nWait := nWait v + 1\<rparr>) s))) snd (\<lambda>_. True)"
    by (auto simp: cell_ok_def intro!: put_scalar_ok [OF s(1,3)])
qed

lemma th8SetVarValue_ok:
  assumes ok: "vars_ok st" "active st"
  shows "runs {StackOverflow} st (th8SetVarValue depth name buffer st) snd (\<lambda>_. True)"
proof (cases buffer)
  case (Some q)
  obtain p u n where q: "q = (p, u, n)" by (cases q) auto
  show ?thesis unfolding th8SetVarValue_def Some q option.case prod.case
    by (rule on_cell_ok [OF ok]) (auto intro!: errorMessage_ok put_scalar_ok)
qed (use ok in \<open>simp add: th8SetVarValue_def\<close>)

lemma append_cell_ok:
  assumes s: "vars_ok s" "active s" "cells s a = Some v" "cell_ok a v"
  shows "runs F s (append_cell a v args s) snd (\<lambda>_. True)"
proof -
  have p: "vars_ok (put_cell a (v\<lparr>vzData := Some y, nData := d\<rparr>) s)" if "bBorrowed v" for y d
    using s(4) that by (intro put_scalar_ok [OF s(1,3)]) (auto simp: cell_ok_def)
  have r: "runs F s (Inr (TH8_OK, snd (Th8_SetResult (Some y) d (put_cell a (v\<lparr>vzData := Some y, nData := d\<rparr>) s)))) snd (\<lambda>_. True)"
    if "bBorrowed v" for y d
    using Th8_SetResult_ok [OF p [OF that, where y = y and d = d], of "Some y" d] s(2) keeps_trans [of s "put_cell a (v\<lparr>vzData := Some y, nData := d\<rparr>) s"] by auto
  have e: "runs F s (Inr (TH8_ERROR, s)) snd (\<lambda>_. True)" using s by simp
  show ?thesis
  proof (cases "bBorrowed v")
    case True
    then obtain z where "vzData v = Some z" using s(4) by (auto simp: cell_ok_def)
    with True e r [OF True] show ?thesis by (simp add: append_cell_def Let_def del: runs_Inr)
  qed (use e in \<open>simp add: append_cell_def del: runs_Inr\<close>)
qed

lemma th8AppendInPlace_ok:
  assumes ok: "vars_ok st" "active st"
  shows "runs {StackOverflow} st (th8AppendInPlace depth name args st) snd (\<lambda>_. True)"
  unfolding th8AppendInPlace_def by (rule on_cell_ok [OF ok]) (rule append_cell_ok)


section \<open>Unset\<close>

lemma shrunk_keeps: "shrunk m st st' \<Longrightarrow> keeps st st'"
  using shrunk_rest by (auto simp: keeps_def)

lemma free_var_inv:
  assumes inv: "vars_inv st d" and a: "0 < ref_count st a" "\<forall>b > a. 0 \<le> d b"
  shows "\<exists>st'. free_var a st = Inr st' \<and> vars_inv st' (d(a := d a - 1)) \<and> shrunk a st st'"
proof -
  have "can_free a st d" using inv a by (simp add: can_free_def vars_inv_def add_nonneg_nonneg)
  from free_var_ok [OF this] obtain st' where st': "free_var a st = Inr st'" "heap_ok st'" "balanced st' (d(a := d a - 1))" "shrunk a st st'"
    unfolding freed_def by blast
  have "tables_ok st'" using inv shrunk_rest [OF st'(4)] by (simp add: vars_inv_def tables_ok_def)
  moreover have "0 < nRef v" if "cells st' b = Some v" for b v
  proof -
    from st'(4) that obtain u where "cells st b = Some u" "thinner u v" unfolding shrunk_def by blast
    then show ?thesis using inv by (auto simp: vars_inv_def thinner_def)
  qed
  ultimately have "vars_inv st' (d(a := d a - 1))" using st'(2,3) unfolding vars_inv_def by blast
  with st' show ?thesis by blast
qed

lemma get_table_shrunk: "shrunk m st st' \<Longrightarrow> (\<And>p. pl = Elements p \<Longrightarrow> p < m) \<Longrightarrow> get_table pl st' = get_table pl st"
  using shrunk_rest [of m st st'] by (cases pl) (auto simp: shrunk_def deref_def)

text \<open>Releasing the variable that an entry holds, and removing the entry.\<close>

lemma drop_entry_ok:
  assumes ok: "vars_ok st" and t: "get_table pl st = Inr t" "map_of t k = Some (Some a)"
  shows "\<exists>st1. free_var a st = Inr st1 \<and> get_table pl st1 = Inr t \<and> shrunk a st st1 \<and>
    remove_entry pl k st1 = Inr (put_table pl (dict_step (Remove k) t) st1) \<and> vars_ok (put_table pl (dict_step (Remove k) t) st1)"
proof -
  have "0 < ref_count st a" using entry_live [OF ok t] by (auto simp: ref_count_def)
  from free_var_inv [OF ok this] obtain st1 where st1: "free_var a st = Inr st1" "vars_inv st1 ((\<lambda>_. 0)(a := 0 - 1))" "shrunk a st st1"
    by fastforce
  have g: "get_table pl st1 = Inr t"
    using get_table_shrunk [OF st1(3), of pl] t get_table_elements [OF ok] by (metis map_of_SomeD)
  have d: "distinct (map fst t)" by (rule get_table_distinct [OF ok t(1)])
  have "vars_inv (put_table pl (dict_step (Remove k) t) st1)
      (\<lambda>b. ((\<lambda>_. 0)(a := 0 - 1)) b + int (tab_refs t b) - int (tab_refs (dict_step (Remove k) t) b))"
    by (rule put_table_inv [OF st1(2) g distinct_dict_step [OF d]])
      (use get_table_elements [OF ok] t(1) in \<open>auto dest: set_dict_step(2)\<close>)
  moreover have "(\<lambda>b. ((\<lambda>_. 0)(a := 0 - 1)) b + int (tab_refs t b) - int (tab_refs (dict_step (Remove k) t) b)) = (\<lambda>_. 0)"
  proof
    fix b show "((\<lambda>_. 0)(a := 0 - 1)) b + int (tab_refs t b) - int (tab_refs (dict_step (Remove k) t) b) = 0"
      using tab_refs_Remove [OF d t(2), of b] by (auto split: if_splits)
  qed
  ultimately have "vars_ok (put_table pl (dict_step (Remove k) t) st1)" by argo
  with st1 g show ?thesis by (auto simp: remove_entry_def)
qed

lemma frame_table: "i < length (frames st) \<Longrightarrow> get_table (FrameVars i) st = Inr (paVar (frames st ! i))"
  by simp

lemma keeps_length: "keeps st st' \<Longrightarrow> length (frames st') = length (frames st)"
  by (auto simp: keeps_def dest: map_eq_imp_length_eq)

definition unnamed :: "vaddr \<Rightarrow> nat \<Rightarrow> vstate \<Rightarrow> bool" where
  "unnamed a j st \<longleftrightarrow> (\<forall>x \<in> set (paVar (frames st ! j)). snd x \<noteq> Some a)"

lemma unlink_entries_ok:
  "vars_ok st \<Longrightarrow> active st \<Longrightarrow> p < length (frames st) \<Longrightarrow> distinct (map fst t) \<Longrightarrow> set t \<subseteq> set (paVar (frames st ! p)) \<Longrightarrow>
   runs {} st (unlink_entries a p t st) (\<lambda>s. s) (\<lambda>st'. (\<forall>j. j \<noteq> p \<longrightarrow> frames st' ! j = frames st ! j) \<and>
     ((\<forall>x \<in> set (paVar (frames st ! p)). snd x = Some a \<longrightarrow> x \<in> set t) \<longrightarrow> unnamed a p st'))"
proof (induction t arbitrary: st)
  case (Cons e t)
  show ?case
  proof (cases "snd e = Some a")
    case False
    from Cons.IH [OF Cons.prems(1-3)] Cons.prems(4,5)
    have "runs {} st (unlink_entries a p t st) (\<lambda>s. s) (\<lambda>st'. (\<forall>j. j \<noteq> p \<longrightarrow> frames st' ! j = frames st ! j) \<and>
     ((\<forall>x \<in> set (paVar (frames st ! p)). snd x = Some a \<longrightarrow> x \<in> set t) \<longrightarrow> unnamed a p st'))" by simp
    with False show ?thesis by (auto elim!: runs_weaken)
  next
    case True
    let ?T = "paVar (frames st ! p)"
    have T: "get_table (FrameVars p) st = Inr ?T" using Cons.prems(3) by simp
    have "map_of ?T (fst e) = Some (Some a)"
      using Cons.prems(5) True get_table_distinct [OF Cons.prems(1) T] by (cases e) (auto intro: map_of_is_SomeI)
    from drop_entry_ok [OF Cons.prems(1) T this] obtain st1 where st1: "free_var a st = Inr st1" "shrunk a st st1"
        "remove_entry (FrameVars p) (fst e) st1 = Inr (put_table (FrameVars p) (dict_step (Remove (fst e)) ?T) st1)"
        "vars_ok (put_table (FrameVars p) (dict_step (Remove (fst e)) ?T) st1)" by blast
    let ?s = "put_table (FrameVars p) (dict_step (Remove (fst e)) ?T) st1"
    have k: "keeps st ?s" using shrunk_keeps [OF st1(2)] by (simp del: put_table.simps)
    have f: "frames st1 = frames st" using shrunk_rest [OF st1(2)] by simp
    have T': "x \<in> set (paVar (frames ?s ! p)) \<longleftrightarrow> x \<in> set ?T \<and> fst x \<noteq> fst e" for x
      using Cons.prems(3) f by (auto simp: dict_step.simps)
    have "runs {} ?s (unlink_entries a p t ?s) (\<lambda>s. s) (\<lambda>st'. (\<forall>j. j \<noteq> p \<longrightarrow> frames st' ! j = frames ?s ! j) \<and>
     ((\<forall>x \<in> set (paVar (frames ?s ! p)). snd x = Some a \<longrightarrow> x \<in> set t) \<longrightarrow> unnamed a p st'))"
    proof (rule Cons.IH)
      show "active ?s" using keeps_active [OF k Cons.prems(2)] .
      show "set t \<subseteq> set (paVar (frames ?s ! p))"
      proof
        fix x assume x: "x \<in> set t"
        have "fst x \<noteq> fst e" using Cons.prems(4) x by (metis distinct.simps(2) image_eqI list.simps(9) set_map)
        then show "x \<in> set (paVar (frames ?s ! p))" using T' Cons.prems(5) x by auto
      qed
    qed (use Cons.prems st1(4) f in auto)
    moreover have "(\<forall>x \<in> set (paVar (frames ?s ! p)). snd x = Some a \<longrightarrow> x \<in> set t)"
      if "\<forall>x \<in> set ?T. snd x = Some a \<longrightarrow> x \<in> set (e # t)" using that T' by auto
    moreover have "frames ?s ! j = frames st ! j" if "j \<noteq> p" for j using that f by simp
    ultimately have "runs {} ?s (unlink_entries a p t ?s) (\<lambda>s. s) (\<lambda>st'. (\<forall>j. j \<noteq> p \<longrightarrow> frames st' ! j = frames st ! j) \<and>
     ((\<forall>x \<in> set ?T. snd x = Some a \<longrightarrow> x \<in> set (e # t)) \<longrightarrow> unnamed a p st'))"
      by (elim runs_weaken) (blast, metis)
    with True st1(1,3) runs_from [OF k] show ?thesis by (simp del: put_table.simps)
  qed
qed (simp add: unnamed_def)

lemma unlink_frames_ok:
  "vars_ok st \<Longrightarrow> active st \<Longrightarrow> \<forall>p \<in> set ps. p < length (frames st) \<Longrightarrow>
   runs {} st (unlink_frames a f ps st) (\<lambda>s. s) (\<lambda>st'. (\<forall>j. j = f \<or> j \<notin> set ps \<longrightarrow> frames st' ! j = frames st ! j) \<and>
     (\<forall>j \<in> set ps. j \<noteq> f \<longrightarrow> unnamed a j st'))"
proof (induction ps arbitrary: st)
  case (Cons p ps)
  show ?case
  proof (cases "p = f")
    case True
    with Cons.IH [OF Cons.prems(1,2)] Cons.prems(3) show ?thesis by (auto elim!: runs_weaken)
  next
    case False
    have p: "p < length (frames st)" using Cons.prems(3) by simp
    have "runs {} st (andThen (unlink_entries a p (paVar (frames st ! p)) st) (unlink_frames a f ps)) (\<lambda>s. s)
        (\<lambda>st'. (\<forall>j. j = f \<or> j \<notin> set (p # ps) \<longrightarrow> frames st' ! j = frames st ! j) \<and> (\<forall>j \<in> set (p # ps). j \<noteq> f \<longrightarrow> unnamed a j st'))"
    proof (rule runs_bind [OF unlink_entries_ok [OF Cons.prems(1,2) p]], goal_cases)
      case 1 show ?case using get_table_distinct [OF Cons.prems(1) frame_table [OF p]] .
    next
      case 2 show ?case by simp
    next
      case (3 x)
      have "\<forall>q \<in> set ps. q < length (frames x)" using Cons.prems(3) keeps_length [OF 3(4)] by simp
      from Cons.IH [OF 3(2,3) this] show ?case
      proof (rule runs_weaken)
        fix y assume y: "(\<forall>j. j = f \<or> j \<notin> set ps \<longrightarrow> frames y ! j = frames x ! j) \<and> (\<forall>j \<in> set ps. j \<noteq> f \<longrightarrow> unnamed a j y)"
        have "unnamed a p y" using y 3(5) False by (cases "p \<in> set ps") (auto simp: unnamed_def)
        with y 3(5) False show "(\<forall>j. j = f \<or> j \<notin> set (p # ps) \<longrightarrow> frames y ! j = frames st ! j) \<and>
          (\<forall>j \<in> set (p # ps). j \<noteq> f \<longrightarrow> unnamed a j y)" by auto
      qed simp
    qed
    with False p show ?thesis by simp
  qed
qed simp

lemma bump_wait_ok:
  assumes ok: "vars_ok st" "active st" and a: "cells st a \<noteq> None"
  shows "runs F st (bump_wait a st) (\<lambda>s. s) (\<lambda>s. frames s = frames st \<and> dom (cells s) = dom (cells st) \<and>
    (\<forall>b. map_option pHash (cells s b) = map_option pHash (cells st b)))"
  unfolding bump_wait_def
proof (rule runs_deref [OF ok a])
  fix v assume v: "cells st a = Some v" "0 < nRef v" "cell_ok a v"
  have "vars_ok (put_cell a (v\<lparr>nWait := nWait v + 1\<rparr>) st)"
    by (rule put_cell_ok [OF ok(1) v(1)]) (use v(3) in \<open>auto simp: cell_ok_def\<close>)
  moreover have "frames (put_cell a u st) = frames st" "cells (put_cell a u st) = (cells st)(a := Some u)" for u
    by (simp_all add: put_cell_def)
  ultimately show "runs F st (Inr (note_calls [SignalAllStates] (put_cell a (v\<lparr>nWait := nWait v + 1\<rparr>) st))) (\<lambda>s. s)
     (\<lambda>s. frames s = frames st \<and> dom (cells s) = dom (cells st) \<and> (\<forall>b. map_option pHash (cells s b) = map_option pHash (cells st b)))"
    using ok v(1) by auto
qed

lemma shared_twice:
  assumes ok: "vars_ok st" and f: "f < length (frames st)" "map_of (paVar (frames st ! f)) k = Some (Some a)"
    and j: "j < length (frames st)" "j \<noteq> f" "(k', Some a) \<in> set (paVar (frames st ! j))"
  shows "1 < ref_count st a"
proof -
  let ?s = "put_table (FrameVars f) [] st"
  have "root_refs ?s a + tab_refs (paVar (frames st ! f)) a = root_refs st a" using root_refs_frame [OF f(1), of "[]" a] by simp
  moreover have "root_refs (put_table (FrameVars j) [] ?s) a + tab_refs (paVar (frames st ! j)) a = root_refs ?s a"
    using root_refs_frame [of j ?s "[]" a] j(1,2) by simp
  moreover have "0 < tab_refs (paVar (frames st ! f)) a" using f(2) by (auto intro!: tab_refs_pos dest: map_of_SomeD)
  moreover have "0 < tab_refs (paVar (frames st ! j)) a" using tab_refs_pos [OF j(3)] .
  ultimately have "1 < root_refs st a" by linarith
  moreover have "ref_count st a = int (root_refs st a) + int (heap_refs st a)" using ok by (simp add: vars_inv_def balanced_def)
  ultimately show ?thesis by linarith
qed

lemma unset_whole_ok:
  assumes ok: "vars_ok st" "active st" and f: "f < length (frames st)" "map_of (paVar (frames st ! f)) k = Some (Some a)"
  shows "runs {} st (unset_whole f k a st) snd (\<lambda>(rc, st'). rc = TH8_OK \<and> map_of (paVar (frames st' ! f)) k = None \<and>
    (\<forall>j \<in> set (frame_chain (frames st) (curFrame st)). j \<noteq> f \<longrightarrow> unnamed a j st'))"
proof -
  let ?ps = "frame_chain (frames st) (curFrame st)"
  let ?held = "\<lambda>s. \<forall>j \<in> set ?ps. j \<noteq> f \<longrightarrow> unnamed a j s"
  let ?Q = "\<lambda>(rc, s). rc = TH8_OK \<and> map_of (paVar (frames s ! f)) k = None \<and> ?held s"
  let ?ready = "\<lambda>s. f < length (frames s) \<and> map_of (paVar (frames s ! f)) k = Some (Some a) \<and> ?held s"
  have live: "cells s a \<noteq> None" if "vars_ok s" "f < length (frames s)" "map_of (paVar (frames s ! f)) k = Some (Some a)" for s
    using entry_live [OF that(1) frame_table [OF that(2)] that(3)] by blast
  have last: "runs {} s (andThen (free_var a s) (\<lambda>st. andThen (remove_entry (FrameVars f) k st) (\<lambda>st. Inr (TH8_OK, st)))) snd ?Q"
    if s: "vars_ok s" "active s" "?ready s" for s
  proof -
    let ?T = "paVar (frames s ! f)"
    have s3: "f < length (frames s)" "map_of ?T k = Some (Some a)" using s(3) by blast+
    from drop_entry_ok [OF s(1) frame_table [OF s3(1)] s3(2)] obtain s1 where s1: "free_var a s = Inr s1" "shrunk a s s1"
        "remove_entry (FrameVars f) k s1 = Inr (put_table (FrameVars f) (dict_step (Remove k) ?T) s1)"
        "vars_ok (put_table (FrameVars f) (dict_step (Remove k) ?T) s1)" by blast
    have k: "keeps s (put_table (FrameVars f) (dict_step (Remove k) ?T) s1)" using shrunk_keeps [OF s1(2)] by (simp del: put_table.simps)
    have "?Q (TH8_OK, put_table (FrameVars f) (dict_step (Remove k) ?T) s1)"
      using s3 s(3) shrunk_rest [OF s1(2)] by (auto simp: map_of_dict_step unnamed_def)
    with s1 k keeps_active [OF k s(2)] show ?thesis by (simp del: put_table.simps)
  qed
  have tail: "runs {} s (andThen (bump_wait a (note_calls [RemoveFromCache k] s)) (\<lambda>s. andThen (free_var a s)
      (\<lambda>st. andThen (remove_entry (FrameVars f) k st) (\<lambda>st. Inr (TH8_OK, st))))) snd ?Q"
    if s: "vars_ok s" "active s" "?ready s" for s
  proof -
    let ?s = "note_calls [RemoveFromCache k] s"
    have n: "vars_ok ?s" "active ?s" "cells ?s a \<noteq> None" using s live [OF s(1)] by simp_all
    have "runs {} ?s (andThen (bump_wait a ?s) (\<lambda>s. andThen (free_var a s)
      (\<lambda>st. andThen (remove_entry (FrameVars f) k st) (\<lambda>st. Inr (TH8_OK, st))))) snd ?Q"
      by (rule runs_bind [OF bump_wait_ok [OF n]]) (rule last; use s in \<open>simp add: unnamed_def\<close>)
    then show ?thesis by (rule runs_from [rotated]) simp
  qed
  show ?thesis unfolding unset_whole_def
  proof (rule runs_deref [OF ok live [OF ok(1) f]])
    fix v assume v: "cells st a = Some v"
    have ps: "\<forall>p \<in> set ?ps. p < length (frames st)" using frame_chain_le ok(2) by (fastforce simp: active_def)
    have one: "unnamed a j st" if "nRef v \<le> 1" "j \<in> set ?ps" "j \<noteq> f" for j
    proof -
      have "ref_count st a \<le> 1" using v that(1) by (simp add: ref_count_def)
      then have "(k', Some a) \<notin> set (paVar (frames st ! j))" for k'
        using shared_twice [OF ok(1) f _ that(3), of k'] ps that(2) by (meson not_less)
      then show ?thesis unfolding unnamed_def by (metis prod.collapse)
    qed
    from unlink_frames_ok [OF ok ps, of a f] ok one
    have "runs {} st (if 1 < nRef v then unlink_frames a f ?ps st else Inr st) (\<lambda>s. s) (\<lambda>s. frames s ! f = frames st ! f \<and> ?held s)"
      by (auto elim!: runs_weaken)
    then show "runs {} st (andThen (if 1 < nRef v then unlink_frames a f ?ps st else Inr st) (\<lambda>st.
        andThen (bump_wait a (note_calls [RemoveFromCache k] st)) (\<lambda>st. andThen (free_var a st)
        (\<lambda>st. andThen (remove_entry (FrameVars f) k st) (\<lambda>st. Inr (TH8_OK, st)))))) snd ?Q"
      by (rule runs_bind) (rule tail; use f keeps_length in auto)
  qed
qed

lemma unset_element_ok:
  assumes ok: "vars_ok st" "active st" and a: "cells st a \<noteq> None"
  shows "runs {StackOverflow} st (unset_element depth name a i st) snd (\<lambda>_. True)"
  unfolding unset_element_def
proof (rule runs_deref [OF ok a])
  fix v assume v: "cells st a = Some v" "cell_ok a v"
  have epoch: "runs {StackOverflow} s (andThen (bump_epoch a s) (\<lambda>st. Inr (TH8_OK, st))) snd (\<lambda>_. True)"
    if s: "vars_ok s" "active s" "cells s a \<noteq> None" for s
  proof -
    from s(3) obtain u where u: "cells s a = Some u" by blast
    have "vars_ok (put_cell a (u\<lparr>nEpoch := nEpoch u + 1\<rparr>) s)"
      by (rule put_cell_ok [OF s(1) u]) (use vars_inv_cell [OF s(1) u] in \<open>auto simp: cell_ok_def\<close>)
    then show ?thesis using u s(2) by (simp add: bump_epoch_def deref_def)
  qed
  show "runs {StackOverflow} st (case pHash v of
         None \<Rightarrow> errorMessage depth ''no such variable:'' name st
       | Some t \<Rightarrow> case map_of t i of
              None \<Rightarrow> errorMessage depth ''no such variable:'' name st
            | Some d \<Rightarrow>
                andThen (case d of None \<Rightarrow> Inr st | Some e \<Rightarrow> andThen (bump_wait e st) (\<lambda>st. free_var e st)) (\<lambda>st.
                andThen (remove_entry (Elements a) i st) (\<lambda>st.
                andThen (bump_epoch a st) (\<lambda>st. Inr (TH8_OK, st))))) snd (\<lambda>_. True)"
  proof (cases "\<exists>t d. pHash v = Some t \<and> map_of t i = Some d")
    case False
    then show ?thesis by (auto simp: errorMessage_ok [OF ok] split: option.splits)
  next
    case True
    then obtain t d where td: "pHash v = Some t" "map_of t i = Some d" by blast
    have t: "get_table (Elements a) st = Inr t" using v td by (simp add: deref_def)
    have fin: "runs {StackOverflow} s (andThen (remove_entry (Elements a) i s1) (\<lambda>st. andThen (bump_epoch a st) (\<lambda>st. Inr (TH8_OK, st)))) snd (\<lambda>_. True)"
      if "keeps s s1" "active s" "get_table (Elements a) s1 = Inr t" "vars_ok (put_table (Elements a) (dict_step (Remove i) t) s1)" for s s1
    proof -
      let ?p = "put_table (Elements a) (dict_step (Remove i) t) s1"
      have "cells s1 a \<noteq> None" using that(3) by (auto simp: deref_def split: option.splits)
      then have "cells ?p a \<noteq> None" using dom_put_table [of "Elements a" _ s1] by blast
      moreover have k: "keeps s ?p" using that(1) by (simp del: put_table.simps)
      ultimately have "runs {StackOverflow} s (andThen (bump_epoch a ?p) (\<lambda>st. Inr (TH8_OK, st))) snd (\<lambda>_. True)"
        using epoch [OF that(4)] keeps_active [OF k that(2)] runs_from [OF k] by blast
      with that(3) show ?thesis by (simp add: remove_entry_def del: put_table.simps get_table.simps)
    qed
    show ?thesis
    proof (cases d)
      case None
      have "vars_inv (put_table (Elements a) (dict_step (Remove i) t) st)
          (\<lambda>b. 0 + int (tab_refs t b) - int (tab_refs (dict_step (Remove i) t) b))"
        by (rule put_table_inv [OF ok(1) t distinct_dict_step [OF get_table_distinct [OF ok(1) t]]])
          (use get_table_elements [OF ok(1)] t in \<open>auto dest: set_dict_step(2)\<close>)
      then have "vars_ok (put_table (Elements a) (dict_step (Remove i) t) st)"
        using tab_refs_Remove [OF get_table_distinct [OF ok(1) t] td(2)] None by simp
      with fin [OF keeps_refl ok(2) t] td None show ?thesis by simp
    next
      case (Some e)
      have e: "cells st e \<noteq> None" using entry_live [OF ok(1) t] td(2) Some by blast
      have "runs {StackOverflow} st (andThen (bump_wait e st) (\<lambda>s. andThen (free_var e s) (\<lambda>st.
           andThen (remove_entry (Elements a) i st) (\<lambda>st. andThen (bump_epoch a st) (\<lambda>st. Inr (TH8_OK, st)))))) snd (\<lambda>_. True)"
      proof (rule runs_bind [OF bump_wait_ok [OF ok e]], goal_cases)
        case (1 s)
        then have ts: "get_table (Elements a) s = Inr t" using v(1) td(1)
          by (auto simp: deref_def split: option.splits dest!: spec [where x = a])
        from drop_entry_ok [OF 1(2) ts] td(2) Some obtain s1 where s1: "free_var e s = Inr s1" "get_table (Elements a) s1 = Inr t" "shrunk e s s1"
            "vars_ok (put_table (Elements a) (dict_step (Remove i) t) s1)" by blast
        from fin [OF shrunk_keeps [OF s1(3)] 1(3) s1(2,4)] s1(1) show ?case by simp
      qed
      then show ?thesis using td Some by (simp add: andThen_assoc)
    qed
  qed
qed

lemma Th8_UnsetVar_ok:
  assumes ok: "vars_ok st" "active st"
  shows "runs {StackOverflow} st (Th8_UnsetVar depth name st) snd (\<lambda>_. True)"
proof -
  obtain o' i g where an: "th8AnalyzeVarName (fst name) = (o', i, g)" by (cases "th8AnalyzeVarName (fst name)") auto
  let ?f = "frame_of g st"
  have f: "?f < length (frames st)" by (rule frame_of_less [OF ok(2)])
  show ?thesis
  proof (cases "\<exists>a. map_of (paVar (frames st ! ?f)) o' = Some (Some a)")
    case True
    then obtain a where a: "map_of (paVar (frames st ! ?f)) o' = Some (Some a)" by blast
    have "cells st a \<noteq> None" using entry_live [OF ok(1) frame_table [OF f] a] by blast
    with runs_weaken [OF unset_whole_ok [OF ok f a], of "{StackOverflow}" "\<lambda>_. True"] a f show ?thesis
      by (auto simp: Th8_UnsetVar_def an unset_element_ok [OF ok] split: option.splits)
  next
    case False
    then have "map_of (paVar (frames st ! ?f)) o' = None \<or> map_of (paVar (frames st ! ?f)) o' = Some None" by (metis option.exhaust)
    with f show ?thesis by (auto simp: Th8_UnsetVar_def an errorMessage_ok [OF ok])
  qed
qed


section \<open>Tests and links\<close>

lemma Th8_ExistsVar_ok:
  assumes ok: "vars_ok st" "active st"
  shows "runs {StackOverflow} st (Th8_ExistsVar depth name st) snd (\<lambda>_. True)"
  unfolding Th8_ExistsVar_def
proof (rule runs_bind [OF setv.find_ok [OF ok]], goal_cases)
  case (1 x)
  obtain r s where x: "x = (r, s)" by fastforce
  then show ?case using 1 Th8_SetResult_ok [of s None 0] by (cases r) (auto intro!: runs_deref)
qed

lemma frame_array_ok:
  assumes ok: "vars_ok st" "active st"
  shows "\<exists>x. frame_array z st = Inr x"
proof -
  obtain o' i g where an: "th8AnalyzeVarName z = (o', i, g)" by (cases "th8AnalyzeVarName z") auto
  have f: "frame_of g st < length (frames st)" by (rule frame_of_less [OF ok(2)])
  show ?thesis using f
    by (auto simp: frame_array_def an deref_def split: option.splits dest!: entry_live [OF ok(1) frame_table [OF f]])
qed

definition link_faults :: "vstate \<Rightarrow> fault set" where
  "link_faults st = (if \<forall>b \<in> set (ram st). b then {StackOverflow} else {StackOverflow, NullDeref})"

lemma runs_link: "runs {StackOverflow} st m g Q \<Longrightarrow> runs (link_faults s) st m g Q"
  by (erule runs_weaken) (auto simp: link_faults_def)

lemma link_faults_mono: "set (ram st') \<subseteq> set (ram st) \<Longrightarrow> link_faults st' \<subseteq> link_faults st"
  by (auto simp: link_faults_def)

lemma make_link_ok:
  assumes ok: "vars_ok st" "active st" and a: "cells st a \<noteq> None"
  shows "runs (link_faults st) st (make_link depth local a st) snd (\<lambda>_. True)"
proof -
  let ?f = "curFrame st"
  have f: "?f < length (frames st)" using ok(2) by (simp add: active_def)
  let ?t = "paVar (frames st ! ?f)"
  show ?thesis
  proof (cases "\<exists>b. map_of ?t (fst local) = Some (Some b)")
    case True
    then show ?thesis using f by (auto simp: make_link_def runs_link [OF errorMessage_ok [OF ok]])
  next
    case False
    then have nk: "map_of ?t (fst local) = None \<or> map_of ?t (fst local) = Some None" by (metis option.exhaust)
    obtain b bs where al: "(if map_of ?t (fst local) = None then allocs 2 st else (True, st)) = (b, st\<lparr>ram := bs\<rparr>)"
        "set bs \<subseteq> set (ram st)" "b \<or> (\<exists>x \<in> set (ram st). \<not> x)"
    proof (cases "map_of ?t (fst local) = None")
      case True then show thesis by (rule_tac allocs_cases [of 2 st]) (auto intro: that)
    next
      case False
      then have "(if map_of ?t (fst local) = None then allocs 2 st else (True, st)) = (True, st\<lparr>ram := ram st\<rparr>)" by auto
      then show thesis using that by blast
    qed
    from a obtain v where v: "cells st a = Some v" by blast
    have e: "make_link depth local a st = (if \<not> b then Inl NullDeref
        else Inr (TH8_OK, put_table (FrameVars ?f) (dict_step (Assign (fst local) (Some a)) (dict_step (Create (fst local)) ?t))
          (put_cell a (v\<lparr>nRef := nRef v + 1\<rparr>) (st\<lparr>ram := bs\<rparr>))))"
      using f nk al(1) v by (auto simp: make_link_def deref_def)
    let ?s = "put_cell a (v\<lparr>nRef := nRef v + 1\<rparr>) (st\<lparr>ram := bs\<rparr>)"
    let ?t1 = "dict_step (Create (fst local)) ?t"
    let ?t2 = "dict_step (Assign (fst local) (Some a)) ?t1"
    have c: "cell_ok a (v\<lparr>nRef := nRef v + 1\<rparr>)" "0 < nRef v"
      using vars_inv_cell [OF ok(1) v] by (auto simp: cell_ok_def elems_def)
    have s: "vars_inv ?s ((\<lambda>_. 0)(a := 0 + (nRef (v\<lparr>nRef := nRef v + 1\<rparr>) - nRef v)))"
      by (rule put_cell_inv) (use ok v c in auto)
    have g: "get_table (FrameVars ?f) ?s = Inr ?t" using f by (simp add: put_cell_def)
    have d: "distinct (map fst ?t1)" by (rule distinct_dict_step [OF get_table_distinct [OF ok(1) frame_table [OF f]]])
    have "vars_inv (put_table (FrameVars ?f) ?t2 ?s)
        (\<lambda>b. ((\<lambda>_. 0)(a := 0 + (nRef (v\<lparr>nRef := nRef v + 1\<rparr>) - nRef v))) b + int (tab_refs ?t b) - int (tab_refs ?t2 b))"
      by (rule put_table_inv [OF s g distinct_dict_step [OF d]]) simp
    moreover have "map_of ?t1 (fst local) = Some None" using nk by (auto simp: map_of_dict_step)
    then have "(\<lambda>b. ((\<lambda>_. 0)(a := 0 + (nRef (v\<lparr>nRef := nRef v + 1\<rparr>) - nRef v))) b + int (tab_refs ?t b) - int (tab_refs ?t2 b)) = (\<lambda>_. 0)"
      using tab_refs_Assign [OF d] by auto
    ultimately have "vars_ok (put_table (FrameVars ?f) ?t2 ?s)" by argo
    moreover have k: "keeps st (put_table (FrameVars ?f) ?t2 ?s)" using keeps_ram [OF al(2)] by (simp del: put_table.simps)
    moreover have "\<not> b \<Longrightarrow> NullDeref \<in> link_faults st" using al(3) by (auto simp: link_faults_def)
    ultimately show ?thesis unfolding e using keeps_active [OF k ok(2)] by (simp del: put_table.simps)
  qed
qed

lemma link_target_less: "active st \<Longrightarrow> link_target i st = Some f \<Longrightarrow> f < length (frames st)"
  using frame_chain_le [of f "frames st" "curFrame st"]
  by (auto simp: link_target_def Let_def active_def split: if_splits dest: nth_mem le_less_trans)

lemma Th8_LinkVar_ok:
  assumes ok: "vars_ok st" "active st"
  shows "runs (link_faults st) st (Th8_LinkVar depth local iFrame remote st) snd (\<lambda>_. True)"
proof (cases "link_target iFrame st")
  case None
  then show ?thesis using runs_link [OF errorMessage_ok [OF ok]] by (simp add: Th8_LinkVar_def)
next
  case (Some f)
  let ?s = "st\<lparr>curFrame := f\<rparr>"
  have s: "vars_ok ?s" "active ?s" using ok link_target_less [OF ok(2) Some] by (auto simp: active_def)
  note fnd = setv.find_ok [OF s, of depth "fst remote" True]
  show ?thesis
  proof (cases "th8FindValue (Th8_SetVar depth) (fst remote) True ?s")
    case (Inl e)
    with fnd Some show ?thesis by (simp add: Th8_LinkVar_def link_faults_def)
  next
    case (Inr x)
    obtain r s1 where x: "x = (r, s1)" by fastforce
    let ?u = "s1\<lparr>curFrame := curFrame st\<rparr>"
    have f: "vars_ok s1" "active s1" "keeps ?s s1" "\<forall>a. r = Some a \<longrightarrow> cells s1 a \<noteq> None" using fnd Inr x by simp_all
    then have k: "keeps st ?u" by (simp add: keeps_def)
    have u: "vars_ok ?u" "active ?u" using f keeps_active [OF k ok(2)] by simp_all
    have "runs (link_faults st) ?u (case r of None \<Rightarrow> errorMessage depth ''no such variable:'' remote ?u
        | Some a \<Rightarrow> make_link depth local a ?u) snd (\<lambda>_. True)"
    proof (cases r)
      case None then show ?thesis using runs_link [OF errorMessage_ok [OF u]] by simp
    next
      case (Some a)
      have "link_faults ?u \<subseteq> link_faults st" using k by (intro link_faults_mono) (simp add: keeps_def)
      then show ?thesis using Some f(4) runs_weaken [OF make_link_ok [OF u, of a]] by simp
    qed
    from runs_from [OF k this] show ?thesis using Some Inr x by (simp add: Th8_LinkVar_def Let_def)
  qed
qed

section \<open>Frames\<close>

lemma th8PushFrame_ok:
  assumes ok: "vars_ok st" "active st"
  shows "vars_ok (snd (th8PushFrame st)) \<and> active (snd (th8PushFrame st))"
proof -
  obtain b bs where al: "allocs 1 st = (b, st\<lparr>ram := bs\<rparr>)" by (rule allocs_cases)
  let ?s = "st\<lparr>ram := bs, frames := frames st @ [\<lparr>paVar = [], pCaller = Some (curFrame st)\<rparr>], curFrame := length (frames st)\<rparr>"
  have "frames st \<noteq> []" using ok(2) by (auto simp: active_def)
  then have e: "snd (th8PushFrame st) = (if b then ?s else st\<lparr>ram := bs\<rparr>)" using al by (cases b) (simp_all add: th8PushFrame_def del: One_nat_def)
  have "tables_ok ?s" using ok by (auto simp: vars_inv_def tables_ok_def active_def nth_append less_Suc_eq)
  moreover have "heap_ok ?s" using ok(1) by (simp add: vars_inv_def heap_ok_def)
  moreover have "balanced ?s (\<lambda>_. 0)" using ok(1) by (simp add: vars_inv_def balanced_def ref_count_def root_refs_def heap_refs_def)
  ultimately have "vars_ok ?s" using ok(1) by (simp add: vars_inv_def)
  moreover have "active ?s" using ok(2) by (simp add: active_def)
  ultimately show ?thesis using e ok by simp
qed

text \<open>A pop releases what the frame's names hold; popping the global frame ends the interpreter.\<close>

lemma th8PopFrame_ok:
  assumes ok: "vars_ok st" "active st" and top: "Suc (curFrame st) = length (frames st)"
  shows "\<exists>st'. th8PopFrame st = Inr st' \<and> vars_ok st' \<and> frames st' = butlast (frames st) \<and> namespaces st' = namespaces st \<and>
    (curFrame st \<noteq> 0 \<longrightarrow> active st')"
proof -
  let ?f = "curFrame st"
  let ?fr = "last (frames st)"
  have f: "?f < length (frames st)" using top by simp
  have lf: "last (frames st) = frames st ! ?f" using top by (metis diff_Suc_1 last_conv_nth length_0_conv nat.simps(3))
  let ?t = "paVar ?fr"
  have g: "get_table (FrameVars ?f) st = Inr ?t" using f lf by simp
  have root: "tab_refs ?t b \<le> root_refs st b" for b
    using root_refs_frame [OF f, of "[]" b] lf by simp
  have "\<exists>st'. free_entries (th8FreeVariable (Suc (nFresh st))) ?t st = Inr st' \<and> freed 0 st (\<lambda>b. 0 - int (tab_refs ?t b)) st'"
  proof (rule free_entries_ok [where N = "nFresh st"])
    show "\<exists>st'. th8FreeVariable (Suc (nFresh st)) x s = Inr st' \<and> freed x s (d(x := d x - 1)) st'"
      if "0 \<le> x" "nFresh s = nFresh st" "can_free x s d" for x s d
      by (rule th8FreeVariable_ok [OF _ that(3)]) (use that(2) in simp)
  qed (use ok root in \<open>auto simp: vars_inv_def\<close>)
  then obtain s1 where s1: "free_entries (th8FreeVariable (Suc (nFresh st))) ?t st = Inr s1" "heap_ok s1"
      "balanced s1 (\<lambda>b. - int (tab_refs ?t b))" "shrunk 0 st s1" unfolding freed_def by auto
  have rest: "frames s1 = frames st" "namespaces s1 = namespaces st" "nFresh s1 = nFresh st" using shrunk_rest [OF s1(4)] by simp_all
  let ?s = "s1\<lparr>frames := butlast (frames st), curFrame := (case pCaller ?fr of None \<Rightarrow> 0 | Some j \<Rightarrow> j)\<rparr>"
  have pop: "th8PopFrame st = Inr ?s" using s1(1) top rest by (simp add: th8PopFrame_def Let_def)
  have fs: "frames st = butlast (frames st) @ [?fr]" using f by (intro append_butlast_last_id [symmetric]) auto
  have r: "root_refs st b = root_refs ?s b + tab_refs ?t b" for b
    unfolding root_refs_def by (subst fs) (simp add: rest)
  have "balanced ?s (\<lambda>_. 0)"
    unfolding balanced_def
  proof
    fix b
    have "ref_count s1 b = int (root_refs s1 b) + int (heap_refs s1 b) + - int (tab_refs ?t b)" using s1(3) by (simp add: balanced_def)
    moreover have "root_refs s1 b = root_refs st b" using shrunk_roots [OF s1(4)] by simp
    moreover have "ref_count ?s b = ref_count s1 b" "heap_refs ?s b = heap_refs s1 b" by (simp_all add: ref_count_def heap_refs_def)
    ultimately show "ref_count ?s b = int (root_refs ?s b) + int (heap_refs ?s b) + 0" using r [of b] by simp
  qed
  moreover have "tables_ok ?s" using ok(1) rest
    by (auto simp: vars_inv_def tables_ok_def nth_butlast dest: in_set_butlastD)
  moreover have "heap_ok ?s" using s1(2) by (simp add: heap_ok_def)
  moreover have "0 < nRef v" if "cells ?s b = Some v" for b v
  proof -
    from s1(4) that obtain u where "cells st b = Some u" "thinner u v" unfolding shrunk_def by auto
    then show ?thesis using ok(1) by (auto simp: vars_inv_def thinner_def)
  qed
  ultimately have v: "vars_ok ?s" unfolding vars_inv_def by blast
  have "active ?s" if "?f \<noteq> 0"
  proof -
    have "case pCaller ?fr of None \<Rightarrow> ?f = 0 | Some j \<Rightarrow> j < ?f" using ok(1) f lf by (auto simp: vars_inv_def tables_ok_def)
    then show ?thesis using that top ok(2) rest by (auto simp: active_def split: option.splits)
  qed
  with pop v rest show ?thesis by auto
qed

end
