(* ===== verification/Th8_VarsProps.thy ===== *)
theory Th8_VarsProps
  imports Th8_VarsOps
begin

text \<open>
  The properties of the variable layer: reachable states and their invariant, the outcomes that an
  operation can have, the release of everything with the last frame, the recursion of error
  messages, and what a write, a link and an unset do to the names.
\<close>

section \<open>Runs of operations\<close>

definition vinit :: "bool list \<Rightarrow> vstate" where
  "vinit outcomes = \<lparr>cells = (\<lambda>_. None), nFresh = 0, frames = [\<lparr>paVar = [], pCaller = None\<rparr>], curFrame = 0,
     namespaces = [([], [])], pCurrentNs = [], iArrayHashGeneration = 0, paSystemVar = None,
     vzResult = None, vnResult = 0, ram = outcomes, calls = []\<rparr>"

datatype var_op =
    SetOp vname string size_t
  | GetOp vname
  | LengthOp vname string size_t
  | AppendOp vname "(string \<times> size_t) list"
  | BufferOp vname "(string \<times> size_t \<times> nat) option"
  | UnsetOp vname
  | ExistsOp vname
  | LinkOp vname int vname
  | PushOp
  | PopOp
  | SwitchOp nat

text \<open>\<open>SwitchOp\<close> is the change of the current frame that \<open>uplevel\<close> makes and undoes.\<close>

fun var_exec :: "nat \<Rightarrow> var_op \<Rightarrow> vstate \<Rightarrow> vstate run" where
  "var_exec depth (SetOp name z n) st = andThen (Th8_SetVar depth name z n st) (\<lambda>(rc, st). Inr st)"
| "var_exec depth (GetOp name) st = andThen (Th8_GetVar depth name st) (\<lambda>(rc, st). Inr st)"
| "var_exec depth (LengthOp name z n) st = andThen (th8SetVarLength depth name z n st) (\<lambda>(rc, st). Inr st)"
| "var_exec depth (AppendOp name args) st = andThen (th8AppendInPlace depth name args st) (\<lambda>(rc, st). Inr st)"
| "var_exec depth (BufferOp name b) st = andThen (th8SetVarValue depth name b st) (\<lambda>(rc, st). Inr st)"
| "var_exec depth (UnsetOp name) st = andThen (Th8_UnsetVar depth name st) (\<lambda>(rc, st). Inr st)"
| "var_exec depth (ExistsOp name) st = andThen (Th8_ExistsVar depth name st) (\<lambda>(r, st). Inr st)"
| "var_exec depth (LinkOp local i remote) st = andThen (Th8_LinkVar depth local i remote st) (\<lambda>(rc, st). Inr st)"
| "var_exec depth PushOp st = Inr (snd (th8PushFrame st))"
| "var_exec depth PopOp st = th8PopFrame st"
| "var_exec depth (SwitchOp i) st = Inr (st\<lparr>curFrame := i\<rparr>)"

text \<open>The evaluator pops the newest frame only, never the global one, and switches to existing frames.\<close>

fun allowed :: "var_op \<Rightarrow> vstate \<Rightarrow> bool" where
  "allowed PopOp st \<longleftrightarrow> Suc (curFrame st) = length (frames st) \<and> curFrame st \<noteq> 0"
| "allowed (SwitchOp i) st \<longleftrightarrow> i < length (frames st)"
| "allowed _ st \<longleftrightarrow> True"

inductive var_reach :: "nat \<Rightarrow> vstate \<Rightarrow> bool" for depth where
  init: "var_reach depth (vinit outcomes)"
| step: "var_reach depth st \<Longrightarrow> allowed c st \<Longrightarrow> var_exec depth c st = Inr st' \<Longrightarrow> var_reach depth st'"

primrec exec_all :: "nat \<Rightarrow> var_op list \<Rightarrow> vstate \<Rightarrow> vstate run" where
  "exec_all depth [] st = Inr st"
| "exec_all depth (c # cs) st =
     (if allowed c st then andThen (var_exec depth c st) (exec_all depth cs) else Inl Dangling)"

lemma exec_all_reach: "exec_all depth cs st = Inr st' \<Longrightarrow> var_reach depth st \<Longrightarrow> var_reach depth st'"
proof (induction cs arbitrary: st)
  case (Cons c cs)
  then show ?case by (cases "var_exec depth c st") (auto split: if_splits intro: var_reach.step)
qed simp

lemma vinit_ok: "vars_ok (vinit bs) \<and> active (vinit bs)"
  by (simp add: vars_inv_def active_def vinit_def heap_ok_def tables_ok_def balanced_def ref_count_def root_refs_def
    heap_refs_def cell_refs_def)

definition op_faults :: "var_op \<Rightarrow> vstate \<Rightarrow> fault set" where
  "op_faults c st = (case c of LinkOp _ _ _ \<Rightarrow> link_faults st | _ \<Rightarrow> {StackOverflow})"

lemma runs_snd:
  "runs F st m snd Q \<Longrightarrow> case andThen m (\<lambda>(rc, st). Inr st) of Inl f \<Rightarrow> f \<in> F | Inr s \<Rightarrow> vars_ok s \<and> active s"
  by (cases m) (auto simp: case_prod_beta)

lemma var_exec_ok:
  assumes ok: "vars_ok st" "active st" and a: "allowed c st"
  shows "case var_exec depth c st of Inl f \<Rightarrow> f \<in> op_faults c st | Inr s \<Rightarrow> vars_ok s \<and> active s"
proof (cases c)
  case (SetOp name z n)
  then show ?thesis by (simp only: var_exec.simps op_faults_def var_op.case runs_snd [OF setv.setter_ok [OF ok]])
next
  case PushOp
  then show ?thesis using th8PushFrame_ok [OF ok] by simp
next
  case PopOp
  then show ?thesis using th8PopFrame_ok [OF ok] a by auto
next
  case (SwitchOp i)
  then show ?thesis using ok a by (simp add: active_def)
qed (simp_all only: var_exec.simps op_faults_def var_op.case runs_snd [OF Th8_GetVar_ok [OF ok]] runs_snd [OF th8SetVarLength_ok [OF ok]]
  runs_snd [OF th8AppendInPlace_ok [OF ok]] runs_snd [OF th8SetVarValue_ok [OF ok]] runs_snd [OF Th8_UnsetVar_ok [OF ok]]
  runs_snd [OF Th8_ExistsVar_ok [OF ok]] runs_snd [OF Th8_LinkVar_ok [OF ok]])

lemma var_reach_ok: "var_reach depth st \<Longrightarrow> vars_ok st \<and> active st"
proof (induction rule: var_reach.induct)
  case (step st c st')
  then show ?case using var_exec_ok [of st c depth] by auto
qed (rule vinit_ok)

text \<open>Without names there are no variables: the oldest variable could only be named by a root.\<close>

lemma no_roots_no_cells:
  assumes ok: "vars_ok st" and z: "\<And>b. root_refs st b = 0"
  shows "cells st a = None"
proof (rule ccontr)
  assume "cells st a \<noteq> None"
  define m where "m = (LEAST b. cells st b \<noteq> None)"
  have m: "cells st m \<noteq> None" unfolding m_def by (rule LeastI) fact
  then obtain v where v: "cells st m = Some v" by blast
  have "0 < nRef v" using vars_inv_cell [OF ok v] by simp
  moreover have "ref_count st m = int (root_refs st m) + int (heap_refs st m)" using ok by (simp add: vars_inv_def balanced_def)
  ultimately have "heap_refs st m \<noteq> 0" using v z [of m] by (auto simp: ref_count_def)
  then obtain x where x: "cell_refs (cells st x) m \<noteq> 0" by (auto simp: heap_refs_def)
  then obtain u where u: "cells st x = Some u" "tab_refs (elems u) m \<noteq> 0" by (auto simp: cell_refs_def split: option.splits if_splits)
  then have "x < m" using vars_inv_cell [OF ok u(1)] tab_refs_zero [of m "elems u"] by (auto simp: cell_ok_def)
  then show False using u(1) not_less_Least [of x "\<lambda>b. cells st b \<noteq> None"] by (simp add: m_def)
qed

section \<open>Error messages\<close>

definition errorInfo_array :: "vstate \<Rightarrow> bool" where
  "errorInfo_array st \<longleftrightarrow>
     (\<exists>a v. map_of (paVar (frames st ! frame_of True st)) ''errorInfo'' = Some (Some a) \<and> cells st a = Some v \<and> pHash v \<noteq> None)"

lemma errorInfo_name: "th8AnalyzeVarName ''::errorInfo'' = (''errorInfo'', None, True)" "\<not> has_sep ''errorInfo''"
  by (simp_all add: th8AnalyzeVarName_def has_sep_def sep_at_def upt_rec)

lemma find_errorInfo: "th8FindValue sv ''::errorInfo'' c st = find_or_create (FrameVars (frame_of True st)) ''errorInfo'' c st"
proof (cases "find_or_create (FrameVars (frame_of True st)) ''errorInfo'' c st")
  case (Inr x)
  then show ?thesis by (cases x; cases "fst x") (auto simp: th8FindValue_def errorInfo_name find_outer_def)
qed (simp add: th8FindValue_def errorInfo_name find_outer_def)

lemma errorInfo_loop:
  assumes "active st" "errorInfo_array st"
  shows "Th8_SetVar depth (''::errorInfo'', t) z n st = Inl StackOverflow"
proof (induction depth arbitrary: t z n)
  case (Suc depth)
  from assms(2) obtain a v where a: "map_of (paVar (frames st ! frame_of True st)) ''errorInfo'' = Some (Some a)"
      "cells st a = Some v" "pHash v \<noteq> None" by (auto simp: errorInfo_array_def)
  have "find_or_create (FrameVars (frame_of True st)) ''errorInfo'' True st = Inr (Some a, st)"
    using a(1) frame_of_less [OF assms(1)] by (simp add: find_or_create_def)
  then show ?case using a Suc.IH by (simp add: find_errorInfo deref_def Th8_ErrorMessage_def Let_def)
qed simp


text \<open>A write to \<open>::errorInfo\<close> returns at once when it is not an array.\<close>

lemma find_or_create_new:
  assumes "find_or_create pl k c st = Inr (Some a, st')" "get_table pl st = Inr t" "\<forall>x. map_of t k \<noteq> Some (Some x)"
  shows "a = nFresh st \<and> (\<exists>bs bs'. st' = put_table pl (dict_step (Assign k (Some a)) (dict_step (Create k) t))
     (put_cell a new_variable (put_table pl (dict_step (Create k) t) (st\<lparr>ram := bs\<rparr>)\<lparr>ram := bs', nFresh := Suc a\<rparr>)))"
proof -
  have nk: "map_of t k = None \<or> map_of t k = Some None" using assms(3) by (metis option.exhaust)
  have c: c using assms(1,2) nk by (auto simp: find_or_create_def split: if_splits)
  obtain b bs where Pair: "(if map_of t k = None then allocs 2 st else (True, st)) = (b, st\<lparr>ram := bs\<rparr>)"
  proof (cases "map_of t k = None")
    case True then show thesis by (rule_tac allocs_cases [of 2 st]) (auto intro: that)
  next
    case False
    then have "(if map_of t k = None then allocs 2 st else (True, st)) = (True, st\<lparr>ram := ram st\<rparr>)" by auto
    then show thesis using that by blast
  qed
  let ?p = "put_table pl (dict_step (Create k) t) (st\<lparr>ram := bs\<rparr>)"
  obtain b' bs' where al: "allocs 1 ?p = (b', ?p\<lparr>ram := bs'\<rparr>)" by (rule allocs_cases)
  have "find_or_create pl k c st = (if \<not> b then Inr (None, st\<lparr>ram := bs\<rparr>) else if \<not> b' then Inr (None, ?p\<lparr>ram := bs'\<rparr>)
      else Inr (Some (nFresh st), put_table pl (dict_step (Assign k (Some (nFresh st))) (dict_step (Create k) t))
        (put_cell (nFresh st) new_variable (?p\<lparr>ram := bs', nFresh := Suc (nFresh st)\<rparr>))))"
    using assms(2) nk c Pair al by (auto simp: find_or_create_def Let_def simp del: One_nat_def)
  then show ?thesis using assms(1) by (auto split: if_splits)
qed

lemma find_or_create_cells:
  assumes "find_or_create pl k c st = Inr (Some a, st')" "vars_ok st" "active st" "get_table pl st = Inr t"
  shows "(map_of t k = Some (Some a) \<and> st' = st) \<or> (\<forall>x. map_of t k \<noteq> Some (Some x)) \<and> cells st' a = Some new_variable"
proof (cases "\<exists>x. map_of t k = Some (Some x)")
  case True
  with assms(1,4) show ?thesis by (auto simp: find_or_create_def)
next
  case False
  have "pl \<noteq> Elements (nFresh st)" using assms(2,4) by (auto simp: deref_def split: option.splits dest: vars_inv_cell)
  then have "cells st' a = Some new_variable"
    using find_or_create_new [OF assms(1,4)] False by (cases pl) (auto simp: put_cell_def split: option.splits)
  with False show ?thesis by blast
qed

lemma find_or_create_found:
  assumes "find_or_create pl k c st = Inr (Some a, st')" "vars_ok st" "get_table pl st = Inr t"
  shows "\<exists>t'. get_table pl st' = Inr t' \<and> map_of t' k = Some (Some a)"
proof (cases "\<exists>x. map_of t k = Some (Some x)")
  case True
  with assms(1,3) show ?thesis by (auto simp: find_or_create_def)
next
  case False
  from find_or_create_new [OF assms(1,3)] False obtain bs bs' where e: "a = nFresh st"
    "st' = put_table pl (dict_step (Assign k (Some a)) (dict_step (Create k) t))
     (put_cell a new_variable (put_table pl (dict_step (Create k) t) (st\<lparr>ram := bs\<rparr>)\<lparr>ram := bs', nFresh := Suc a\<rparr>))" by blast
  let ?p = "put_table pl (dict_step (Create k) t) (st\<lparr>ram := bs\<rparr>)\<lparr>ram := bs'\<rparr>"
  have "get_table pl ?p = Inr (dict_step (Create k) t)" using assms(3) by simp
  moreover have "pl \<noteq> Elements a" using assms(2,3) e(1) by (auto simp: deref_def split: option.splits dest: vars_inv_cell)
  ultimately have "get_table pl (put_cell a new_variable (?p\<lparr>nFresh := Suc a\<rparr>)) = Inr (dict_step (Create k) t)"
    by (cases pl) (auto simp: deref_def put_cell_def split: if_splits)
  then show ?thesis using e(2) by (auto simp: map_of_dict_step)
qed

lemma set_errorInfo_returns:
  assumes ok: "vars_ok st" "active st" and na: "\<not> errorInfo_array st"
  shows "\<exists>x. Th8_SetVar (Suc depth) (''::errorInfo'', t) z n st = Inr x"
proof -
  let ?f = "frame_of True st"
  have f: "get_table (FrameVars ?f) st = Inr (paVar (frames st ! ?f))" by (rule frame_table [OF frame_of_less [OF ok(2)]])
  from find_or_create_ok [OF ok f, of "''errorInfo''" True] obtain r s where
    rs: "find_or_create (FrameVars ?f) ''errorInfo'' True st = Inr (r, s)" "\<forall>a. r = Some a \<longrightarrow> cells s a \<noteq> None"
    by (cases "find_or_create (FrameVars ?f) ''errorInfo'' True st") auto
  show ?thesis
  proof (cases r)
    case None with rs(1) show ?thesis by (simp add: find_errorInfo)
  next
    case (Some a)
    with rs(2) obtain v where v: "cells s a = Some v" by blast
    have "pHash v = None"
      using find_or_create_cells [OF rs(1) [unfolded Some] ok f] na v by (auto simp: errorInfo_array_def new_variable_def)
    with rs(1) Some v show ?thesis by (simp add: find_errorInfo deref_def)
  qed
qed

lemma message_returns:
  assumes "vars_ok st" "active st" "\<not> errorInfo_array st"
  shows "\<exists>s. Th8_ErrorMessage (Th8_SetVar (Suc depth)) zPre name st = Inr s"
proof -
  from set_errorInfo_returns [OF assms] obtain x where x: "Th8_SetVar (Suc depth) (''::errorInfo'', 0) [] 0 st = Inr x" by blast
  then show ?thesis
    by (cases x; cases "allocs (message_appends zPre) (snd x)"; cases "fst (allocs (message_appends zPre) (snd x))")
      (auto simp: Th8_ErrorMessage_def Let_def case_prod_beta simp del: Th8_SetVar.simps split: bool.splits)
qed


section \<open>What a name denotes\<close>

text \<open>
  The specification of the lookup: the address that a name has, from the tables alone. A lookup
  without the create flag computes it, and a lookup with the flag establishes it.
\<close>

definition outer_table :: "string \<Rightarrow> bool \<Rightarrow> vstate \<Rightarrow> (place \<times> string) option" where
  "outer_table zOuter g st =
     (if g \<and> has_sep zOuter then
        (let (ns, zTail) = th8SplitQualName zOuter in
         map_option (\<lambda>p. (NsVars p, zTail)) (fst (th8FindNamespaceEx (''::'' @ (case ns of None \<Rightarrow> [] | Some z \<Rightarrow> z)) False st)))
      else Some (FrameVars (frame_of g st), zOuter))"

definition entry_of :: "place \<Rightarrow> string \<Rightarrow> vstate \<Rightarrow> vaddr option" where
  "entry_of pl k st = (case get_table pl st of Inl _ \<Rightarrow> None | Inr t \<Rightarrow> (case map_of t k of None \<Rightarrow> None | Some d \<Rightarrow> d))"

definition resolve :: "string \<Rightarrow> vstate \<Rightarrow> vaddr option" where
  "resolve zVar st =
     (let (zOuter, zInner, g) = th8AnalyzeVarName zVar in
      case outer_table zOuter g st of
        None \<Rightarrow> None
      | Some (pl, k) \<Rightarrow>
          (case entry_of pl k st of
             None \<Rightarrow> None
           | Some a \<Rightarrow> (case zInner of None \<Rightarrow> Some a | Some i \<Rightarrow> entry_of (Elements a) i st)))"

lemma ns_walk_False: "snd (ns_walk False p z st) = st"
proof (induction "False" p z st rule: ns_walk.induct)
  case (1 p z st)
  show ?case by (subst ns_walk.simps) (use 1 in \<open>simp add: Let_def\<close>)
qed

lemma find_ns_False: "snd (th8FindNamespaceEx z False st) = st"
proof -
  obtain r s where w: "ns_walk False (if take 2 z = ''::'' then [] else pCurrentNs st) (if take 2 z = ''::'' then drop 2 z else z) st = (r, s)"
    by fastforce
  then have "s = st" by (metis ns_walk_False snd_conv)
  with w show ?thesis by (auto simp: th8FindNamespaceEx_def split: option.splits if_splits)
qed

lemma allocs_Nil [simp]: "ram st = [] \<Longrightarrow> allocs n st = (True, st)"
  by (cases n) (simp_all add: allocs.simps)

lemma find_or_create_entry:
  assumes "get_table pl st = Inr t"
  shows "find_or_create pl k False st = Inr (entry_of pl k st, st)"
  using assms by (auto simp: find_or_create_def entry_of_def split: option.splits)

lemma outer_table_ok:
  assumes ok: "vars_ok st" "active st" and o': "outer_table z g st = Some (pl, k)"
  shows "\<exists>t. get_table pl st = Inr t"
proof (cases "g \<and> has_sep z")
  case True
  obtain ns tl where sp: "th8SplitQualName z = (ns, tl)" by fastforce
  let ?z = "case ns of None \<Rightarrow> [] | Some z \<Rightarrow> z"
  obtain r s where n: "th8FindNamespaceEx (''::'' @ ?z) False st = (r, s)" by fastforce
  from o' True sp n obtain p where p: "r = Some p" "pl = NsVars p" by (auto simp: outer_table_def)
  have "s = st" using n find_ns_False by (metis snd_conv)
  with th8FindNamespaceEx_ok [OF ok n] p(1) have "p \<in> fst ` set (namespaces st)" by simp
  then have "map_of (namespaces st) p \<noteq> None" by (simp add: map_of_eq_None_iff)
  with p(2) show ?thesis by (auto split: option.splits)
qed (use o' frame_of_less [OF ok(2)] in \<open>auto simp: outer_table_def\<close>)

lemma find_outer_spec:
  assumes ok: "vars_ok st" "active st" "ram st = []"
  shows "find_outer z g False st =
    Inr (case outer_table z g st of None \<Rightarrow> None | Some (pl, k) \<Rightarrow> entry_of pl k st, st)"
proof (cases "g \<and> has_sep z")
  case False
  then show ?thesis using find_or_create_entry [OF frame_table [OF frame_of_less [OF ok(2), of g]]]
    by (auto simp: find_outer_def outer_table_def simp del: get_table.simps)
next
  case True
  obtain ns tl where sp: "th8SplitQualName z = (ns, tl)" by fastforce
  let ?z = "case ns of None \<Rightarrow> [] | Some z \<Rightarrow> z"
  obtain r where n: "th8FindNamespaceEx (''::'' @ ?z) False st = (r, st)" using find_ns_False by (metis prod.collapse)
  show ?thesis
  proof (cases r)
    case None
    with True sp n ok(3) show ?thesis by (simp add: find_outer_def outer_table_def Let_def)
  next
    case (Some p)
    then have o': "outer_table z g st = Some (NsVars p, tl)" using True sp n by (simp add: outer_table_def)
    from outer_table_ok [OF ok(1,2) this] obtain t where "get_table (NsVars p) st = Inr t" by blast
    from find_or_create_entry [OF this] True sp n Some o' ok(3) show ?thesis by (simp add: find_outer_def Let_def)
  qed
qed

lemma entry_of_live: "vars_ok st \<Longrightarrow> entry_of pl k st = Some a \<Longrightarrow> \<exists>v. cells st a = Some v \<and> 0 < nRef v"
  by (auto simp: entry_of_def split: sum.splits option.splits intro: entry_live)

lemma find_resolve:
  assumes ok: "vars_ok st" "active st" "ram st = []"
  shows "th8FindValue sv z False st = Inr (resolve z st, st)"
proof -
  obtain o' i g where an: "th8AnalyzeVarName z = (o', i, g)" by (cases "th8AnalyzeVarName z") auto
  have el: "find_element sv o' a j False st = Inr (entry_of (Elements a) j st, st)" if "cells st a \<noteq> None" for a j
  proof -
    from that obtain v where v: "cells st a = Some v" by blast
    then show ?thesis
      by (cases "pHash v") (auto simp: find_element_def deref_def entry_of_def Let_def find_or_create_def split: option.splits)
  qed
  then show ?thesis
    by (auto simp: th8FindValue_def an find_outer_spec [OF ok] resolve_def split: option.splits
      dest: entry_of_live [OF ok(1)] intro!: el)
qed


text \<open>States with the same names: the same tables, whatever the values.\<close>

definition same_names :: "vstate \<Rightarrow> vstate \<Rightarrow> bool" where
  "same_names st st' \<longleftrightarrow> frames st' = frames st \<and> namespaces st' = namespaces st \<and> curFrame st' = curFrame st \<and>
     (\<forall>b. map_option pHash (cells st' b) = map_option pHash (cells st b))"

lemma entry_of_cong: "same_names st st' \<Longrightarrow> entry_of pl k st' = entry_of pl k st"
proof (cases pl)
  case (Elements a)
  assume "same_names st st'"
  then have "map_option pHash (cells st' a) = map_option pHash (cells st a)" by (simp add: same_names_def)
  with Elements show ?thesis by (cases "cells st a"; cases "cells st' a") (auto simp: entry_of_def deref_def)
qed (auto simp: entry_of_def same_names_def)

lemma ns_walk_mono: "ns_walk c p z u = (r, u') \<Longrightarrow> fst ` set (namespaces u) \<subseteq> fst ` set (namespaces u')"
proof (induction c p z u rule: ns_walk.induct)
  case (1 c p z u)
  note IH = "1.IH"
  let ?comp = "fst (ns_split z)" and ?rest = "snd (ns_split z)"
  let ?q = "p @ [?comp]"
  obtain b bs where a: "allocs 7 u = (b, u\<lparr>ram := bs\<rparr>)" by (rule allocs_cases)
  consider (skip) "z \<noteq> []" "?comp = []" | (old) "z \<noteq> []" "?comp \<noteq> []" "?q \<in> fst ` set (namespaces u)"
    | (new) "z \<noteq> []" "?comp \<noteq> []" "?q \<notin> fst ` set (namespaces u)" "c" "\<not> length p \<ge> TH8_MX_NS_DEPTH" "b"
    | (stop) "z = [] \<or> ?comp \<noteq> [] \<and> ?q \<notin> fst ` set (namespaces u) \<and> (\<not> c \<or> length p \<ge> TH8_MX_NS_DEPTH \<or> \<not> b)" by blast
  then show ?case
  proof cases
    case skip with IH(1) [OF _ refl refl refl] "1.prems" ns_walk_unfold [of c p z u] show ?thesis by simp
  next
    case old with IH(2) [OF _ refl refl refl] "1.prems" ns_walk_unfold [of c p z u] show ?thesis by simp
  next
    case new
    with IH(3) [OF new(1) refl refl refl new(2,3) _ _ a [symmetric]] "1.prems" ns_walk_unfold [of c p z u] a show ?thesis by simp
  next
    case stop
    with "1.prems" ns_walk_unfold [of c p z u] a show ?thesis by (auto split: if_splits)
  qed
qed

lemma ns_walk_found:
  "ns_walk c p z st = (Some q, st') \<Longrightarrow> fst ` set (namespaces st') \<subseteq> fst ` set (namespaces s) \<Longrightarrow> ns_walk False p z s = (Some q, s)"
proof (induction c p z st rule: ns_walk.induct)
  case (1 c p z st)
  note IH = "1.IH"
  let ?comp = "fst (ns_split z)" and ?rest = "snd (ns_split z)"
  let ?q = "p @ [?comp]"
  show ?case
  proof (cases "z = []")
    case True
    with "1.prems" ns_walk_unfold [of c p z st] ns_walk_unfold [of False p z s] show ?thesis by simp
  next
    case False
    show ?thesis
    proof (cases "?comp = []")
      case True
      with False IH(1) [OF False refl refl refl True] "1.prems" show ?thesis
        by (simp add: ns_walk.simps [of c p z st] ns_walk.simps [of False p z s] Let_def)
    next
      case comp: False
      show ?thesis
      proof (cases "?q \<in> fst ` set (namespaces st)")
        case True
        then have w: "ns_walk c ?q (drop 2 ?rest) st = (Some q, st')"
          using False comp "1.prems"(1) by (simp add: ns_walk.simps [of c p z st] Let_def)
        then have "?q \<in> fst ` set (namespaces s)" using ns_walk_mono [OF w] True "1.prems"(2) by blast
        with IH(2) [OF False refl refl refl comp True w "1.prems"(2)] False comp show ?thesis
          by (simp add: ns_walk.simps [of False p z s] Let_def)
      next
        case new: False
        obtain b bs where a: "allocs 7 st = (b, st\<lparr>ram := bs\<rparr>)" by (rule allocs_cases)
        let ?s = "st\<lparr>ram := bs, namespaces := namespaces st @ [(?q, [])]\<rparr>"
        have c: "c" "\<not> TH8_MX_NS_DEPTH \<le> length p" "b" and w: "ns_walk c ?q (drop 2 ?rest) ?s = (Some q, st')"
          using "1.prems"(1) False comp new a by (auto simp: ns_walk.simps [of c p z st] Let_def split: if_splits bool.splits)
        have "?q \<in> fst ` set (namespaces s)" using ns_walk_mono [OF w] "1.prems"(2) by auto
        moreover have "ns_walk False ?q (drop 2 ?rest) s = (Some q, s)"
          using IH(3) [OF False refl refl refl comp new _ _ a [symmetric]] c w "1.prems"(2) by simp
        ultimately show ?thesis using False comp by (simp add: ns_walk.simps [of False p z s] Let_def)
      qed
    qed
  qed
qed


lemma find_ns_found:
  assumes "th8FindNamespaceEx (''::'' @ z) c st = (Some q, st')" "fst ` set (namespaces st') \<subseteq> fst ` set (namespaces s)"
  shows "fst (th8FindNamespaceEx (''::'' @ z) False s) = Some q"
proof (cases "z = []")
  case True with assms show ?thesis by (simp add: th8FindNamespaceEx_def)
next
  case False
  with assms have "ns_walk c [] z st = (Some q, st')" by (auto simp: th8FindNamespaceEx_def split: option.splits prod.splits)
  from ns_walk_found [OF this assms(2)] False show ?thesis by (simp add: th8FindNamespaceEx_def)
qed

lemma keeps_frame_of: "keeps st st' \<Longrightarrow> frame_of g st' = frame_of g st"
  using frame_chain_cong [of "frames st'" "frames st"] by (simp add: keeps_def frame_of_def)

lemma outer_table_frame: "\<not> (g \<and> has_sep z) \<Longrightarrow> outer_table z g st = Some (FrameVars (frame_of g st), z)"
  by (auto simp: outer_table_def)

text \<open>A lookup that creates leaves a table with the entry, and the name's table is found again in later states.\<close>

lemma find_outer_found:
  assumes ok: "vars_ok st" "active st" and r: "find_outer z g c st = Inr (Some a, st')"
  shows "\<exists>pl k. entry_of pl k st' = Some a \<and> (\<forall>b. pl \<noteq> Elements b) \<and> (\<forall>s. keeps st' s \<longrightarrow> outer_table z g s = Some (pl, k))"
proof (cases "g \<and> has_sep z")
  case False
  have t: "get_table (FrameVars (frame_of g st)) st = Inr (paVar (frames st ! frame_of g st))"
    by (rule frame_table [OF frame_of_less [OF ok(2)]])
  have f: "find_or_create (FrameVars (frame_of g st)) z c st = Inr (Some a, st')" using r False by (auto simp: find_outer_def)
  from find_or_create_found [OF f ok(1) t] have e: "entry_of (FrameVars (frame_of g st)) z st' = Some a" by (auto simp: entry_of_def simp del: get_table.simps)
  have "keeps st st'" using find_or_create_ok [OF ok t, of z c] f by simp
  then have "outer_table z g s = Some (FrameVars (frame_of g st), z)" if "keeps st' s" for s
    using that outer_table_frame [OF False] keeps_frame_of keeps_trans by metis
  with e show ?thesis by blast
next
  case True
  obtain ns tl where sp: "th8SplitQualName z = (ns, tl)" by fastforce
  let ?z = "case ns of None \<Rightarrow> [] | Some z \<Rightarrow> z"
  obtain b bs where a: "allocs (if ?z = [] then 1 else 2) st = (b, st\<lparr>ram := bs\<rparr>)" by (rule allocs_cases)
  let ?s = "st\<lparr>ram := bs\<rparr>"
  obtain q s1 where n: "th8FindNamespaceEx (''::'' @ ?z) c ?s = (q, s1)" by fastforce
  from r True sp a n obtain p where p: "q = Some p" and f: "find_or_create (NsVars p) tl c s1 = Inr (Some a, st')"
    by (auto simp: find_outer_def Let_def split: bool.splits option.splits)
  have s: "vars_ok ?s" "active ?s" using ok by simp_all
  note g = th8FindNamespaceEx_ok [OF s n]
  then have s1: "vars_ok s1" "active s1" using keeps_active [OF _ s(2)] by blast+
  from g p have "map_of (namespaces s1) p \<noteq> None" by (simp add: map_of_eq_None_iff)
  then obtain t where t: "get_table (NsVars p) s1 = Inr t" by (auto split: option.splits)
  from find_or_create_found [OF f s1(1) t] have e: "entry_of (NsVars p) tl st' = Some a" by (auto simp: entry_of_def)
  have k: "keeps s1 st'" using find_or_create_ok [OF s1 t, of tl c] f by simp
  have "outer_table z g u = Some (NsVars p, tl)" if "keeps st' u" for u
  proof -
    have "fst ` set (namespaces s1) \<subseteq> fst ` set (namespaces u)" using keeps_trans [OF k that] by (simp add: keeps_def)
    from find_ns_found [OF n [unfolded p] this] show ?thesis using True sp by (simp add: outer_table_def)
  qed
  with e show ?thesis by blast
qed

lemma entry_of_roots:
  "(\<forall>b. pl \<noteq> Elements b) \<Longrightarrow> frames s = frames st \<Longrightarrow> namespaces s = namespaces st \<Longrightarrow> entry_of pl k s = entry_of pl k st"
  by (cases pl) (auto simp: entry_of_def)

text \<open>The element part changes only cells.\<close>

lemma roots_Elements:
  "frames (put_table (Elements a) t st) = frames st" "namespaces (put_table (Elements a) t st) = namespaces st"
  by (simp_all add: put_cell_def split: option.splits)

lemma find_element_found:
  assumes ok: "vars_ok st" "active st" and r: "find_element sv z a i True st = Inr (Some e, st')"
  shows "entry_of (Elements a) i st' = Some e \<and> frames st' = frames st \<and> namespaces st' = namespaces st \<and> keeps st st'"
proof -
  let ?lookup = "\<lambda>s. andThen (find_or_create (Elements a) i True s) (\<lambda>(r, s).
     if r \<noteq> None then andThen (bump_epoch a s) (\<lambda>s. Inr (r, s)) else Inr (r, s))"
  have look: "entry_of (Elements a) i st' = Some e \<and> frames st' = frames s \<and> namespaces st' = namespaces s \<and> keeps s st'"
    if l: "?lookup s = Inr (Some e, st')" and s: "vars_ok s" "active s" for s
  proof -
    from l obtain s1 where f: "find_or_create (Elements a) i True s = Inr (Some e, s1)" and b: "bump_epoch a s1 = Inr st'"
      by (cases "find_or_create (Elements a) i True s"; cases "bump_epoch a (snd (projr (find_or_create (Elements a) i True s)))")
        (auto split: if_splits)
    from f obtain t where t: "get_table (Elements a) s = Inr t" by (cases "get_table (Elements a) s") (simp_all add: find_or_create_def)
    from find_or_create_found [OF f s(1) t] have en: "entry_of (Elements a) i s1 = Some e" by (auto simp: entry_of_def simp del: get_table.simps)
    from b obtain v where v: "cells s1 a = Some v" "st' = put_cell a (v\<lparr>nEpoch := nEpoch v + 1\<rparr>) s1"
      by (auto simp: bump_epoch_def deref_def split: option.splits)
    then have sn: "same_names s1 st'" by (simp add: same_names_def put_cell_def)
    have "frames s1 = frames s \<and> namespaces s1 = namespaces s"
      using find_or_create_new [OF f t] f t
      by (cases "\<exists>x. map_of t i = Some (Some x)") (auto simp: find_or_create_def roots_Elements put_cell_def simp del: put_table.simps)
    moreover have "keeps s s1" using find_or_create_ok [OF s t, of i True] f by simp
    ultimately show ?thesis using en entry_of_cong [OF sn] sn v(2) by (simp add: same_names_def)
  qed
  from r obtain v where v: "cells st a = Some v" by (cases "cells st a") (simp_all add: find_element_def deref_def)
  obtain b bs where al: "allocs 1 st = (b, st\<lparr>ram := bs\<rparr>)" "set bs \<subseteq> set (ram st)" by (rule allocs_cases)
  show ?thesis
  proof (cases "pHash v = None")
    case False
    with r v have "?lookup st = Inr (Some e, st')" by (auto simp: find_element_def deref_def Let_def)
    from look [OF this ok] show ?thesis .
  next
    case True
    let ?n = "new_hash a v (st\<lparr>ram := bs\<rparr>)"
    have nz: "vzData v = None"
    proof (rule ccontr)
      assume "vzData v \<noteq> None"
      with r v True show False
        by (cases "Th8_ErrorMessage sv ''variable is a scalar:'' (z, 0) st") (auto simp: find_element_def deref_def Let_def)
    qed
    with r v True al(1) have l: "?lookup ?n = Inr (Some e, st')"
      by (cases b) (auto simp: find_element_def deref_def Let_def simp del: One_nat_def)
    have n: "vars_ok ?n" using new_hash_ok [of "st\<lparr>ram := bs\<rparr>" a v] ok(1) v True nz by simp
    have k: "keeps st ?n" using keeps_ram [OF al(2)] by (simp add: new_hash_def)
    have "frames ?n = frames st" "namespaces ?n = namespaces st" by (simp_all add: new_hash_def put_cell_def)
    with look [OF l n keeps_active [OF k ok(2)]] k keeps_trans show ?thesis by auto
  qed
qed


text \<open>What a creating lookup returns is what the name denotes from then on, in every state with the same names.\<close>

lemma resolve_create:
  assumes ok: "vars_ok st" "active st"
    and r: "th8FindValue sv z True st = Inr (Some a, st')" and s: "same_names st' s" "ram s = []"
  shows "resolve z s = Some a"
proof -
  obtain o' i g where an: "th8AnalyzeVarName z = (o', i, g)" by (cases "th8AnalyzeVarName z") auto
  from r obtain b s1 where f: "find_outer o' g True st = Inr (Some b, s1)"
      and e: "(case i of None \<Rightarrow> Inr (Some b, s1) | Some j \<Rightarrow> find_element sv o' b j True s1) = Inr (Some a, st')"
    by (cases "find_outer o' g True st") (auto simp: th8FindValue_def an split: option.splits)
  from find_outer_found [OF ok f] obtain pl k where pl: "entry_of pl k s1 = Some b" "\<forall>b. pl \<noteq> Elements b"
      "\<And>s. keeps s1 s \<Longrightarrow> outer_table o' g s = Some (pl, k)" by blast
  have s1: "vars_ok s1" "active s1" using find_outer_ok [OF ok, of o' g True] f by simp_all
  have ks: "keeps st' s" using s by (auto simp: same_names_def keeps_def)
  show ?thesis
  proof (cases i)
    case None
    with e have "b = a" "st' = s1" by auto
    with pl ks None entry_of_cong [OF s(1)] an show ?thesis by (simp add: resolve_def)
  next
    case (Some j)
    with e have "find_element sv o' b j True s1 = Inr (Some a, st')" by simp
    from find_element_found [OF s1 this] have el: "entry_of (Elements b) j st' = Some a" "frames st' = frames s1"
      "namespaces st' = namespaces s1" "keeps s1 st'" by blast+
    have "entry_of pl k s = Some b" using entry_of_cong [OF s(1)] entry_of_roots [OF pl(2) el(2,3)] pl(1) by simp
    moreover have "entry_of (Elements b) j s = Some a" using entry_of_cong [OF s(1)] el(1) by simp
    ultimately show ?thesis using pl(3) [OF keeps_trans [OF el(4) ks]] Some an by (simp add: resolve_def)
  qed
qed


text \<open>A successful write, in detail.\<close>

lemma set_var_inv:
  assumes r: "Th8_SetVar depth name z n st = Inr (TH8_OK, st')" and n: "n \<noteq> TH8_NOLEN"
  obtains d a s v where "depth = Suc d" "th8FindValue (Th8_SetVar d) (fst name) True st = Inr (Some a, s)" "cells s a = Some v" "pHash v = None"
    "write_scalar name a v (bytes_of z n) (n AND TH8_TAG_BITS) s = (TH8_OK, st')"
proof (cases depth)
  case (Suc d)
  obtain q s where f: "th8FindValue (Th8_SetVar d) (fst name) True st = Inr (q, s)"
    using r Suc by (cases "th8FindValue (Th8_SetVar d) (fst name) True st") auto
  with r Suc obtain a where a: "q = Some a" by (cases q) auto
  with r Suc f obtain v where v: "cells s a = Some v" by (cases "cells s a") (auto simp: deref_def)
  have "pHash v = None"
  proof (rule ccontr)
    assume "pHash v \<noteq> None"
    with r Suc f a v show False
      by (cases "Th8_ErrorMessage (Th8_SetVar d) ''can't set variable (is array):'' name s") (auto simp: deref_def)
  qed
  with that Suc f a v r n show thesis by (simp add: deref_def)
qed (use r in simp)

lemma write_scalar_inv:
  assumes "write_scalar name a v bytes t st = (TH8_OK, st')" "cells st a = Some v" "pHash v = None"
  shows "same_names st st' \<and> set (ram st') \<subseteq> set (ram st) \<and>
    (\<exists>u. cells st' a = Some u \<and> vzData u = Some bytes \<and> nData u = of_nat (length bytes) OR t \<and> pHash u = None)"
proof -
  let ?s = "note_calls (RemoveFromCache (fst name) # release_data v) st"
  obtain b bs where al: "allocs 1 ?s = (b, ?s\<lparr>ram := bs\<rparr>)" "set bs \<subseteq> set (ram ?s)" by (rule allocs_cases)
  with assms have b by (cases b) (auto simp: write_scalar_def Let_def simp del: One_nat_def)
  with al assms show ?thesis
    by (auto simp: write_scalar_def Let_def put_cell_def same_names_def simp del: One_nat_def)
qed

lemma get_scalar:
  assumes ok: "vars_ok st" "active st" "ram st = []" and r: "resolve (fst name) st = Some a" "cells st a = Some u" "vzData u = Some z"
    and n: "length z < 2 ^ 28" "nData u = of_nat (length z) OR t" "t AND TH8_TAG_BITS = t"
  shows "Th8_GetVar depth name st = Inr (TH8_OK, st\<lparr>vzResult := Some z, vnResult := of_nat (length z) OR t\<rparr>)"
proof -
  have len: "TH8_LEN (of_nat (length z) OR t) = of_nat (length z)" "(of_nat (length z) OR t) AND TH8_TAG_BITS = t"
    using tagged_parts [OF n(1,3)] by (simp_all add: tagged_def)
  have "bytes_of z (of_nat (length z) OR t) = z" using len(1) n(1) by (simp add: bytes_of_def unat_of_nat_small)
  with len tagged_not_NOLEN [OF n(1,3)] r n(2) ok(3) show ?thesis
    by (simp add: Th8_GetVar_def read_scalar_def find_resolve [OF ok] deref_def Th8_SetResult_def Let_def)
qed

section \<open>Names under links\<close>

lemma ns_walk_False_cong: "namespaces s = namespaces s' \<Longrightarrow> fst (ns_walk False p z s) = fst (ns_walk False p z s')"
proof (induction "False" p z s rule: ns_walk.induct)
  case (1 p z s)
  then show ?case using ns_walk_unfold [of False p z s] ns_walk_unfold [of False p z s'] by simp
qed

lemma find_ns_cong:
  "namespaces s = namespaces s' \<Longrightarrow> fst (th8FindNamespaceEx (''::'' @ z) False s) = fst (th8FindNamespaceEx (''::'' @ z) False s')"
  using ns_walk_False_cong [of s s' "[]" z] by (auto simp: th8FindNamespaceEx_def split: prod.splits option.splits)

lemma outer_table_cong: "namespaces s = namespaces s' \<Longrightarrow> frame_of g s = frame_of g s' \<Longrightarrow> outer_table z g s = outer_table z g s'"
  using find_ns_cong [of s s'] by (auto simp: outer_table_def split: prod.splits)

lemma resolve_mono:
  assumes "namespaces s = namespaces st" "\<And>g. frame_of g s = frame_of g st"
    and e: "\<And>pl k b. entry_of pl k st = Some b \<Longrightarrow> entry_of pl k s = Some b" and r: "resolve z st = Some a"
  shows "resolve z s = Some a"
proof -
  obtain o' i g where an: "th8AnalyzeVarName z = (o', i, g)" by (cases "th8AnalyzeVarName z") auto
  with r obtain pl k b where o': "outer_table o' g st = Some (pl, k)" "entry_of pl k st = Some b"
      "(case i of None \<Rightarrow> Some b | Some j \<Rightarrow> entry_of (Elements b) j st) = Some a"
    by (auto simp: resolve_def split: option.splits prod.splits)
  then show ?thesis using an outer_table_cong [OF assms(1,2), of o' g] e [OF o'(2)] by (auto simp: resolve_def split: option.splits dest: e)
qed

lemma same_names_resolve: "same_names st s \<Longrightarrow> resolve z s = resolve z st"
proof -
  assume sn: "same_names st s"
  then have "outer_table o' g s = outer_table o' g st" for o' g
    by (intro outer_table_cong) (auto simp: same_names_def frame_of_def)
  then show ?thesis by (simp add: resolve_def entry_of_cong [OF sn] cong: option.case_cong prod.case_cong)
qed

text \<open>Adding a link keeps every other name.\<close>

lemma make_link_inv:
  assumes r: "make_link depth local a st = Inr (TH8_OK, st')" and f: "curFrame st < length (frames st)"
  obtains v bs where "cells st a = Some v" "\<forall>x. map_of (paVar (frames st ! curFrame st)) (fst local) \<noteq> Some (Some x)"
    "st' = put_table (FrameVars (curFrame st)) (dict_step (Assign (fst local) (Some a)) (dict_step (Create (fst local)) (paVar (frames st ! curFrame st))))
       (put_cell a (v\<lparr>nRef := nRef v + 1\<rparr>) (st\<lparr>ram := bs\<rparr>))" "set bs \<subseteq> set (ram st)"
proof -
  let ?t = "paVar (frames st ! curFrame st)"
  have no: "\<forall>x. map_of ?t (fst local) \<noteq> Some (Some x)"
  proof (rule ccontr)
    assume "\<not> ?thesis"
    with r f show False
      by (cases "Th8_ErrorMessage (Th8_SetVar depth) ''variable exists:'' local st") (auto simp: make_link_def errorMessage_def)
  qed
  then have nk: "map_of ?t (fst local) = None \<or> map_of ?t (fst local) = Some None" by (metis option.exhaust)
  obtain b bs where al: "(if map_of ?t (fst local) = None then allocs 2 st else (True, st)) = (b, st\<lparr>ram := bs\<rparr>)" and bs: "set bs \<subseteq> set (ram st)"
  proof (cases "map_of ?t (fst local) = None")
    case True then show thesis by (rule_tac allocs_cases [of 2 st]) (auto intro: that)
  next
    case False
    then have "(if map_of ?t (fst local) = None then allocs 2 st else (True, st)) = (True, st\<lparr>ram := ram st\<rparr>)" by auto
    then show thesis using that by blast
  qed
  from r f nk al obtain v where v: "cells st a = Some v"
    by (cases "cells st a"; cases b) (auto simp: make_link_def deref_def)
  from r f nk al v have "b" by (cases b) (auto simp: make_link_def deref_def)
  with r f nk al v have "st' = put_table (FrameVars (curFrame st)) (dict_step (Assign (fst local) (Some a)) (dict_step (Create (fst local)) ?t))
       (put_cell a (v\<lparr>nRef := nRef v + 1\<rparr>) (st\<lparr>ram := bs\<rparr>))"
    by (auto simp: make_link_def deref_def simp del: put_table.simps)
  with that v no bs show thesis by blast
qed

lemma make_link_entries:
  assumes r: "make_link depth local a st = Inr (TH8_OK, st')" and f: "curFrame st < length (frames st)"
  shows "entry_of (FrameVars (curFrame st)) (fst local) st' = Some a"
    and "entry_of pl k st = Some b \<Longrightarrow> entry_of pl k st' = Some b"
    and "keeps st st'" and "namespaces st' = namespaces st"
proof -
  let ?f = "curFrame st" and ?t = "paVar (frames st ! curFrame st)"
  from r f obtain v bs where v: "cells st a = Some v" and no: "\<forall>x. map_of ?t (fst local) \<noteq> Some (Some x)"
    and e: "st' = put_table (FrameVars ?f) (dict_step (Assign (fst local) (Some a)) (dict_step (Create (fst local)) ?t))
       (put_cell a (v\<lparr>nRef := nRef v + 1\<rparr>) (st\<lparr>ram := bs\<rparr>))" and bs: "set bs \<subseteq> set (ram st)" by (rule make_link_inv)
  have t: "paVar (frames st' ! j) = (if j = ?f then dict_step (Assign (fst local) (Some a)) (dict_step (Create (fst local)) ?t)
      else paVar (frames st ! j))" "length (frames st') = length (frames st)" for j
    using e f by (simp_all add: put_cell_def)
  have m: "map_of (dict_step (Assign (fst local) (Some a)) (dict_step (Create (fst local)) ?t)) j =
      (if j = fst local then Some (Some a) else map_of ?t j)" for j by (auto simp: map_of_dict_step)
  show "entry_of (FrameVars ?f) (fst local) st' = Some a" using f by (simp add: entry_of_def t m)
  show ns: "namespaces st' = namespaces st" using e by (simp add: put_cell_def)
  show "entry_of pl k st' = Some b" if b: "entry_of pl k st = Some b"
  proof (cases pl)
    case (FrameVars j)
    with b no show ?thesis by (auto simp: entry_of_def t m split: if_splits option.splits)
  next
    case (NsVars p) with b ns show ?thesis by (simp add: entry_of_def)
  next
    case (Elements x)
    have "map_option pHash (cells st' x) = map_option pHash (cells st x)" using e v by (simp add: put_cell_def)
    with Elements b show ?thesis by (cases "cells st x"; cases "cells st' x") (auto simp: entry_of_def deref_def)
  qed
  show "keeps st st'" using e keeps_ram [OF bs] by (simp del: put_table.simps)
qed

section \<open>Properties\<close>

text \<open>
  C31: Set, then get. When a write of a variable succeeds, reading it back by the same name gives the
  bytes that were written, with the taint and sensitivity bits they were written with. It holds for
  every form of name (local, global, namespace-qualified, array element) and for a variable that
  the name reaches through a link; memory is assumed not to run out after the write.
\<close>

theorem set_then_get:
  assumes ok: "vars_ok st" "active st"
    and set: "Th8_SetVar depth name zVal nVal st = Inr (TH8_OK, st')" and n: "nVal \<noteq> TH8_NOLEN" and m: "ram st' = []"
  shows "Th8_GetVar depth' name st' =
    Inr (TH8_OK, st'\<lparr>vzResult := Some (bytes_of zVal nVal),
                      vnResult := of_nat (length (bytes_of zVal nVal)) OR (nVal AND TH8_TAG_BITS)\<rparr>)"
proof -
  from set n obtain d a s v where f: "th8FindValue (Th8_SetVar d) (fst name) True st = Inr (Some a, s)" "cells s a = Some v" "pHash v = None"
    and w: "write_scalar name a v (bytes_of zVal nVal) (nVal AND TH8_TAG_BITS) s = (TH8_OK, st')" by (rule set_var_inv)
  from write_scalar_inv [OF w f(2,3)] obtain u where u: "same_names s st'" "cells st' a = Some u" "vzData u = Some (bytes_of zVal nVal)"
    "nData u = of_nat (length (bytes_of zVal nVal)) OR (nVal AND TH8_TAG_BITS)" by blast
  have st': "vars_ok st'" "active st'" using setv.setter_ok [OF ok, of depth name zVal nVal] set by simp_all
  show ?thesis
  proof (rule get_scalar [OF st' m resolve_create [OF ok f(1) u(1) m] u(2,3) _ u(4)])
    show "length (bytes_of zVal nVal) < 2 ^ 28" using TH8_LEN_small [of nVal] by (simp add: bytes_of_def)
    show "(nVal AND TH8_TAG_BITS) AND TH8_TAG_BITS = nVal AND TH8_TAG_BITS" by (simp add: and.assoc)
  qed
qed


lemma andThen_Inr: "andThen m k = Inr y \<Longrightarrow> (\<And>x. m = Inr x \<Longrightarrow> k x = Inr y \<Longrightarrow> P) \<Longrightarrow> P"
  by (cases m) auto

lemma returned: "(case m of Inl _ \<Rightarrow> False | Inr x \<Rightarrow> P x) \<Longrightarrow> \<exists>x. m = Inr x \<and> P x"
  by (cases m) auto

theorem set_then_get_witness:
  "\<exists>st'. Th8_SetVar 1 (''x'', 0) ''hi'' 0x10000002 (vinit []) = Inr (TH8_OK, st') \<and>
     Th8_GetVar 1 (''x'', 0) st' = Inr (TH8_OK, st'\<lparr>vzResult := Some ''hi'', vnResult := 0x10000002\<rparr>)"
proof -
  have "case Th8_SetVar 1 (''x'', 0) ''hi'' 0x10000002 (vinit []) of Inl _ \<Rightarrow> False | Inr (rc, s) \<Rightarrow> rc = TH8_OK \<and> ram s = []"
    by code_simp
  then obtain st' where st': "Th8_SetVar 1 (''x'', 0) ''hi'' 0x10000002 (vinit []) = Inr (TH8_OK, st')" "ram st' = []"
    by (auto split: sum.splits)
  have "bytes_of ''hi'' 0x10000002 = ''hi''" by (simp add: bytes_of_def TH8_LEN_def)
  with st'(1) set_then_get [OF _ _ st'(1) _ st'(2), where depth' = 1] vinit_ok [of "[]"] show ?thesis by simp
qed

text \<open>
  C29: Reference counts. In every state that the operations reach, whatever the allocator answered,
  the count of a variable is positive and is exactly the number of names (entries of frames,
  namespaces and arrays) that hold it, a released variable has no name left, a variable is not a
  scalar and an array at once, and the elements of an array are younger than the array, so that
  arrays do not contain themselves.
\<close>

theorem reference_counts_exact:
  assumes "var_reach depth st"
  shows "(cells st a = Some v \<longrightarrow> nRef v = int (root_refs st a) + int (heap_refs st a) \<and> 0 < nRef v \<and>
           (pHash v \<noteq> None \<longrightarrow> vzData v = None) \<and> (\<forall>k b. (k, Some b) \<in> set (elems v) \<longrightarrow> a < b)) \<and>
         (cells st a = None \<longrightarrow> root_refs st a = 0 \<and> heap_refs st a = 0)"
proof -
  have ok: "vars_ok st" using var_reach_ok [OF assms] by blast
  have "ref_count st a = int (root_refs st a) + int (heap_refs st a)" using ok by (simp add: vars_inv_def balanced_def)
  then show ?thesis using vars_inv_cell [OF ok] by (auto simp: ref_count_def cell_ok_def)
qed

text \<open>Two names for one variable: a link from a frame above the global one.\<close>

theorem reference_counts_exact_witness:
  "\<exists>st v. var_reach 2 st \<and> cells st 0 = Some v \<and> nRef v = 2 \<and> root_refs st 0 + heap_refs st 0 = 2"
proof -
  let ?r = "exec_all 2 [SetOp (''x'', 0) ''1'' 1, PushOp, LinkOp (''y'', 0) (- 1) (''x'', 0)] (vinit [])"
  have "case ?r of Inl _ \<Rightarrow> False | Inr s \<Rightarrow> map_option nRef (cells s 0) = Some 2" by code_simp
  then obtain st v where st: "?r = Inr st" "cells st 0 = Some v" "nRef v = 2" by (auto split: sum.splits)
  from exec_all_reach [OF st(1) var_reach.init] have "var_reach 2 st" .
  with st reference_counts_exact [OF this, of 0 v] show ?thesis by fastforce
qed

text \<open>
  C30: Memory safety. No operation of the variable layer, from any reachable state and with any
  outcome of its allocations, reads or writes through a pointer to a released variable. The only
  faults are the exhaustion of the C stack by the recursion between \<open>Th8_ErrorMessage\<close> and
  \<open>Th8_SetVar\<close>, and a null dereference of \<open>Th8_LinkVar\<close> when an allocation fails.
\<close>

theorem no_use_after_free:
  assumes "var_reach depth st" "allowed c st" "var_exec depth c st = Inl f"
  shows "f = StackOverflow \<or> f = NullDeref \<and> False \<in> set (ram st) \<and> (\<exists>l i r. c = LinkOp l i r)"
proof -
  have "f \<in> op_faults c st" using var_exec_ok [of st c depth] var_reach_ok [OF assms(1)] assms(2,3) by simp
  then show ?thesis by (cases c) (auto simp: op_faults_def link_faults_def split: if_splits)
qed

theorem no_use_after_free_witness:
  "\<exists>f. var_exec 2 (LinkOp (''y'', 0) 0 (''x'', 0)) (vinit [True, True, True, False]) = Inl f \<and> f = NullDeref"
proof -
  let ?c = "LinkOp (''y'', 0) 0 (''x'', 0)" and ?st = "vinit [True, True, True, False]"
  have "case var_exec 2 ?c ?st of Inl f \<Rightarrow> f \<noteq> StackOverflow | Inr _ \<Rightarrow> False" by code_simp
  then obtain f where f: "var_exec 2 ?c ?st = Inl f" "f \<noteq> StackOverflow" by (auto split: sum.splits)
  with no_use_after_free [OF var_reach.init _ f(1)] show ?thesis by auto
qed

text \<open>
  C34: No leak. When the global frame is popped and the namespaces hold no variables, every variable
  is released, the elements of nested arrays included.
\<close>

theorem last_pop_releases_all:
  assumes "vars_ok st" "active st" "length (frames st) = 1" "\<forall>e \<in> set (namespaces st). snd e = []"
  shows "\<exists>st'. th8PopFrame st = Inr st' \<and> (\<forall>a. cells st' a = None)"
proof -
  have "Suc (curFrame st) = length (frames st)" using assms(2,3) by (simp add: active_def)
  from th8PopFrame_ok [OF assms(1,2) this] obtain st' where st': "th8PopFrame st = Inr st'" "vars_ok st'"
      "frames st' = butlast (frames st)" "namespaces st' = namespaces st" by blast
  have "frames st' = []" using st'(3) assms(3) by (cases "frames st") auto
  moreover have "sum_list (map (\<lambda>e. tab_refs (snd e) b) (namespaces st)) = 0" for b using assms(4) by simp
  ultimately have "root_refs st' b = 0" for b using st'(4) by (simp add: root_refs_def)
  with no_roots_no_cells [OF st'(2)] st'(1) show ?thesis by blast
qed

theorem last_pop_releases_all_witness:
  "\<exists>st st'. var_reach 2 st \<and> cells st 1 \<noteq> None \<and> th8PopFrame st = Inr st' \<and> (\<forall>a. cells st' a = None)"
proof -
  let ?r = "exec_all 2 [SetOp (''a(k)'', 0) ''1'' 1] (vinit [])"
  have "case ?r of Inl _ \<Rightarrow> False | Inr s \<Rightarrow> cells s 1 \<noteq> None \<and> length (frames s) = 1 \<and> list_all (\<lambda>e. snd e = []) (namespaces s)" by code_simp
  then obtain st where st: "?r = Inr st" "cells st 1 \<noteq> None" "length (frames st) = 1" "\<forall>e \<in> set (namespaces st). snd e = []"
    by (auto simp: list_all_iff split: sum.splits)
  from exec_all_reach [OF st(1) var_reach.init] have r: "var_reach 2 st" .
  then have "vars_ok st" "active st" using var_reach_ok by blast+
  from last_pop_releases_all [OF this st(3,4)] st(2) r show ?thesis by blast
qed

text \<open>
  C35: Error messages return exactly when \<open>::errorInfo\<close> is not an array. With at least one level of C
  stack left for the write of \<open>::errorInfo\<close> a message is set at once; but when a script has made
  \<open>::errorInfo\<close> an array, the failed write reports its own error, which writes \<open>::errorInfo\<close>, and the
  recursion has no end: every error overflows the C stack, however deep it is.
\<close>

theorem error_message_returns_iff:
  assumes "vars_ok st" "active st"
  shows "(\<exists>s. Th8_ErrorMessage (Th8_SetVar (Suc depth)) zPre name st = Inr s) \<longleftrightarrow> \<not> errorInfo_array st"
proof (cases "errorInfo_array st")
  case True
  then show ?thesis using errorInfo_loop [OF assms(2) True] by (auto simp: Th8_ErrorMessage_def Let_def simp del: Th8_SetVar.simps)
qed (use message_returns [OF assms] in blast)

theorem error_message_returns_iff_witness:
  "\<exists>st. var_reach 2 st \<and> errorInfo_array st \<and>
     \<not> (\<exists>s. Th8_ErrorMessage (Th8_SetVar (Suc 100)) ''no such command:'' (''foo'', 0) st = Inr s)"
proof -
  let ?r = "exec_all 2 [SetOp (''::errorInfo(x)'', 0) ''1'' 1] (vinit [])"
  have "case ?r of Inl _ \<Rightarrow> False | Inr s \<Rightarrow>
      (case map_of (paVar (frames s ! frame_of True s)) ''errorInfo'' of
         Some (Some a) \<Rightarrow> (case cells s a of Some v \<Rightarrow> pHash v \<noteq> None | None \<Rightarrow> False) | _ \<Rightarrow> False)" by code_simp
  then obtain st where st: "?r = Inr st" "errorInfo_array st" by (auto simp: errorInfo_array_def split: sum.splits option.splits)
  from exec_all_reach [OF st(1) var_reach.init] have r: "var_reach 2 st" .
  then have "vars_ok st" "active st" using var_reach_ok by blast+
  from error_message_returns_iff [OF this, of 100 "''no such command:''" "(''foo'', 0)"] st(2) r show ?thesis by blast
qed

text \<open>
  C32: Links share the variable. After a link of a plain local name to a remote variable, a value
  written through the local name is what the remote name gives in its own frame.
\<close>

theorem link_shares_value:
  assumes ok: "vars_ok st" "active st" and link: "Th8_LinkVar depth local iFrame remote st = Inr (TH8_OK, st1)" "link_target iFrame st = Some f"
    and plain: "th8AnalyzeVarName (fst local) = (fst local, None, False)" and m: "ram st1 = []"
    and set: "Th8_SetVar depth local zVal nVal st1 = Inr (TH8_OK, st2)" "nVal \<noteq> TH8_NOLEN"
  shows "Th8_GetVar depth' remote (st2\<lparr>curFrame := f\<rparr>) =
    Inr (TH8_OK, st2\<lparr>curFrame := f, vzResult := Some (bytes_of zVal nVal),
                      vnResult := of_nat (length (bytes_of zVal nVal)) OR (nVal AND TH8_TAG_BITS)\<rparr>)"
proof -
  let ?s = "st\<lparr>curFrame := f\<rparr>"
  have fl: "f < length (frames st)" using link_target_less [OF ok(2) link(2)] .
  have s: "vars_ok ?s" "active ?s" using ok fl by (auto simp: active_def)
  from link obtain r u where fnd: "th8FindValue (Th8_SetVar depth) (fst remote) True ?s = Inr (r, u)"
    by (auto simp: Th8_LinkVar_def elim!: andThen_Inr)
  let ?u = "u\<lparr>curFrame := curFrame st\<rparr>"
  obtain a where a: "r = Some a" and ml: "make_link depth local a ?u = Inr (TH8_OK, st1)"
    using link fnd by (cases r) (auto simp: Th8_LinkVar_def Let_def errorMessage_def elim!: andThen_Inr)
  have u: "vars_ok u" "active u" "keeps ?s u" using setv.find_ok [OF s, of depth "fst remote" True] fnd by simp_all
  have fu: "curFrame ?u < length (frames ?u)" using ok(2) keeps_length [OF u(3)] by (simp add: active_def)
  note ml' = make_link_entries [OF ml fu]
  have st1: "vars_ok st1" "active st1" "keeps st st1" using Th8_LinkVar_ok [OF ok, of depth local iFrame remote] link(1) by simp_all
  have ru: "resolve (fst remote) (u\<lparr>ram := []\<rparr>) = Some a"
    using resolve_create [OF s, of _ "fst remote" a u "u\<lparr>ram := []\<rparr>"] fnd a by (simp add: same_names_def)
  have cu: "curFrame u = f" using u(3) by (simp add: keeps_def)
  have rr: "resolve (fst remote) (st1\<lparr>curFrame := f\<rparr>) = Some a"
  proof (rule resolve_mono [OF _ _ _ ru])
    show "namespaces (st1\<lparr>curFrame := f\<rparr>) = namespaces (u\<lparr>ram := []\<rparr>)" using ml'(4) by simp
    have "map pCaller (frames st1) = map pCaller (frames u)" using ml'(3) by (simp add: keeps_def)
    then show "frame_of g (st1\<lparr>curFrame := f\<rparr>) = frame_of g (u\<lparr>ram := []\<rparr>)" for g
      using frame_chain_cong [of "frames st1" "frames u"] cu by (simp add: frame_of_def)
    show "entry_of pl k (st1\<lparr>curFrame := f\<rparr>) = Some b" if "entry_of pl k (u\<lparr>ram := []\<rparr>) = Some b" for pl k b
    proof -
      have e: "entry_of pl k ?u = Some b" using that by (cases pl) (auto simp: entry_of_def deref_def split: if_splits)
      have "entry_of pl k st1 = Some b" by (rule ml'(2) [OF e])
      then show ?thesis by (cases pl) (auto simp: entry_of_def deref_def split: if_splits)
    qed
  qed
  have cf: "curFrame st1 = curFrame st" using st1(3) by (simp add: keeps_def)
  have rl: "resolve (fst local) st1 = Some a"
    using ml'(1) plain cf by (simp add: resolve_def outer_table_def frame_of_def)
  from set obtain d b s2 v where w: "th8FindValue (Th8_SetVar d) (fst local) True st1 = Inr (Some b, s2)" "cells s2 b = Some v" "pHash v = None"
    "write_scalar local b v (bytes_of zVal nVal) (nVal AND TH8_TAG_BITS) s2 = (TH8_OK, st2)" by (rule set_var_inv)
  have "find_outer (fst local) False True st1 = Inr (Some a, st1)"
    using ml'(1) cf by (auto simp: find_outer_def frame_of_def find_or_create_def entry_of_def split: if_splits sum.splits option.splits)
  then have b: "b = a" "s2 = st1" using w(1) plain by (auto simp: th8FindValue_def)
  from write_scalar_inv [OF w(4,2,3)] b obtain c where c: "same_names st1 st2" "set (ram st2) \<subseteq> set (ram st1)" "cells st2 a = Some c"
    "vzData c = Some (bytes_of zVal nVal)" "nData c = of_nat (length (bytes_of zVal nVal)) OR (nVal AND TH8_TAG_BITS)" by blast
  have st2: "vars_ok st2" using setv.setter_ok [OF st1(1,2), of depth local zVal nVal] set(1) by simp
  have fl2: "f < length (frames st2)" using c(1) fl keeps_length [OF st1(3)] by (simp add: same_names_def)
  have act: "active (st2\<lparr>curFrame := f\<rparr>)" using fl2 st1(2) c(1) by (simp add: active_def same_names_def)
  have sn: "same_names (st1\<lparr>curFrame := f\<rparr>) (st2\<lparr>curFrame := f\<rparr>)" using c(1) by (simp add: same_names_def)
  have ram2: "ram (st2\<lparr>curFrame := f\<rparr>) = []" using c(2) m by simp
  have "Th8_GetVar depth' remote (st2\<lparr>curFrame := f\<rparr>) = Inr (TH8_OK, (st2\<lparr>curFrame := f\<rparr>)\<lparr>vzResult := Some (bytes_of zVal nVal),
      vnResult := of_nat (length (bytes_of zVal nVal)) OR (nVal AND TH8_TAG_BITS)\<rparr>)"
  proof (rule get_scalar [OF _ act ram2 _ _ c(4) _ c(5)])
    show "vars_ok (st2\<lparr>curFrame := f\<rparr>)" using st2 by simp
    show "resolve (fst remote) (st2\<lparr>curFrame := f\<rparr>) = Some a" using same_names_resolve [OF sn] rr by simp
    show "cells (st2\<lparr>curFrame := f\<rparr>) a = Some c" using c(3) by simp
    show "length (bytes_of zVal nVal) < 2 ^ 28" using TH8_LEN_small [of nVal] by (simp add: bytes_of_def)
    show "(nVal AND TH8_TAG_BITS) AND TH8_TAG_BITS = nVal AND TH8_TAG_BITS" by (simp add: and.assoc)
  qed
  then show ?thesis by simp
qed

theorem link_shares_value_witness:
  "\<exists>st st1 st2. var_reach 2 st \<and> Th8_LinkVar 2 (''y'', 0) (- 1) (''x'', 0) st = Inr (TH8_OK, st1) \<and>
     Th8_SetVar 2 (''y'', 0) ''new'' 3 st1 = Inr (TH8_OK, st2) \<and>
     Th8_GetVar 2 (''x'', 0) (st2\<lparr>curFrame := 0\<rparr>) = Inr (TH8_OK, st2\<lparr>curFrame := 0, vzResult := Some ''new'', vnResult := 3\<rparr>)"
proof -
  let ?r = "exec_all 2 [SetOp (''x'', 0) ''1'' 1, PushOp] (vinit [])"
  have "case ?r of Inl _ \<Rightarrow> False | Inr s \<Rightarrow> link_target (- 1) s = Some 0 \<and>
     (case Th8_LinkVar 2 (''y'', 0) (- 1) (''x'', 0) s of Inl _ \<Rightarrow> False | Inr (rc, s1) \<Rightarrow> rc = TH8_OK \<and> ram s1 = [] \<and>
       (case Th8_SetVar 2 (''y'', 0) ''new'' 3 s1 of Inl _ \<Rightarrow> False | Inr (rc, s2) \<Rightarrow> rc = TH8_OK))" by code_simp
  from returned [OF this] obtain st where s: "?r = Inr st" "link_target (- 1) st = Some 0"
     "case Th8_LinkVar 2 (''y'', 0) (- 1) (''x'', 0) st of Inl _ \<Rightarrow> False | Inr (rc, s1) \<Rightarrow> rc = TH8_OK \<and> ram s1 = [] \<and>
       (case Th8_SetVar 2 (''y'', 0) ''new'' 3 s1 of Inl _ \<Rightarrow> False | Inr (rc, s2) \<Rightarrow> rc = TH8_OK)" by blast
  from returned [OF s(3)] obtain st1 where s1: "Th8_LinkVar 2 (''y'', 0) (- 1) (''x'', 0) st = Inr (TH8_OK, st1)" "ram st1 = []"
      "case Th8_SetVar 2 (''y'', 0) ''new'' 3 st1 of Inl _ \<Rightarrow> False | Inr (rc, s2) \<Rightarrow> rc = TH8_OK" by auto
  from returned [OF s1(3)] obtain st2 where "Th8_SetVar 2 (''y'', 0) ''new'' 3 st1 = Inr (TH8_OK, st2)" by auto
  note st = s(1,2) s1(1,2) this
  from exec_all_reach [OF st(1) var_reach.init] have r: "var_reach 2 st" .
  then have ok: "vars_ok st" "active st" using var_reach_ok by blast+
  have "bytes_of ''new'' 3 = ''new''" by (simp add: bytes_of_def TH8_LEN_def)
  with link_shares_value [OF ok st(3,2) _ st(4,5), where depth' = 2] st r show ?thesis by (auto simp: th8AnalyzeVarName_def)
qed

text \<open>
  C33: Unset. A successful unset of a whole variable, by a name that is not qualified by a namespace,
  leaves the name without a variable and no other frame of the chain of callers with a name for it.
\<close>

theorem unset_removes:
  assumes ok: "vars_ok st" "active st" and name: "th8AnalyzeVarName (fst name) = (zOuter, None, g)"
    and held: "entry_of (FrameVars (frame_of g st)) zOuter st = Some a"
  shows "\<exists>st'. Th8_UnsetVar depth name st = Inr (TH8_OK, st') \<and> entry_of (FrameVars (frame_of g st)) zOuter st' = None \<and>
    (\<forall>j \<in> set (frame_chain (frames st) (curFrame st)). j \<noteq> frame_of g st \<longrightarrow> (\<forall>k. entry_of (FrameVars j) k st' \<noteq> Some a))"
proof -
  let ?f = "frame_of g st"
  have f: "?f < length (frames st)" by (rule frame_of_less [OF ok(2)])
  have t: "map_of (paVar (frames st ! ?f)) zOuter = Some (Some a)" using held f by (auto simp: entry_of_def split: option.splits)
  from unset_whole_ok [OF ok f t] obtain rc st' where w: "unset_whole ?f zOuter a st = Inr (rc, st')" "rc = TH8_OK" "keeps st st'"
      "map_of (paVar (frames st' ! ?f)) zOuter = None" "\<forall>j \<in> set (frame_chain (frames st) (curFrame st)). j \<noteq> ?f \<longrightarrow> unnamed a j st'"
    by (cases "unset_whole ?f zOuter a st") auto
  have "Th8_UnsetVar depth name st = Inr (TH8_OK, st')" using name t f w(1,2) by (simp add: Th8_UnsetVar_def)
  moreover have "entry_of (FrameVars ?f) zOuter st' = None" using w(4) by (simp add: entry_of_def)
  moreover have "entry_of (FrameVars j) k st' \<noteq> Some a" if "j \<in> set (frame_chain (frames st) (curFrame st))" "j \<noteq> ?f" for j k
    using w(5) that by (fastforce simp: entry_of_def unnamed_def split: option.splits if_splits dest: map_of_SomeD)
  ultimately show ?thesis by blast
qed

theorem unset_removes_witness:
  "\<exists>st st'. var_reach 2 st \<and> entry_of (FrameVars 0) ''x'' st = Some 0 \<and> Th8_UnsetVar 2 (''y'', 0) st = Inr (TH8_OK, st') \<and>
     entry_of (FrameVars 0) ''x'' st' \<noteq> Some 0"
proof -
  let ?r = "exec_all 2 [SetOp (''x'', 0) ''1'' 1, PushOp, LinkOp (''y'', 0) (- 1) (''x'', 0)] (vinit [])"
  have "case ?r of Inl _ \<Rightarrow> False | Inr s \<Rightarrow> entry_of (FrameVars 0) ''x'' s = Some 0 \<and> entry_of (FrameVars (frame_of False s)) ''y'' s = Some 0 \<and>
      0 \<in> set (frame_chain (frames s) (curFrame s)) \<and> frame_of False s \<noteq> 0" by code_simp
  then obtain st where st: "?r = Inr st" "entry_of (FrameVars 0) ''x'' st = Some 0" "entry_of (FrameVars (frame_of False st)) ''y'' st = Some 0"
      "0 \<in> set (frame_chain (frames st) (curFrame st))" "frame_of False st \<noteq> 0" by (auto split: sum.splits)
  from exec_all_reach [OF st(1) var_reach.init] have r: "var_reach 2 st" .
  then have ok: "vars_ok st" "active st" using var_reach_ok by blast+
  have "th8AnalyzeVarName (fst (''y'', 0 :: size_t)) = (''y'', None, False)" by (simp add: th8AnalyzeVarName_def)
  from unset_removes [OF ok this st(3), where depth = 2] obtain st' where "Th8_UnsetVar 2 (''y'', 0) st = Inr (TH8_OK, st')"
      "\<forall>j \<in> set (frame_chain (frames st) (curFrame st)). j \<noteq> frame_of False st \<longrightarrow> (\<forall>k. entry_of (FrameVars j) k st' \<noteq> Some 0)" by blast
  moreover from this(2) st(4,5) have "entry_of (FrameVars 0) ''x'' st' \<noteq> Some 0" by metis
  ultimately show ?thesis using st(2) r by blast
qed

end
