(* ===== verification/Th8_VarCmds.thy ===== *)
theory Th8_VarCmds
  imports Th8_VarsProps Th8_Numbers
begin

text \<open>
  The commands of \<open>src/src/plugins/th8_variables.c\<close> that read and write variables: \<open>set\<close>, \<open>append\<close>,
  \<open>unset\<close>, \<open>global\<close> and \<open>upvar\<close>. An argument is its bytes with its tagged length, the first one is the
  name of the command.
\<close>

section \<open>Commands\<close>

type_synonym cmd_arg = "string \<times> size_t"

definition arg_name :: "cmd_arg \<Rightarrow> vname" where
  "arg_name a = (bytes_of (fst a) (snd a), snd a AND TH8_TAG_BITS)"

definition arg_is :: "cmd_arg \<Rightarrow> string \<Rightarrow> bool" where
  "arg_is a z \<longleftrightarrow> bytes_of (fst a) (snd a) = z \<and> TH8_LEN (snd a) = of_nat (length z)"

definition Th8_WrongNumArgs :: "nat \<Rightarrow> string \<Rightarrow> vstate \<Rightarrow> (int \<times> vstate) run" where
  "Th8_WrongNumArgs depth zMsg st = errorMessage depth (''wrong # args: should be '' @ [DQ]) (zMsg, 0) st"

definition th8CheckSystemVar :: "nat \<Rightarrow> cmd_arg \<Rightarrow> vstate \<Rightarrow> (int \<times> vstate) run" where
  "th8CheckSystemVar depth a st =
     andThen (Th8_IsSystemVar a st) (\<lambda>sys.
       if sys then errorMessage depth (''can't modify system variable '' @ [DQ]) (arg_name a) st
       else Inr (TH8_OK, st))"

definition set_command :: "nat \<Rightarrow> cmd_arg list \<Rightarrow> vstate \<Rightarrow> (int \<times> vstate) run" where
  "set_command depth argv st =
     (if length argv \<noteq> 2 \<and> length argv \<noteq> 3 then Th8_WrongNumArgs depth ''set varname ?value?'' st
      else if length argv = 3 then
        andThen (th8CheckSystemVar depth (argv ! 1) st) (\<lambda>(rc, st).
          if rc \<noteq> TH8_OK then Inr (TH8_ERROR, st)
          else andThen (Th8_SetVar depth (arg_name (argv ! 1)) (fst (argv ! 2)) (snd (argv ! 2)) st) (\<lambda>(rc, st).
            if rc \<noteq> TH8_OK then Inr (TH8_ERROR, st) else Th8_GetVar depth (arg_name (argv ! 1)) st))
      else Th8_GetVar depth (arg_name (argv ! 1)) st)"

definition th8GetOrCreateVar :: "nat \<Rightarrow> vname \<Rightarrow> string \<Rightarrow> size_t \<Rightarrow> vstate \<Rightarrow> (int \<times> vstate) run" where
  "th8GetOrCreateVar depth name zDefault nDefault st =
     andThen (Th8_GetVar depth name st) (\<lambda>(rc, st).
       if rc \<noteq> TH8_OK then
         andThen (Th8_SetVar depth name zDefault nDefault st) (\<lambda>(rc, st).
           Inr (TH8_OK, snd (Th8_SetResult (Some zDefault) nDefault st)))
       else Inr (TH8_OK, st))"

definition result_of :: "vstate \<Rightarrow> string \<times> size_t" where
  "result_of st = (case vzResult st of None \<Rightarrow> ([], 0) | Some z \<Rightarrow> (z, vnResult st))"

text \<open>The capacity of a new append buffer: a power of two, at least twice what is needed.\<close>

function append_capacity :: "nat \<Rightarrow> nat \<Rightarrow> nat" where
  "append_capacity nPow2 nWant =
     (if 0 < nPow2 \<and> nPow2 < nWant \<and> nPow2 \<le> (2 ^ 64 - 1) div 2 then append_capacity (nPow2 * 2) nWant else nPow2)"
  by pat_completeness auto
termination append_capacity
  by (relation "measure (\<lambda>(p, w). w - p)") auto

declare append_capacity.simps [simp del]

primrec append_fallback :: "nat \<Rightarrow> vname \<Rightarrow> cmd_arg list \<Rightarrow> vstate \<Rightarrow> (int \<times> vstate) run" where
  "append_fallback depth name [] st = Inr (TH8_OK, st)"
| "append_fallback depth name (a # as) st =
     (case allocs 2 st of
        (False, st) \<Rightarrow> Inr (TH8_ERROR, static_result ''out of memory'' st)
      | (True, st) \<Rightarrow>
          (let (zCur, nCur) = result_of st;
               zNew = bytes_of zCur nCur @ bytes_of (fst a) (snd a);
               nNew = of_nat (length zNew) OR (nCur AND TH8_TAG_BITS) OR (snd a AND TH8_TAG_BITS) in
           andThen (Th8_SetVar depth name zNew nNew st) (\<lambda>(rc, st).
           andThen (Th8_GetVar depth name st) (\<lambda>(rc, st). append_fallback depth name as st))))"

definition append_command :: "nat \<Rightarrow> cmd_arg list \<Rightarrow> vstate \<Rightarrow> (int \<times> vstate) run" where
  "append_command depth argv st =
     (if length argv < 2 then Th8_WrongNumArgs depth ''append varname ?value ...?'' st
      else
        (let name = arg_name (argv ! 1); args = drop 2 argv;
             fallback = (\<lambda>st. andThen (th8GetOrCreateVar depth name [] 0 st) (\<lambda>(rc, st). append_fallback depth name args st)) in
         andThen (if length argv \<ge> 3 then th8CheckSystemVar depth (argv ! 1) st else Inr (TH8_OK, st)) (\<lambda>(rc, st).
           if rc \<noteq> TH8_OK then Inr (TH8_ERROR, st)
           else if length argv = 2 then Th8_GetVar depth name st
           else
             andThen (th8AppendInPlace depth name args st) (\<lambda>(rc, st).
               if rc = TH8_OK then Inr (TH8_OK, st)
               else
                 andThen (Th8_GetVar depth name st) (\<lambda>(rc, st).
                   let (zCur, nCur) = (if rc = TH8_OK then result_of st else ([], 0));
                       nTag = fold (\<lambda>(z, n) t. t OR (n AND TH8_TAG_BITS)) args (nCur AND TH8_TAG_BITS);
                       zNew = bytes_of zCur nCur @ concat (map (\<lambda>(z, n). bytes_of z n) args);
                       nWant = length zNew + 1;
                       nCap = append_capacity 64 (if nWant \<le> (2 ^ 64 - 1) div 2 then nWant * 2 else nWant);
                       nUsed = of_nat (length zNew) OR nTag in
                   case allocs 1 st of
                     (False, st) \<Rightarrow> fallback st
                   | (True, st) \<Rightarrow>
                       andThen (th8SetVarValue depth name (Some (zNew, nUsed, nCap)) st) (\<lambda>(rc, st).
                         if rc \<noteq> TH8_OK then fallback (note_calls [BufferFree nCap] st)
                         else Inr (TH8_OK, snd (Th8_SetResult (Some zNew) nUsed st))))))))"

fun unset_options :: "bool \<Rightarrow> cmd_arg list \<Rightarrow> bool \<times> cmd_arg list" where
  "unset_options b [] = (b, [])"
| "unset_options b (a # as) =
     (if arg_is a ''-nocomplain'' then unset_options True as
      else if arg_is a ''--'' then (b, as)
      else (b, a # as))"

primrec unset_names :: "nat \<Rightarrow> bool \<Rightarrow> cmd_arg list \<Rightarrow> vstate \<Rightarrow> (int \<times> vstate) run" where
  "unset_names depth bNoComplain [] st = Inr (TH8_OK, snd (Th8_SetResult None 0 st))"
| "unset_names depth bNoComplain (a # as) st =
     andThen (th8CheckSystemVar depth a st) (\<lambda>(rc, st).
       if rc \<noteq> TH8_OK then (if bNoComplain then unset_names depth bNoComplain as st else Inr (TH8_ERROR, st))
       else
         andThen (Th8_UnsetVar depth (bytes_of (fst a) (snd a), 0) st) (\<lambda>(rc, st).
           if rc \<noteq> TH8_OK then (if bNoComplain then unset_names depth bNoComplain as st else Inr (rc, st))
           else unset_names depth bNoComplain as st))"

definition unset_command :: "nat \<Rightarrow> cmd_arg list \<Rightarrow> vstate \<Rightarrow> (int \<times> vstate) run" where
  "unset_command depth argv st =
     (let (bNoComplain, names) = unset_options False (tl argv) in unset_names depth bNoComplain names st)"

text \<open>\<open>array unset\<close> of a whole array.\<close>

definition array_unset_whole :: "nat \<Rightarrow> cmd_arg \<Rightarrow> vstate \<Rightarrow> (int \<times> vstate) run" where
  "array_unset_whole depth a st = Th8_UnsetVar depth (arg_name a) st"

primrec global_names :: "nat \<Rightarrow> cmd_arg list \<Rightarrow> vstate \<Rightarrow> (int \<times> vstate) run" where
  "global_names depth [] st = Inr (TH8_OK, snd (Th8_SetResult None 0 st))"
| "global_names depth (a # as) st =
     (case allocs 2 st of
        (False, st) \<Rightarrow> Inr (TH8_ERROR, static_result ''out of memory'' st)
      | (True, st) \<Rightarrow>
          (let zGlobal = (''::'' @ bytes_of (fst a) (snd a), snd a AND TH8_TAG_BITS) in
           andThen (Th8_ExistsVar depth zGlobal st) (\<lambda>(ex, st).
           andThen (if ex then Inr (TH8_OK, st) else Th8_SetVar depth zGlobal [] 0 st) (\<lambda>(rc, st).
           andThen (Th8_LinkVar depth (bytes_of (fst a) (snd a), 0) 1 zGlobal st) (\<lambda>(rc, st).
             global_names depth as st)))))"

definition global_command :: "nat \<Rightarrow> cmd_arg list \<Rightarrow> vstate \<Rightarrow> (int \<times> vstate) run" where
  "global_command depth argv st =
     (if length argv < 2 then Th8_WrongNumArgs depth ''global varname ?varname ...?'' st
      else global_names depth (tl argv) st)"

fun upvar_pairs :: "nat \<Rightarrow> int \<Rightarrow> cmd_arg list \<Rightarrow> vstate \<Rightarrow> (int \<times> vstate) run" where
  "upvar_pairs depth iFrame (other # my # as) st =
     andThen (Th8_LinkVar depth (bytes_of (fst my) (snd my), 0) iFrame (arg_name other) st) (\<lambda>(rc, st).
       if rc \<noteq> TH8_OK then Inr (rc, st) else upvar_pairs depth iFrame as st)"
| "upvar_pairs depth iFrame _ st = Inr (TH8_OK, snd (Th8_SetResult None 0 st))"

text \<open>
  The integer arguments: \<open>Th8_ToInt\<close> with its message (the cache in front of it never changes the
  value, see \<open>to_int_cached\<close>). A syntax error writes \<open>::errorInfo\<close>, an overflow does not.
\<close>

definition to_int :: "nat \<Rightarrow> string \<Rightarrow> vstate \<Rightarrow> (int option \<times> vstate) run" where
  "to_int depth z st =
     (case parse_int z of
        Inr (v, _) \<Rightarrow> Inr (Some v, st)
      | Inl e \<Rightarrow>
          if e = int_too_large then Inr (None, snd (Th8_SetResult (Some int_too_large) TH8_NOLEN st))
          else andThen (errorMessage depth expected_integer (z, 0) st) (\<lambda>(rc, st). Inr (None, st)))"

text \<open>The level of \<open>upvar\<close>: \<open>#N\<close> is absolute, \<open>N\<close> is a number of frames up.\<close>

definition upvar_level :: "nat \<Rightarrow> string \<Rightarrow> vstate \<Rightarrow> (int option \<times> vstate) run" where
  "upvar_level depth z st =
     (let absolute = (z \<noteq> [] \<and> hd z = CHR ''#'') in
      andThen (to_int depth (if absolute then tl z else z) st) (\<lambda>(r, st).
        case r of
          None \<Rightarrow> Inr (None, st)
        | Some i \<Rightarrow> Inr (if i < 0 then None else Some (if absolute then i else - i), st)))"

definition upvar_command :: "nat \<Rightarrow> cmd_arg list \<Rightarrow> vstate \<Rightarrow> (int \<times> vstate) run" where
  "upvar_command depth argv st =
     (if length argv < 4 then Th8_WrongNumArgs depth ''upvar ?level? othervar myvar ?othervar myvar?'' st
      else if length argv mod 2 = 0 then
        (let a = argv ! 1; z = bytes_of (fst a) (snd a) in
         andThen (upvar_level depth z st) (\<lambda>(level, st).
           case level of
             Some iFrame \<Rightarrow> upvar_pairs depth iFrame (drop 2 argv) st
           | None \<Rightarrow>
               (case allocs 3 st of
                  (False, st) \<Rightarrow> Inr (TH8_ERROR, static_result ''out of memory'' st)
                | (True, st) \<Rightarrow>
                    (let zErr = ''bad level '' @ [DQ] @ z @ [DQ] in
                     Inr (TH8_ERROR, snd (Th8_SetResult (Some zErr) (of_nat (length zErr) OR (snd a AND TH8_TAG_BITS)) st))))))
      else upvar_pairs depth (- 1) (drop 1 argv) st)"

section \<open>Increments\<close>

fun int_print_loop :: "nat \<Rightarrow> string \<Rightarrow> string" where
  "int_print_loop u out =
     (let out = char_of (uchar (CHR ''0'') + u mod 10) # out
      in if u div 10 > 0 then int_print_loop (u div 10) out else out)"

declare int_print_loop.simps [simp del]

definition int_text :: "int \<Rightarrow> string" where
  "int_text iVal =
     (let neg = iVal < 0;
          z = int_print_loop (if neg then nat (- (iVal + 1)) + 1 else nat iVal) []
      in if neg then CHR ''-'' # z else z)"

definition Th8_SetResultInt :: "int \<Rightarrow> vstate \<Rightarrow> int \<times> vstate" where
  "Th8_SetResultInt iVal st = Th8_SetResult (Some (int_text iVal)) (of_nat (length (int_text iVal))) st"

definition th8SetVarFromResult :: "nat \<Rightarrow> vname \<Rightarrow> vstate \<Rightarrow> (int \<times> vstate) run" where
  "th8SetVarFromResult depth name st = Th8_SetVar depth name (fst (result_of st)) (snd (result_of st)) st"

text \<open>
  The value that is read back is taken up to its first zero byte. With the overflow check off the sum
  is a C \<open>int\<close> addition, whose overflow has no defined result.
\<close>

definition incr_command :: "nat \<Rightarrow> bool \<Rightarrow> cmd_arg list \<Rightarrow> vstate \<Rightarrow> (int \<times> vstate) run" where
  "incr_command depth bOverflowCheck argv st =
     (if length argv \<noteq> 2 \<and> length argv \<noteq> 3 then Th8_WrongNumArgs depth ''incr varname ?increment?'' st
      else
        (let name = arg_name (argv ! 1) in
         andThen (th8CheckSystemVar depth (argv ! 1) st) (\<lambda>(rc, st).
           if rc \<noteq> TH8_OK then Inr (TH8_ERROR, st)
           else
             andThen (if length argv = 3 then to_int depth (bytes_of (fst (argv ! 2)) (snd (argv ! 2))) st else Inr (Some 1, st)) (\<lambda>(incr, st).
               case incr of
                 None \<Rightarrow> Inr (TH8_ERROR, st)
               | Some iIncr \<Rightarrow>
                   andThen (Th8_GetVar depth name st) (\<lambda>(rc, st).
                   andThen (if rc = TH8_OK then to_int depth (takeWhile (\<lambda>c. c \<noteq> CHR 0x00) (fst (result_of st))) st else Inr (Some 0, st)) (\<lambda>(val, st).
                     case val of
                       None \<Rightarrow> Inr (TH8_ERROR, st)
                     | Some iVal \<Rightarrow>
                         if \<not> (- (2 ^ 31) \<le> iVal + iIncr \<and> iVal + iIncr < 2 ^ 31) then
                           (if bOverflowCheck then Inr (TH8_ERROR, static_result ''integer overflow'' st) else Inl SignedOverflow)
                         else
                           (case Th8_SetResultInt (iVal + iIncr) st of
                              (rc, st) \<Rightarrow>
                                if rc \<noteq> TH8_OK then Inr (TH8_ERROR, st)
                                else andThen (th8SetVarFromResult depth name st) (\<lambda>(rc, st).
                                  Inr (if rc \<noteq> TH8_OK then TH8_ERROR else TH8_OK, st)))))))))"

section \<open>Namespace variables\<close>

text \<open>
  The tail of a qualified name, searched from its end; every 4096 bytes the interpreter's readiness is
  polled. \<open>None\<close> on the left is a failed poll, on the right a name without a separator after the first.
\<close>

fun var_tail :: "(nat \<Rightarrow> bool) \<Rightarrow> string \<Rightarrow> nat \<Rightarrow> string option option" where
  "var_tail ready z p =
     (if p \<le> 2 then Some None
      else if p mod 4096 = 0 \<and> \<not> ready p then None
      else if sep_at z (p - 2) then Some (Some (drop p z))
      else var_tail ready z (p - 1))"

declare var_tail.simps [simp del]

definition Th8_GetCurrentNamespace :: "vstate \<Rightarrow> string" where
  "Th8_GetCurrentNamespace st = (if pCurrentNs st = [] then ''::'' else concat (map (\<lambda>c. ''::'' @ c) (pCurrentNs st)))"

text \<open>
  One name of \<open>variable\<close>. The test for an absolute name and the search for its tail use the length as it
  comes, with its tag bits: the search starts that far beyond the name.
\<close>

definition variable_link :: "nat \<Rightarrow> (nat \<Rightarrow> bool) \<Rightarrow> cmd_arg \<Rightarrow> bool \<Rightarrow> vname \<Rightarrow> vstate \<Rightarrow> (int \<times> vstate) run" where
  "variable_link depth ready a qualified name st =
     (let z = fst a;
          link = (\<lambda>zLocal st. if zLocal = [] then Inr (TH8_OK, st)
            else andThen (Th8_LinkVar depth (zLocal, 0) 0 name st) (\<lambda>(rc, st). Inr (TH8_OK, st))) in
      if \<not> qualified \<and> unat (snd a) > 2 \<and> take 2 z = ''::'' then
        (if unat (snd a) > length z then Inl OverRead
         else
           (case var_tail ready z (unat (snd a)) of
              None \<Rightarrow> Inr (TH8_ERROR, st)
            | Some None \<Rightarrow> link (bytes_of z (snd a)) st
            | Some (Some zLocal) \<Rightarrow> link zLocal st))
      else link (bytes_of z (snd a)) st)"

fun variable_names :: "nat \<Rightarrow> (nat \<Rightarrow> bool) \<Rightarrow> bool \<Rightarrow> cmd_arg list \<Rightarrow> vstate \<Rightarrow> (int \<times> vstate) run" where
  "variable_names depth ready inProc [] st = Inr (TH8_OK, snd (Th8_SetResult None 0 st))"
| "variable_names depth ready inProc (a # as) st =
     (let qualify = \<not> (unat (snd a) > 2 \<and> take 2 (fst a) = ''::'') \<and> pCurrentNs st \<noteq> [];
          name = (if qualify then (Th8_GetCurrentNamespace st @ ''::'' @ bytes_of (fst a) (snd a), snd a AND TH8_TAG_BITS) else arg_name a) in
      case (if qualify then allocs 3 st else (True, st)) of
        (False, st) \<Rightarrow> Inr (TH8_ERROR, static_result ''out of memory'' st)
      | (True, st) \<Rightarrow>
          andThen (case as of [] \<Rightarrow> Inr (TH8_OK, st) | v # _ \<Rightarrow> Th8_SetVar depth name (fst v) (snd v) st) (\<lambda>(rc, st).
          andThen (if inProc then variable_link depth ready a qualify name st else Inr (TH8_OK, st)) (\<lambda>(rc, st).
            if rc \<noteq> TH8_OK then Inr (TH8_ERROR, st) else variable_names depth ready inProc (tl as) st)))"

text \<open>\<open>nLevel\<close> is the number of procedure frames on the chain of callers.\<close>

definition variable_command :: "nat \<Rightarrow> (nat \<Rightarrow> bool) \<Rightarrow> int \<Rightarrow> cmd_arg list \<Rightarrow> vstate \<Rightarrow> (int \<times> vstate) run" where
  "variable_command depth ready nLevel argv st =
     (if length argv < 2 then Th8_WrongNumArgs depth ''variable varname ?value? ...'' st
      else variable_names depth ready (nLevel > 0 \<or> pCurrentNs st \<noteq> []) (tl argv) st)"

section \<open>Lookup of an existing name\<close>

lemma ns_walk_existing: "ns_walk False p z st = (Some q, s) \<Longrightarrow> ns_walk c p z st = (Some q, st)"
proof (induction "False" p z st rule: ns_walk.induct)
  case (1 p z st)
  then show ?case using ns_walk_unfold [of False p z st] ns_walk_unfold [of c p z st] by (auto split: if_splits)
qed

lemma find_ns_existing:
  "fst (th8FindNamespaceEx (''::'' @ z) False st) = Some q \<Longrightarrow> th8FindNamespaceEx (''::'' @ z) c st = (Some q, st)"
  by (auto simp: th8FindNamespaceEx_def split: if_splits prod.splits option.splits dest!: ns_walk_existing [where c = c])

lemma find_or_create_existing: "entry_of pl k st = Some a \<Longrightarrow> find_or_create pl k c st = Inr (Some a, st)"
  by (auto simp: entry_of_def find_or_create_def split: sum.splits option.splits)

lemma find_outer_existing:
  assumes "ram st = []" "outer_table z g st = Some (pl, k)" "entry_of pl k st = Some a"
  shows "find_outer z g c st = Inr (Some a, st)"
proof (cases "g \<and> has_sep z")
  case True
  obtain ns tl where sp: "th8SplitQualName z = (ns, tl)" by fastforce
  with True assms(2) obtain p where "fst (th8FindNamespaceEx (''::'' @ (case ns of None \<Rightarrow> [] | Some z \<Rightarrow> z)) False st) = Some p" "pl = NsVars p" "k = tl"
    by (auto simp: outer_table_def)
  with find_ns_existing [OF this(1), of c] True sp assms(1,3) show ?thesis by (simp add: find_outer_def Let_def find_or_create_existing)
next
  case False
  then have "pl = FrameVars (frame_of g st)" "k = z" using assms(2) outer_table_frame [OF False] by auto
  with False assms(3) show ?thesis by (auto simp: find_outer_def find_or_create_existing)
qed

text \<open>A creating lookup of an existing name changes at most the epoch of the array that holds it.\<close>

lemma find_existing:
  assumes ok: "vars_ok st" and m: "ram st = []" and r: "resolve z st = Some a"
  shows "\<exists>s. th8FindValue sv z c st = Inr (Some a, s) \<and> same_names st s \<and> cells s a = cells st a \<and> ram s = [] \<and>
    vzResult s = vzResult st \<and> vnResult s = vnResult st"
proof -
  obtain o' i g where an: "th8AnalyzeVarName z = (o', i, g)" by (cases "th8AnalyzeVarName z") auto
  with r obtain pl k b where o': "outer_table o' g st = Some (pl, k)" "entry_of pl k st = Some b"
      "(case i of None \<Rightarrow> Some b | Some j \<Rightarrow> entry_of (Elements b) j st) = Some a"
    by (auto simp: resolve_def split: option.splits prod.splits)
  note f = find_outer_existing [OF m o'(1,2), of c]
  show ?thesis
  proof (cases i)
    case None
    then show ?thesis using f an o'(3) m by (simp add: th8FindValue_def same_names_def)
  next
    case (Some j)
    then have e: "entry_of (Elements b) j st = Some a" using o'(3) by simp
    then obtain v t where v: "cells st b = Some v" "pHash v = Some t" "map_of t j = Some (Some a)"
      by (auto simp: entry_of_def deref_def split: option.splits)
    have "b < a" using vars_inv_cell [OF ok v(1)] v(2,3) by (auto simp: cell_ok_def elems_def dest: map_of_SomeD)
    then show ?thesis using f an Some v find_or_create_existing [OF e, of c] m
      by (auto simp: th8FindValue_def find_element_def deref_def Let_def bump_epoch_def same_names_def put_cell_def)
  qed
qed

section \<open>Appending\<close>

definition or_tags :: "cmd_arg list \<Rightarrow> size_t \<Rightarrow> size_t" where
  "or_tags args t = fold (\<lambda>(z, n) t. t OR (n AND TH8_TAG_BITS)) args t"

definition whole_args :: "cmd_arg list \<Rightarrow> bool" where
  "whole_args args \<longleftrightarrow> (\<forall>(z, n) \<in> set args. unat (TH8_LEN n) = length z)"

lemma or_tags_bits: "t AND TH8_TAG_BITS = t \<Longrightarrow> or_tags args t AND TH8_TAG_BITS = or_tags args t"
  by (induction args arbitrary: t) (auto simp: or_tags_def bit.conj_disj_distrib2 and.assoc)

lemma whole_args_bytes: "whole_args args \<Longrightarrow> map (\<lambda>(z, n). bytes_of z n) args = map fst args"
  by (auto simp: whole_args_def bytes_of_def)

lemma whole_args_length: "whole_args args \<Longrightarrow> sum_list (map (\<lambda>(z, n). unat (TH8_LEN n)) args) = length (concat (map fst args))"
  by (induction args) (auto simp: whole_args_def)

text \<open>The value that both paths of the command leave: a scalar with the bytes and the tags, also in the result.\<close>

lemma written_value:
  assumes ok: "vars_ok st'" "active st'" and m: "ram st' = []" and r: "resolve (fst name) st' = Some a"
    and u: "cells st' a = Some u" "vzData u = Some y" "nData u = of_nat (length y) OR t" "length y < 2 ^ 28" "t AND TH8_TAG_BITS = t"
  shows "Th8_GetVar depth name (snd (Th8_SetResult (Some y) (of_nat (length y) OR t) st')) =
      Inr (TH8_OK, snd (Th8_SetResult (Some y) (of_nat (length y) OR t) st'))"
    and "vzResult (snd (Th8_SetResult (Some y) (of_nat (length y) OR t) st')) = Some y"
    and "vnResult (snd (Th8_SetResult (Some y) (of_nat (length y) OR t) st')) = of_nat (length y) OR t"
proof -
  have len: "TH8_LEN (of_nat (length y) OR t) = of_nat (length y)" "(of_nat (length y) OR t) AND TH8_TAG_BITS = t"
    using tagged_parts [OF u(4,5)] by (simp_all add: tagged_def)
  have "bytes_of y (of_nat (length y) OR t) = y" using len(1) u(4) by (simp add: bytes_of_def unat_of_nat_small)
  with len tagged_not_NOLEN [OF u(4,5)] m have e: "snd (Th8_SetResult (Some y) (of_nat (length y) OR t) st') =
      st'\<lparr>vzResult := Some y, vnResult := of_nat (length y) OR t\<rparr>" by (simp add: Th8_SetResult_def Let_def)
  let ?s = "st'\<lparr>vzResult := Some y, vnResult := of_nat (length y) OR t\<rparr>"
  have sn: "same_names st' ?s" by (simp add: same_names_def)
  have "Th8_GetVar depth name ?s = Inr (TH8_OK, ?s\<lparr>vzResult := Some y, vnResult := of_nat (length y) OR t\<rparr>)"
    by (rule get_scalar [OF _ _ _ _ _ u(2,4,3,5)]) (use ok m r u(1) same_names_resolve [OF sn] in \<open>auto simp: active_def\<close>)
  then show "Th8_GetVar depth name (snd (Th8_SetResult (Some y) (of_nat (length y) OR t) st')) =
      Inr (TH8_OK, snd (Th8_SetResult (Some y) (of_nat (length y) OR t) st'))" by (simp add: e)
  show "vzResult (snd (Th8_SetResult (Some y) (of_nat (length y) OR t) st')) = Some y" by (simp add: e)
  show "vnResult (snd (Th8_SetResult (Some y) (of_nat (length y) OR t) st')) = of_nat (length y) OR t" by (simp add: e)
qed

text \<open>A scalar whose value and tags are \<open>z\<close> and \<open>t\<close>.\<close>

definition holds_scalar :: "string \<Rightarrow> vaddr \<Rightarrow> string \<Rightarrow> size_t \<Rightarrow> vstate \<Rightarrow> bool" where
  "holds_scalar name a z t st \<longleftrightarrow> resolve name st = Some a \<and> t AND TH8_TAG_BITS = t \<and>
     (\<exists>u. cells st a = Some u \<and> vzData u = Some z \<and> nData u = of_nat (length z) OR t)"

lemma put_scalar_held:
  assumes st: "vars_ok st" "active st" "ram st = []" "resolve (fst name) st = Some a" "cells st a = Some v" "pHash v = None"
    and y: "length y < 2 ^ 28" "t AND TH8_TAG_BITS = t" "vzData w = Some y" "nData w = of_nat (length y) OR t" "pHash w = None" "nRef w = nRef v"
  shows "\<exists>s. snd (Th8_SetResult (Some y) (of_nat (length y) OR t) (note_calls cs (put_cell a w st))) = s \<and>
    Th8_GetVar depth name s = Inr (TH8_OK, s) \<and> vzResult s = Some y \<and> vnResult s = of_nat (length y) OR t"
proof -
  let ?p = "note_calls cs (put_cell a w st)"
  have sn: "same_names st ?p" using st(5,6) y(5) by (simp add: same_names_def put_cell_def note_calls_def)
  have "vars_ok ?p" using put_scalar_ok [OF st(1,5,6), of w] y by auto
  moreover have "active ?p" using st(2) by (simp add: active_def note_calls_def put_cell_def)
  moreover have "ram ?p = []" using st(3) by (simp add: note_calls_def put_cell_def)
  moreover have "resolve (fst name) ?p = Some a" using same_names_resolve [OF sn] st(4) by simp
  moreover have "cells ?p a = Some w" by (simp add: note_calls_def put_cell_def)
  ultimately show ?thesis using written_value [of ?p name a w y t] y by blast
qed

lemma append_in_place:
  assumes st: "vars_ok st" "active st" "ram st = []" and h: "holds_scalar (fst name) a z t st"
    and args: "whole_args args" and y: "y = z @ concat (map fst args)" "length y < 2 ^ 28"
  shows "th8AppendInPlace depth name args st = Inr (TH8_ERROR, st) \<or>
    (\<exists>s. th8AppendInPlace depth name args st = Inr (TH8_OK, s) \<and> Th8_GetVar depth' name s = Inr (TH8_OK, s) \<and>
       vzResult s = Some y \<and> vnResult s = of_nat (length y) OR or_tags args t)"
proof -
  from h obtain u where r: "resolve (fst name) st = Some a" "t AND TH8_TAG_BITS = t"
    and u: "cells st a = Some u" "vzData u = Some z" "nData u = of_nat (length z) OR t" unfolding holds_scalar_def by blast
  have p: "pHash u = None" using vars_inv_cell [OF st(1) u(1)] u(2) by (auto simp: cell_ok_def)
  have z: "length z < 2 ^ 28" using y by simp
  have len: "TH8_LEN (nData u) = of_nat (length z)" "nData u AND TH8_TAG_BITS = t"
    using tagged_parts [OF z r(2)] u(3) by (simp_all add: tagged_def)
  let ?w = "u\<lparr>vzData := Some y, nData := of_nat (length y) OR or_tags args t\<rparr>"
  let ?s = "snd (Th8_SetResult (Some y) (of_nat (length y) OR or_tags args t) (put_cell a ?w st))"
  have n: "length z + length (concat (map fst args)) = length y" by (simp add: y)
  have "append_cell a u args st = (if \<not> bBorrowed u \<or> nAlloc u = 0 \<or> length y \<ge> 2 ^ 64 \<or> length y \<ge> nAlloc u then Inr (TH8_ERROR, st) else Inr (TH8_OK, ?s))"
    using len z u(2) n
    by (simp add: append_cell_def Let_def unat_of_nat_small whole_args_length [OF args] whole_args_bytes [OF args] or_tags_def [symmetric] y(1) del: length_append length_concat)
  then have a: "th8AppendInPlace depth name args st = (if \<not> bBorrowed u \<or> nAlloc u = 0 \<or> length y \<ge> 2 ^ 64 \<or> length y \<ge> nAlloc u then Inr (TH8_ERROR, st) else Inr (TH8_OK, ?s))"
    using r(1) u(1) by (simp add: th8AppendInPlace_def find_resolve [OF st] deref_def)
  have "\<exists>s. ?s = s \<and> Th8_GetVar depth' name s = Inr (TH8_OK, s) \<and> vzResult s = Some y \<and> vnResult s = of_nat (length y) OR or_tags args t"
    using put_scalar_held [OF st r(1) u(1) p y(2) or_tags_bits [OF r(2), of args], of ?w "[]"] p by (simp add: note_calls_def)
  with a show ?thesis by auto
qed

lemma append_new_buffer:
  assumes st: "vars_ok st" "active st" "ram st = []" and h: "holds_scalar (fst name) a z t st"
    and y: "length y < 2 ^ 28" "t' AND TH8_TAG_BITS = t'"
  shows "\<exists>s. andThen (th8SetVarValue depth name (Some (y, of_nat (length y) OR t', nCap)) st) (\<lambda>(rc, st).
      if rc \<noteq> TH8_OK then fallback st else Inr (TH8_OK, snd (Th8_SetResult (Some y) (of_nat (length y) OR t') st))) = Inr (TH8_OK, s) \<and>
    Th8_GetVar depth' name s = Inr (TH8_OK, s) \<and> vzResult s = Some y \<and> vnResult s = of_nat (length y) OR t'"
proof -
  from h obtain u where r: "resolve (fst name) st = Some a"
    and u: "cells st a = Some u" "vzData u = Some z" unfolding holds_scalar_def by blast
  have p: "pHash u = None" using vars_inv_cell [OF st(1) u(1)] u(2) by (auto simp: cell_ok_def)
  have len: "TH8_LEN (of_nat (length y) OR t') = of_nat (length y)" "(of_nat (length y) OR t') AND TH8_TAG_BITS = t'"
    using tagged_parts [OF y] by (simp_all add: tagged_def)
  then have b: "bytes_of y (of_nat (length y) OR t') = y" using y(1) by (simp add: bytes_of_def unat_of_nat_small)
  from find_existing [OF st(1,3) r, of "Th8_SetVar depth" True] obtain s where
    f: "th8FindValue (Th8_SetVar depth) (fst name) True st = Inr (Some a, s)" "same_names st s" "cells s a = cells st a" "ram s = []" by blast
  have s: "vars_ok s" "active s" using setv.find_ok [OF st(1,2), of depth "fst name" True] f(1) by simp_all
  let ?w = "u\<lparr>vzData := Some y, nData := of_nat (length y) OR t', nAlloc := nCap, bBorrowed := True, nWait := nWait u + 1\<rparr>"
  have v: "th8SetVarValue depth name (Some (y, of_nat (length y) OR t', nCap)) st =
      Inr (TH8_OK, note_calls (release_data u @ [SignalAllStates]) (put_cell a ?w s))"
    using f(1,3) u(1) p b len by (simp add: th8SetVarValue_def deref_def)
  have "resolve (fst name) s = Some a" using same_names_resolve [OF f(2)] r by simp
  from put_scalar_held [OF s f(4) this, of u y t' ?w "release_data u @ [SignalAllStates]"] f(3) u(1) p y
  show ?thesis unfolding v by simp
qed

lemma append_command_new:
  assumes args: "args \<noteq> []" and sys: "Th8_IsSystemVar nm st = Inr False" and f: "th8AppendInPlace depth (arg_name nm) args st = Inr (TH8_ERROR, st)"
    and g: "Th8_GetVar depth (arg_name nm) st = Inr (TH8_OK, s)" "result_of s = (z, n)" "ram s = []"
  shows "\<exists>nCap fallback. append_command depth (cmd # nm # args) st =
    andThen (th8SetVarValue depth (arg_name nm) (Some (bytes_of z n @ concat (map (\<lambda>(z, n). bytes_of z n) args),
       of_nat (length (bytes_of z n @ concat (map (\<lambda>(z, n). bytes_of z n) args))) OR or_tags args (n AND TH8_TAG_BITS), nCap)) s) (\<lambda>(rc, st).
         if rc \<noteq> TH8_OK then fallback st
         else Inr (TH8_OK, snd (Th8_SetResult (Some (bytes_of z n @ concat (map (\<lambda>(z, n). bytes_of z n) args)))
            (of_nat (length (bytes_of z n @ concat (map (\<lambda>(z, n). bytes_of z n) args))) OR or_tags args (n AND TH8_TAG_BITS)) st)))"
proof -
  have l: "\<not> length (cmd # nm # args) < 2" "3 \<le> length (cmd # nm # args)" "length (cmd # nm # args) \<noteq> 2" "drop 2 (cmd # nm # args) = args"
      "(cmd # nm # args) ! 1 = nm" using args by (cases args; simp)+
  let ?y = "bytes_of z n @ concat (map (\<lambda>(z, n). bytes_of z n) args)"
  let ?cap = "append_capacity 64 (if length ?y + 1 \<le> (2 ^ 64 - 1) div 2 then (length ?y + 1) * 2 else length ?y + 1)"
  let ?fb = "\<lambda>st. andThen (th8GetOrCreateVar depth (arg_name nm) [] 0 (note_calls [BufferFree ?cap] st)) (\<lambda>(rc, st). append_fallback depth (arg_name nm) args st)"
  show ?thesis
    by (rule exI [of _ ?cap], rule exI [of _ ?fb], simp only: append_command_def l th8CheckSystemVar_def sys f g Let_def andThen.simps prod.case if_True if_False
      simp_thms one_neq_zero or_tags_def allocs_Nil bool.case)
qed

text \<open>
  C38: Append concatenates. On a variable with a scalar value, by whatever name, \<open>append\<close> succeeds and
  leaves the old value followed by all the arguments, tainted and sensitive as soon as one of the
  parts is, both in the variable and in the result. This holds of the extension of the buffer in
  place and of the new buffer alike, and neither spends C stack on an error message.
\<close>

theorem append_concatenates:
  assumes ok: "vars_ok st" "active st" "ram st = []" and sys: "Th8_IsSystemVar nm st = Inr False"
    and h: "holds_scalar (fst (arg_name nm)) a z t st" and args: "args \<noteq> []" "whole_args args"
    and y: "y = z @ concat (map fst args)" "length y < 2 ^ 28"
  shows "\<exists>s. append_command depth (cmd # nm # args) st = Inr (TH8_OK, s) \<and>
    Th8_GetVar depth' (arg_name nm) s = Inr (TH8_OK, s) \<and> vzResult s = Some y \<and> vnResult s = of_nat (length y) OR or_tags args t"
proof -
  from append_in_place [OF ok h args(2) y, of depth depth']
  consider (old) s where "th8AppendInPlace depth (arg_name nm) args st = Inr (TH8_OK, s)" "Th8_GetVar depth' (arg_name nm) s = Inr (TH8_OK, s)"
       "vzResult s = Some y" "vnResult s = of_nat (length y) OR or_tags args t"
    | (new) "th8AppendInPlace depth (arg_name nm) args st = Inr (TH8_ERROR, st)" by blast
  then show ?thesis
  proof cases
    case old
    with args(1) sys show ?thesis by (cases args) (simp_all add: append_command_def th8CheckSystemVar_def Let_def)
  next
    case new
    from h obtain u where r: "resolve (fst (arg_name nm)) st = Some a" "t AND TH8_TAG_BITS = t"
      and u: "cells st a = Some u" "vzData u = Some z" "nData u = of_nat (length z) OR t" unfolding holds_scalar_def by blast
    have z: "length z < 2 ^ 28" using y by simp
    note g = get_scalar [OF ok r(1) u(1,2) z u(3) r(2), of depth]
    have len: "TH8_LEN (of_nat (length z) OR t) = of_nat (length z)" "(of_nat (length z) OR t) AND TH8_TAG_BITS = t"
      using tagged_parts [OF z r(2)] by (simp_all add: tagged_def)
    then have b: "bytes_of z (of_nat (length z) OR t) = z" using z by (simp add: bytes_of_def unat_of_nat_small)
    let ?s = "st\<lparr>vzResult := Some z, vnResult := of_nat (length z) OR t\<rparr>"
    have sn: "same_names st ?s" by (simp add: same_names_def)
    have s: "vars_ok ?s" "active ?s" "ram ?s = []" using ok by (simp_all add: active_def)
    have hs: "holds_scalar (fst (arg_name nm)) a z t ?s" using h same_names_resolve [OF sn] by (simp add: holds_scalar_def)
    have "result_of ?s = (z, of_nat (length z) OR t)" by (simp add: result_of_def)
    from append_command_new [OF args(1) sys new g this s(3), of cmd] obtain nCap fb where
      e: "append_command depth (cmd # nm # args) st =
        andThen (th8SetVarValue depth (arg_name nm) (Some (y, of_nat (length y) OR or_tags args t, nCap)) ?s) (\<lambda>(rc, st).
          if rc \<noteq> TH8_OK then fb st else Inr (TH8_OK, snd (Th8_SetResult (Some y) (of_nat (length y) OR or_tags args t) st)))"
      by (simp only: b len(2) whole_args_bytes [OF args(2)] y(1) [symmetric]) blast
    show ?thesis unfolding e by (rule append_new_buffer [OF s hs y(2) or_tags_bits [OF r(2)]])
  qed
qed

theorem append_concatenates_witness:
  "\<exists>st s. var_reach 2 st \<and> append_command 2 [(''append'', 6), (''a(k)'', 4), (''cd'', 0x10000002), (''e'', 1)] st = Inr (TH8_OK, s) \<and>
     vzResult s = Some ''abcde'' \<and> vnResult s = 0x10000005"
proof -
  let ?r = "exec_all 2 [SetOp (''a(k)'', 0) ''ab'' 2] (vinit [])"
  let ?args = "[(''cd'', 0x10000002), (''e'', 1)] :: cmd_arg list"
  have "case ?r of Inl _ \<Rightarrow> False | Inr s \<Rightarrow> ram s = [] \<and> Th8_IsSystemVar (''a(k)'', 4) s = Inr False \<and> resolve ''a(k)'' s = Some 1 \<and>
      (case cells s 1 of None \<Rightarrow> False | Some u \<Rightarrow> vzData u = Some ''ab'' \<and> nData u = 2)" by code_simp
  then obtain st where st: "?r = Inr st" "ram st = []" "Th8_IsSystemVar (''a(k)'', 4) st = Inr False" "resolve ''a(k)'' st = Some 1"
      "\<exists>u. cells st 1 = Some u \<and> vzData u = Some ''ab'' \<and> nData u = 2" by (auto split: sum.splits option.splits)
  from exec_all_reach [OF st(1) var_reach.init] have r: "var_reach 2 st" .
  then have ok: "vars_ok st" "active st" using var_reach_ok by blast+
  have n: "fst (arg_name (''a(k)'', 4)) = ''a(k)''" by (simp add: arg_name_def bytes_of_def TH8_LEN_def)
  have h: "holds_scalar (fst (arg_name (''a(k)'', 4))) 1 ''ab'' 0 st" using st(4,5) n by (simp add: holds_scalar_def)
  have w: "whole_args ?args" "or_tags ?args 0 = 0x10000000" by (simp_all add: whole_args_def or_tags_def TH8_LEN_def)
  from append_concatenates [OF ok st(2,3) h _ w(1) refl, where depth = 2 and depth' = 2 and cmd = "(''append'', 6)"] w(2)
  have "\<exists>s. append_command 2 [(''append'', 6), (''a(k)'', 4), (''cd'', 0x10000002), (''e'', 1)] st = Inr (TH8_OK, s) \<and>
     vzResult s = Some ''abcde'' \<and> vnResult s = 0x10000005" by auto
  with r show ?thesis by blast
qed

section \<open>Incrementing\<close>

lemma int_print_loop_dec: "int_print_loop u out = dec_string u @ out"
proof (induction u out rule: int_print_loop.induct)
  case (1 u out)
  show ?case
  proof (cases "u < 10")
    case True
    then show ?thesis by (subst int_print_loop.simps) (simp add: dec_string.simps [of u])
  next
    case False
    then have "u div 10 > 0" by simp
    with 1 [OF refl this] False show ?thesis by (subst int_print_loop.simps) (simp add: dec_string.simps [of u])
  qed
qed

lemma int_text_dec: "int_text v = (if v < 0 then [CHR ''-''] else []) @ dec_string (nat \<bar>v\<bar>)"
proof -
  have "nat (- (v + 1)) + 1 = nat \<bar>v\<bar>" if "v < 0" using that by simp
  then show ?thesis by (simp add: int_text_def Let_def int_print_loop_dec)
qed

lemma int_text_length: "\<bar>v\<bar> \<le> 2 ^ 31 \<Longrightarrow> length (int_text v) \<le> 11"
proof -
  assume "\<bar>v\<bar> \<le> 2 ^ 31"
  then have "length (dec_string (nat \<bar>v\<bar>)) \<le> Suc 9" by (intro dec_string_length) simp
  then show ?thesis by (cases "v < 0") (simp_all add: int_text_dec)
qed

lemma parse_int_text: "parse_int (int_text v) = Inr (v, True) \<longleftrightarrow> \<bar>v\<bar> < 2 ^ 31"
proof -
  define n where "n = nat \<bar>v\<bar>"
  have ne: "dec_string n \<noteq> []" using dec_string_hd [of n] by auto
  have "\<exists>d. wide_digit (hd (dec_string n)) = Some d \<and> d < 10" using dec_string_digits [of n] ne by (simp add: digits_ok_def)
  then have "48 \<le> uchar (hd (dec_string n))" using wide_digit_dec by blast
  then have "hd (dec_string n) \<noteq> CHR ''-''" "hd (dec_string n) \<noteq> CHR ''+''" by (auto simp: char_eq_uchar)
  with ne have "sign_of (int_text v) = (v < 0, dec_string n)" by (simp add: int_text_dec sign_of_def n_def [symmetric] del: abs_of_nonneg)
  with ne dec_string_digits [of n] dec_string_value [of n] n_def show ?thesis by (subst parse_int_exact) auto
qed

text \<open>A write to a name that has a scalar, with memory and one level of C stack.\<close>

lemma set_scalar_held:
  assumes st: "vars_ok st" "active st" "ram st = []" and h: "holds_scalar (fst name) a z t st"
    and y: "length y < 2 ^ 28" "t' AND TH8_TAG_BITS = t'" and r: "vzResult st = Some y" "vnResult st = of_nat (length y) OR t'"
  shows "\<exists>s. Th8_SetVar (Suc depth) name y (of_nat (length y) OR t') st = Inr (TH8_OK, s) \<and>
    Th8_GetVar depth' name s = Inr (TH8_OK, s) \<and> vzResult s = Some y \<and> vnResult s = of_nat (length y) OR t'"
proof -
  from h obtain u where rs: "resolve (fst name) st = Some a" and u: "cells st a = Some u" "vzData u = Some z" unfolding holds_scalar_def by blast
  have p: "pHash u = None" using vars_inv_cell [OF st(1) u(1)] u(2) by (auto simp: cell_ok_def)
  have len: "TH8_LEN (of_nat (length y) OR t') = of_nat (length y)" "(of_nat (length y) OR t') AND TH8_TAG_BITS = t'"
    using tagged_parts [OF y] by (simp_all add: tagged_def)
  then have b: "bytes_of y (of_nat (length y) OR t') = y" using y(1) by (simp add: bytes_of_def unat_of_nat_small)
  from find_existing [OF st(1,3) rs, of "Th8_SetVar depth" True] obtain s0 where
    f: "th8FindValue (Th8_SetVar depth) (fst name) True st = Inr (Some a, s0)" "same_names st s0" "cells s0 a = cells st a" "ram s0 = []"
    "vzResult s0 = vzResult st" "vnResult s0 = vnResult st" by blast
  let ?s = "snd (write_scalar name a u y t' s0)"
  have "fst (write_scalar name a u y t' s0) = TH8_OK" using f(4) by (simp add: write_scalar_def Let_def note_calls_def)
  then have w: "write_scalar name a u y t' s0 = (TH8_OK, ?s)" by (metis prod.collapse)
  with f u p b len tagged_not_NOLEN [OF y] have set: "Th8_SetVar (Suc depth) name y (of_nat (length y) OR t') st = Inr (TH8_OK, ?s)"
    by (simp add: deref_def)
  have s: "vars_ok ?s" "active ?s" using setv.setter_ok [OF st(1,2), of "Suc depth" name y "of_nat (length y) OR t'"] set by simp_all
  from write_scalar_inv [OF w] f(3) u(1) p obtain c where c: "same_names s0 ?s" "set (ram ?s) \<subseteq> set (ram s0)" "cells ?s a = Some c"
    "vzData c = Some y" "nData c = of_nat (length y) OR t'" by auto
  have "resolve (fst name) ?s = Some a" using same_names_resolve [OF c(1)] same_names_resolve [OF f(2)] rs by simp
  with get_scalar [OF s _ this c(3,4) y(1) c(5) y(2), of depth'] c(2) f(4)
  have g: "Th8_GetVar depth' name ?s = Inr (TH8_OK, ?s\<lparr>vzResult := Some y, vnResult := of_nat (length y) OR t'\<rparr>)" by simp
  have "vzResult ?s = vzResult st" "vnResult ?s = vnResult st" using f(4,5,6) by (simp_all add: write_scalar_def Let_def note_calls_def put_cell_def)
  with r have "vzResult ?s = Some y" "vnResult ?s = of_nat (length y) OR t'" by simp_all
  moreover from this have "?s\<lparr>vzResult := Some y, vnResult := of_nat (length y) OR t'\<rparr> = ?s" by simp
  ultimately show ?thesis using set g by auto
qed

fun increment :: "cmd_arg list \<Rightarrow> int option" where
  "increment [] = Some 1"
| "increment [k] = (case parse_int (bytes_of (fst k) (snd k)) of Inr (i, _) \<Rightarrow> Some i | Inl _ \<Rightarrow> None)"
| "increment _ = None"

lemma increment_arg:
  assumes "increment rest = Some i"
  shows "length (cmd # nm # rest) = 2 \<or> length (cmd # nm # rest) = 3"
    and "(if length (cmd # nm # rest) = 3 then to_int depth (bytes_of (fst ((cmd # nm # rest) ! 2)) (snd ((cmd # nm # rest) ! 2))) st
      else Inr (Some 1, st)) = Inr (Some i, st)"
  using assms by (cases rest rule: increment.cases; auto simp: to_int_def split: sum.splits)+

text \<open>
  C39: Increments. On a variable with an integer value (no zero byte in it), by whatever name, \<open>incr\<close>
  adds the increment, one by default, and leaves the decimal sum in the variable and in the result when
  the sum fits a 32-bit integer; otherwise, with the overflow check on, it reports the overflow and
  changes nothing else. The sum can be incremented again unless it is the least 32-bit integer,
  which the parser of integers refuses.
\<close>

theorem incr_adds:
  assumes ok: "vars_ok st" "active st" "ram st = []" and sys: "Th8_IsSystemVar nm st = Inr False"
    and h: "holds_scalar (fst (arg_name nm)) a z t st" and z: "length z < 2 ^ 28" "CHR 0x00 \<notin> set z" "parse_int z = Inr (v, w)"
    and i: "increment rest = Some i"
  shows "if - (2 ^ 31) \<le> v + i \<and> v + i < 2 ^ 31
    then (\<exists>s. incr_command (Suc depth) check (cmd # nm # rest) st = Inr (TH8_OK, s) \<and> Th8_GetVar depth' (arg_name nm) s = Inr (TH8_OK, s) \<and>
            vzResult s = Some (int_text (v + i)) \<and> (parse_int (int_text (v + i)) = Inr (v + i, True) \<longleftrightarrow> v + i \<noteq> - (2 ^ 31)))
    else incr_command (Suc depth) True (cmd # nm # rest) st = Inr (TH8_ERROR, static_result ''integer overflow'' (st\<lparr>vzResult := Some z, vnResult := of_nat (length z) OR t\<rparr>))"
proof -
  from h obtain u where r: "resolve (fst (arg_name nm)) st = Some a" "t AND TH8_TAG_BITS = t"
    and u: "cells st a = Some u" "vzData u = Some z" "nData u = of_nat (length z) OR t" unfolding holds_scalar_def by blast
  note g = get_scalar [OF ok r(1) u(1,2) z(1) u(3) r(2), of "Suc depth"]
  let ?s = "st\<lparr>vzResult := Some z, vnResult := of_nat (length z) OR t\<rparr>" and ?y = "int_text (v + i)"
  let ?r = "st\<lparr>vzResult := Some ?y, vnResult := of_nat (length ?y)\<rparr>"
  have tw: "takeWhile (\<lambda>c. c \<noteq> CHR 0x00) (fst (result_of ?s)) = z" using z(2) by (auto simp: result_of_def takeWhile_eq_all_conv)
  have v: "to_int (Suc depth) z ?s = Inr (Some v, ?s)" using z(3) by (simp add: to_int_def)
  have l: "(length (cmd # nm # rest) \<noteq> 2 \<and> length (cmd # nm # rest) \<noteq> 3) = False" using increment_arg(1) [OF i, of cmd nm] by blast
  have e: "incr_command (Suc depth) c (cmd # nm # rest) st =
      (if \<not> (- (2 ^ 31) \<le> v + i \<and> v + i < 2 ^ 31) then
         (if c then Inr (TH8_ERROR, static_result ''integer overflow'' ?s) else Inl SignedOverflow)
       else case Th8_SetResultInt (v + i) ?s of (rc, st) \<Rightarrow>
         if rc \<noteq> TH8_OK then Inr (TH8_ERROR, st)
         else andThen (th8SetVarFromResult (Suc depth) (arg_name nm) st) (\<lambda>(rc, st). Inr (if rc \<noteq> TH8_OK then TH8_ERROR else TH8_OK, st)))" for c
    by (simp only: incr_command_def l increment_arg(2) [OF i] th8CheckSystemVar_def sys g tw v Let_def andThen.simps prod.case option.case
      if_True if_False simp_thms nth_Cons_0 nth_Cons_Suc One_nat_def)
  show ?thesis
  proof (cases "- (2 ^ 31) \<le> v + i \<and> v + i < 2 ^ 31")
    case True
    have "\<bar>v + i\<bar> \<le> 2 ^ 31" using True by linarith
    then have y: "length ?y < 2 ^ 28" using int_text_length [of "v + i"] by simp
    have "(of_nat (length ?y) :: size_t) \<noteq> TH8_NOLEN" using tagged_not_NOLEN [OF y, of 0] by simp
    then have ri: "Th8_SetResultInt (v + i) ?s = (TH8_OK, ?r)" using ok(3) bytes_of_text [OF y] tagged_parts [OF y, of 0]
      by (simp add: Th8_SetResultInt_def Th8_SetResult_def tagged_def)
    have sn: "same_names st ?r" by (simp add: same_names_def)
    have rr: "vars_ok ?r" "active ?r" "ram ?r = []" "holds_scalar (fst (arg_name nm)) a z t ?r"
      using ok h same_names_resolve [OF sn] by (simp_all add: active_def holds_scalar_def)
    from set_scalar_held [OF rr y, of 0 depth depth'] obtain s where s: "Th8_SetVar (Suc depth) (arg_name nm) ?y (of_nat (length ?y)) ?r = Inr (TH8_OK, s)"
      "Th8_GetVar depth' (arg_name nm) s = Inr (TH8_OK, s)" "vzResult s = Some ?y" by auto
    have "incr_command (Suc depth) check (cmd # nm # rest) st = Inr (TH8_OK, s)"
      using True s(1) unfolding e ri by (simp add: th8SetVarFromResult_def result_of_def del: Th8_SetVar.simps)
    moreover have "parse_int ?y = Inr (v + i, True) \<longleftrightarrow> v + i \<noteq> - (2 ^ 31)"
      using True by (auto simp: parse_int_text)
    ultimately show ?thesis using True s by auto
  next
    case False
    then show ?thesis unfolding e by auto
  qed
qed

theorem incr_adds_witness:
  "\<exists>st s. var_reach 2 st \<and> incr_command (Suc 1) True [(''incr'', 4), (''n'', 1), (''-50'', 3)] st = Inr (TH8_OK, s) \<and> vzResult s = Some ''-8''"
proof -
  let ?r = "exec_all 2 [SetOp (''n'', 0) ''42'' 2] (vinit [])"
  have "case ?r of Inl _ \<Rightarrow> False | Inr s \<Rightarrow> ram s = [] \<and> Th8_IsSystemVar (''n'', 1) s = Inr False \<and> resolve ''n'' s = Some 0 \<and>
      (case cells s 0 of None \<Rightarrow> False | Some u \<Rightarrow> vzData u = Some ''42'' \<and> nData u = 2)" by code_simp
  then obtain st where st: "?r = Inr st" "ram st = []" "Th8_IsSystemVar (''n'', 1) st = Inr False" "resolve ''n'' st = Some 0"
      "\<exists>u. cells st 0 = Some u \<and> vzData u = Some ''42'' \<and> nData u = 2" by (auto split: sum.splits option.splits)
  from exec_all_reach [OF st(1) var_reach.init] have r: "var_reach 2 st" .
  then have ok: "vars_ok st" "active st" using var_reach_ok by blast+
  have n: "fst (arg_name (''n'', 1)) = ''n''" "parse_int ''42'' = Inr (42, True)" "increment [(''-50'', 3)] = Some (- 50)" "int_text (- 8) = ''-8''"
    by code_simp+
  have h: "holds_scalar (fst (arg_name (''n'', 1))) 0 ''42'' 0 st" using st(4,5) n(1) by (simp add: holds_scalar_def)
  from incr_adds [OF ok st(2,3) h _ _ n(2,3), where depth = 1 and depth' = 2 and check = True and cmd = "(''incr'', 4)"] n(4)
  have "\<exists>s. incr_command (Suc 1) True [(''incr'', 4), (''n'', 1), (''-50'', 3)] st = Inr (TH8_OK, s) \<and> vzResult s = Some ''-8''" by auto
  with r show ?thesis by blast
qed

section \<open>Protected variables\<close>

lemma system_var_test:
  assumes "paSystemVar st = Some keys" "CHR ''('' \<notin> set z" "length z < 2 ^ 28"
  shows "Th8_IsSystemVar (z, of_nat (length z)) st = Inr (z \<in> set keys)"
proof -
  have "(of_nat (length z) :: size_t) \<noteq> TH8_NOLEN" using tagged_not_NOLEN [OF assms(3), of 0] by simp
  then show ?thesis using assms unat_of_nat_small [OF assms(3)] by (simp add: Th8_IsSystemVar_def)
qed

text \<open>
  C40: The protection of system variables goes by the spelling of the name. A variable declared as
  \<open>::n\<close> is protected under that name; at the global level the name \<open>n\<close> denotes the same variable,
  and the test lets it pass.
\<close>

theorem system_var_by_spelling:
  assumes top: "curFrame st = 0" "pCaller (frames st ! 0) = None" and keys: "paSystemVar st = Some keys" "''::'' @ n \<in> set keys" "n \<notin> set keys"
    and n: "n \<noteq> []" "CHR ''('' \<notin> set n" "CHR '':'' \<notin> set n" "length n + 2 < 2 ^ 28"
  shows "Th8_IsSystemVar (''::'' @ n, of_nat (length n + 2)) st = Inr True \<and> Th8_IsSystemVar (n, of_nat (length n)) st = Inr False \<and>
    resolve n st = resolve (''::'' @ n) st"
proof -
  have a: "th8AnalyzeVarName n = (n, None, False)" using n by (cases n) (auto simp: th8AnalyzeVarName_def dest!: set_take_subset [THEN subsetD])
  have g: "th8AnalyzeVarName (''::'' @ n) = (n, None, True)" using n by (auto simp: th8AnalyzeVarName_def)
  have h: "\<not> has_sep n" 
  proof
    assume "has_sep n"
    then obtain i where i: "i < length n - 1" "n ! i = CHR '':''" by (auto simp: has_sep_def list_ex_iff sep_at_def)
    then have "n ! i \<in> set n" by (intro nth_mem) simp
    with i(2) n(3) show False by simp
  qed
  have "frame_of True st = frame_of False st" using top by (simp add: frame_of_def frame_chain.simps [of "frames st" 0])
  then have "resolve n st = resolve (''::'' @ n) st" by (simp only: resolve_def a g prod.case Let_def outer_table_frame h simp_thms)
  moreover have "length (''::'' @ n) = length n + 2" by simp
  ultimately show ?thesis using system_var_test [OF keys(1), of n] system_var_test [OF keys(1), of "''::'' @ n"] keys n by simp
qed

text \<open>The recorded policy, rewritten from the top level under the short name.\<close>

theorem system_var_by_spelling_witness:
  "\<exists>st st'. paSystemVar st = Some [''::th8_security''] \<and> Th8_IsSystemVar (''::th8_security'', 14) st = Inr True \<and>
     Th8_IsSystemVar (''th8_security'', 12) st = Inr False \<and> resolve ''th8_security'' st = resolve ''::th8_security'' st \<and>
     resolve ''::th8_security'' st = Some 0 \<and>
     set_command 2 [(''set'', 3), (''th8_security(policy)'', 20), (''none'', 4)] st = Inr (TH8_OK, st') \<and>
     vzResult st' = Some ''none''"
proof -
  let ?r = "exec_all 2 [SetOp (''::th8_security(policy)'', 0) ''enforce'' 7] (snd (Th8_DeclareSystemVar ''::th8_security'' (vinit [])))"
  have "case ?r of Inl _ \<Rightarrow> False | Inr s \<Rightarrow> paSystemVar s = Some [''::th8_security''] \<and> curFrame s = 0 \<and> pCaller (frames s ! 0) = None \<and>
      resolve ''::th8_security'' s = Some 0 \<and>
      (case set_command 2 [(''set'', 3), (''th8_security(policy)'', 20), (''none'', 4)] s of Inl _ \<Rightarrow> False
       | Inr (rc, s') \<Rightarrow> rc = TH8_OK \<and> vzResult s' = Some ''none'')" by code_simp
  from returned [OF this] obtain st where st: "paSystemVar st = Some [''::th8_security'']" "curFrame st = 0" "pCaller (frames st ! 0) = None"
      "resolve ''::th8_security'' st = Some 0"
      "case set_command 2 [(''set'', 3), (''th8_security(policy)'', 20), (''none'', 4)] st of Inl _ \<Rightarrow> False
       | Inr (rc, s') \<Rightarrow> rc = TH8_OK \<and> vzResult s' = Some ''none''" by blast
  from returned [OF st(5)] obtain st' where s: "set_command 2 [(''set'', 3), (''th8_security(policy)'', 20), (''none'', 4)] st = Inr (TH8_OK, st')"
      "vzResult st' = Some ''none''" by auto
  from system_var_by_spelling [OF st(2,3,1), of "''th8_security''"] have "Th8_IsSystemVar (''::th8_security'', 14) st = Inr True"
     "Th8_IsSystemVar (''th8_security'', 12) st = Inr False" "resolve ''th8_security'' st = resolve ''::th8_security'' st" by simp_all
  with st(1,4) s show ?thesis by blast
qed

text \<open>
  A tainted name makes both scans that forget the tag bits run off its end: the test for a system
  variable, and the search of \<open>variable\<close> for the tail of a qualified name.
\<close>

lemma tainted_length: "2 ^ 28 \<le> unat (n OR 0x10000000 :: size_t)"
proof -
  have "(0x10000000 :: size_t) \<le> 0x10000000 OR n" by (rule le_word_or2)
  then show ?thesis by (simp add: word_le_nat_alt or.commute)
qed

lemma tainted_name_scan:
  assumes "paSystemVar st = Some keys" "CHR ''('' \<notin> set z" "length z < 2 ^ 28"
  shows "Th8_IsSystemVar (z, of_nat (length z) OR 0x10000000) st = Inl OverRead"
proof -
  have t: "(0x10000000 :: size_t) AND TH8_TAG_BITS = 0x10000000" by simp
  let ?n = "of_nat (length z) OR 0x10000000 :: size_t"
  have "?n \<noteq> TH8_NOLEN" using tagged_not_NOLEN [OF assms(3) t] .
  moreover have "2 ^ 28 \<le> unat ?n" by (rule tainted_length)
  moreover have "CHR ''('' \<notin> set (take (unat ?n) z)" using assms(2) by (meson in_set_takeD)
  ultimately show ?thesis using assms by (simp add: Th8_IsSystemVar_def)
qed

lemma tainted_variable_scan:
  assumes "take 2 z = ''::''" "length z < 2 ^ 28"
  shows "variable_link depth ready (z, of_nat (length z) OR 0x10000000) False name st = Inl OverRead"
  using assms tainted_length [of "of_nat (length z)"] by (simp add: variable_link_def)

end
