(* ===== verification/Th8_ArrayLife.thy ===== *)
theory Th8_ArrayLife
  imports Th8_VarCmds
begin

text \<open>
  The life of an array: what the operations on variables do to the element tables. A creation stamps
  a fresh generation on the variable, element writes and removals advance its epoch; so a table that
  is still of the same generation and at the same epoch has lost no key. This is the fact that array
  searches rely on. The argument needs the invariant of the variable layer for the operations that
  create entries.
\<close>

section \<open>The life of an array\<close>

definition gens_ok :: "vstate \<Rightarrow> bool" where
  "gens_ok st \<longleftrightarrow> 0 \<le> iArrayHashGeneration st \<and>
     (\<forall>a v. cells st a = Some v \<longrightarrow> pHash v \<noteq> None \<longrightarrow> 0 < nGeneration v \<and> nGeneration v \<le> iArrayHashGeneration st \<and>
     (\<forall>b u. cells st b = Some u \<longrightarrow> pHash u \<noteq> None \<longrightarrow> nGeneration u = nGeneration v \<longrightarrow> b = a))"

text \<open>What becomes of the variable \<open>u\<close>: a new table, or the same table, changed or with all its keys.\<close>

definition grown :: "int \<Rightarrow> Th8_Variable option \<Rightarrow> Th8_Variable option \<Rightarrow> bool" where
  "grown g u v \<longleftrightarrow>
     (\<forall>y t'. v = Some y \<longrightarrow> pHash y = Some t' \<longrightarrow> g < nGeneration y \<or>
        (\<exists>x t. u = Some x \<and> pHash x = Some t \<and> nGeneration y = nGeneration x \<and>
           (nEpoch x < nEpoch y \<or> nEpoch y = nEpoch x \<and> fst ` set t \<subseteq> fst ` set t')))"

definition evolves :: "vstate \<Rightarrow> vstate \<Rightarrow> bool" where
  "evolves st st' \<longleftrightarrow> iArrayHashGeneration st \<le> iArrayHashGeneration st' \<and>
     (\<forall>a. grown (iArrayHashGeneration st) (cells st a) (cells st' a)) \<and> (gens_ok st \<longrightarrow> gens_ok st')"

lemma grown_refl [simp]: "grown g u u"
  by (auto simp: grown_def)

lemma grown_None [simp]: "grown g u None"
  by (simp add: grown_def)

lemma grown_trans: "grown g u v \<Longrightarrow> grown g' v w \<Longrightarrow> g \<le> g' \<Longrightarrow> grown g u w"
  unfolding grown_def by (fastforce dest: order_less_trans)

lemma evolves_refl [simp]: "evolves st st"
  by (simp add: evolves_def)

lemma evolves_trans: "evolves st st' \<Longrightarrow> evolves st' st'' \<Longrightarrow> evolves st st''"
  unfolding evolves_def by (blast intro: grown_trans order_trans)

text \<open>States with the same cells, and writes to a cell that leave its table alone.\<close>

lemma evolves_same: "cells st' = cells st \<Longrightarrow> iArrayHashGeneration st' = iArrayHashGeneration st \<Longrightarrow> evolves st st'"
  by (simp add: evolves_def gens_ok_def)

lemma evolves_cong [simp]:
  "evolves st (st'\<lparr>ram := x1\<rparr>) = evolves st st'" "evolves st (st'\<lparr>frames := x2\<rparr>) = evolves st st'"
  "evolves st (st'\<lparr>namespaces := x3\<rparr>) = evolves st st'" "evolves st (st'\<lparr>curFrame := x4\<rparr>) = evolves st st'"
  "evolves st (st'\<lparr>vzResult := x5, vnResult := x6\<rparr>) = evolves st st'" "evolves st (st'\<lparr>nFresh := x7\<rparr>) = evolves st st'"
  "evolves st (note_calls cs st') = evolves st st'" "evolves st (static_result z st') = evolves st st'"
  by (simp_all add: evolves_def gens_ok_def note_calls_def static_result_def)

lemma evolves_cell:
  assumes "cells st a = Some v" "pHash w \<noteq> None \<longrightarrow> (\<exists>t t'. pHash v = Some t \<and> pHash w = Some t' \<and> nGeneration w = nGeneration v \<and>
      (nEpoch v < nEpoch w \<or> nEpoch w = nEpoch v \<and> fst ` set t \<subseteq> fst ` set t'))"
  shows "evolves st (put_cell a w st)"
proof -
  have "grown (iArrayHashGeneration st) (cells st b) (cells (put_cell a w st) b)" for b
    using assms by (cases "b = a") (auto simp: grown_def put_cell_def)
  moreover have "gens_ok (put_cell a w st)" if "gens_ok st"
    using that assms unfolding gens_ok_def put_cell_def by (auto split: if_splits)
  ultimately show ?thesis by (simp add: evolves_def) (simp add: put_cell_def)
qed

lemma evolves_new: "pHash w = None \<Longrightarrow> evolves st (put_cell a w st)"
  by (auto simp: evolves_def grown_def gens_ok_def put_cell_def)

lemma evolves_free: "evolves st (st\<lparr>cells := (cells st)(a := None)\<rparr>)"
  by (auto simp: evolves_def grown_def gens_ok_def)

lemma evolves_new_hash:
  assumes "cells st a = Some v"
  shows "evolves st (new_hash a v st)"
proof -
  let ?n = "new_hash a v st" and ?g = "iArrayHashGeneration st"
  have c: "cells ?n b = (if b = a then Some (v\<lparr>pHash := Some [], nGeneration := ?g + 1\<rparr>) else cells st b)" "iArrayHashGeneration ?n = ?g + 1" for b
    by (simp_all add: new_hash_def put_cell_def)
  have "grown ?g (cells st b) (cells ?n b)" for b unfolding c by (simp add: grown_def)
  moreover have "gens_ok ?n" if g: "gens_ok st" unfolding gens_ok_def
  proof (intro allI impI conjI)
    show "0 \<le> iArrayHashGeneration ?n" using g c(2) by (simp add: gens_ok_def)
  next
    fix b u assume u: "cells ?n b = Some u" "pHash u \<noteq> None"
    have old: "nGeneration w \<le> ?g" if "cells ?n x = Some w" "pHash w \<noteq> None" "x \<noteq> a" for x w using that g unfolding c gens_ok_def by auto
    have new: "nGeneration w = ?g + 1" if "cells ?n a = Some w" for w using that unfolding c by auto
    show "nGeneration u \<le> iArrayHashGeneration ?n" using old [OF u] new u c(2) by (cases "b = a") auto
    show "0 < nGeneration u" using g u unfolding c gens_ok_def by (auto split: if_splits)
    fix b' u' assume u': "cells ?n b' = Some u'" "pHash u' \<noteq> None" "nGeneration u' = nGeneration u"
    show "b' = b"
    proof (cases "b = a \<or> b' = a")
      case True
      then show ?thesis using old [OF u] old [OF u'(1,2)] new u u' by fastforce
    next
      case False
      then show ?thesis using u u' g unfolding c gens_ok_def by simp
    qed
  qed
  ultimately show ?thesis by (simp add: evolves_def c(2))
qed

lemma evolves_table:
  assumes "get_table pl st = Inr t" "fst ` set t \<subseteq> fst ` set t'"
  shows "evolves st (put_table pl t' st)"
proof (cases pl)
  case (Elements a)
  with assms(1) obtain v where v: "cells st a = Some v" "pHash v = Some t" by (auto simp: deref_def split: option.splits)
  with evolves_cell [OF v(1), of "v\<lparr>pHash := Some t'\<rparr>"] assms(2) Elements show ?thesis by simp
qed (simp_all add: evolves_same)

lemma evolves_roots: "(\<forall>a. pl \<noteq> Elements a) \<Longrightarrow> evolves st (put_table pl t st') = evolves st st'"
  by (cases pl) simp_all

lemma evolves_shrunk: "shrunk m st st' \<Longrightarrow> evolves st st'"
proof -
  assume s: "shrunk m st st'"
  then have g: "iArrayHashGeneration st' = iArrayHashGeneration st" by (auto simp: shrunk_def rest_of_def intro: vstate.cases)
  have c: "\<exists>v. cells st b = Some v \<and> pHash v' = pHash v \<and> nGeneration v' = nGeneration v \<and> nEpoch v' = nEpoch v" if b: "cells st' b = Some v'" for b v'
  proof -
    from s b obtain v where "cells st b = Some v" "thinner v v'" unfolding shrunk_def by blast
    then show ?thesis unfolding thinner_def by auto
  qed
  have "grown (iArrayHashGeneration st) (cells st b) (cells st' b)" for b
    unfolding grown_def
  proof (intro allI impI disjI2)
    fix y t' assume y: "cells st' b = Some y" "pHash y = Some t'"
    then show "\<exists>x t. cells st b = Some x \<and> pHash x = Some t \<and> nGeneration y = nGeneration x \<and>
        (nEpoch x < nEpoch y \<or> nEpoch y = nEpoch x \<and> fst ` set t \<subseteq> fst ` set t')" using c [OF y(1)] by (metis order_refl)
  qed
  moreover have "gens_ok st'" if gs: "gens_ok st" unfolding gens_ok_def g
  proof (intro allI impI conjI)
    show "0 \<le> iArrayHashGeneration st" using gs by (simp add: gens_ok_def)
  next
    fix b u assume u: "cells st' b = Some u" "pHash u \<noteq> None"
    from c [OF u(1)] obtain x where x: "cells st b = Some x" "pHash u = pHash x" "nGeneration u = nGeneration x" by blast
    with u gs show "nGeneration u \<le> iArrayHashGeneration st" "0 < nGeneration u" unfolding gens_ok_def by auto
    fix b' u' assume u': "cells st' b' = Some u'" "pHash u' \<noteq> None" "nGeneration u' = nGeneration u"
    from c [OF u'(1)] obtain x' where "cells st b' = Some x'" "pHash u' = pHash x'" "nGeneration u' = nGeneration x'" by blast
    with x u u' gs show "b' = b" unfolding gens_ok_def by metis
  qed
  ultimately show ?thesis by (simp add: evolves_def g)
qed

section \<open>What the operations do to arrays\<close>

definition evo :: "vstate \<Rightarrow> 'a run \<Rightarrow> ('a \<Rightarrow> vstate) \<Rightarrow> bool" where
  "evo st m g \<longleftrightarrow> (case m of Inl f \<Rightarrow> True | Inr x \<Rightarrow> evolves st (g x))"

lemma evo_simps [simp]: "evo st (Inl f) g" "evo st (Inr x) g = evolves st (g x)"
  by (simp_all add: evo_def)

lemma evo_bind:
  assumes "runs F st m g Q" "evo st m g"
    and "\<And>x. m = Inr x \<Longrightarrow> vars_ok (g x) \<Longrightarrow> active (g x) \<Longrightarrow> Q x \<Longrightarrow> evo (g x) (k x) h"
  shows "evo st (andThen m k) h"
proof (cases m)
  case (Inr x)
  with assms have "evo (g x) (k x) h" "evolves st (g x)" by auto
  with Inr show ?thesis by (cases "k x") (auto intro: evolves_trans)
qed simp

lemma evo_from: "evolves st st' \<Longrightarrow> evo st' m g \<Longrightarrow> evo st m g"
  by (cases m) (auto intro: evolves_trans)

lemma evo_deref: "(\<And>v. cells st a = Some v \<Longrightarrow> evo st (k v) g) \<Longrightarrow> evo st (andThen (deref a st) k) g"
  by (cases "cells st a") (simp_all add: deref_def)

lemma allocs_evolves: "evolves st (snd (allocs n s)) = evolves st s"
  by (rule allocs_cases [of n s]) simp

lemma SetResult_evolves [simp]: "evolves st (snd (Th8_SetResult z n s)) = evolves st s"
proof (cases z)
  case (Some y)
  let ?s = "s\<lparr>vzResult := None, vnResult := 0\<rparr>"
  obtain b bs where a: "allocs 1 ?s = (b, ?s\<lparr>ram := bs\<rparr>)" by (rule allocs_cases)
  with Some show ?thesis
    by (cases b) (simp_all add: Th8_SetResult_def evolves_def gens_ok_def del: One_nat_def)
qed (simp add: Th8_SetResult_def)

lemma dict_keys:
  "fst ` set (dict_step (Create k) t) = insert k (fst ` set t)" "fst ` set (dict_step (Assign k d) t) = fst ` set t"
  by (auto simp: dict_step.simps image_iff) force+

lemma find_or_create_cases:
  assumes "get_table pl st = Inr t" "map_of t k = None \<or> map_of t k = Some None" c
  obtains b bs b' bs' where
    "find_or_create pl k c st =
      (let s = put_table pl (dict_step (Create k) t) (st\<lparr>ram := bs\<rparr>)\<lparr>ram := bs'\<rparr>; a = nFresh st in
       if \<not> b then Inr (None, st\<lparr>ram := bs\<rparr>) else if \<not> b' then Inr (None, s)
       else Inr (Some a, put_table pl (dict_step (Assign k (Some a)) (dict_step (Create k) t)) (put_cell a new_variable (s\<lparr>nFresh := Suc a\<rparr>))))"
proof -
  obtain b bs where a1: "(if map_of t k = None then allocs 2 st else (True, st)) = (b, st\<lparr>ram := bs\<rparr>)"
  proof (cases "map_of t k = None")
    case True then show thesis by (rule_tac allocs_cases [of 2 st]) (auto intro: that)
  next
    case False
    then have "(if map_of t k = None then allocs 2 st else (True, st)) = (True, st\<lparr>ram := ram st\<rparr>)" by auto
    then show thesis using that by blast
  qed
  let ?s = "put_table pl (dict_step (Create k) t) (st\<lparr>ram := bs\<rparr>)"
  obtain b' bs' where a2: "allocs 1 ?s = (b', ?s\<lparr>ram := bs'\<rparr>)" by (rule allocs_cases)
  show thesis
    by (rule that [where bs = bs and bs' = bs' and b = b and b' = b']) (use assms a1 a2 in \<open>auto simp: find_or_create_def Let_def simp del: One_nat_def\<close>)
qed

lemma find_or_create_evo:
  assumes ok: "vars_ok st" and t: "get_table pl st = Inr t"
  shows "evo st (find_or_create pl k c st) snd"
proof (cases "(\<exists>a. map_of t k = Some (Some a)) \<or> \<not> c")
  case True
  then have "\<exists>r. find_or_create pl k c st = Inr (r, st)" using t by (auto simp: find_or_create_def split: option.splits)
  then show ?thesis by auto
next
  case False
  then have nk: "map_of t k = None \<or> map_of t k = Some None" and c: c by (metis option.exhaust)+
  let ?t1 = "dict_step (Create k) t" and ?a = "nFresh st"
  let ?t2 = "dict_step (Assign k (Some ?a)) ?t1"
  have e1: "evolves st (put_table pl (dict_step (Create k) t) (st\<lparr>ram := bs\<rparr>)\<lparr>ram := bs'\<rparr>)" for bs bs'
    using evolves_table [of pl "st\<lparr>ram := bs\<rparr>" t ?t1] t dict_keys(1) [of k t] evolves_trans [of st "st\<lparr>ram := bs\<rparr>"] by auto
  have e2: "evolves s (put_table pl ?t2 (put_cell ?a new_variable (s\<lparr>nFresh := Suc ?a\<rparr>)))"
    if s: "s = put_table pl ?t1 (st\<lparr>ram := bs\<rparr>)\<lparr>ram := bs'\<rparr>" for s bs bs'
  proof -
    have e: "evolves s (put_cell ?a new_variable (s\<lparr>nFresh := Suc ?a\<rparr>))"
      using evolves_new [of new_variable "s\<lparr>nFresh := Suc ?a\<rparr>" ?a] evolves_trans [of s "s\<lparr>nFresh := Suc ?a\<rparr>"] by (simp add: new_variable_def)
    have g: "get_table pl s = Inr ?t1" using t s by simp
    have "get_table pl (put_cell ?a new_variable (s\<lparr>nFresh := Suc ?a\<rparr>)) = Inr ?t1"
    proof (cases pl)
      case (Elements x)
      with t ok have "x \<noteq> ?a" by (auto simp: deref_def split: option.splits dest: vars_inv_cell)
      with Elements g show ?thesis by (simp add: deref_def put_cell_def)
    qed (use g in \<open>auto simp: put_cell_def split: if_splits\<close>)
    from evolves_table [OF this, of ?t2] dict_keys(2) e show ?thesis by (blast intro: evolves_trans)
  qed
  obtain b bs b' bs' where f: "find_or_create pl k c st =
      (let s = put_table pl ?t1 (st\<lparr>ram := bs\<rparr>)\<lparr>ram := bs'\<rparr>; a = nFresh st in
       if \<not> b then Inr (None, st\<lparr>ram := bs\<rparr>) else if \<not> b' then Inr (None, s)
       else Inr (Some a, put_table pl (dict_step (Assign k (Some a)) ?t1) (put_cell a new_variable (s\<lparr>nFresh := Suc a\<rparr>))))"
    by (rule find_or_create_cases [OF t nk c])
  have "evolves st (put_table pl ?t2 (put_cell ?a new_variable (put_table pl ?t1 (st\<lparr>ram := bs\<rparr>)\<lparr>ram := bs', nFresh := Suc ?a\<rparr>)))"
    using evolves_trans [OF e1 e2 [OF refl]] by simp
  with e1 [where bs = bs and bs' = bs'] show ?thesis unfolding f Let_def by simp
qed

lemma ns_walk_evolves: "evolves st (snd (ns_walk c p z s)) = evolves st s"
proof (induction c p z s rule: ns_walk.induct)
  case (1 c p z s)
  obtain b bs where a: "allocs 7 s = (b, s\<lparr>ram := bs\<rparr>)" by (rule allocs_cases)
  show ?case
    by (subst ns_walk.simps) (use 1 a in \<open>auto simp: Let_def split: bool.splits\<close>)
qed

lemma find_ns_evolves: "evolves st (snd (th8FindNamespaceEx z c s)) = evolves st s"
  using ns_walk_evolves [of st c] by (auto simp: th8FindNamespaceEx_def split: prod.splits option.splits) (metis snd_conv)+

lemma find_outer_evo:
  assumes ok: "vars_ok st" "active st"
  shows "evo st (find_outer z g c st) snd"
proof (cases "g \<and> has_sep z")
  case False
  have "get_table (FrameVars (frame_of g st)) st = Inr (paVar (frames st ! frame_of g st))"
    by (rule frame_table [OF frame_of_less [OF ok(2)]])
  from find_or_create_evo [OF ok(1) this] False show ?thesis by (auto simp: find_outer_def)
next
  case True
  obtain ns tl where sp: "th8SplitQualName z = (ns, tl)" by fastforce
  let ?z = "case ns of None \<Rightarrow> [] | Some z \<Rightarrow> z"
  obtain b bs where a: "allocs (if ?z = [] then 1 else 2) st = (b, st\<lparr>ram := bs\<rparr>)" by (rule allocs_cases)
  let ?s = "st\<lparr>ram := bs\<rparr>"
  obtain r s1 where n: "th8FindNamespaceEx (''::'' @ ?z) c ?s = (r, s1)" by fastforce
  have s: "vars_ok ?s" "active ?s" using ok by simp_all
  note f = th8FindNamespaceEx_ok [OF s n]
  have e: "evolves st s1" using find_ns_evolves [of st "''::'' @ ?z" c ?s] n by simp
  have "evo st (find_or_create (NsVars q) tl c s1) snd" if "r = Some q" for q
  proof -
    from that f have "map_of (namespaces s1) q \<noteq> None" by (simp add: map_of_eq_None_iff)
    then obtain t where "get_table (NsVars q) s1 = Inr t" by (auto split: option.splits)
    from evo_from [OF e find_or_create_evo [OF _ this]] f show ?thesis by blast
  qed
  with True sp a n e show ?thesis by (cases b; cases r) (simp_all add: find_outer_def Let_def)
qed

locale var_grower = var_setter +
  assumes setter_evo: "vars_ok st \<Longrightarrow> active st \<Longrightarrow> evo st (sv name z n st) snd"
begin

lemma message_evo:
  assumes ok: "vars_ok st" "active st"
  shows "evo st (Th8_ErrorMessage sv zPre name st) (\<lambda>s. s)"
proof -
  obtain z t where e: "(if snd name AND TH8_SENSITIVE_BIT \<noteq> 0 then (''<sensitive value withheld>'', 0)
      else (fst name, snd name AND TH8_TAG_BITS)) = (z, t)" by fastforce
  show ?thesis unfolding Th8_ErrorMessage_def Let_def e prod.case
  proof (rule evo_bind [OF setter_ok [OF ok] setter_evo [OF ok]], goal_cases)
    case (1 x)
    obtain b bs where "allocs (message_appends zPre) (snd x) = (b, snd x\<lparr>ram := bs\<rparr>)" by (rule allocs_cases)
    then show ?case by (cases x; cases b) simp_all
  qed
qed

lemma find_element_evo:
  assumes ok: "vars_ok st" "active st"
  shows "evo st (find_element sv zOuter a i c st) snd"
proof -
  let ?lookup = "\<lambda>s. andThen (find_or_create (Elements a) i c s) (\<lambda>(r, s).
     if r \<noteq> None \<and> c then andThen (bump_epoch a s) (\<lambda>s. Inr (r, s)) else Inr (r, s))"
  have look: "evo s (?lookup s) snd" if s: "vars_ok s" "active s" and t: "get_table (Elements a) s = Inr t" for s t
  proof (rule evo_bind [OF find_or_create_ok [OF s t] find_or_create_evo [OF s(1) t]], goal_cases)
    case (1 x)
    have "evo s1 (andThen (bump_epoch a s1) (\<lambda>s. Inr (r, s))) snd" for r s1
      by (cases "cells s1 a") (auto simp: bump_epoch_def deref_def intro!: evolves_cell)
    then show ?case by (cases x) auto
  qed
  show ?thesis unfolding find_element_def Let_def
  proof (rule evo_deref)
    fix v assume v: "cells st a = Some v"
    obtain b bs where al: "allocs 1 st = (b, st\<lparr>ram := bs\<rparr>)" by (rule allocs_cases)
    let ?n = "new_hash a v (st\<lparr>ram := bs\<rparr>)"
    have new: "evo st (?lookup ?n) snd" if h: "pHash v = None" "vzData v = None"
    proof -
      have "vars_ok ?n" using new_hash_ok [of "st\<lparr>ram := bs\<rparr>" a v] ok(1) v h by simp
      moreover have "get_table (Elements a) ?n = Inr []" by (simp add: deref_def new_hash_def put_cell_def)
      moreover have "evolves st ?n" using evolves_new_hash [of "st\<lparr>ram := bs\<rparr>" a v] v evolves_trans [of st "st\<lparr>ram := bs\<rparr>"] by simp
      moreover have "active ?n" using ok(2) by (simp add: active_def new_hash_def put_cell_def)
      ultimately show ?thesis using look evo_from by blast
    qed
    have m: "evo st (andThen (Th8_ErrorMessage sv p n st) (\<lambda>st. Inr (None, st))) snd" for p n
      by (rule evo_bind [OF message_ok [OF ok] message_evo [OF ok]]) simp
    show "evo st (if pHash v \<noteq> None then ?lookup st
        else if \<not> c then Inr (None, st)
        else if vzData v \<noteq> None then andThen (Th8_ErrorMessage sv ''variable is a scalar:'' (zOuter, 0) st) (\<lambda>st. Inr (None, st))
        else case allocs 1 st of (False, st) \<Rightarrow> Inr (None, st) | (True, st) \<Rightarrow> ?lookup (new_hash a v st)) snd"
    proof (cases "pHash v")
      case (Some t)
      then have "get_table (Elements a) st = Inr t" using v by (simp add: deref_def)
      from look [OF ok this] Some show ?thesis by simp
    next
      case None
      then show ?thesis using new m al by (cases b) (auto simp del: One_nat_def)
    qed
  qed
qed

lemma find_evo:
  assumes ok: "vars_ok st" "active st"
  shows "evo st (th8FindValue sv zVar c st) snd"
proof -
  obtain o' i g where an: "th8AnalyzeVarName zVar = (o', i, g)" by (cases "th8AnalyzeVarName zVar") auto
  show ?thesis unfolding th8FindValue_def an Let_def prod.case
  proof (rule evo_bind [OF find_outer_ok [OF ok] find_outer_evo [OF ok]], goal_cases)
    case (1 x)
    then show ?case using find_element_evo [of "snd x" o' "the (fst x)" "the i" c]
      by (cases x; cases "fst x"; cases i) auto
  qed
qed

end

lemma write_scalar_evolves: "pHash v = None \<Longrightarrow> evolves st (snd (write_scalar name a v z n st))"
proof -
  assume v: "pHash v = None"
  let ?s = "note_calls (RemoveFromCache (fst name) # release_data v) st"
  obtain b bs where al: "allocs 1 ?s = (b, ?s\<lparr>ram := bs\<rparr>)" by (rule allocs_cases)
  have "evolves st (put_cell a w (?s\<lparr>ram := bs\<rparr>))" if "pHash w = None" for w
    using evolves_new [OF that, of "?s\<lparr>ram := bs\<rparr>" a] evolves_trans [of st "?s\<lparr>ram := bs\<rparr>"] by simp
  with v al show ?thesis by (cases b) (simp_all add: write_scalar_def Let_def del: One_nat_def)
qed

lemma Th8_SetVar_grower: "var_grower (Th8_SetVar depth)"
proof (induction depth)
  case 0
  show ?case by unfold_locales simp_all
next
  case (Suc depth)
  show ?case
  proof (intro var_grower.intro Th8_SetVar_setter var_grower_axioms.intro)
    fix st name z n
    assume ok: "vars_ok st" "active st"
    show "evo st (Th8_SetVar (Suc depth) name z n st) snd"
      unfolding Th8_SetVar.simps
    proof (rule evo_bind [OF setv.find_ok [OF ok] var_grower.find_evo [OF Suc ok]], goal_cases)
      case (1 x)
      obtain r s where x: "x = (r, s)" by fastforce
      have s: "vars_ok s" "active s" using 1 x by auto
      have m: "evo s (andThen (Th8_ErrorMessage (Th8_SetVar depth) p name s) (\<lambda>st. Inr (TH8_ERROR, st))) snd" for p
        by (rule evo_bind [OF setv.message_ok [OF s] var_grower.message_evo [OF Suc s]]) simp
      show ?case unfolding x
        by (cases r) (auto simp: m write_scalar_evolves intro!: evo_deref)
    qed
  qed
qed

interpretation growv: var_grower "Th8_SetVar depth" for depth
  by (rule Th8_SetVar_grower)

lemma errorMessage_evo:
  assumes ok: "vars_ok st" "active st"
  shows "evo st (errorMessage depth zPre name st) snd"
  unfolding errorMessage_def by (rule evo_bind [OF setv.message_ok [OF ok] growv.message_evo [OF ok]]) simp

lemma read_scalar_evo:
  assumes ok: "vars_ok st" "active st"
  shows "evo st (read_scalar depth name st) snd"
  unfolding read_scalar_def
proof (rule evo_bind [OF setv.find_ok [OF ok] growv.find_evo [OF ok]], goal_cases)
  case (1 x)
  obtain r s where x: "x = (r, s)" by fastforce
  have s: "vars_ok s" "active s" using 1 x by auto
  have m: "evo s (andThen (errorMessage depth p name s) (\<lambda>(rc, st). Inr (None, st))) snd" for p
    by (rule evo_bind [OF errorMessage_ok [OF s] errorMessage_evo [OF s]]) auto
  show ?case unfolding x by (cases r) (auto simp: m intro!: evo_deref)
qed

lemma Th8_GetVar_evo:
  assumes ok: "vars_ok st" "active st"
  shows "evo st (Th8_GetVar depth name st) snd"
  unfolding Th8_GetVar_def
  by (rule evo_bind [OF read_scalar_ok [OF ok] read_scalar_evo [OF ok]]) (auto split: option.splits)

lemma on_cell_evo:
  assumes ok: "vars_ok st" "active st"
    and k: "\<And>s a v. vars_ok s \<Longrightarrow> active s \<Longrightarrow> cells s a = Some v \<Longrightarrow> evo s (k s a v) snd"
  shows "evo st (andThen (th8FindValue (Th8_SetVar depth) z c st) (\<lambda>(r, s).
     case r of None \<Rightarrow> Inr (TH8_ERROR, s) | Some a \<Rightarrow> andThen (deref a s) (k s a))) snd"
proof (rule evo_bind [OF setv.find_ok [OF ok] growv.find_evo [OF ok]], goal_cases)
  case (1 x)
  obtain r s where x: "x = (r, s)" by fastforce
  then show ?case using 1 by (cases r) (auto intro!: evo_deref k)
qed

lemma put_same_evolves: "cells st a = Some v \<Longrightarrow> pHash w = pHash v \<Longrightarrow> nGeneration w = nGeneration v \<Longrightarrow> nEpoch w = nEpoch v \<Longrightarrow> evolves st (put_cell a w st)"
  by (rule evolves_cell) auto

lemma th8SetVarLength_evo:
  assumes ok: "vars_ok st" "active st"
  shows "evo st (th8SetVarLength depth name z n st) snd"
  unfolding th8SetVarLength_def
  by (rule on_cell_evo [OF ok, where k = "\<lambda>s a v. if \<not> bBorrowed v then Inr (TH8_ERROR, s) else Inr (TH8_OK, note_calls [SignalAllStates]
     (put_cell a (v\<lparr>vzData := Some (bytes_of z n), nData := TH8_LEN n, nWait := nWait v + 1\<rparr>) s))"]) (auto intro!: put_same_evolves)

lemma th8SetVarValue_evo:
  assumes ok: "vars_ok st" "active st"
  shows "evo st (th8SetVarValue depth name buffer st) snd"
proof (cases buffer)
  case (Some q)
  obtain p u n where q: "q = (p, u, n)" by (cases q) auto
  show ?thesis unfolding th8SetVarValue_def Some q option.case prod.case
    by (rule on_cell_evo [OF ok]) (auto intro!: errorMessage_evo put_same_evolves)
qed (simp add: th8SetVarValue_def)

lemma append_cell_evo: "cells s a = Some v \<Longrightarrow> evo s (append_cell a v args s) snd"
  by (auto simp: append_cell_def Let_def split: option.splits intro!: put_same_evolves)

lemma th8AppendInPlace_evo:
  assumes ok: "vars_ok st" "active st"
  shows "evo st (th8AppendInPlace depth name args st) snd"
  unfolding th8AppendInPlace_def by (rule on_cell_evo [OF ok]) (rule append_cell_evo)

lemma Th8_ExistsVar_evo:
  assumes ok: "vars_ok st" "active st"
  shows "evo st (Th8_ExistsVar depth name st) snd"
  unfolding Th8_ExistsVar_def
proof (rule evo_bind [OF setv.find_ok [OF ok] growv.find_evo [OF ok]], goal_cases)
  case (1 x)
  then show ?case by (cases x; cases "fst x") (auto intro!: evo_deref)
qed

lemma bump_wait_evo: "evo st (bump_wait a st) (\<lambda>s. s)"
  unfolding bump_wait_def by (rule evo_deref) (auto intro!: put_same_evolves)

text \<open>Releasing and unlinking need no invariant.\<close>

lemma evo_then: "evo st m g \<Longrightarrow> (\<And>x. m = Inr x \<Longrightarrow> evo (g x) (k x) h) \<Longrightarrow> evo st (andThen m k) h"
  by (cases m) (auto intro: evo_from)

lemma free_entries_evo: "(\<And>b s. evo s (fr b s) (\<lambda>s. s)) \<Longrightarrow> evo st (free_entries fr t st) (\<lambda>s. s)"
proof (induction t arbitrary: st)
  case (Cons e t)
  have "evo st (th8FreeVarEntry fr e st) (\<lambda>s. s)" using Cons.prems by (simp add: th8FreeVarEntry_def split: option.splits)
  from evo_then [OF this Cons.IH [OF Cons.prems]] show ?case by simp
qed simp

lemma th8FreeVariable_evo: "evo st (th8FreeVariable n a st) (\<lambda>s. s)"
proof (induction n arbitrary: a st)
  case (Suc n)
  show ?case unfolding th8FreeVariable.simps
  proof (rule evo_deref)
    fix v assume v: "cells st a = Some v"
    let ?s = "put_cell a (v\<lparr>nRef := nRef v - 1\<rparr>) st"
    have s: "evolves st ?s" by (rule put_same_evolves [OF v]) simp_all
    have "evo st (andThen (free_entries (th8FreeVariable n) t (note_calls cs ?s)) (\<lambda>st. Inr (st\<lparr>cells := (cells st)(a := None)\<rparr>))) (\<lambda>s. s)" for t cs
      by (rule evo_then [OF evo_from [OF _ free_entries_evo [OF Suc]]]) (simp_all add: s evolves_free)
    with s show "evo st (if nRef v \<le> 0 then Inr st else let v = v\<lparr>nRef := nRef v - 1\<rparr>; st = put_cell a v st in
        if nRef v > 0 then Inr st
        else andThen (free_entries (th8FreeVariable n) (case pHash v of None \<Rightarrow> [] | Some t \<Rightarrow> t) (note_calls (release_data v) st))
              (\<lambda>st. Inr (st\<lparr>cells := (cells st)(a := None)\<rparr>))) (\<lambda>s. s)" by (simp add: Let_def)
  qed
qed (simp add: th8FreeVariable.simps)

lemma remove_root_evo: "evo st (remove_entry (FrameVars i) k st) (\<lambda>s. s)"
  by (simp add: remove_entry_def evolves_same)

lemma unlink_entries_evo: "evo st (unlink_entries a p t st) (\<lambda>s. s)"
proof (induction t arbitrary: st)
  case (Cons e t)
  have "evo st (andThen (free_var a st) (\<lambda>st. andThen (remove_entry (FrameVars p) (fst e) st) (unlink_entries a p t))) (\<lambda>s. s)"
    by (rule evo_then [OF th8FreeVariable_evo evo_then [OF remove_root_evo Cons.IH]])
  with Cons.IH show ?case by simp
qed simp

lemma unlink_frames_evo: "evo st (unlink_frames a f ps st) (\<lambda>s. s)"
proof (induction ps arbitrary: st)
  case (Cons p ps)
  have "evo st (andThen (unlink_entries a p t st) (unlink_frames a f ps)) (\<lambda>s. s)" for t
    by (rule evo_then [OF unlink_entries_evo Cons.IH])
  with Cons.IH show ?case by simp
qed simp

lemma unset_whole_evo: "evo st (unset_whole f k a st) snd"
  unfolding unset_whole_def
proof (rule evo_deref)
  fix v
  have f: "evo st (if 1 < nRef v then unlink_frames a f (frame_chain (frames st) (curFrame st)) st else Inr st) (\<lambda>s. s)"
    by (simp add: unlink_frames_evo)
  have b: "evo s (bump_wait a (note_calls cs s)) (\<lambda>s. s)" for s cs
    by (rule evo_from [OF _ bump_wait_evo]) simp
  show "evo st (andThen (if 1 < nRef v then unlink_frames a f (frame_chain (frames st) (curFrame st)) st else Inr st) (\<lambda>st.
     andThen (bump_wait a (note_calls [RemoveFromCache k] st)) (\<lambda>st. andThen (free_var a st) (\<lambda>st.
     andThen (remove_entry (FrameVars f) k st) (\<lambda>st. Inr (TH8_OK, st)))))) snd"
    by (rule evo_then [OF f evo_then [OF b evo_then [OF th8FreeVariable_evo evo_then [OF remove_root_evo]]]]) simp
qed

lemma remove_element_evo: "evo st (andThen (remove_entry (Elements a) k st) (\<lambda>st. andThen (bump_epoch a st) (\<lambda>st. Inr (TH8_OK, st)))) snd"
proof (cases "get_table (Elements a) st")
  case (Inr t)
  then obtain v where v: "cells st a = Some v" "pHash v = Some t" by (auto simp: deref_def split: option.splits)
  let ?w = "v\<lparr>pHash := Some (dict_step (Remove k) t), nEpoch := nEpoch v + 1\<rparr>"
  have "evolves st (put_cell a ?w st)" by (rule evolves_cell [OF v(1)]) (simp add: v(2))
  with v show ?thesis by (simp add: remove_entry_def bump_epoch_def deref_def put_cell_def)
qed (simp add: remove_entry_def)

lemma unset_element_evo:
  assumes ok: "vars_ok st" "active st"
  shows "evo st (unset_element depth name a i st) snd"
  unfolding unset_element_def
proof (rule evo_deref)
  fix v
  let ?rest = "\<lambda>st. andThen (remove_entry (Elements a) i st) (\<lambda>st. andThen (bump_epoch a st) (\<lambda>st. Inr (TH8_OK, st)))"
  have "evo st (andThen (case d of None \<Rightarrow> Inr st | Some e \<Rightarrow> andThen (bump_wait e st) (\<lambda>st. free_var e st)) ?rest) snd" for d
  proof (rule evo_then [OF _ remove_element_evo])
    show "evo st (case d of None \<Rightarrow> Inr st | Some e \<Rightarrow> andThen (bump_wait e st) (\<lambda>st. free_var e st)) (\<lambda>s. s)"
      by (cases d) (auto intro: evo_then [OF bump_wait_evo th8FreeVariable_evo])
  qed
  then show "evo st (case pHash v of None \<Rightarrow> errorMessage depth ''no such variable:'' name st
     | Some t \<Rightarrow> case map_of t i of None \<Rightarrow> errorMessage depth ''no such variable:'' name st
        | Some d \<Rightarrow> andThen (case d of None \<Rightarrow> Inr st | Some e \<Rightarrow> andThen (bump_wait e st) (\<lambda>st. free_var e st)) ?rest) snd"
    by (auto simp: errorMessage_evo [OF ok] split: option.splits)
qed

lemma Th8_UnsetVar_evo:
  assumes ok: "vars_ok st" "active st"
  shows "evo st (Th8_UnsetVar depth name st) snd"
proof -
  obtain o' i g where an: "th8AnalyzeVarName (fst name) = (o', i, g)" by (cases "th8AnalyzeVarName (fst name)") auto
  show ?thesis
    by (auto simp: Th8_UnsetVar_def an Let_def errorMessage_evo [OF ok] unset_element_evo [OF ok] unset_whole_evo split: option.splits)
qed

lemma make_link_evo:
  assumes ok: "vars_ok st" "active st"
  shows "evo st (make_link depth local a st) snd"
proof -
  obtain b bs where al: "allocs 2 st = (b, st\<lparr>ram := bs\<rparr>)" by (rule allocs_cases)
  have "evolves st (put_cell a (v\<lparr>nRef := nRef v + 1\<rparr>) s)" if "cells st a = Some v" "s = st \<or> s = st\<lparr>ram := bs\<rparr>" for v s
    using that put_same_evolves [of s a v "v\<lparr>nRef := nRef v + 1\<rparr>"] evolves_trans [of st s] by auto
  moreover have "evolves st (s\<lparr>frames := f\<rparr>) = evolves st s" for s f by simp
  ultimately show ?thesis using al
    by (cases b) (auto simp: make_link_def errorMessage_evo [OF ok] deref_def split: option.splits)
qed

lemma Th8_LinkVar_evo:
  assumes ok: "vars_ok st" "active st"
  shows "evo st (Th8_LinkVar depth local iFrame remote st) snd"
proof (cases "link_target iFrame st")
  case None
  then show ?thesis by (simp add: Th8_LinkVar_def errorMessage_evo [OF ok])
next
  case (Some f)
  let ?s = "st\<lparr>curFrame := f\<rparr>"
  have s: "vars_ok ?s" "active ?s" using ok link_target_less [OF ok(2) Some] by (auto simp: active_def)
  have e: "evo st (th8FindValue (Th8_SetVar depth) (fst remote) True ?s) snd" by (rule evo_from [OF _ growv.find_evo [OF s]]) simp
  show ?thesis unfolding Th8_LinkVar_def Some option.case Let_def
  proof (rule evo_then [OF e], goal_cases)
    case (1 x)
    let ?u = "snd x\<lparr>curFrame := curFrame st\<rparr>"
    have f: "vars_ok (snd x)" "keeps ?s (snd x)" using setv.find_ok [OF s, of depth "fst remote" True] 1 by (simp_all add: case_prod_beta)
    then have "keeps st ?u" by (simp add: keeps_def)
    then have u: "vars_ok ?u" "active ?u" using f(1) keeps_active ok(2) by (simp, blast)
    have ev: "evolves (snd x) ?u" by simp
    show ?case
      by (cases x; cases "fst x")
        (use evo_from [OF ev errorMessage_evo [OF u]] evo_from [OF ev make_link_evo [OF u]] in \<open>auto\<close>)
  qed
qed

lemma var_exec_evo:
  assumes ok: "vars_ok st" "active st"
  shows "evo st (var_exec depth c st) (\<lambda>s. s)"
proof -
  have r: "evo st m snd \<Longrightarrow> evo st (andThen m (\<lambda>(rc, st). Inr st)) (\<lambda>s. s)" for m :: "('a \<times> vstate) run"
    by (cases m) (auto simp: case_prod_beta)
  obtain b bs where al: "allocs 1 st = (b, st\<lparr>ram := bs\<rparr>)" by (rule allocs_cases)
  have push: "evolves st (snd (th8PushFrame st))" using al by (cases b) (simp_all add: th8PushFrame_def evolves_same del: One_nat_def)
  have pop: "evo st (th8PopFrame st) (\<lambda>s. s)"
    by (auto simp: th8PopFrame_def Let_def intro!: evo_then [OF free_entries_evo [OF th8FreeVariable_evo]])
  show ?thesis
    by (cases c) (simp_all add: r growv.setter_evo [OF ok] Th8_GetVar_evo [OF ok] th8SetVarLength_evo [OF ok] th8AppendInPlace_evo [OF ok]
      th8SetVarValue_evo [OF ok] Th8_UnsetVar_evo [OF ok] Th8_ExistsVar_evo [OF ok] Th8_LinkVar_evo [OF ok] push pop)
qed

end
