(* ===== verification/Th8_ArraySearch.thy ===== *)
theory Th8_ArraySearch
  imports Th8_ArrayLife
begin

text \<open>
  Array searches: \<open>array startsearch\<close>, \<open>nextelement\<close>, \<open>anymore\<close> and \<open>donesearch\<close> of
  \<open>src/src/plugins/th8_variables.c\<close>, with the search records of \<open>src/src/th8_vars.h\<close>.

  \<^item> A search keeps a pointer into the element table of its array across commands. The table is
    identified by the number of its creation, an entry by its key; using
    the pointer of a table that no variable owns, or of a key that is not in it, is the outcome
    \<open>Dangling\<close>. The search itself keeps the generation and the epoch as the 32-bit integers of the code, so a stale search
    is recognised only as long as these counters do not wrap around.
  \<^item> The walk follows the buckets of the hash table; \<open>bucket_keys\<close> is the chain of a bucket, newest
    entry first, in terms of the entries in creation order (\<open>bucket_keys_refines\<close>).
\<close>

section \<open>State\<close>

record th8ArraySearch =
  as_array :: string
  as_hash :: int
  as_epoch :: int
  as_generation :: int
  as_bucket :: nat
  as_cursor :: "string option"

record search_state =
  vars :: vstate
  paArraySearch :: "(string \<times> th8ArraySearch option) list option"
  iArraySearchCounter :: int

definition bucket_keys :: "hash_seed \<Rightarrow> vtable \<Rightarrow> nat \<Rightarrow> string list" where
  "bucket_keys s t i = rev (map fst (filter (\<lambda>e. th8HashKey s (fst e) = i) t))"

definition chain_head :: "string list \<Rightarrow> string option" where
  "chain_head ks = (case ks of [] \<Rightarrow> None | k # _ \<Rightarrow> Some k)"

definition chain_next :: "string list \<Rightarrow> string \<Rightarrow> string option" where
  "chain_next ks k = chain_head (tl (dropWhile (\<lambda>x. x \<noteq> k) ks))"

function th8ArraySearchSkipEmpty :: "hash_seed \<Rightarrow> vtable \<Rightarrow> nat \<Rightarrow> string option \<Rightarrow> nat \<times> string option" where
  "th8ArraySearchSkipEmpty s t i c =
     (if c \<noteq> None then (i, c)
      else if Suc i \<ge> TH8_HASH_SIZE then (Suc i, None)
      else th8ArraySearchSkipEmpty s t (Suc i) (chain_head (bucket_keys s t (Suc i))))"
  by pat_completeness auto
termination th8ArraySearchSkipEmpty
  by (relation "measure (\<lambda>(s, t, i, c). TH8_HASH_SIZE - i)") auto

declare th8ArraySearchSkipEmpty.simps [simp del]

text \<open>The identity of the element table of an array, and the table that such a pointer, kept by a search, refers to.\<close>

definition array_hash_id :: "string \<Rightarrow> vstate \<Rightarrow> int run" where
  "array_hash_id zVar st = andThen (frame_array zVar st) (\<lambda>(i, r).
     case (i, r) of (None, Some v) \<Rightarrow> Inr (if pHash v = None then - 1 else nGeneration v) | _ \<Rightarrow> Inr (- 1))"

definition table_at :: "int \<Rightarrow> vstate \<Rightarrow> vtable run" where
  "table_at g st =
     (case find (\<lambda>a. case cells st a of None \<Rightarrow> False | Some v \<Rightarrow> pHash v \<noteq> None \<and> nGeneration v = g) [0..<nFresh st] of
        None \<Rightarrow> Inl Dangling
      | Some a \<Rightarrow> get_table (Elements a) st)"

section \<open>Commands\<close>

definition text_error :: "string \<Rightarrow> cmd_arg \<Rightarrow> string \<Rightarrow> vstate \<Rightarrow> int \<times> vstate" where
  "text_error pre a post st =
     (case allocs 3 st of
        (False, st) \<Rightarrow> (TH8_ERROR, static_result ''out of memory'' st)
      | (True, st) \<Rightarrow>
          (let zErr = pre @ bytes_of (fst a) (snd a) @ post in
           (TH8_ERROR, snd (Th8_SetResult (Some zErr) (of_nat (length zErr) OR (snd a AND TH8_TAG_BITS)) st))))"

text \<open>The outcome of a step on the variables alone.\<close>

definition on_vars :: "(int \<times> vstate) run \<Rightarrow> search_state \<Rightarrow> (int \<times> search_state) run" where
  "on_vars m st = andThen m (\<lambda>(rc, v). Inr (rc, st\<lparr>vars := v\<rparr>))"

definition search_id :: "int \<Rightarrow> string \<Rightarrow> string" where
  "search_id counter z =
     (let zSid = ''s-'' @ int_text counter @ ''-'' @ takeWhile (\<lambda>c. c \<noteq> CHR 0x00) z in
      if length zSid \<ge> 64 then ''s-'' @ int_text counter @ ''-array'' else zSid)"

definition th8ArraySearchFind :: "string \<Rightarrow> string \<Rightarrow> search_state \<Rightarrow> (th8ArraySearch option \<times> search_state) run" where
  "th8ArraySearchFind zSid zArray st =
     (case paArraySearch st of
        None \<Rightarrow> Inr (None, st)
      | Some tab \<Rightarrow>
          (case map_of tab zSid of
             Some (Some p) \<Rightarrow>
               (let gone = (None, st\<lparr>paArraySearch := Some (dict_step (Remove zSid) tab)\<rparr>) in
                if as_array p \<noteq> zArray then Inr (None, st)
                else
                  andThen (th8GetArrayElementHash (as_array p) (vars st)) (\<lambda>h.
                    if h = None then Inr gone
                    else
                      andThen (th8GetArrayGeneration (as_array p) (vars st)) (\<lambda>g.
                        if g \<noteq> as_generation p then Inr gone
                        else
                          andThen (th8GetArrayEpoch (as_array p) (vars st)) (\<lambda>e.
                            if e \<noteq> as_epoch p then Inr gone else Inr (Some p, st)))))
           | _ \<Rightarrow> Inr (None, st)))"

text \<open>The registration of a new search under its identifier.\<close>

definition register_search :: "string \<Rightarrow> th8ArraySearch \<Rightarrow> search_state \<Rightarrow> int \<times> search_state" where
  "register_search zSid p st =
     (let tab = (case paArraySearch st of None \<Rightarrow> [] | Some tab \<Rightarrow> tab) in
      case (if zSid \<in> fst ` set tab then (True, vars st) else allocs 2 (vars st)) of
        (False, v) \<Rightarrow> (TH8_ERROR, st\<lparr>vars := v\<rparr>)
      | (True, v) \<Rightarrow>
          (TH8_OK, st\<lparr>vars := snd (Th8_SetResult (Some zSid) (of_nat (length zSid)) v),
             paArraySearch := Some (dict_step (Assign zSid (Some p)) (dict_step (Create zSid) tab))\<rparr>))"

definition first_cursor :: "hash_seed \<Rightarrow> vtable option \<Rightarrow> nat \<times> string option" where
  "first_cursor s h =
     (case h of None \<Rightarrow> (0, None) | Some t \<Rightarrow> th8ArraySearchSkipEmpty s t 0 (chain_head (bucket_keys s t 0)))"

definition array_startsearch_command ::
  "nat \<Rightarrow> hash_seed \<Rightarrow> cmd_arg list \<Rightarrow> search_state \<Rightarrow> (int \<times> search_state) run" where
  "array_startsearch_command depth s argv st =
     (if length argv \<noteq> 3 then on_vars (Th8_WrongNumArgs depth ''array startsearch arrayName'' (vars st)) st
      else
        (let a = argv ! 2; z = bytes_of (fst a) (snd a) in
         andThen (Th8_ExistsArrayVar z (vars st)) (\<lambda>ex.
           if \<not> ex then on_vars (Inr (text_error [DQ] a ([DQ] @ '' isn't an array'') (vars st))) st
           else
             andThen (th8GetArrayElementHash z (vars st)) (\<lambda>h.
             andThen (th8GetArrayEpoch z (vars st)) (\<lambda>e.
             andThen (th8GetArrayGeneration z (vars st)) (\<lambda>g.
             andThen (array_hash_id z (vars st)) (\<lambda>tid.
               case (if paArraySearch st = None then allocs 1 (vars st) else (True, vars st)) of
                 (False, v) \<Rightarrow> Inr (TH8_ERROR, st\<lparr>vars := v\<rparr>)
               | (True, v) \<Rightarrow>
                   (let st = st\<lparr>vars := v, paArraySearch := Some (case paArraySearch st of None \<Rightarrow> [] | Some tab \<Rightarrow> tab)\<rparr> in
                    case allocs 1 v of
                      (False, v) \<Rightarrow> Inr (TH8_ERROR, st\<lparr>vars := v\<rparr>)
                    | (True, v) \<Rightarrow>
                        if snd a = - 1 \<or> snd a + 1 > TH8_MX_ALLOC then Inr (TH8_ERROR, st\<lparr>vars := v\<rparr>)
                        else
                          (case allocs 1 v of
                             (False, v) \<Rightarrow> Inr (TH8_ERROR, st\<lparr>vars := v\<rparr>)
                           | (True, v) \<Rightarrow>
                               (let (i, c) = first_cursor s h; counter = wrap32 (iArraySearchCounter st + 1);
                                    p = \<lparr>as_array = z, as_hash = tid, as_epoch = e, as_generation = g, as_bucket = i, as_cursor = c\<rparr>
                                in Inr (register_search (search_id counter z) p (st\<lparr>vars := v, iArraySearchCounter := counter\<rparr>)))))))))))) "

definition no_search :: "cmd_arg \<Rightarrow> vstate \<Rightarrow> int \<times> vstate" where
  "no_search a st = text_error (''couldn't find search '' @ [DQ]) a [DQ] st"

text \<open>The lookup that the other three commands start with.\<close>

definition with_search ::
  "nat \<Rightarrow> string \<Rightarrow> cmd_arg list \<Rightarrow> (th8ArraySearch \<Rightarrow> search_state \<Rightarrow> (int \<times> search_state) run) \<Rightarrow> search_state \<Rightarrow> (int \<times> search_state) run" where
  "with_search depth usage argv k st =
     (if length argv \<noteq> 4 then on_vars (Th8_WrongNumArgs depth usage (vars st)) st
      else
        andThen (th8ArraySearchFind (bytes_of (fst (argv ! 3)) (snd (argv ! 3))) (bytes_of (fst (argv ! 2)) (snd (argv ! 2))) st) (\<lambda>(r, st).
          case r of
            None \<Rightarrow> on_vars (Inr (no_search (argv ! 3) (vars st))) st
          | Some p \<Rightarrow> k p st))"

definition advance :: "hash_seed \<Rightarrow> vtable \<Rightarrow> string \<Rightarrow> th8ArraySearch \<Rightarrow> th8ArraySearch" where
  "advance s t k p =
     (let c = chain_next (bucket_keys s t (th8HashKey s k)) k;
          (i, c) = (if c = None then th8ArraySearchSkipEmpty s t (as_bucket p) None else (as_bucket p, c))
      in p\<lparr>as_bucket := i, as_cursor := c\<rparr>)"

definition array_nextelement_command ::
  "nat \<Rightarrow> hash_seed \<Rightarrow> cmd_arg list \<Rightarrow> search_state \<Rightarrow> (int \<times> search_state) run" where
  "array_nextelement_command depth s argv st =
     with_search depth ''array nextelement arrayName searchId'' argv (\<lambda>p st.
       case as_cursor p of
         None \<Rightarrow> Inr (TH8_OK, st\<lparr>vars := snd (Th8_SetResult None 0 (vars st))\<rparr>)
       | Some k \<Rightarrow>
           andThen (table_at (as_hash p) (vars st)) (\<lambda>t.
             if k \<notin> fst ` set t then Inl Dangling
             else Inr (TH8_OK, st\<lparr>vars := snd (Th8_SetResult (Some k) (of_nat (length k)) (vars st)),
               paArraySearch := map_option (dict_step (Assign (bytes_of (fst (argv ! 3)) (snd (argv ! 3))) (Some (advance s t k p)))) (paArraySearch st)\<rparr>))) st"

definition array_anymore_command :: "nat \<Rightarrow> cmd_arg list \<Rightarrow> search_state \<Rightarrow> (int \<times> search_state) run" where
  "array_anymore_command depth argv st =
     with_search depth ''array anymore arrayName searchId'' argv (\<lambda>p st.
       Inr (TH8_OK, st\<lparr>vars := snd (Th8_SetResultInt (if as_cursor p \<noteq> None then 1 else 0) (vars st))\<rparr>)) st"

definition th8ArraySearchRelease :: "string \<Rightarrow> search_state \<Rightarrow> search_state" where
  "th8ArraySearchRelease zSid st = st\<lparr>paArraySearch := map_option (dict_step (Remove zSid)) (paArraySearch st)\<rparr>"

definition array_donesearch_command :: "nat \<Rightarrow> cmd_arg list \<Rightarrow> search_state \<Rightarrow> (int \<times> search_state) run" where
  "array_donesearch_command depth argv st =
     with_search depth ''array donesearch arrayName searchId'' argv (\<lambda>p st.
       let st = th8ArraySearchRelease (bytes_of (fst (argv ! 3)) (snd (argv ! 3))) st
       in Inr (TH8_OK, st\<lparr>vars := snd (Th8_SetResult None 0 (vars st))\<rparr>)) st"

section \<open>Buckets\<close>

lemma bucket_keys_step:
  "bucket_keys s (dict_step (Create k) t) i = (if k \<in> fst ` set t \<or> th8HashKey s k \<noteq> i then bucket_keys s t i else k # bucket_keys s t i)"
  "bucket_keys s (dict_step (Remove k) t) i = filter (\<lambda>x. x \<noteq> k) (bucket_keys s t i)"
  "bucket_keys s (dict_step (Assign k d) t) i = bucket_keys s t i"
proof -
  show "bucket_keys s (dict_step (Create k) t) i = (if k \<in> fst ` set t \<or> th8HashKey s k \<noteq> i then bucket_keys s t i else k # bucket_keys s t i)"
    by (auto simp: bucket_keys_def dict_step.simps)
  show "bucket_keys s (dict_step (Remove k) t) i = filter (\<lambda>x. x \<noteq> k) (bucket_keys s t i)"
    by (induction t) (auto simp: bucket_keys_def dict_step.simps)
  show "bucket_keys s (dict_step (Assign k d) t) i = bucket_keys s t i"
    by (induction t) (auto simp: bucket_keys_def dict_step.simps)
qed

lemma set_bucket_keys: "k \<in> set (bucket_keys s t i) \<longleftrightarrow> k \<in> fst ` set t \<and> th8HashKey s k = i"
  by (auto simp: bucket_keys_def)

lemma distinct_bucket_keys: "distinct (map fst t) \<Longrightarrow> distinct (bucket_keys s t i)"
  by (auto simp: bucket_keys_def distinct_map_filter)

text \<open>The chain of a bucket of the hash table is the one computed from the entries in creation order.\<close>

lemma bucket_keys_refines:
  assumes "i < TH8_HASH_SIZE"
  shows "map he_key (aBucket (fold (hash_step s) ops (hash_empty :: vaddr hash_table)) ! i) = bucket_keys s (fold dict_step ops []) i"
  using assms
proof (induction ops arbitrary: i rule: rev_induct)
  case Nil
  then show ?case by (simp add: hash_empty_def bucket_keys_def)
next
  case (snoc c ops)
  let ?h = "fold (hash_step s) ops (hash_empty :: vaddr hash_table)" and ?t = "fold dict_step ops [] :: vtable"
  have inv: "hash_inv s ?h" by (induction ops rule: rev_induct) (simp_all add: hash_inv_empty hash_step_inv)
  have len: "length (aBucket ?h) = TH8_HASH_SIZE" using inv by (simp add: hash_inv_def)
  have mem: "(\<exists>p \<in> set (aBucket ?h ! th8HashKey s k). he_key p = k) \<longleftrightarrow> k \<in> fst ` set ?t" for k
  proof -
    have "k \<in> set (map he_key (aBucket ?h ! th8HashKey s k)) \<longleftrightarrow> k \<in> fst ` set ?t"
      using snoc.IH [of "th8HashKey s k"] by (simp add: set_bucket_keys)
    then show ?thesis by auto
  qed
  note IH = snoc.IH [OF snoc.prems]
  show ?case
  proof (cases c)
    case (Create k)
    then show ?thesis using IH mem [of k] len snoc.prems
      by (auto simp: Th8_HashFind_def Let_def bucket_keys_step nth_list_update)
  next
    case (Remove k)
    have d: "distinct (map he_key (aBucket ?h ! th8HashKey s k))" using bucket_ok_hash [OF inv, of k] by (simp add: bucket_ok_def)
    have f: "map he_key (filter (\<lambda>p. he_key p \<noteq> k) ps) = filter (\<lambda>x. x \<noteq> k) (map he_key ps)" for ps :: "vaddr hash_entry list"
      by (induction ps) auto
    have g: "filter (\<lambda>x. x \<noteq> k) (bucket_keys s ?t i) = bucket_keys s ?t i" if "k \<notin> fst ` set ?t \<or> i \<noteq> th8HashKey s k"
      using that by (auto simp: filter_id_conv set_bucket_keys)
    then show ?thesis using Remove IH mem [of k] len snoc.prems
      by (auto simp: Th8_HashRemove_def Th8_HashFind_def Let_def bucket_keys_step nth_list_update chain_remove_filter [OF d] f)
  next
    case (Assign k d)
    then show ?thesis using IH len snoc.prems
      by (auto simp: entry_set_data_def Let_def bucket_keys_step nth_list_update o_def if_distrib cong: if_cong)
  qed
qed

section \<open>Reachable states\<close>

datatype search_op =
    VarOp var_op
  | StartOp "cmd_arg list"
  | NextOp "cmd_arg list"
  | AnymoreOp "cmd_arg list"
  | DoneOp "cmd_arg list"

fun search_exec :: "nat \<Rightarrow> hash_seed \<Rightarrow> search_op \<Rightarrow> search_state \<Rightarrow> (int \<times> search_state) run" where
  "search_exec depth s (VarOp c) st = andThen (var_exec depth c (vars st)) (\<lambda>v. Inr (TH8_OK, st\<lparr>vars := v\<rparr>))"
| "search_exec depth s (StartOp argv) st = array_startsearch_command depth s argv st"
| "search_exec depth s (NextOp argv) st = array_nextelement_command depth s argv st"
| "search_exec depth s (AnymoreOp argv) st = array_anymore_command depth argv st"
| "search_exec depth s (DoneOp argv) st = array_donesearch_command depth argv st"

fun search_allowed :: "search_op \<Rightarrow> search_state \<Rightarrow> bool" where
  "search_allowed (VarOp c) st = allowed c (vars st)"
| "search_allowed _ st = True"

definition sinit :: "bool list \<Rightarrow> search_state" where
  "sinit outcomes = \<lparr>vars = vinit outcomes, paArraySearch = None, iArraySearchCounter = 0\<rparr>"

inductive search_reach :: "nat \<Rightarrow> hash_seed \<Rightarrow> search_state \<Rightarrow> bool" for depth s where
  init: "search_reach depth s (sinit outcomes)"
| step: "search_reach depth s st \<Longrightarrow> search_allowed c st \<Longrightarrow> search_exec depth s c st = Inr (rc, st') \<Longrightarrow> search_reach depth s st'"

text \<open>
  The counters that searches compare are in the range of the C type \<open>int\<close>; and the states reached while they were
  so all the time.
\<close>

definition counters_fit :: "vstate \<Rightarrow> bool" where
  "counters_fit vs \<longleftrightarrow> iArrayHashGeneration vs < 2 ^ 31 \<and>
     (\<forall>a v. cells vs a = Some v \<longrightarrow> pHash v \<noteq> None \<longrightarrow> - (2 ^ 31) \<le> nEpoch v \<and> nEpoch v < 2 ^ 31)"

inductive fit_reach :: "nat \<Rightarrow> hash_seed \<Rightarrow> search_state \<Rightarrow> bool" for depth s where
  init: "fit_reach depth s (sinit outcomes)"
| step: "fit_reach depth s st \<Longrightarrow> counters_fit (vars st) \<Longrightarrow> search_allowed c st \<Longrightarrow> search_exec depth s c st = Inr (rc, st') \<Longrightarrow>
    fit_reach depth s st'"

section \<open>The invariant\<close>

text \<open>
  A search whose table is still there, at the epoch it was started at, has a cursor on an entry of the
  table, in the bucket it says.
\<close>

definition search_ok :: "hash_seed \<Rightarrow> th8ArraySearch \<Rightarrow> vstate \<Rightarrow> bool" where
  "search_ok s p vs \<longleftrightarrow> as_hash p = as_generation p \<and> as_generation p \<le> iArrayHashGeneration vs \<and>
     (\<forall>a v t. cells vs a = Some v \<longrightarrow> pHash v = Some t \<longrightarrow> nGeneration v = as_generation p \<longrightarrow>
        as_epoch p \<le> nEpoch v \<and>
        (nEpoch v = as_epoch p \<longrightarrow> (\<forall>k. as_cursor p = Some k \<longrightarrow> k \<in> fst ` set t \<and> th8HashKey s k = as_bucket p)))"

definition searches :: "search_state \<Rightarrow> (string \<times> th8ArraySearch option) list" where
  "searches st = (case paArraySearch st of None \<Rightarrow> [] | Some tab \<Rightarrow> tab)"

text \<open>The part on the searches holds as long as the counters fit, which is what the flag \<open>fit\<close> says.\<close>

definition search_inv :: "hash_seed \<Rightarrow> bool \<Rightarrow> search_state \<Rightarrow> bool" where
  "search_inv s fit st \<longleftrightarrow> vars_ok (vars st) \<and> active (vars st) \<and> gens_ok (vars st) \<and>
     (fit \<longrightarrow> (\<forall>z p. (z, Some p) \<in> set (searches st) \<longrightarrow> search_ok s p (vars st)))"

lemma search_ok_evolves:
  assumes ok: "search_ok s p vs" and ev: "evolves vs vs'"
  shows "search_ok s p vs'"
  unfolding search_ok_def
proof (intro conjI allI impI)
  show "as_hash p = as_generation p" using ok by (simp add: search_ok_def)
  have g: "as_generation p \<le> iArrayHashGeneration vs" using ok by (simp add: search_ok_def)
  then show "as_generation p \<le> iArrayHashGeneration vs'" using ev by (simp add: evolves_def)
  fix a v t assume v: "cells vs' a = Some v" "pHash v = Some t" "nGeneration v = as_generation p"
  have "grown (iArrayHashGeneration vs) (cells vs a) (cells vs' a)" using ev by (simp add: evolves_def)
  with v g obtain x u where x: "cells vs a = Some x" "pHash x = Some u" "nGeneration x = as_generation p"
      "nEpoch x < nEpoch v \<or> nEpoch v = nEpoch x \<and> fst ` set u \<subseteq> fst ` set t" unfolding grown_def by fastforce
  have "as_epoch p \<le> nEpoch x" "nEpoch x = as_epoch p \<longrightarrow> (\<forall>k. as_cursor p = Some k \<longrightarrow> k \<in> fst ` set u \<and> th8HashKey s k = as_bucket p)"
    using ok x(1-3) unfolding search_ok_def by blast+
  with x(4) show "as_epoch p \<le> nEpoch v" "\<And>k. nEpoch v = as_epoch p \<Longrightarrow> as_cursor p = Some k \<Longrightarrow> k \<in> fst ` set t"
     "\<And>k. nEpoch v = as_epoch p \<Longrightarrow> as_cursor p = Some k \<Longrightarrow> th8HashKey s k = as_bucket p" by auto
qed

lemma search_inv_evolves:
  assumes "search_inv s fit st" "evolves (vars st) v" "vars_ok v" "active v"
    and "\<And>z p. fit \<Longrightarrow> (z, Some p) \<in> set (searches st') \<Longrightarrow> (z, Some p) \<in> set (searches st) \<or> search_ok s p v" "vars st' = v"
  shows "search_inv s fit st'"
proof -
  have "gens_ok v" using assms(1,2) by (auto simp: search_inv_def evolves_def)
  then show ?thesis using assms search_ok_evolves [OF _ assms(2)] unfolding search_inv_def by metis
qed

text \<open>A found search is the one registered, and its array is the table it was started on.\<close>

lemma frame_array_live:
  assumes "frame_array z vs = Inr (i, Some v)"
  shows "\<exists>a. cells vs a = Some v"
proof -
  obtain o' j g where an: "th8AnalyzeVarName z = (o', j, g)" by (cases "th8AnalyzeVarName z") auto
  from assms show ?thesis
    by (auto simp: frame_array_def an deref_def Let_def split: option.splits if_splits)
qed

lemma search_find:
  assumes inv: "search_inv s fit st"
  shows "\<exists>r st'. th8ArraySearchFind zSid zArray st = Inr (r, st') \<and> vars st' = vars st \<and> set (searches st') \<subseteq> set (searches st) \<and>
    iArraySearchCounter st' = iArraySearchCounter st \<and>
    (\<forall>p. r = Some p \<longrightarrow> st' = st \<and> (zSid, Some p) \<in> set (searches st) \<and> as_array p = zArray \<and>
       (\<exists>a v t. cells (vars st) a = Some v \<and> pHash v = Some t \<and> wrap32 (nGeneration v) = as_generation p \<and> wrap32 (nEpoch v) = as_epoch p))"
proof (cases "\<exists>tab p. paArraySearch st = Some tab \<and> map_of tab zSid = Some (Some p)")
  case False
  then have "th8ArraySearchFind zSid zArray st = Inr (None, st)" by (auto simp: th8ArraySearchFind_def split: option.splits)
  then show ?thesis by auto
next
  case True
  then obtain tab p where p: "paArraySearch st = Some tab" "map_of tab zSid = Some (Some p)" by blast
  let ?gone = "st\<lparr>paArraySearch := Some (dict_step (Remove zSid) tab)\<rparr>"
  have gone: "set (searches ?gone) \<subseteq> set (searches st)" using p(1) by (auto simp: searches_def dict_step.simps)
  have mem: "(zSid, Some p) \<in> set (searches st)" using p by (simp add: searches_def map_of_SomeD)
  have ok: "vars_ok (vars st)" "active (vars st)" using inv by (simp_all add: search_inv_def)
  from frame_array_ok [OF ok, of "as_array p"] obtain i r where f: "frame_array (as_array p) (vars st) = Inr (i, r)" by fastforce
  show ?thesis
  proof (cases "i = None \<and> (\<exists>v. r = Some v \<and> pHash v \<noteq> None)")
    case False
    then have "th8GetArrayElementHash (as_array p) (vars st) = Inr None"
      using f by (auto simp: th8GetArrayElementHash_def split: option.splits)
    then have "th8ArraySearchFind zSid zArray st = Inr (if as_array p \<noteq> zArray then (None, st) else (None, ?gone))"
      using p by (cases "as_array p = zArray") (auto simp: th8ArraySearchFind_def Let_def)
    then show ?thesis using gone by auto
  next
    case True
    then obtain v t where v: "r = Some v" "pHash v = Some t" and i: "i = None" by blast
    from frame_array_live f v(1) obtain a where a: "cells (vars st) a = Some v" by blast
    have "th8ArraySearchFind zSid zArray st = Inr (if as_array p \<noteq> zArray then (None, st)
        else if wrap32 (nGeneration v) \<noteq> as_generation p \<or> wrap32 (nEpoch v) \<noteq> as_epoch p then (None, ?gone) else (Some p, st))"
      using p f v i by (cases "as_array p = zArray")
        (auto simp: th8ArraySearchFind_def th8GetArrayElementHash_def th8GetArrayGeneration_def th8GetArrayEpoch_def Let_def)
    then show ?thesis using a v(2) mem gone by auto
  qed
qed

lemma table_at_live:
  assumes ok: "vars_ok vs" "gens_ok vs" and v: "cells vs a = Some v" "pHash v = Some t"
  shows "table_at (nGeneration v) vs = Inr t"
proof -
  let ?P = "\<lambda>a. case cells vs a of None \<Rightarrow> False | Some u \<Rightarrow> pHash u \<noteq> None \<and> nGeneration u = nGeneration v"
  have "a < nFresh vs" using vars_inv_cell [OF ok(1) v(1)] by simp
  then have "find ?P [0..<nFresh vs] \<noteq> None" using v by (auto simp: find_None_iff)
  then obtain b where b: "find ?P [0..<nFresh vs] = Some b" by blast
  then have "?P b" by (auto simp: find_Some_iff)
  then have "b = a" using ok(2) v unfolding gens_ok_def by (fastforce split: option.splits)
  then show ?thesis using b v by (simp add: table_at_def deref_def)
qed

section \<open>Every command keeps the invariant\<close>

definition sruns :: "hash_seed \<Rightarrow> bool \<Rightarrow> (int \<times> search_state) run \<Rightarrow> bool" where
  "sruns s fit m \<longleftrightarrow> (case m of Inl f \<Rightarrow> fit \<longrightarrow> f = StackOverflow | Inr x \<Rightarrow> search_inv s fit (snd x))"

lemma sruns_simps [simp]: "sruns s fit (Inl f) \<longleftrightarrow> fit \<longrightarrow> f = StackOverflow" "sruns s fit (Inr (rc, st)) \<longleftrightarrow> search_inv s fit st"
  by (simp_all add: sruns_def)

lemma allocs_ok:
  assumes "vars_ok vs" "active vs" "allocs n vs = (b, v)"
  shows "vars_ok v \<and> active v \<and> evolves vs v \<and> cells v = cells vs \<and> iArrayHashGeneration v = iArrayHashGeneration vs"
proof -
  obtain b' bs where "allocs n vs = (b', vs\<lparr>ram := bs\<rparr>)" by (rule allocs_cases)
  with assms show ?thesis by auto
qed

lemma on_vars_ok:
  assumes inv: "search_inv s fit st" and r: "runs {StackOverflow} (vars st) m snd Q" "evo (vars st) m snd"
  shows "sruns s fit (on_vars m st)"
proof (cases m)
  case (Inr x)
  with r have "vars_ok (snd x)" "active (snd x)" "evolves (vars st) (snd x)" by auto
  then have "search_inv s fit (st\<lparr>vars := snd x\<rparr>)" by (rule_tac search_inv_evolves [OF inv]) (auto simp: searches_def)
  with Inr show ?thesis by (simp add: on_vars_def case_prod_beta)
qed (use r in \<open>simp add: on_vars_def\<close>)

lemma text_error_ok:
  assumes ok: "vars_ok vs" "active vs"
  shows "runs {StackOverflow} vs (Inr (text_error pre a post vs)) snd (\<lambda>_. True)" "evo vs (Inr (text_error pre a post vs)) snd"
proof -
  obtain b bs where a: "allocs 3 vs = (b, vs\<lparr>ram := bs\<rparr>)" "set bs \<subseteq> set (ram vs)" by (rule allocs_cases)
  have s: "vars_ok (vs\<lparr>ram := bs\<rparr>)" "active (vs\<lparr>ram := bs\<rparr>)" using ok by simp_all
  show "runs {StackOverflow} vs (Inr (text_error pre a post vs)) snd (\<lambda>_. True)"
    using a keeps_ram [OF a(2)] ok Th8_SetResult_ok [OF s] keeps_trans [OF keeps_ram [OF a(2)]]
    by (cases b) (auto simp: text_error_def Let_def)
  show "evo vs (Inr (text_error pre a post vs)) snd" using a by (cases b) (simp_all add: text_error_def Let_def)
qed

lemma wrong_args_ok:
  assumes "search_inv s fit st"
  shows "sruns s fit (on_vars (Th8_WrongNumArgs depth z (vars st)) st)"
proof -
  have ok: "vars_ok (vars st)" "active (vars st)" using assms by (simp_all add: search_inv_def)
  show ?thesis unfolding Th8_WrongNumArgs_def
    by (rule on_vars_ok [OF assms errorMessage_ok [OF ok] errorMessage_evo [OF ok]])
qed

lemma with_search_ok:
  assumes inv: "search_inv s fit st"
    and k: "\<And>p a v t. (bytes_of (fst (argv ! 3)) (snd (argv ! 3)), Some p) \<in> set (searches st) \<Longrightarrow> cells (vars st) a = Some v \<Longrightarrow> pHash v = Some t \<Longrightarrow>
      wrap32 (nGeneration v) = as_generation p \<Longrightarrow> wrap32 (nEpoch v) = as_epoch p \<Longrightarrow> sruns s fit (k p st)"
  shows "sruns s fit (with_search depth usage argv k st)"
proof (cases "length argv = 4")
  case False
  then show ?thesis using wrong_args_ok [OF inv] by (simp add: with_search_def)
next
  case True
  let ?sid = "bytes_of (fst (argv ! 3)) (snd (argv ! 3))" and ?arr = "bytes_of (fst (argv ! 2)) (snd (argv ! 2))"
  from search_find [OF inv, of ?sid ?arr] obtain r st' where
    f: "th8ArraySearchFind ?sid ?arr st = Inr (r, st')" "vars st' = vars st" "set (searches st') \<subseteq> set (searches st)"
    and p: "\<And>p. r = Some p \<Longrightarrow> st' = st \<and> (?sid, Some p) \<in> set (searches st) \<and>
       (\<exists>a v t. cells (vars st) a = Some v \<and> pHash v = Some t \<and> wrap32 (nGeneration v) = as_generation p \<and> wrap32 (nEpoch v) = as_epoch p)" by blast
  have inv': "search_inv s fit st'" using inv f(2,3) by (auto simp: search_inv_def)
  have ok: "vars_ok (vars st')" "active (vars st')" using inv' by (simp_all add: search_inv_def)
  show ?thesis
  proof (cases r)
    case None
    then show ?thesis using True f(1) on_vars_ok [OF inv' text_error_ok [OF ok]] by (simp add: with_search_def no_search_def)
  next
    case (Some q)
    from p [OF this] k have "sruns s fit (k q st')" by metis
    with Some True f(1) show ?thesis by (simp add: with_search_def)
  qed
qed

lemma skip_cursor:
  "th8ArraySearchSkipEmpty s t i c = (i', Some k) \<Longrightarrow> (\<And>k. c = Some k \<Longrightarrow> k \<in> set (bucket_keys s t i)) \<Longrightarrow> k \<in> set (bucket_keys s t i')"
proof (induction s t i c rule: th8ArraySearchSkipEmpty.induct)
  case (1 s t i c)
  show ?case
  proof (cases "c = None \<and> Suc i < TH8_HASH_SIZE")
    case True
    with 1(2) have r: "th8ArraySearchSkipEmpty s t (Suc i) (chain_head (bucket_keys s t (Suc i))) = (i', Some k)"
      by (simp add: th8ArraySearchSkipEmpty.simps [of s t i])
    show ?thesis by (rule 1(1) [OF _ _ r]) (use True in \<open>auto simp: chain_head_def split: list.splits\<close>)
  next
    case False
    with 1(2,3) show ?thesis by (auto simp: th8ArraySearchSkipEmpty.simps [of s t i] split: if_splits)
  qed
qed

lemma advance_sel [simp]:
  "as_array (advance s t k p) = as_array p" "as_hash (advance s t k p) = as_hash p" "as_epoch (advance s t k p) = as_epoch p"
  "as_generation (advance s t k p) = as_generation p"
  by (simp_all add: advance_def Let_def split: prod.splits)

lemma advance_cursor:
  assumes "th8HashKey s k = as_bucket p" "as_cursor (advance s t k p) = Some k'"
  shows "k' \<in> fst ` set t \<and> th8HashKey s k' = as_bucket (advance s t k p)"
proof -
  let ?c = "chain_next (bucket_keys s t (as_bucket p)) k"
  have n: "k' \<in> set (bucket_keys s t (as_bucket p))" if "?c = Some k'"
  proof -
    let ?d = "dropWhile (\<lambda>x. x \<noteq> k) (bucket_keys s t (as_bucket p))"
    have "set (tl xs) \<subseteq> set xs" for xs :: "string list" by (cases xs) auto
    moreover have "k' \<in> set (tl ?d)" using that by (auto simp: chain_next_def chain_head_def split: list.splits)
    ultimately show ?thesis using set_dropWhileD by fast
  qed
  show ?thesis
  proof (cases ?c)
    case None
    obtain i c where sk: "th8ArraySearchSkipEmpty s t (as_bucket p) None = (i, c)" by fastforce
    with None assms have c: "c = Some k'" "as_bucket (advance s t k p) = i" by (simp_all add: advance_def Let_def)
    from skip_cursor [OF sk [unfolded c(1)]] c(2) show ?thesis by (simp add: set_bucket_keys)
  next
    case (Some x)
    with assms n show ?thesis by (auto simp: advance_def Let_def set_bucket_keys)
  qed
qed

lemma same_cells_search: "cells v = cells vs \<Longrightarrow> iArrayHashGeneration v = iArrayHashGeneration vs \<Longrightarrow> search_ok s p v = search_ok s p vs"
  by (simp add: search_ok_def)

lemma SetResult_gen [simp]:
  "cells (snd (Th8_SetResult z n vs)) = cells vs" "iArrayHashGeneration (snd (Th8_SetResult z n vs)) = iArrayHashGeneration vs"
proof -
  obtain b bs where a: "allocs 1 (vs\<lparr>vzResult := None, vnResult := 0\<rparr>) = (b, vs\<lparr>vzResult := None, vnResult := 0\<rparr>\<lparr>ram := bs\<rparr>)" by (rule allocs_cases)
  then show "cells (snd (Th8_SetResult z n vs)) = cells vs" "iArrayHashGeneration (snd (Th8_SetResult z n vs)) = iArrayHashGeneration vs"
    by (cases z; cases b; simp add: Th8_SetResult_def Let_def del: One_nat_def)+
qed

text \<open>A change of the result and of one search.\<close>

lemma result_inv:
  assumes inv: "search_inv s fit st" and p: "\<And>z q. fit \<Longrightarrow> (z, Some q) \<in> set (searches st') \<Longrightarrow> (z, Some q) \<in> set (searches st) \<or> search_ok s q (vars st)"
    and v: "vars st' = snd (Th8_SetResult r n (vars st))"
  shows "search_inv s fit st'"
proof -
  have ok: "vars_ok (vars st)" "active (vars st)" using inv by (simp_all add: search_inv_def)
  let ?v = "snd (Th8_SetResult r n (vars st))"
  have s: "search_ok s q ?v = search_ok s q (vars st)" for q by (rule same_cells_search) simp_all
  show ?thesis
    by (rule search_inv_evolves [OF inv, where v = ?v]) (use Th8_SetResult_ok [OF ok] p v s in auto)
qed

lemma fitting_counters:
  assumes "gens_ok vs" "counters_fit vs" "cells vs a = Some v" "pHash v = Some t"
  shows "wrap32 (nGeneration v) = nGeneration v" "wrap32 (nEpoch v) = nEpoch v"
proof -
  have "0 < nGeneration v" "nGeneration v < 2 ^ 31" using assms unfolding gens_ok_def counters_fit_def by fastforce+
  then show "wrap32 (nGeneration v) = nGeneration v" by (intro wrap32_id) simp_all
  have "- (2 ^ 31) \<le> nEpoch v" "nEpoch v < 2 ^ 31" using assms(2-4) unfolding counters_fit_def by blast+
  then show "wrap32 (nEpoch v) = nEpoch v" by (rule wrap32_id)
qed

lemma start_search_ok:
  assumes vs: "gens_ok vs" "frame_array z vs = Inr (i, r)" "i = None \<longrightarrow> r = Some v" and fit: "counters_fit vs"
    and p: "as_hash p = (if i = None then if pHash v = None then - 1 else nGeneration v else - 1)"
      "as_generation p = (if i = None then if pHash v = None then - 1 else wrap32 (nGeneration v) else - 1)"
      "as_epoch p = (if i = None then if pHash v = None then - 1 else wrap32 (nEpoch v) else - 1)"
      "(as_bucket p, as_cursor p) = first_cursor s (if i = None then pHash v else None)"
  shows "search_ok s p vs"
proof (cases "i = None \<and> pHash v \<noteq> None")
  case False
  with p have g: "as_hash p = - 1" "as_generation p = - 1" by auto
  have "nGeneration u \<noteq> - 1" if "cells vs a = Some u" "pHash u = Some t" for a u t
    using vs(1) that unfolding gens_ok_def by fastforce
  moreover have "0 \<le> iArrayHashGeneration vs" using vs(1) by (simp add: gens_ok_def)
  ultimately show ?thesis using g unfolding search_ok_def by auto
next
  case True
  then obtain t where t: "pHash v = Some t" by blast
  from frame_array_live vs(2,3) True obtain a where a: "cells vs a = Some v" by blast
  have p': "as_hash p = nGeneration v" "as_generation p = nGeneration v" "as_epoch p = nEpoch v"
      "th8ArraySearchSkipEmpty s t 0 (chain_head (bucket_keys s t 0)) = (as_bucket p, as_cursor p)"
    using p True t fitting_counters [OF vs(1) fit a] by (simp_all add: first_cursor_def)
  have c: "k \<in> fst ` set t \<and> th8HashKey s k = as_bucket p" if "as_cursor p = Some k" for k
  proof -
    have "k \<in> set (bucket_keys s t (as_bucket p))"
      by (rule skip_cursor [OF p'(4) [unfolded that]]) (auto simp: chain_head_def split: list.splits)
    then show ?thesis by (simp add: set_bucket_keys)
  qed
  have "u = v" if "cells vs b = Some u" "pHash u \<noteq> None" "nGeneration u = nGeneration v" for b u
    using vs(1) a t that unfolding gens_ok_def by (metis option.distinct(1) option.inject)
  with c t p'(1-3) a vs(1) show ?thesis unfolding search_ok_def gens_ok_def by (metis option.distinct(1) option.inject order_refl)
qed

lemma set_assign: "(z, Some q) \<in> set (dict_step (Assign k (Some p)) t) \<Longrightarrow> (z, Some q) \<in> set t \<or> q = p"
  by (auto simp: dict_step.simps split: if_splits)

lemma set_create: "(z, Some q) \<in> set (dict_step (Create k) t) \<Longrightarrow> (z, Some q) \<in> set t"
  by (auto simp: dict_step.simps split: if_splits)

lemma advance_ok:
  assumes ok: "gens_ok vs" "search_ok s p vs" and v: "cells vs a = Some v" "pHash v = Some t"
    and g: "nGeneration v = as_generation p" "nEpoch v = as_epoch p" and c: "as_cursor p = Some k"
  shows "k \<in> fst ` set t \<and> search_ok s (advance s t k p) vs"
proof -
  have k: "k \<in> fst ` set t" "th8HashKey s k = as_bucket p" using ok(2) v g c unfolding search_ok_def by blast+
  have u: "u = v" if "cells vs b = Some u" "pHash u \<noteq> None" "nGeneration u = nGeneration v" for b u
    using ok(1) v that unfolding gens_ok_def by (metis option.distinct(1) option.inject)
  have "search_ok s (advance s t k p) vs"
    unfolding search_ok_def
  proof (intro conjI allI impI)
    show "as_hash (advance s t k p) = as_generation (advance s t k p)" "as_generation (advance s t k p) \<le> iArrayHashGeneration vs"
      using ok(2) by (simp_all add: search_ok_def)
    fix b w r assume "cells vs b = Some w" "pHash w = Some r" "nGeneration w = as_generation (advance s t k p)"
    with u g have w: "w = v" by simp
    with \<open>pHash w = Some r\<close> v(2) have r: "r = t" by simp
    show "as_epoch (advance s t k p) \<le> nEpoch w" using w g by simp
    fix x assume "as_cursor (advance s t k p) = Some x"
    from advance_cursor [OF k(2) this] r show "x \<in> fst ` set r" "th8HashKey s x = as_bucket (advance s t k p)" by simp_all
  qed
  with k(1) show ?thesis by blast
qed

lemma array_nextelement_ok:
  assumes inv: "search_inv s fit st" and fit: "fit \<Longrightarrow> counters_fit (vars st)"
  shows "sruns s fit (array_nextelement_command depth s argv st)"
  unfolding array_nextelement_command_def
proof (rule with_search_ok [OF inv])
  fix p a v t
  let ?sid = "bytes_of (fst (argv ! 3)) (snd (argv ! 3))"
  assume p: "(?sid, Some p) \<in> set (searches st)" and v: "cells (vars st) a = Some v" "pHash v = Some t"
    and g: "wrap32 (nGeneration v) = as_generation p" "wrap32 (nEpoch v) = as_epoch p"
  let ?next = "\<lambda>k t. st\<lparr>vars := snd (Th8_SetResult (Some k) (of_nat (length k)) (vars st)),
               paArraySearch := map_option (dict_step (Assign ?sid (Some (advance s t k p)))) (paArraySearch st)\<rparr>"
  have next_ok: "search_inv s fit (?next k t)" if "fit \<Longrightarrow> search_ok s (advance s t k p) (vars st)" for k t
    by (rule result_inv [OF inv]) (use that in \<open>auto simp: searches_def split: option.splits dest: set_assign\<close>)
  show "sruns s fit (case as_cursor p of None \<Rightarrow> Inr (TH8_OK, st\<lparr>vars := snd (Th8_SetResult None 0 (vars st))\<rparr>)
     | Some k \<Rightarrow> andThen (table_at (as_hash p) (vars st)) (\<lambda>t. if k \<notin> fst ` set t then Inl Dangling
         else Inr (TH8_OK, ?next k t)))"
  proof (cases "as_cursor p")
    case None
    have "search_inv s fit (st\<lparr>vars := snd (Th8_SetResult None 0 (vars st))\<rparr>)" by (rule result_inv [OF inv]) (auto simp: searches_def)
    with None show ?thesis by simp
  next
    case (Some k)
    show ?thesis
    proof (cases fit)
      case True
      have ok: "vars_ok (vars st)" "gens_ok (vars st)" "search_ok s p (vars st)" using inv p True by (auto simp: search_inv_def)
      have e: "nGeneration v = as_generation p" "nEpoch v = as_epoch p" using g fitting_counters [OF ok(2) fit [OF True] v] by simp_all
      have "table_at (as_hash p) (vars st) = Inr t" using table_at_live [OF ok(1,2) v] e(1) ok(3) by (simp add: search_ok_def)
      with Some advance_ok [OF ok(2,3) v e Some] next_ok show ?thesis by simp
    next
      case False
      with Some next_ok show ?thesis by (cases "table_at (as_hash p) (vars st)") simp_all
    qed
  qed
qed

lemma array_anymore_ok:
  assumes inv: "search_inv s fit st"
  shows "sruns s fit (array_anymore_command depth argv st)"
  unfolding array_anymore_command_def
  by (rule with_search_ok [OF inv]) (auto simp: Th8_SetResultInt_def searches_def intro!: result_inv [OF inv])

lemma array_donesearch_ok:
  assumes inv: "search_inv s fit st"
  shows "sruns s fit (array_donesearch_command depth argv st)"
  unfolding array_donesearch_command_def
  by (rule with_search_ok [OF inv])
    (auto simp: th8ArraySearchRelease_def searches_def Let_def dict_step.simps split: option.splits intro!: result_inv [OF inv])

lemma register_ok:
  assumes inv: "search_inv s fit st" and p: "fit \<Longrightarrow> search_ok s p (vars st)"
  shows "sruns s fit (Inr (register_search zSid p st))"
proof -
  let ?tab = "searches st"
  have ok: "vars_ok (vars st)" "active (vars st)" using inv by (simp_all add: search_inv_def)
  obtain b v where al: "(if zSid \<in> fst ` set ?tab then (True, vars st) else allocs 2 (vars st)) = (b, v)" by fastforce
  then have v: "vars_ok v \<and> active v \<and> evolves (vars st) v" using ok allocs_ok [OF ok, of 2 b v] by (auto split: if_splits)
  have iv: "search_inv s fit (st\<lparr>vars := v\<rparr>)" by (rule search_inv_evolves [OF inv, of v]) (use v in \<open>auto simp: searches_def\<close>)
  have "search_inv s fit (st\<lparr>vars := snd (Th8_SetResult (Some zSid) (of_nat (length zSid)) v),
      paArraySearch := Some (dict_step (Assign zSid (Some p)) (dict_step (Create zSid) ?tab))\<rparr>)"
  proof (rule result_inv [OF iv])
    fix z q
    assume fit and "(z, Some q) \<in> set (searches (st\<lparr>vars := snd (Th8_SetResult (Some zSid) (of_nat (length zSid)) v),
      paArraySearch := Some (dict_step (Assign zSid (Some p)) (dict_step (Create zSid) ?tab))\<rparr>))"
    from this(2) have "(z, Some q) \<in> set ?tab \<or> q = p" using set_assign [of z q zSid p "dict_step (Create zSid) ?tab"] set_create [of z q zSid ?tab]
      by (auto simp: searches_def)
    then show "(z, Some q) \<in> set (searches (st\<lparr>vars := v\<rparr>)) \<or> search_ok s q (vars (st\<lparr>vars := v\<rparr>))"
      using search_ok_evolves [OF p [OF \<open>fit\<close>]] v by (auto simp: searches_def)
  qed simp
  with al iv show ?thesis by (cases b) (simp_all add: register_search_def searches_def Let_def)
qed

lemma array_startsearch_ok:
  assumes inv: "search_inv s fit st" and fit: "fit \<Longrightarrow> counters_fit (vars st)"
  shows "sruns s fit (array_startsearch_command depth s argv st)"
proof (cases "length argv = 3")
  case False
  then show ?thesis using wrong_args_ok [OF inv] by (simp add: array_startsearch_command_def)
next
  case len: True
  have ok: "vars_ok (vars st)" "active (vars st)" and gs: "gens_ok (vars st)" using inv by (simp_all add: search_inv_def)
  let ?z = "bytes_of (fst (argv ! 2)) (snd (argv ! 2))"
  from frame_array_ok [OF ok, of ?z] obtain i r where f: "frame_array ?z (vars st) = Inr (i, r)" by fastforce
  show ?thesis
  proof (cases "\<exists>v. r = Some v \<and> pHash v \<noteq> None")
    case False
    then have "Th8_ExistsArrayVar ?z (vars st) = Inr False" using f by (auto simp: Th8_ExistsArrayVar_def split: option.splits)
    then show ?thesis using len on_vars_ok [OF inv text_error_ok [OF ok]] by (simp add: array_startsearch_command_def Let_def)
  next
    case True
    then obtain v where v: "r = Some v" "pHash v \<noteq> None" by blast
    let ?h = "if i = None then pHash v else None" and ?g = "if i = None then wrap32 (nGeneration v) else - 1" and ?e = "if i = None then wrap32 (nEpoch v) else - 1"
      and ?id = "if i = None then nGeneration v else - 1"
    have get: "Th8_ExistsArrayVar ?z (vars st) = Inr True" "th8GetArrayElementHash ?z (vars st) = Inr ?h"
        "th8GetArrayEpoch ?z (vars st) = Inr ?e" "th8GetArrayGeneration ?z (vars st) = Inr ?g" "array_hash_id ?z (vars st) = Inr ?id"
      using f v by (auto simp: array_hash_id_def Th8_ExistsArrayVar_def th8GetArrayElementHash_def th8GetArrayEpoch_def th8GetArrayGeneration_def split: option.splits)
    obtain b1 v1 where a1: "(if paArraySearch st = None then allocs 1 (vars st) else (True, vars st)) = (b1, v1)" by fastforce
    obtain b2 v2 where a2: "allocs 1 v1 = (b2, v2)" by fastforce
    obtain b3 v3 where a3: "allocs 1 v2 = (b3, v3)" by fastforce
    have v1: "vars_ok v1 \<and> active v1 \<and> evolves (vars st) v1 \<and> cells v1 = cells (vars st) \<and> iArrayHashGeneration v1 = iArrayHashGeneration (vars st)"
      using a1 ok allocs_ok [OF ok, of 1 b1 v1] by (auto split: if_splits)
    then have v2: "vars_ok v2 \<and> active v2 \<and> evolves (vars st) v2 \<and> cells v2 = cells (vars st) \<and> iArrayHashGeneration v2 = iArrayHashGeneration (vars st)"
      using allocs_ok [OF _ _ a2] evolves_trans [of "vars st" v1 v2] by auto
    then have v3: "vars_ok v3 \<and> active v3 \<and> evolves (vars st) v3 \<and> cells v3 = cells (vars st) \<and> iArrayHashGeneration v3 = iArrayHashGeneration (vars st)"
      using allocs_ok [OF _ _ a3] evolves_trans [of "vars st" v2 v3] by auto
    have iv: "search_inv s fit u" if "vars u = w" "w \<in> {v1, v2, v3}" "searches u = searches st" for u w
      by (rule search_inv_evolves [OF inv, of w]) (use v1 v2 v3 that in auto)
    obtain ib c where fc: "first_cursor s ?h = (ib, c)" by fastforce
    let ?p = "\<lparr>as_array = ?z, as_hash = ?id, as_epoch = ?e, as_generation = ?g, as_bucket = ib, as_cursor = c\<rparr>"
    let ?st = "st\<lparr>vars := v1, paArraySearch := Some (case paArraySearch st of None \<Rightarrow> [] | Some tab \<Rightarrow> tab)\<rparr>"
    let ?n = "wrap32 (iArraySearchCounter st + 1)"
    have "search_ok s ?p (vars st)" if fit
      by (rule start_search_ok [OF gs f _ fit [OF that], of v]) (use v fc in auto)
    then have "search_ok s ?p v3" if fit using same_cells_search [of v3 "vars st"] v3 that by simp
    then have reg: "sruns s fit (Inr (register_search (search_id ?n ?z) ?p (?st\<lparr>vars := v3, iArraySearchCounter := ?n\<rparr>)))"
      by (intro register_ok iv [of _ v3]) (simp_all add: searches_def)
    have "array_startsearch_command depth s argv st =
        (if \<not> b1 then Inr (TH8_ERROR, st\<lparr>vars := v1\<rparr>) else if \<not> b2 \<or> snd (argv ! 2) = - 1 \<or> snd (argv ! 2) + 1 > TH8_MX_ALLOC then Inr (TH8_ERROR, ?st\<lparr>vars := v2\<rparr>)
         else if \<not> b3 then Inr (TH8_ERROR, ?st\<lparr>vars := v3\<rparr>)
         else Inr (register_search (search_id ?n ?z) ?p (?st\<lparr>vars := v3, iArraySearchCounter := ?n\<rparr>)))"
      using len get a1 a2 a3 fc by (cases b1; cases b2; cases b3) (simp_all add: array_startsearch_command_def Let_def del: One_nat_def)
    moreover have "search_inv s fit (st\<lparr>vars := v1\<rparr>)" "search_inv s fit (?st\<lparr>vars := v2\<rparr>)" "search_inv s fit (?st\<lparr>vars := v3\<rparr>)"
      using iv [of "st\<lparr>vars := v1\<rparr>" v1] iv [of "?st\<lparr>vars := v2\<rparr>" v2] iv [of "?st\<lparr>vars := v3\<rparr>" v3] by (simp_all add: searches_def)
    ultimately show ?thesis using reg by simp
  qed
qed

definition search_faults :: "search_op \<Rightarrow> search_state \<Rightarrow> fault set" where
  "search_faults c st = (case c of VarOp v \<Rightarrow> op_faults v (vars st) | _ \<Rightarrow> {StackOverflow})"

lemma search_exec_ok:
  assumes inv: "search_inv s fit st" and a: "search_allowed c st" and fit: "fit \<Longrightarrow> counters_fit (vars st)"
  shows "case search_exec depth s c st of Inl f \<Rightarrow> fit \<longrightarrow> f \<in> search_faults c st | Inr x \<Rightarrow> search_inv s fit (snd x)"
proof -
  have w: "case m of Inl f \<Rightarrow> fit \<longrightarrow> f \<in> {StackOverflow} | Inr x \<Rightarrow> search_inv s fit (snd x)" if "sruns s fit m" for m
    using that by (cases m) auto
  show ?thesis
  proof (cases c)
    case (VarOp v)
    have ok: "vars_ok (vars st)" "active (vars st)" using inv by (simp_all add: search_inv_def)
    note r = var_exec_ok [OF ok, of v depth] var_exec_evo [OF ok, of depth v]
    show ?thesis
    proof (cases "var_exec depth v (vars st)")
      case (Inl f)
      with r VarOp a show ?thesis by (simp add: search_faults_def)
    next
      case (Inr w)
      with r VarOp a have "search_inv s fit (st\<lparr>vars := w\<rparr>)" by (rule_tac search_inv_evolves [OF inv, of w]) (auto simp: searches_def)
      with Inr VarOp show ?thesis by simp
    qed
  qed (simp_all only: search_exec.simps search_faults_def search_op.case w [OF array_startsearch_ok [OF inv fit]] w [OF array_nextelement_ok [OF inv fit]]
    w [OF array_anymore_ok [OF inv]] w [OF array_donesearch_ok [OF inv]])
qed

lemma search_inv_init: "search_inv s fit (sinit outcomes)"
  using vinit_ok [of outcomes] by (simp add: search_inv_def sinit_def searches_def gens_ok_def vinit_def)

lemma search_reach_inv: "search_reach depth s st \<Longrightarrow> search_inv s False st"
proof (induction rule: search_reach.induct)
  case (step st c rc st')
  then show ?case using search_exec_ok [of s False st c depth] by simp
qed (rule search_inv_init)

lemma fit_reach_inv: "fit_reach depth s st \<Longrightarrow> search_inv s True st"
proof (induction rule: fit_reach.induct)
  case (step st c rc st')
  then show ?case using search_exec_ok [of s True st c depth] by simp
qed (rule search_inv_init)

section \<open>The walk\<close>

text \<open>The keys that a cursor has still to visit, and the order in which a search visits an array.\<close>

definition later_keys :: "hash_seed \<Rightarrow> vtable \<Rightarrow> nat \<Rightarrow> string list" where
  "later_keys s t i = concat (map (bucket_keys s t) [i..<TH8_HASH_SIZE])"

definition pending :: "hash_seed \<Rightarrow> vtable \<Rightarrow> nat \<times> string option \<Rightarrow> string list" where
  "pending s t ic =
     (case snd ic of
        None \<Rightarrow> []
      | Some k \<Rightarrow> dropWhile (\<lambda>x. x \<noteq> k) (bucket_keys s t (fst ic)) @ later_keys s t (Suc (fst ic)))"

lemma later_keys_Suc: "i < TH8_HASH_SIZE \<Longrightarrow> later_keys s t i = bucket_keys s t i @ later_keys s t (Suc i)"
  by (simp add: later_keys_def upt_conv_Cons)

lemma pending_head: "i < TH8_HASH_SIZE \<Longrightarrow> bucket_keys s t i \<noteq> [] \<Longrightarrow> pending s t (i, chain_head (bucket_keys s t i)) = later_keys s t i"
  by (cases "bucket_keys s t i") (simp_all add: pending_def chain_head_def later_keys_Suc)

lemma skip_pending: "i < TH8_HASH_SIZE \<Longrightarrow> c = chain_head (bucket_keys s t i) \<or> c = None \<Longrightarrow>
  pending s t (th8ArraySearchSkipEmpty s t i c) = (if c = None then later_keys s t (Suc i) else later_keys s t i)"
proof (induction s t i c rule: th8ArraySearchSkipEmpty.induct)
  case (1 s t i c)
  show ?case
  proof (cases "c = None")
    case False
    then show ?thesis using 1(2,3) pending_head [of i s t]
      by (auto simp: th8ArraySearchSkipEmpty.simps [of s t i] chain_head_def split: list.splits)
  next
    case c: True
    show ?thesis
    proof (cases "Suc i \<ge> TH8_HASH_SIZE")
      case True
      then show ?thesis using c by (simp add: th8ArraySearchSkipEmpty.simps [of s t i] pending_def later_keys_def)
    next
      case False
      let ?c = "chain_head (bucket_keys s t (Suc i))"
      have "pending s t (th8ArraySearchSkipEmpty s t (Suc i) ?c) = (if ?c = None then later_keys s t (Suc (Suc i)) else later_keys s t (Suc i))"
        by (rule 1(1)) (use c False in auto)
      also have "\<dots> = later_keys s t (Suc i)"
        using later_keys_Suc [of "Suc i" s t] False by (cases "bucket_keys s t (Suc i)") (simp_all add: chain_head_def)
      finally show ?thesis using c False by (simp add: th8ArraySearchSkipEmpty.simps [of s t i])
    qed
  qed
qed

lemma first_pending: "pending s t (first_cursor s (Some t)) = later_keys s t 0"
proof -
  have "pending s t (th8ArraySearchSkipEmpty s t 0 (chain_head (bucket_keys s t 0))) =
      (if chain_head (bucket_keys s t 0) = None then later_keys s t (Suc 0) else later_keys s t 0)" by (rule skip_pending) simp_all
  also have "\<dots> = later_keys s t 0" using later_keys_Suc [of 0 s t] by (cases "bucket_keys s t 0") (simp_all add: chain_head_def)
  finally show ?thesis by (simp add: first_cursor_def)
qed

text \<open>Reading an element and advancing takes the first of the pending keys.\<close>

lemma advance_pending:
  assumes d: "distinct (map fst t)" and c: "as_cursor p = Some k" "th8HashKey s k = as_bucket p" "k \<in> fst ` set t"
  shows "pending s t (as_bucket p, as_cursor p) = k # pending s t (as_bucket (advance s t k p), as_cursor (advance s t k p))"
proof -
  let ?b = "bucket_keys s t (as_bucket p)"
  have "k \<in> set ?b" using c(2,3) by (simp add: set_bucket_keys)
  then obtain xs ys where b: "?b = xs @ k # ys" "k \<notin> set xs" by (metis split_list_first)
  have dw: "dropWhile (\<lambda>x. x \<noteq> k) ?b = k # ys" using b by (induction xs arbitrary: ) (auto simp: dropWhile_append)
  have i: "as_bucket p < TH8_HASH_SIZE" using c(2) th8HashKey_less [of s k] by simp
  have p: "pending s t (as_bucket p, as_cursor p) = k # ys @ later_keys s t (Suc (as_bucket p))" using c(1) dw by (simp add: pending_def)
  show ?thesis
  proof (cases ys)
    case Nil
    obtain i' c' where sk: "th8ArraySearchSkipEmpty s t (as_bucket p) None = (i', c')" by fastforce
    have "pending s t (i', c') = later_keys s t (Suc (as_bucket p))" using skip_pending [OF i, of None s t] sk by simp
    moreover have "advance s t k p = p\<lparr>as_bucket := i', as_cursor := c'\<rparr>" using sk c(2) dw Nil by (simp add: advance_def chain_next_def chain_head_def)
    ultimately show ?thesis using p Nil by simp
  next
    case (Cons y zs)
    have "advance s t k p = p\<lparr>as_cursor := Some y\<rparr>" using c(2) dw Cons by (simp add: advance_def chain_next_def chain_head_def)
    moreover have "dropWhile (\<lambda>x. x \<noteq> y) ?b = ys"
    proof -
      have "distinct (xs @ k # y # zs)" using distinct_bucket_keys [OF d, of s "as_bucket p"] b Cons by simp
      then have "y \<notin> set (xs @ [k])" by auto
      then have "dropWhile (\<lambda>x. x \<noteq> y) ((xs @ [k]) @ y # zs) = y # zs" by (subst dropWhile_append2) auto
      then show ?thesis using b Cons by simp
    qed
    ultimately show ?thesis using p by (simp add: pending_def)
  qed
qed

abbreviation (input) sid_of :: "cmd_arg list \<Rightarrow> string" where
  "sid_of argv \<equiv> bytes_of (fst (argv ! 3)) (snd (argv ! 3))"

abbreviation (input) array_of :: "cmd_arg list \<Rightarrow> string" where
  "array_of argv \<equiv> bytes_of (fst (argv ! 2)) (snd (argv ! 2))"

text \<open>
  The arguments name a valid search \<open>p\<close> of the array with the elements \<open>t\<close>, with its cursor on one of them, and memory does
  not run out.
\<close>

definition searching :: "hash_seed \<Rightarrow> cmd_arg list \<Rightarrow> th8ArraySearch \<Rightarrow> vtable \<Rightarrow> search_state \<Rightarrow> bool" where
  "searching s argv p t st \<longleftrightarrow> search_inv s False st \<and> ram (vars st) = [] \<and> length argv = 4 \<and>
     (\<exists>tab. paArraySearch st = Some tab \<and> map_of tab (sid_of argv) = Some (Some p)) \<and> as_array p = array_of argv \<and>
     (\<exists>v. frame_array (as_array p) (vars st) = Inr (None, Some v) \<and> pHash v = Some t \<and> nGeneration v = as_hash p \<and>
        wrap32 (nGeneration v) = as_generation p \<and> wrap32 (nEpoch v) = as_epoch p) \<and>
     (\<forall>k. as_cursor p = Some k \<longrightarrow> k \<in> fst ` set t \<and> th8HashKey s k = as_bucket p)"

lemma searching_find:
  assumes "searching s argv p t st"
  shows "with_search depth usage argv k st = k p st"
  using assms by (auto simp: searching_def with_search_def th8ArraySearchFind_def th8GetArrayElementHash_def th8GetArrayGeneration_def
    th8GetArrayEpoch_def Let_def)

lemma searching_cursor:
  assumes "searching s argv p t st"
  shows "distinct (map fst t) \<and> table_at (as_hash p) (vars st) = Inr t \<and>
    (\<forall>k. as_cursor p = Some k \<longrightarrow> k \<in> fst ` set t \<and> th8HashKey s k = as_bucket p)"
proof -
  from assms obtain v where v: "frame_array (as_array p) (vars st) = Inr (None, Some v)" "pHash v = Some t"
      "nGeneration v = as_hash p" and inv: "search_inv s False st"
      and c: "\<forall>k. as_cursor p = Some k \<longrightarrow> k \<in> fst ` set t \<and> th8HashKey s k = as_bucket p"
    by (auto simp: searching_def)
  from frame_array_live [OF v(1)] obtain a where a: "cells (vars st) a = Some v" by blast
  have ok: "vars_ok (vars st)" "gens_ok (vars st)" using inv by (auto simp: search_inv_def)
  have "distinct (map fst t)" using vars_inv_cell [OF ok(1) a] v(2) by (simp add: cell_ok_def elems_def)
  with table_at_live [OF ok a v(2)] v(3) c show ?thesis by simp
qed

lemma frame_array_result [simp]: "frame_array z (vs\<lparr>vzResult := r, vnResult := n\<rparr>) = frame_array z vs"
  by (cases "th8AnalyzeVarName z") (simp add: frame_array_def frame_of_def deref_def cong: option.case_cong)

lemma set_result_text:
  assumes "ram vs = []" "length k < 2 ^ 28"
  shows "Th8_SetResult (Some k) (of_nat (length k)) vs = (TH8_OK, vs\<lparr>vzResult := Some k, vnResult := of_nat (length k)\<rparr>)"
proof -
  have "(of_nat (length k) :: size_t) \<noteq> TH8_NOLEN" using tagged_not_NOLEN [OF assms(2), of 0] by simp
  then show ?thesis using assms bytes_of_text [OF assms(2)] tagged_parts [OF assms(2), of 0] by (simp add: Th8_SetResult_def tagged_def)
qed

lemma next_pending:
  assumes sr: "searching s argv p t st" and p: "pending s t (as_bucket p, as_cursor p) = k # ks" and k: "length k < 2 ^ 28"
  shows "\<exists>st'. array_nextelement_command depth s argv st = Inr (TH8_OK, st') \<and> vzResult (vars st') = Some k \<and>
    searching s argv (advance s t k p) t st' \<and> pending s t (as_bucket (advance s t k p), as_cursor (advance s t k p)) = ks"
proof -
  note c = searching_cursor [OF sr]
  obtain x where x: "as_cursor p = Some x" using p by (cases "as_cursor p") (simp_all add: pending_def)
  have "pending s t (as_bucket p, as_cursor p) = x # pending s t (as_bucket (advance s t x p), as_cursor (advance s t x p))"
    by (rule advance_pending) (use c x in auto)
  with p have xk: "x = k" "pending s t (as_bucket (advance s t k p), as_cursor (advance s t k p)) = ks" by auto
  let ?p = "advance s t k p" and ?v = "vars st\<lparr>vzResult := Some k, vnResult := of_nat (length k)\<rparr>"
  from sr obtain tab where tab: "paArraySearch st = Some tab" "map_of tab (sid_of argv) = Some (Some p)" by (auto simp: searching_def)
  let ?st = "st\<lparr>vars := ?v, paArraySearch := Some (dict_step (Assign (sid_of argv) (Some ?p)) tab)\<rparr>"
  have ram: "ram (vars st) = []" using sr by (simp add: searching_def)
  have e: "array_nextelement_command depth s argv st = Inr (TH8_OK, ?st)"
    using c x xk(1) tab set_result_text [OF ram k] by (simp add: array_nextelement_command_def searching_find [OF sr])
  have inv: "search_inv s False st" using sr by (simp add: searching_def)
  have "search_inv s False ?st" using array_nextelement_ok [OF inv, of depth argv] e by simp
  moreover have "x \<in> fst ` set t \<and> th8HashKey s x = as_bucket ?p" if "as_cursor ?p = Some x" for x
    by (rule advance_cursor [OF _ that]) (use c x xk(1) in simp)
  ultimately have "searching s argv ?p t ?st" using sr tab by (auto simp: searching_def map_of_dict_step)
  with e xk(2) show ?thesis by auto
qed

primrec walk :: "nat \<Rightarrow> hash_seed \<Rightarrow> cmd_arg list \<Rightarrow> nat \<Rightarrow> search_state \<Rightarrow> (string list \<times> search_state) run" where
  "walk depth s argv 0 st = Inr ([], st)"
| "walk depth s argv (Suc n) st =
     andThen (array_nextelement_command depth s argv st) (\<lambda>(rc, st).
     andThen (walk depth s argv n st) (\<lambda>(ks, st'). Inr (fst (result_of (vars st)) # ks, st')))"

lemma walk_pending:
  "searching s argv p t st \<Longrightarrow> pending s t (as_bucket p, as_cursor p) = ks \<Longrightarrow> \<forall>k \<in> set ks. length k < 2 ^ 28 \<Longrightarrow>
   \<exists>p' st'. walk depth s argv (length ks) st = Inr (ks, st') \<and> searching s argv p' t st' \<and> as_cursor p' = None"
proof (induction ks arbitrary: p st)
  case Nil
  have "as_cursor p = None"
  proof (rule ccontr)
    assume "as_cursor p \<noteq> None"
    then obtain x where "as_cursor p = Some x" by blast
    then have "pending s t (as_bucket p, as_cursor p) \<noteq> []" using advance_pending [of t p x s] searching_cursor [OF Nil(1)] by simp
    with Nil(2) show False by simp
  qed
  with Nil(1) show ?case by auto
next
  case (Cons k ks)
  have "length k < 2 ^ 28" using Cons.prems(3) by simp
  from next_pending [OF Cons.prems(1,2) this, of depth] obtain st1 where
    n: "array_nextelement_command depth s argv st = Inr (TH8_OK, st1)" "vzResult (vars st1) = Some k"
       "searching s argv (advance s t k p) t st1" "pending s t (as_bucket (advance s t k p), as_cursor (advance s t k p)) = ks" by blast
  from Cons.IH [OF n(3,4)] Cons.prems(3) obtain p' st' where
    "walk depth s argv (length ks) st1 = Inr (ks, st')" "searching s argv p' t st'" "as_cursor p' = None" by auto
  with n(1,2) show ?case by (auto simp: result_of_def)
qed

lemma later_keys_all:
  assumes "distinct (map fst t)"
  shows "distinct (later_keys s t 0) \<and> set (later_keys s t 0) = fst ` set t \<and> length (later_keys s t 0) = length t"
proof -
  have d: "distinct (later_keys s t i)" for i
  proof (induction "TH8_HASH_SIZE - i" arbitrary: i)
    case 0
    then show ?case by (simp add: later_keys_def)
  next
    case (Suc n)
    then have i: "i < TH8_HASH_SIZE" by simp
    have "distinct (later_keys s t (Suc i))" by (rule Suc.hyps) (use Suc.hyps(2) in simp)
    moreover have "set (bucket_keys s t i) \<inter> set (later_keys s t (Suc i)) = {}" by (auto simp: later_keys_def set_bucket_keys)
    ultimately show ?case using distinct_bucket_keys [OF assms] by (simp add: later_keys_Suc [OF i])
  qed
  have st: "set (later_keys s t 0) = fst ` set t"
    using th8HashKey_less [of s] by (force simp: later_keys_def set_bucket_keys)
  have "length (later_keys s t 0) = card (set (later_keys s t 0))" by (rule distinct_card [OF d, symmetric])
  also have "\<dots> = card (set (map fst t))" by (simp add: st)
  also have "\<dots> = length t" using distinct_card [OF assms] by simp
  finally show ?thesis using d st by simp
qed

text \<open>Starting a search on an array.\<close>

lemma search_id_length:
  assumes "\<bar>n\<bar> \<le> 2 ^ 31"
  shows "length (search_id n z) < 2 ^ 28"
  using int_text_length [OF assms] by (simp add: search_id_def Let_def)

lemma start_searching:
  assumes inv: "search_inv s False st" and m: "ram (vars st) = []"
    and z: "length z + 1 < 2 ^ 28" and f: "frame_array z (vars st) = Inr (None, Some v)" "pHash v = Some t"
    and sid: "sid = search_id (wrap32 (iArraySearchCounter st + 1)) z"
  shows "\<exists>st1 p. array_startsearch_command depth s [c, d, (z, of_nat (length z))] st = Inr (TH8_OK, st1) \<and> vzResult (vars st1) = Some sid \<and>
    searching s [c', d', (z, of_nat (length z)), (sid, of_nat (length sid))] p t st1 \<and> pending s t (as_bucket p, as_cursor p) = later_keys s t 0 \<and>
    cells (vars st1) = cells (vars st) \<and> iArrayHashGeneration (vars st1) = iArrayHashGeneration (vars st)"
proof -
  obtain i k where fc: "first_cursor s (Some t) = (i, k)" by fastforce
  let ?p = "\<lparr>as_array = z, as_hash = nGeneration v, as_epoch = wrap32 (nEpoch v), as_generation = wrap32 (nGeneration v), as_bucket = i, as_cursor = k\<rparr>"
  let ?v = "vars st\<lparr>vzResult := Some sid, vnResult := of_nat (length sid)\<rparr>"
  let ?tab = "dict_step (Assign sid (Some ?p)) (dict_step (Create sid) (searches st))"
  let ?st = "st\<lparr>vars := ?v, paArraySearch := Some ?tab, iArraySearchCounter := wrap32 (iArraySearchCounter st + 1)\<rparr>"
  have n: "\<bar>wrap32 (iArraySearchCounter st + 1)\<bar> \<le> 2 ^ 31" by (rule wrap32_abs)
  have zs: "bytes_of z (of_nat (length z)) = z" "bytes_of sid (of_nat (length sid)) = sid" using z search_id_length [OF n] sid by (simp_all add: bytes_of_text)
  have "unat (of_nat (length z) + (1 :: size_t)) = length z + 1" using unat_of_nat_small [OF z] by (simp add: add.commute)
  then have sz: "(of_nat (length z) :: size_t) \<noteq> - 1" "\<not> of_nat (length z) + (1 :: size_t) > TH8_MX_ALLOC"
    using z tagged_not_NOLEN [of "length z" 0] by (simp_all add: word_less_nat_alt)
  have get: "Th8_ExistsArrayVar z (vars st) = Inr True" "th8GetArrayElementHash z (vars st) = Inr (Some t)"
      "th8GetArrayEpoch z (vars st) = Inr (wrap32 (nEpoch v))" "th8GetArrayGeneration z (vars st) = Inr (wrap32 (nGeneration v))"
      "array_hash_id z (vars st) = Inr (nGeneration v)"
    using f by (simp_all add: array_hash_id_def Th8_ExistsArrayVar_def th8GetArrayElementHash_def th8GetArrayEpoch_def th8GetArrayGeneration_def)
  have r: "snd (Th8_SetResult (Some sid) (of_nat (length sid)) (vars st)) = ?v" using set_result_text [OF m] search_id_length [OF n] sid by simp
  have "array_startsearch_command depth s [c, d, (z, of_nat (length z))] st =
      Inr (register_search sid ?p (st\<lparr>vars := vars st, paArraySearch := Some (searches st), iArraySearchCounter := wrap32 (iArraySearchCounter st + 1)\<rparr>))"
    using get zs(1) sz m fc sid by (simp add: array_startsearch_command_def searches_def Let_def)
  also have "\<dots> = Inr (TH8_OK, ?st)" using m r by (simp add: register_search_def Let_def)
  finally have e: "array_startsearch_command depth s [c, d, (z, of_nat (length z))] st = Inr (TH8_OK, ?st)" .
  have "search_inv s False ?st" using array_startsearch_ok [OF inv, of depth "[c, d, (z, of_nat (length z))]"] e by simp
  moreover have "map_of ?tab sid = Some (Some ?p)" by (simp add: map_of_dict_step)
  moreover have "x \<in> fst ` set t \<and> th8HashKey s x = i" if "k = Some x" for x
  proof -
    have "x \<in> set (bucket_keys s t i)"
      by (rule skip_cursor [where i = 0 and c = "chain_head (bucket_keys s t 0)"])
        (use fc that in \<open>auto simp: first_cursor_def chain_head_def split: list.splits\<close>)
    then show ?thesis by (simp add: set_bucket_keys)
  qed
  ultimately have "searching s [c', d', (z, of_nat (length z)), (sid, of_nat (length sid))] ?p t ?st"
    using f m zs by (simp add: searching_def)
  moreover have "pending s t (i, k) = later_keys s t 0" using first_pending [of s t] fc by simp
  ultimately show ?thesis using e by (intro exI [of _ ?st] exI [of _ ?p]) simp
qed

section \<open>Properties\<close>

text \<open>
  C36: Searches never use a stale pointer, as long as the counters they compare do not overflow. From every state that
  operations on variables and searches reach, whatever is written, unset, popped or allocated between the steps of a
  search, no command reads through a pointer to a released variable, element table or entry; provided that in
  every state on the way the number of element tables created and the number of changes of each array fit a C \<open>int\<close>.
\<close>

theorem search_no_dangling:
  assumes "fit_reach depth s st" "counters_fit (vars st)" "search_allowed c st"
  shows "search_exec depth s c st \<noteq> Inl Dangling"
proof
  assume "search_exec depth s c st = Inl Dangling"
  with search_exec_ok [OF fit_reach_inv [OF assms(1)] assms(3,2), of depth] have "Dangling \<in> search_faults c st" by simp
  then show False by (auto simp: search_faults_def op_faults_def link_faults_def split: search_op.splits var_op.splits if_splits)
qed

text \<open>An array with two elements, and the same array with a search on it.\<close>

lemma fit_search_reach: "fit_reach depth s st \<Longrightarrow> search_reach depth s st"
  by (induction rule: fit_reach.induct) (auto intro: search_reach.intros)

definition fit_check :: "vstate \<Rightarrow> bool" where
  "fit_check vs \<longleftrightarrow> iArrayHashGeneration vs < 2 ^ 31 \<and>
     list_all (\<lambda>a. case cells vs a of None \<Rightarrow> True | Some v \<Rightarrow> - (2 ^ 31) \<le> nEpoch v \<and> nEpoch v < 2 ^ 31) [0..<nFresh vs]"

lemma fit_check: "vars_ok vs \<Longrightarrow> fit_check vs \<Longrightarrow> counters_fit vs"
  unfolding fit_check_def counters_fit_def list_all_iff using vars_inv_cell by (force split: option.splits)

lemma fit_var_step:
  assumes "fit_reach depth s st" "fit_check (vars st)" "allowed c (vars st)" "var_exec depth c (vars st) = Inr v"
  shows "fit_reach depth s (st\<lparr>vars := v\<rparr>)"
proof (rule fit_reach.step [OF assms(1)])
  show "counters_fit (vars st)" using fit_check [OF _ assms(2)] fit_reach_inv [OF assms(1)] by (simp add: search_inv_def)
  show "search_allowed (VarOp c) st" "search_exec depth s (VarOp c) st = Inr (TH8_OK, st\<lparr>vars := v\<rparr>)" using assms(3,4) by simp_all
qed

lemma two_elements:
  "\<exists>st v. fit_reach 2 s st \<and> counters_fit (vars st) \<and> ram (vars st) = [] \<and> iArraySearchCounter st = 0 \<and> frame_array ''a'' (vars st) = Inr (None, Some v) \<and>
     pHash v = Some [(''x'', Some 1), (''y'', Some 2)]"
proof -
  let ?x = "SetOp (''a(x)'', 0) ''1'' 1" and ?y = "SetOp (''a(y)'', 0) ''2'' 1"
  have "case var_exec 2 ?x (vinit []) of Inl _ \<Rightarrow> False | Inr u \<Rightarrow> fit_check (vinit []) \<and> allowed ?x (vinit []) \<and> fit_check u \<and> allowed ?y u \<and>
     (case var_exec 2 ?y u of Inl _ \<Rightarrow> False | Inr w \<Rightarrow> fit_check w \<and> ram w = [] \<and>
       (case frame_array ''a'' w of Inl _ \<Rightarrow> False | Inr (i, r) \<Rightarrow> i = None \<and> map_option pHash r = Some (Some [(''x'', Some 1), (''y'', Some 2)])))" by code_simp
  then obtain u w v where u: "fit_check (vinit [])" "allowed ?x (vinit [])" "var_exec 2 ?x (vinit []) = Inr u"
    and w: "fit_check u" "allowed ?y u" "var_exec 2 ?y u = Inr w" "fit_check w" "ram w = []"
    and v: "frame_array ''a'' w = Inr (None, Some v)" "pHash v = Some [(''x'', Some 1), (''y'', Some 2)]"
    by (auto split: sum.splits simp del: var_exec.simps)
  have 1: "fit_reach 2 s ((sinit [])\<lparr>vars := u\<rparr>)"
    by (rule fit_var_step [where c = ?x, OF fit_reach.init]) (use u in \<open>simp_all add: sinit_def\<close>)
  have 2: "fit_reach 2 s ((sinit [])\<lparr>vars := u\<rparr>\<lparr>vars := w\<rparr>)"
    by (rule fit_var_step [where c = ?y, OF 1]) (use w in simp_all)
  then have "counters_fit w" using fit_check [OF _ w(4)] fit_reach_inv [OF 2] by (simp add: search_inv_def)
  with 2 w(5) v show ?thesis by (intro exI [of _ "(sinit [])\<lparr>vars := w\<rparr>"] exI [of _ v]) (simp add: sinit_def)
qed

lemma started_search:
  "\<exists>st p. fit_reach 2 s st \<and> counters_fit (vars st) \<and>
     searching s [(''array'', 5), (''nextelement'', 11), (''a'', 1), (''s-1-a'', 5)] p [(''x'', Some 1), (''y'', Some 2)] st"
proof -
  from two_elements [of s] obtain st v where st: "fit_reach 2 s st" "counters_fit (vars st)" "ram (vars st) = []" "iArraySearchCounter st = 0"
    "frame_array ''a'' (vars st) = Inr (None, Some v)" "pHash v = Some [(''x'', Some 1), (''y'', Some 2)]" by blast
  have i: "search_id 1 ''a'' = ''s-1-a''" by code_simp
  from start_searching [OF search_reach_inv [OF fit_search_reach [OF st(1)]] st(3) _ st(5,6) refl, of 2 "(''array'', 5)" "(''startsearch'', 11)"
      "(''array'', 5)" "(''nextelement'', 11)"] st(4) i
  obtain st1 p where e: "array_startsearch_command 2 s [(''array'', 5), (''startsearch'', 11), (''a'', 1)] st = Inr (TH8_OK, st1)"
    "searching s [(''array'', 5), (''nextelement'', 11), (''a'', 1), (''s-1-a'', 5)] p [(''x'', Some 1), (''y'', Some 2)] st1"
    "cells (vars st1) = cells (vars st)" "iArrayHashGeneration (vars st1) = iArrayHashGeneration (vars st)" by auto
  have "fit_reach 2 s st1" by (rule fit_reach.step [OF st(1,2), of "StartOp [(''array'', 5), (''startsearch'', 11), (''a'', 1)]"]) (use e(1) in simp_all)
  moreover have "counters_fit (vars st1)" using st(2) e(3,4) by (simp add: counters_fit_def)
  ultimately show ?thesis using e(2) by blast
qed

theorem search_no_dangling_witness:
  "\<exists>st p. fit_reach 2 seed_init st \<and> searching seed_init [(''array'', 5), (''nextelement'', 11), (''a'', 1), (''s-1-a'', 5)] p [(''x'', Some 1), (''y'', Some 2)] st \<and>
     search_exec 2 seed_init (NextOp [(''array'', 5), (''nextelement'', 11), (''a'', 1), (''s-1-a'', 5)]) st \<noteq> Inl Dangling"
proof -
  from started_search [of seed_init] obtain st p where st: "fit_reach 2 seed_init st" "counters_fit (vars st)"
    "searching seed_init [(''array'', 5), (''nextelement'', 11), (''a'', 1), (''s-1-a'', 5)] p [(''x'', Some 1), (''y'', Some 2)] st" by blast
  have "search_exec 2 seed_init (NextOp [(''array'', 5), (''nextelement'', 11), (''a'', 1), (''s-1-a'', 5)]) st \<noteq> Inl Dangling"
    by (rule search_no_dangling [OF st(1,2)]) simp
  with st show ?thesis by blast
qed

text \<open>
  C37: A search visits every element once. On an array that is not changed meanwhile, the successive
  elements of a search are all the keys of the array, each exactly once, bucket by bucket; then
  \<open>array anymore\<close> reports the end.
\<close>

theorem search_visits_all:
  assumes r: "search_reach depth s st" and m: "ram (vars st) = []"
    and z: "length z + 1 < 2 ^ 28" and f: "frame_array z (vars st) = Inr (None, Some v)" "pHash v = Some t" "\<forall>k \<in> fst ` set t. length k < 2 ^ 28"
    and sid: "sid = search_id (wrap32 (iArraySearchCounter st + 1)) z" and argv: "argv = [c, d, (z, of_nat (length z)), (sid, of_nat (length sid))]"
  shows "\<exists>st1 ks st2 st3. array_startsearch_command depth s [c, d, (z, of_nat (length z))] st = Inr (TH8_OK, st1) \<and> vzResult (vars st1) = Some sid \<and>
    walk depth s argv (length t) st1 = Inr (ks, st2) \<and> distinct ks \<and> set ks = fst ` set t \<and>
    array_anymore_command depth argv st2 = Inr (TH8_OK, st3) \<and> vzResult (vars st3) = Some ''0''"
proof -
  let ?ks = "later_keys s t 0"
  from start_searching [OF search_reach_inv [OF r] m z f(1,2) sid, of depth c d c d] argv obtain st1 p where
    st1: "array_startsearch_command depth s [c, d, (z, of_nat (length z))] st = Inr (TH8_OK, st1)" "vzResult (vars st1) = Some sid"
      "searching s argv p t st1" "pending s t (as_bucket p, as_cursor p) = ?ks" by auto
  have k: "distinct ?ks \<and> set ?ks = fst ` set t \<and> length ?ks = length t" by (rule later_keys_all) (use searching_cursor [OF st1(3)] in blast)
  from walk_pending [OF st1(3,4), of depth] f(3) k obtain p' st2 where st2: "walk depth s argv (length t) st1 = Inr (?ks, st2)"
      "searching s argv p' t st2" "as_cursor p' = None" by auto
  let ?st3 = "st2\<lparr>vars := snd (Th8_SetResultInt 0 (vars st2))\<rparr>"
  have a: "array_anymore_command depth argv st2 = Inr (TH8_OK, ?st3)"
    using st2(3) by (simp add: array_anymore_command_def searching_find [OF st2(2)])
  have i0: "int_text 0 = ''0''" by code_simp
  have "vzResult (vars ?st3) = Some ''0''"
    using st2(2) set_result_text [of "vars st2" "''0''"] unfolding Th8_SetResultInt_def i0 by (simp add: searching_def)
  with st1 st2 a k show ?thesis by blast
qed

theorem search_visits_all_witness:
  "\<exists>st st1 ks st2. search_reach 2 seed_init st \<and>
     array_startsearch_command 2 seed_init [(''array'', 5), (''s'', 1), (''a'', 1)] st = Inr (TH8_OK, st1) \<and>
     walk 2 seed_init [(''array'', 5), (''s'', 1), (''a'', 1), (''s-1-a'', 5)] 2 st1 = Inr (ks, st2) \<and> distinct ks \<and> set ks = {''x'', ''y''}"
proof -
  from two_elements [of seed_init] fit_search_reach obtain st v where st: "search_reach 2 seed_init st" "ram (vars st) = []" "iArraySearchCounter st = 0"
    "frame_array ''a'' (vars st) = Inr (None, Some v)" "pHash v = Some [(''x'', Some 1), (''y'', Some 2)]" by blast
  have i: "search_id 1 ''a'' = ''s-1-a''" by code_simp
  have l: "length [(''x'', Some 1), (''y'', Some (2 :: nat))] = 2" "fst ` set [(''x'', Some 1), (''y'', Some (2 :: nat))] = {''x'', ''y''}" by simp_all
  have n: "(of_nat (length ''a'') :: size_t) = 1" "(of_nat (length ''s-1-a'') :: size_t) = 5" by simp_all
  have h: "length ''a'' + 1 < 2 ^ 28" "\<forall>k \<in> fst ` set [(''x'', Some 1), (''y'', Some (2 :: nat))]. length k < 2 ^ 28"
    by simp_all
  have w1: "wrap32 1 = 1" by simp
  note all = search_visits_all [OF st(1,2) h(1) st(4,5) h(2) refl refl, of "(''array'', 5)" "(''s'', 1)"]
  from all [unfolded st(3) add_0 w1 i l n] obtain st1 ks st2 st3 where
    w: "array_startsearch_command 2 seed_init [(''array'', 5), (''s'', 1), (''a'', 1)] st = Inr (TH8_OK, st1)"
       "walk 2 seed_init [(''array'', 5), (''s'', 1), (''a'', 1), (''s-1-a'', 5)] 2 st1 = Inr (ks, st2)" "distinct ks" "set ks = {''x'', ''y''}"
    by (elim exE conjE) (rule that)
  show ?thesis by (rule exI [of _ st], rule exI [of _ st1], rule exI [of _ ks], rule exI [of _ st2]) (intro conjI st(1) w)
qed

end
