(* ===== verification/Spec2Isabelle.thy ===== *)
theory Spec2Isabelle
  imports Th8_Utf8 Th8_Numbers Th8_Alloc Th8_Base64 Th8_Limits Th8_Trampoline Th8_ListValues Th8_ExprParse Th8_ArraySearch
begin

text \<open>
  TH8 is an embeddable interpreter for a Tcl-like language, written in C. A host creates an interpreter
  (\<open>Th8_Interp\<close>) over a platform (a table of callbacks for memory, clocks, files and threads) and evaluates
  scripts in it. A script is text: the tokenizer cuts it into commands and words, words are substituted, and
  each command runs through a chain of callbacks (the trampoline) so that evaluation does not recurse on the C
  stack. Values are strings with a length that carries taint and sensitivity bits; integers, booleans and lists
  are views of strings that are kept in a cache. The host may limit memory, steps, time and result size, cancel
  from another thread, freeze and thaw. This development models that core (\<open>src/src/th8_core.c\<close> and the
  files it rests on) and proves the properties that the rest of the system relies on.

  \<^bold>\<open>Conventions.\<close> A byte buffer with a length is a \<^typ>\<open>string\<close>; \<open>char\<close> is signed, as on the supported
  platforms, where the code depends on it (\<^const>\<open>c2i\<close>); \<open>size_t\<close> is a 64-bit word where overflow matters. A
  fallible operation returns a return code or a sum with the message prefix. Code outside the repository and the
  host's callbacks are arguments: what the platform allocator answers, what the clock reads, what a debug
  callback does. Whether an allocation succeeds is an argument of every operation that allocates, so each theorem
  that does not fix it holds on every failure path.

  \<^bold>\<open>Theories, in the order of the code they model.\<close>

  \<^item> \<open>Th8_Prelude\<close>: C vocabulary, return codes, 32-bit wrap-around, lengths with tag bits, shared lemmas and the collections \<open>th8_class\<close>, \<open>th8_bound\<close>.
  \<^item> \<open>Th8_Chars\<close>: the character table and class predicates, each class given as a set of bytes.
  \<^item> \<open>Th8_Tokenizer\<close>: the scanners for white space, escapes, variable names, braced and bracketed blocks and words,
    the parse stack, \<open>Th8_Complete\<close>. The loops of \<open>th8NextCommand\<close> and \<open>th8NextWord\<close> accept exactly a grammar of
    nested scopes; no scanner reports more than its input.
  \<^item> \<open>Th8_Utf8\<close>: encoding, decoding, length, index, validation, and backslash substitution. Round trip over
    code points, exact validation, values of numeric escapes.
  \<^item> \<open>Th8_Hashing\<close> (\<open>src/src/th8_hash.c\<close>): SipHash and its bucket function, the chained table, ordered iteration
    with the polled merge sort. The locale \<open>hash\<close> states the dictionary laws that clients use; the table refines an
    association list in insertion order.
  \<^item> \<open>Th8_Cache\<close> (\<open>src/src/th8_cache.c\<close>): the cache of internal representations over the hash table, and the
    buffer pool on top of it. Buffers in use are large enough and never shared; a cached value belongs to the string asked for.
  \<^item> \<open>Th8_Numbers\<close>: integer, wide and boolean conversion through the cache (locale \<open>cached_conversion\<close>,
    interpreted for the three conversions), list indices, printing. The cache never changes a result; the wide integers
    accepted are those of an independent grammar of numerals.
  \<^item> \<open>Th8_Alloc\<close>: checked size arithmetic and the accounted allocator. On every run the counter is the number of
    live bytes and respects the limit.
  \<^item> \<open>Th8_Base64\<close>, \<open>Th8_Globbing\<close> (\<open>th8_base64.c\<close>, \<open>th8_glob.c\<close>): round trip and bounds of the codec; the
    matcher against a declarative pattern language.
  \<^item> \<open>Th8_Cancel\<close>: cancellation between threads. The compare-and-exchange loops are a step relation over any
    number of threads; buffers have one owner, requests are not lost, calls return, and run alone they are the atomic functions.
  \<^item> \<open>Th8_Limits\<close>: \<open>Th8_Ready\<close>, step and time limits, breakpoints as a refinement of a map.
  \<^item> \<open>Th8_Trampoline\<close>: the callback chain, blocking evaluation, freeze and thaw. An evaluation leaves chain and frame as
    it found them, an unwinding cancellation ends it whatever its callbacks would do, and a freeze loses the code in flight.
  \<^item> \<open>Th8_Lists\<close> (\<open>src/externals/spilornis/Spilornis.c\<close>): the list parser and writer. Writing and splitting are
    inverse for every list of byte strings, and neither overruns its buffers on any input.
  \<^item> \<open>Th8_ListValues\<close>: \<open>Th8_StringAppend\<close>, \<open>Th8_ListAppend\<close> and \<open>Th8_SplitList\<close> with tags, \<open>TH8_NOLEN\<close> and the cache.
  \<^item> \<open>Th8_Expr\<close> (\<open>src/src/th8_expr.c\<close>, as the next three): operator table, nodes, the tree builder \<open>th8ExprMakeTree\<close>
    and the rotating \<open>th8ExprFree\<close>. The locale \<open>slot_phase\<close> is the contract of the five in-place passes, interpreted
    for each; a built tree is well formed, keeps the tokens in order, and groups every binary level from the left, which is what the
    documentation says for every level but \<open>**\<close>.
  \<^item> \<open>Th8_ExprInt\<close>: the integer operators with their overflow guards, exact against a mathematical reference except
    for the shifts, which take their count modulo 64 and wrap, and negative powers, which are 0.
  \<^item> \<open>Th8_ExprEval\<close>: the evaluator with coercion and lazy operators, the tags of its results, one expression,
    top-level commas.
  \<^item> \<open>Th8_ExprParse\<close>: the expression tokenizer, and the composition from text to result, with the expressions nested
    in the arguments of math functions.
  \<^item> \<open>Th8_Vars\<close> (\<open>src/src/th8_vars.c\<close>, frames, namespaces and error messages of \<open>th8_core.c\<close>): the store of variables.
    A variable is a cell at an address, an address is never used again, and a frame, a namespace or an array is a table from names to
    addresses, so that the links of \<open>upvar\<close>, \<open>global\<close> and \<open>variable\<close> are aliases. Name resolution, reading, writing,
    appending in place, release by reference count, unset, links, frames and system variables, each as the code has it; a
    read through a released or null pointer, a read beyond a string and the exhaustion of the C stack are values of
    \<^typ>\<open>fault\<close>.
  \<^item> \<open>Th8_VarsInv\<close>, \<open>Th8_VarsOps\<close>: the invariant (the count of a cell is the number of entries that hold it, up to the
    references an operation has in hand) and its preservation by every operation. The locale \<open>var_setter\<close> states what
    the error messages need of the function that writes \<open>::errorInfo\<close>, and is interpreted on \<open>Th8_SetVar\<close>, which
    calls them in turn.
  \<^item> \<open>Th8_VarsProps\<close>: runs of the operations, exact reference counts, no use after free, no leak, the round trip of set
    and get, links, unset, and when an error message returns.
  \<^item> \<open>Th8_VarCmds\<close> (\<open>src/src/plugins/th8_variables.c\<close>): the commands \<open>set\<close>, \<open>append\<close>, \<open>incr\<close>, \<open>unset\<close>, \<open>global\<close>,
    \<open>upvar\<close>, \<open>variable\<close> over these operations, with the number conversion and printing of \<open>incr\<close>.
  \<^item> \<open>Th8_ArrayLife\<close>, \<open>Th8_ArraySearch\<close>: how the table, epoch and generation of an array evolve under every operation,
    and the array searches, whose cursors point into the buckets of that table: no cursor is followed once its table has
    changed, as long as the counters that tell do not overflow, and a search of an unchanged array visits every element once.

  \<^bold>\<open>How the components meet.\<close> The cache is stated over the interface of the hash table, the conversions and the
  list splitter over the lookup laws of the cache, the limits over the cancellation state, the trampoline over
  cancellation and freezing, the list values over the list parser, the allocation ceilings and the result limit. Expressions use the script
  tokenizer for their variable and command operands and the number conversions for their values. The tables of variables
  are dictionaries in the sense the hash table refines, the searches read its buckets, and \<open>append\<close> takes its buffers from the pool.

  \<^bold>\<open>Fuel and bounds.\<close> Loops over text are structural or terminate by the length of what is left. The trampoline
  is a partial function, since its callbacks may push others for ever; \<open>unwind_ends_evaluation\<close> proves that it
  returns once it is cancelled. Expressions nested in function arguments have fuel, one more than the length of the
  text, which is enough since an argument is shorter (\<open>expr_text_recursive\<close>). The release of a variable has fuel for its recursion through nested arrays, one more
  than the number of addresses given out, which the invariant shows to be enough. The operations on variables take the depth of C
  stack that is left for error messages; \<open>error_message_returns_iff\<close> says when one level is enough and that otherwise none is. The
  glob matcher's depth limit of fifty, the nesting limit of a thousand for expressions and that of namespaces are the code's own. Epochs
  and generations of arrays, search identifiers and breakpoint identifiers are read as 32-bit integers that wrap around;
  reference and wait counts, bounded by the number of live entries and of waiting calls, are unbounded integers.

  \<^bold>\<open>Not modelled.\<close> Floating point and multi-precision arithmetic (\<open>Th8_ToDouble\<close>, \<open>th8_bigint.c\<close>), which are
  parameters where a modelled function calls them; the platform layers (\<open>th8_posix.c\<close>, \<open>th8_win32.c\<close> and their
  kin), which are input and output; SQLite, the regular-expression engine and the line editor, which are vendored;
  cryptography, secure variables and signed scripts; tracing, statistics and fault injection. Of the variables, the listing of names,
  \<open>array get\<close>, \<open>set\<close>, \<open>names\<close> and \<open>size\<close>, \<open>uplevel\<close>, the deletion of namespaces and the saving of system variables are
  left out; of the plugins, the commands other than those named above. Word substitution and variable assignment are
  parameters of the expression evaluator.
\<close>

end
